(* ===== verification/Prelude.thy ===== *)
theory Prelude
  imports Main "HOL-Library.Word"
begin

text \<open>
  What every component of the development shares: the machine integers of the Rust sources at
  their widths, the outcome of a Rust computation (a value, an error, or a panic), and the
  standard library's ordered map (\<open>BTreeMap\<close>), with the lemmas and the rule collections the
  component theories use.

  The workspace is built with \<open>overflow-checks = true\<close> in every profile that is shipped
  (\<open>Cargo.toml\<close>), so a plain \<open>+\<close>, \<open>-\<close> or \<open>*\<close> on machine integers
  panics on overflow instead of wrapping: \<open>add_chk\<close>, \<open>sub_chk\<close>, \<open>mul_chk\<close>.
\<close>

unbundle bit_operations_syntax

named_theorems res_iff \<open>when a composed fallible computation returns a given outcome\<close>
named_theorems word_val \<open>the natural number a checked machine operation computes\<close>
named_theorems bt_simps \<open>lookups and key lists of updated ordered maps\<close>

section \<open>Machine integers\<close>

type_synonym u8 = "8 word"
type_synonym u16 = "16 word"
type_synonym u32 = "32 word"
type_synonym u64 = "64 word"
type_synonym u128 = "128 word"

definition checked_add :: "'a::len word \<Rightarrow> 'a word \<Rightarrow> 'a word option" where
  "checked_add a b = (if unat a + unat b < 2 ^ LENGTH('a) then Some (a + b) else None)"

definition checked_sub :: "'a::len word \<Rightarrow> 'a word \<Rightarrow> 'a word option" where
  "checked_sub a b = (if b \<le> a then Some (a - b) else None)"

definition checked_mul :: "'a::len word \<Rightarrow> 'a word \<Rightarrow> 'a word option" where
  "checked_mul a b = (if unat a * unat b < 2 ^ LENGTH('a) then Some (a * b) else None)"

definition saturating_add :: "'a::len word \<Rightarrow> 'a word \<Rightarrow> 'a word" where
  "saturating_add a b = (case checked_add a b of Some c \<Rightarrow> c | None \<Rightarrow> - 1)"

lemma unat_add_no_wrap:
  fixes a b :: "'a::len word"
  assumes "unat a + unat b < 2 ^ LENGTH('a)"
  shows "unat (a + b) = unat a + unat b"
  using assms by (simp add: unat_word_ariths)

lemma unat_mult_no_wrap:
  fixes a b :: "'a::len word"
  assumes "unat a * unat b < 2 ^ LENGTH('a)"
  shows "unat (a * b) = unat a * unat b"
  using assms by (simp add: unat_word_ariths)

lemma unat_below: "unat (a :: 'a::len word) < 2 ^ LENGTH('a)"
  by (rule unsigned_less)

lemma unat_of_nat_below:
  "n < 2 ^ LENGTH('a) \<Longrightarrow> unat (of_nat n :: 'a::len word) = n"
  by (simp add: unsigned_of_nat take_bit_nat_eq_self)

lemma checked_add_Some [word_val]:
  "checked_add a b = Some c \<longleftrightarrow> unat a + unat b = unat c"
proof
  assume "checked_add a b = Some c"
  then show "unat a + unat b = unat c"
    by (auto simp: checked_add_def unat_add_no_wrap split: if_splits)
next
  assume sum: "unat a + unat b = unat c"
  then have "unat a + unat b < 2 ^ LENGTH('a)"
    using unat_below [of c] by simp
  moreover from this sum have "a + b = c"
    by (simp add: unat_add_no_wrap word_unat_eq_iff)
  ultimately show "checked_add a b = Some c"
    by (simp add: checked_add_def)
qed

lemma checked_sub_Some [word_val]:
  "checked_sub a b = Some c \<longleftrightarrow> unat a = unat b + unat c"
proof
  assume "checked_sub a b = Some c"
  then have "b \<le> a" and "c = a - b"
    by (auto simp: checked_sub_def split: if_splits)
  then show "unat a = unat b + unat c"
    by (simp add: unat_sub word_le_nat_alt)
next
  assume sum: "unat a = unat b + unat c"
  then have le: "b \<le> a" by (simp add: word_le_nat_alt)
  moreover from sum le have "a - b = c"
    by (simp add: word_unat_eq_iff unat_sub)
  ultimately show "checked_sub a b = Some c"
    by (simp add: checked_sub_def)
qed

lemma checked_mul_Some [word_val]:
  "checked_mul a b = Some c \<longleftrightarrow> unat a * unat b = unat c"
proof
  assume "checked_mul a b = Some c"
  then show "unat a * unat b = unat c"
    by (auto simp: checked_mul_def unat_mult_no_wrap split: if_splits)
next
  assume prod: "unat a * unat b = unat c"
  then have "unat a * unat b < 2 ^ LENGTH('a)"
    using unat_below [of c] by simp
  moreover from this prod have "a * b = c"
    by (simp add: unat_mult_no_wrap word_unat_eq_iff)
  ultimately show "checked_mul a b = Some c"
    by (simp add: checked_mul_def)
qed

lemma saturating_add_ge: "a \<le> saturating_add a b"
proof (cases "checked_add a b")
  case None
  then show ?thesis by (simp add: saturating_add_def)
next
  case (Some c)
  then have "unat a \<le> unat c" by (simp add: checked_add_Some)
  with Some show ?thesis by (simp add: saturating_add_def word_le_nat_alt)
qed

section \<open>Outcomes of fallible computations\<close>

text \<open>
  A Rust function that returns \<open>Result\<close> and may also panic has three outcomes. \<open>bind_res\<close>
  is the \<open>?\<close> operator, \<open>ensure\<close> the macro of the same name, \<open>ok_or\<close> and
  \<open>map_err\<close> the methods of \<open>Option\<close> and \<open>Result\<close>.
\<close>

datatype ('a, 'e) result = Ok 'a | Err 'e | Panic

primrec bind_res :: "('a, 'e) result \<Rightarrow> ('a \<Rightarrow> ('b, 'e) result) \<Rightarrow> ('b, 'e) result" where
  "bind_res (Ok x) f = f x"
| "bind_res (Err e) f = Err e"
| "bind_res Panic f = Panic"

definition ensure :: "bool \<Rightarrow> 'e \<Rightarrow> (unit, 'e) result" where
  "ensure b e = (if b then Ok () else Err e)"

definition ok_or :: "'a option \<Rightarrow> 'e \<Rightarrow> ('a, 'e) result" where
  "ok_or x e = (case x of Some a \<Rightarrow> Ok a | None \<Rightarrow> Err e)"

definition or_panic :: "'a option \<Rightarrow> ('a, 'e) result" where
  "or_panic x = (case x of Some a \<Rightarrow> Ok a | None \<Rightarrow> Panic)"

primrec map_err :: "('e \<Rightarrow> 'f) \<Rightarrow> ('a, 'e) result \<Rightarrow> ('a, 'f) result" where
  "map_err g (Ok x) = Ok x"
| "map_err g (Err e) = Err (g e)"
| "map_err g Panic = Panic"

text \<open>\<open>expect\<close> and \<open>unwrap\<close> on a \<open>Result\<close>.\<close>

definition expect_ok :: "('a, 'e) result \<Rightarrow> ('a, 'f) result" where
  "expect_ok m = (case m of Ok x \<Rightarrow> Ok x | Err _ \<Rightarrow> Panic | Panic \<Rightarrow> Panic)"

definition add_chk :: "'a::len word \<Rightarrow> 'a word \<Rightarrow> ('a word, 'e) result" where
  "add_chk a b = or_panic (checked_add a b)"

definition sub_chk :: "'a::len word \<Rightarrow> 'a word \<Rightarrow> ('a word, 'e) result" where
  "sub_chk a b = or_panic (checked_sub a b)"

definition mul_chk :: "'a::len word \<Rightarrow> 'a word \<Rightarrow> ('a word, 'e) result" where
  "mul_chk a b = or_panic (checked_mul a b)"

lemma bind_res_Ok_iff [res_iff]:
  "bind_res m f = Ok y \<longleftrightarrow> (\<exists>x. m = Ok x \<and> f x = Ok y)"
  by (cases m) auto

lemma bind_res_Err_iff:
  "bind_res m f = Err e \<longleftrightarrow> m = Err e \<or> (\<exists>x. m = Ok x \<and> f x = Err e)"
  by (cases m) auto

lemma bind_res_Panic_iff:
  "bind_res m f = Panic \<longleftrightarrow> m = Panic \<or> (\<exists>x. m = Ok x \<and> f x = Panic)"
  by (cases m) auto

lemma bind_res_Ok_right [simp]: "bind_res m Ok = m"
  by (cases m) auto

lemma ensure_Ok_iff [res_iff]: "ensure b e = Ok u \<longleftrightarrow> b"
  by (simp add: ensure_def)

lemma ensure_True [simp]: "ensure True e = Ok ()"
  and ensure_False [simp]: "ensure False e = Err e"
  by (simp_all add: ensure_def)

lemma ensure_not_Panic [simp]: "ensure b e \<noteq> Panic"
  by (simp add: ensure_def)

lemma ok_or_Ok_iff [res_iff]: "ok_or x e = Ok y \<longleftrightarrow> x = Some y"
  by (auto simp: ok_or_def split: option.splits)

lemma ok_or_simps [simp]: "ok_or (Some a) e = Ok a" "ok_or None e = Err e"
  by (simp_all add: ok_or_def)

lemma ok_or_not_Panic [simp]: "ok_or x e \<noteq> Panic"
  by (simp add: ok_or_def split: option.splits)

lemma or_panic_Ok_iff [res_iff]: "or_panic x = Ok y \<longleftrightarrow> x = Some y"
  by (auto simp: or_panic_def split: option.splits)

lemma map_err_Ok_iff [res_iff]: "map_err g m = Ok y \<longleftrightarrow> m = Ok y"
  by (cases m) auto

lemma map_err_Panic_iff [simp]: "map_err g m = Panic \<longleftrightarrow> m = Panic"
  by (cases m) auto

lemma expect_ok_Ok_iff [res_iff]: "expect_ok m = Ok y \<longleftrightarrow> m = Ok y"
  by (cases m) (auto simp: expect_ok_def)

lemma expect_ok_Ok [simp]: "expect_ok (Ok x) = Ok x"
  by (simp add: expect_ok_def)

lemma add_chk_Ok_iff [res_iff]: "add_chk a b = Ok c \<longleftrightarrow> unat a + unat b = unat c"
  by (simp add: add_chk_def or_panic_Ok_iff checked_add_Some)

lemma sub_chk_Ok_iff [res_iff]: "sub_chk a b = Ok c \<longleftrightarrow> unat a = unat b + unat c"
  by (simp add: sub_chk_def or_panic_Ok_iff checked_sub_Some)

lemma mul_chk_Ok_iff [res_iff]: "mul_chk a b = Ok c \<longleftrightarrow> unat a * unat b = unat c"
  by (simp add: mul_chk_def or_panic_Ok_iff checked_mul_Some)

lemma add_chk_defined:
  fixes a b :: "'a::len word"
  assumes "unat a + unat b < 2 ^ LENGTH('a)"
  shows "add_chk a b = Ok (a + b)"
  using assms by (simp add: add_chk_Ok_iff unat_add_no_wrap)

lemma add_chk_if:
  "add_chk a b = (if unat a + unat b < 2 ^ LENGTH('a) then Ok (a + b) else Panic)" for a b :: "'a::len word"
  by (simp add: add_chk_def checked_add_def or_panic_def)

lemma sub_chk_if: "sub_chk a b = (if b \<le> a then Ok (a - b) else Panic)"
  by (simp add: sub_chk_def checked_sub_def or_panic_def)

lemma mul_chk_if:
  "mul_chk a b = (if unat a * unat b < 2 ^ LENGTH('a) then Ok (a * b) else Panic)" for a b :: "'a::len word"
  by (simp add: mul_chk_def checked_mul_def or_panic_def)

lemma mul_chk_defined:
  fixes a b :: "'a::len word"
  assumes "unat a * unat b < 2 ^ LENGTH('a)"
  shows "mul_chk a b = Ok (a * b)"
  using assms by (simp add: mul_chk_Ok_iff unat_mult_no_wrap)

section \<open>Ordered maps\<close>

text \<open>
  \<open>BTreeMap\<close> is an ordered map whose iteration visits the keys in increasing order. It is
  modelled by its association list in that order: \<open>bt_insert\<close> is \<open>insert\<close>,
  \<open>bt_or_insert\<close> is \<open>entry(k).or_insert(v)\<close>, \<open>bt_remove\<close> is \<open>remove\<close>,
  \<open>map_of\<close> is \<open>get\<close> and \<open>bt_keys\<close> is \<open>keys\<close>.
\<close>

type_synonym ('k, 'v) btree_map = "('k \<times> 'v) list"

fun bt_insert :: "'k::linorder \<Rightarrow> 'v \<Rightarrow> ('k, 'v) btree_map \<Rightarrow> ('k, 'v) btree_map" where
  "bt_insert k v [] = [(k, v)]"
| "bt_insert k v ((k', v') # m) =
     (if k < k' then (k, v) # (k', v') # m
      else if k = k' then (k, v) # m
      else (k', v') # bt_insert k v m)"

fun bt_remove :: "'k::linorder \<Rightarrow> ('k, 'v) btree_map \<Rightarrow> ('k, 'v) btree_map" where
  "bt_remove k [] = []"
| "bt_remove k ((k', v') # m) = (if k = k' then m else (k', v') # bt_remove k m)"

definition bt_or_insert :: "'k::linorder \<Rightarrow> 'v \<Rightarrow> ('k, 'v) btree_map \<Rightarrow> ('k, 'v) btree_map" where
  "bt_or_insert k v m = (case map_of m k of Some _ \<Rightarrow> m | None \<Rightarrow> bt_insert k v m)"

abbreviation bt_keys :: "('k, 'v) btree_map \<Rightarrow> 'k list" where
  "bt_keys m \<equiv> map fst m"

abbreviation bt_sorted :: "('k::linorder, 'v) btree_map \<Rightarrow> bool" where
  "bt_sorted m \<equiv> sorted_wrt (<) (bt_keys m)"

lemma bt_insert_keys [bt_simps]: "set (bt_keys (bt_insert k v m)) = insert k (set (bt_keys m))"
  by (induction k v m rule: bt_insert.induct) auto

lemma bt_remove_subset: "set (bt_remove k m) \<subseteq> set m"
  by (induction k m rule: bt_remove.induct) auto

lemma bt_insert_sorted: "bt_sorted m \<Longrightarrow> bt_sorted (bt_insert k v m)"
proof (induction k v m rule: bt_insert.induct)
  case (2 k v k' v' m)
  then show ?case
    using bt_insert_keys [of k v m] by (auto simp: image_iff)
qed simp

lemma bt_remove_sorted: "bt_sorted m \<Longrightarrow> bt_sorted (bt_remove k m)"
proof (induction k m rule: bt_remove.induct)
  case (2 k k' v' m)
  then show ?case
    using bt_remove_subset [of k m] by auto
qed simp

lemma bt_get_insert: "map_of (bt_insert k v m) = (map_of m)(k \<mapsto> v)"
  by (induction k v m rule: bt_insert.induct) (auto simp: fun_eq_iff)

lemma bt_get_remove: "bt_sorted m \<Longrightarrow> map_of (bt_remove k m) = (map_of m)(k := None)"
proof (induction k m rule: bt_remove.induct)
  case (2 k k' v' m)
  then have "k' \<notin> set (bt_keys m)" by auto
  then have "map_of m k' = None" by (simp add: map_of_eq_None_iff)
  with 2 show ?case by (auto simp: fun_eq_iff)
qed simp

lemma bt_sorted_distinct: "bt_sorted m \<Longrightarrow> distinct (bt_keys m)"
  by (auto simp: strict_sorted_iff)

text \<open>
  The interface the clients of \<open>BTreeMap\<close> rely on, and the derived behaviour of
  \<open>entry(k).or_insert(v)\<close>, proved once from it.
\<close>

locale ordered_map =
  fixes empty :: "'m"
    and insert :: "'k \<Rightarrow> 'v \<Rightarrow> 'm \<Rightarrow> 'm"
    and remove :: "'k \<Rightarrow> 'm \<Rightarrow> 'm"
    and lookup :: "'m \<Rightarrow> 'k \<Rightarrow> 'v option"
    and keys :: "'m \<Rightarrow> 'k list"
    and invar :: "'m \<Rightarrow> bool"
  assumes lookup_empty: "lookup empty k = None"
    and lookup_insert: "invar m \<Longrightarrow> lookup (insert k v m) = (lookup m)(k \<mapsto> v)"
    and lookup_remove: "invar m \<Longrightarrow> lookup (remove k m) = (lookup m)(k := None)"
    and keys_dom: "invar m \<Longrightarrow> set (keys m) = dom (lookup m)"
    and keys_distinct: "invar m \<Longrightarrow> distinct (keys m)"
    and invar_empty: "invar empty"
    and invar_insert: "invar m \<Longrightarrow> invar (insert k v m)"
    and invar_remove: "invar m \<Longrightarrow> invar (remove k m)"
begin

definition or_insert :: "'k \<Rightarrow> 'v \<Rightarrow> 'm \<Rightarrow> 'm" where
  "or_insert k v m = (case lookup m k of Some _ \<Rightarrow> m | None \<Rightarrow> insert k v m)"

lemma invar_or_insert: "invar m \<Longrightarrow> invar (or_insert k v m)"
  by (simp add: or_insert_def invar_insert split: option.split)

lemma lookup_or_insert:
  "invar m \<Longrightarrow>
     lookup (or_insert k v m) = (lookup m)(k \<mapsto> (case lookup m k of Some v0 \<Rightarrow> v0 | None \<Rightarrow> v))"
  by (auto simp: or_insert_def lookup_insert split: option.split)

lemma keys_or_insert: "invar m \<Longrightarrow> set (keys (or_insert k v m)) = Set.insert k (set (keys m))"
  by (auto simp: keys_dom invar_or_insert lookup_or_insert)

lemma keys_remove: "invar m \<Longrightarrow> set (keys (remove k m)) = set (keys m) - {k}"
  by (auto simp: keys_dom invar_remove lookup_remove)

end

interpretation bt: ordered_map "[]" bt_insert bt_remove map_of bt_keys bt_sorted
  rewrites "ordered_map.or_insert bt_insert map_of = bt_or_insert"
proof -
  show "ordered_map [] bt_insert bt_remove map_of (\<lambda>m. bt_keys m)
          (\<lambda>m. bt_sorted (m :: ('a \<times> 'b) list))"
    by unfold_locales
      (auto simp: bt_get_insert bt_get_remove bt_insert_sorted bt_remove_sorted dom_map_of_conv_image_fst
        bt_sorted_distinct)
  then show "ordered_map.or_insert bt_insert map_of = (bt_or_insert :: 'a \<Rightarrow> 'b \<Rightarrow> _)"
    by (simp add: ordered_map.or_insert_def bt_or_insert_def fun_eq_iff)
qed

lemmas bt_or_insert_simps [bt_simps] =
  bt.lookup_or_insert bt.keys_or_insert bt.invar_or_insert

section \<open>Lists\<close>

lemma filter_upt_sorted: "sorted_wrt (<) (filter P [0..<n])"
  by (rule sorted_wrt_filter) simp

lemma nth_default_app:
  "i < length xs \<Longrightarrow> (xs @ replicate n d) ! i = xs ! i"
  by (simp add: nth_append)

lemma sum_list_distinct_le:
  fixes f :: "'a \<Rightarrow> nat"
  assumes "distinct xs" "finite A" "set xs \<subseteq> A"
  shows "sum_list (map f xs) \<le> sum f A"
  using assms by (simp add: sum_list_distinct_conv_sum_set sum_mono2)

end
