(* ===== verification/BitVec.thy ===== *)
theory BitVec
  imports Prelude
begin

text \<open>
  The bit vector of \<open>crates/arx-bitvec/src/lib.rs\<close>, which records the validators that took
  part in an aggregate signature. A vector is a list of bytes; position \<open>p\<close> is bit
  \<open>7 - p mod 8\<close> of byte \<open>p div 8\<close> (bits are read from left to right). Positions are
  \<open>u16\<close>, so a well-formed vector has at most 8192 buckets.

  The theory models every operation of the type, shows that it implements a finite set of
  positions, and exports that contract as an interpretation of the locale \<open>bit_set\<close>.
\<close>

section \<open>Model\<close>

definition BUCKET_SIZE :: nat where "BUCKET_SIZE = 8"

definition MAX_BUCKETS :: nat where "MAX_BUCKETS = 8192"

record bit_vec =
  inner :: "u8 list"

definition required_buckets :: "u16 \<Rightarrow> nat" where
  "required_buckets num_bits =
     (case checked_sub num_bits 1 of None \<Rightarrow> 0 | Some pos \<Rightarrow> unat pos div BUCKET_SIZE + 1)"

definition with_num_bits :: "u16 \<Rightarrow> bit_vec" where
  "with_num_bits num_bits = \<lparr>inner = replicate (required_buckets num_bits) 0\<rparr>"

definition BitVec_set :: "bit_vec \<Rightarrow> u16 \<Rightarrow> bit_vec" where
  "BitVec_set bv pos =
     (let bucket = unat pos div BUCKET_SIZE;
          bytes = (if length (inner bv) \<le> bucket
                   then inner bv @ replicate (bucket + 1 - length (inner bv)) 0
                   else inner bv);
          bucket_pos = unat pos - bucket * BUCKET_SIZE
      in \<lparr>inner = bytes[bucket := (bytes ! bucket) OR drop_bit bucket_pos 0b10000000]\<rparr>)"

definition is_set :: "bit_vec \<Rightarrow> u16 \<Rightarrow> bool" where
  "is_set bv pos =
     (let bucket = unat pos div BUCKET_SIZE
      in if length (inner bv) \<le> bucket then False
         else let bucket_pos = unat pos - bucket * BUCKET_SIZE
              in ((inner bv ! bucket) AND drop_bit bucket_pos 0b10000000) \<noteq> 0)"

definition all_zeros :: "bit_vec \<Rightarrow> bool" where
  "all_zeros bv = list_all (\<lambda>byte. byte = 0) (inner bv)"

text \<open>\<open>u8::count_ones\<close> and \<open>u8::trailing_zeros\<close> of the standard library.\<close>

definition byte_count_ones :: "u8 \<Rightarrow> nat" where
  "byte_count_ones w = length (filter (bit w) [0..<8])"

definition byte_trailing_zeros :: "u8 \<Rightarrow> nat" where
  "byte_trailing_zeros w = length (takeWhile (\<lambda>i. \<not> bit w i) [0..<8])"

definition count_ones :: "bit_vec \<Rightarrow> nat" where
  "count_ones bv = sum_list (map byte_count_ones (inner bv))"

definition last_set_bit :: "bit_vec \<Rightarrow> u16 option" where
  "last_set_bit bv =
     map_option (\<lambda>(i, byte). of_nat (8 * (length (inner bv) - i) - byte_trailing_zeros byte - 1))
       (List.find (\<lambda>(_, byte). byte \<noteq> 0) (enumerate 0 (rev (inner bv))))"

definition iter_ones :: "bit_vec \<Rightarrow> nat list" where
  "iter_ones bv = filter (\<lambda>idx. is_set bv (of_nat idx)) [0..<length (inner bv) * BUCKET_SIZE]"

definition num_buckets :: "bit_vec \<Rightarrow> nat" where
  "num_buckets bv = length (inner bv)"

definition BitVec_bitand :: "bit_vec \<Rightarrow> bit_vec \<Rightarrow> bit_vec" where
  "BitVec_bitand a b =
     \<lparr>inner = map (\<lambda>i. (inner a ! i) AND (inner b ! i)) [0..<min (length (inner a)) (length (inner b))]\<rparr>"

definition get_or_zero :: "u8 list \<Rightarrow> nat \<Rightarrow> u8" where
  "get_or_zero xs i = (if i < length xs then xs ! i else 0)"

definition BitVec_bitor :: "bit_vec \<Rightarrow> bit_vec \<Rightarrow> bit_vec" where
  "BitVec_bitor a b =
     \<lparr>inner = map (\<lambda>i. get_or_zero (inner a) i OR get_or_zero (inner b) i)
                [0..<max (length (inner a)) (length (inner b))]\<rparr>"

definition BitVec_from_iter :: "u8 list \<Rightarrow> bit_vec" where
  "BitVec_from_iter bits = fold (\<lambda>b bv. BitVec_set bv (ucast b)) bits \<lparr>inner = []\<rparr>"

definition BitVec_from_bytes :: "u8 list \<Rightarrow> (bit_vec, 'e) result" where
  "BitVec_from_bytes raw_bytes =
     (if length raw_bytes \<le> MAX_BUCKETS then Ok \<lparr>inner = raw_bytes\<rparr> else Panic)"

definition BitVec_from_bools :: "bool list \<Rightarrow> (bit_vec, 'e) result" where
  "BitVec_from_bools bits =
     (if length bits \<le> MAX_BUCKETS * BUCKET_SIZE
      then Ok (fold (\<lambda>(index, b) bv. if b then BitVec_set bv (of_nat index) else bv)
                 (enumerate 0 bits) (with_num_bits (of_nat (length bits))))
      else Panic)"

definition BitVec_deserialize :: "u8 list \<Rightarrow> (bit_vec, string) result" where
  "BitVec_deserialize v =
     (if length v > MAX_BUCKETS then Err ''BitVec too long'' else Ok \<lparr>inner = v\<rparr>)"

section \<open>Bits of a byte\<close>

lemma div_mod_bucket: "n - n div BUCKET_SIZE * BUCKET_SIZE = n mod 8"
  by (simp add: BUCKET_SIZE_def minus_div_mult_eq_mod)

lemma probe_bit:
  assumes "k < 8"
  shows "drop_bit k (0b10000000 :: u8) = 2 ^ (7 - k)"
proof -
  from assms consider "k = 0" | "k = 1" | "k = 2" | "k = 3" | "k = 4" | "k = 5" | "k = 6" | "k = 7"
    by arith
  then show ?thesis by cases simp_all
qed

lemma u16_div_bucket_less: "unat (p :: u16) div 8 < 8192"
  using unat_below [of p] by simp

text \<open>Bit \<open>i\<close> of the vector, by its index, is the semantic view all the proofs use.\<close>

definition bv_bit :: "u8 list \<Rightarrow> nat \<Rightarrow> bool" where
  "bv_bit bytes i \<longleftrightarrow> i div 8 < length bytes \<and> bit (bytes ! (i div 8)) (7 - i mod 8)"

lemma is_set_bv_bit: "is_set bv p \<longleftrightarrow> bv_bit (inner bv) (unat p)"
proof (cases "length (inner bv) \<le> unat p div 8")
  case True
  then show ?thesis by (simp add: is_set_def bv_bit_def BUCKET_SIZE_def)
next
  case False
  have "drop_bit (unat p - unat p div BUCKET_SIZE * BUCKET_SIZE) (0b10000000 :: u8)
          = 2 ^ (7 - unat p mod 8)"
    by (simp add: div_mod_bucket probe_bit)
  with False show ?thesis
    by (simp add: is_set_def bv_bit_def BUCKET_SIZE_def and_exp_eq_0_iff_not_bit)
qed

lemma bv_bit_Nil [simp]: "\<not> bv_bit [] i"
  by (simp add: bv_bit_def)

lemma bv_bit_snoc:
  "bv_bit (xs @ [b]) i \<longleftrightarrow>
     bv_bit xs i \<or> i div 8 = length xs \<and> bit b (7 - i mod 8)"
  by (auto simp: bv_bit_def nth_append)

lemma bv_bit_pad: "bv_bit (xs @ replicate n 0) i \<longleftrightarrow> bv_bit xs i"
  by (auto simp: bv_bit_def nth_append)

lemma bv_bit_update:
  assumes "b < length xs" "j < 8"
  shows "bv_bit (xs[b := (xs ! b) OR 2 ^ (7 - j)]) i \<longleftrightarrow> i = 8 * b + j \<or> bv_bit xs i"
proof (cases "i div 8 = b")
  case True
  then have split: "i = 8 * b + i mod 8" by (metis mult_div_mod_eq)
  have "7 - i mod 8 = 7 - j \<longleftrightarrow> i mod 8 = j"
    using assms(2) mod_less_divisor [of 8 i] by arith
  moreover have "i = 8 * b + j \<longleftrightarrow> i mod 8 = j"
    using split assms(2) by auto
  ultimately show ?thesis
    using True assms by (auto simp: bv_bit_def bit_or_iff bit_exp_iff)
next
  case False
  then have "i \<noteq> 8 * b + j" using assms(2) by auto
  with False assms show ?thesis by (simp add: bv_bit_def)
qed

lemma bv_bit_bound: "bv_bit xs i \<Longrightarrow> i < length xs * 8"
  by (auto simp: bv_bit_def less_mult_imp_div_less div_less_iff_less_mult)

lemma length_BitVec_set:
  "length (inner (BitVec_set bv p)) = max (length (inner bv)) (unat p div 8 + 1)"
  by (auto simp: BitVec_set_def Let_def BUCKET_SIZE_def max_def)

lemma BitVec_set_bv_bit:
  "bv_bit (inner (BitVec_set bv p)) i \<longleftrightarrow> i = unat p \<or> bv_bit (inner bv) i"
proof -
  define b where "b = unat p div 8"
  define bytes where "bytes = (if length (inner bv) \<le> b
     then inner bv @ replicate (b + 1 - length (inner bv)) 0 else inner bv)"
  have len: "b < length bytes" by (auto simp: bytes_def)
  have same: "bv_bit bytes i = bv_bit (inner bv) i" by (auto simp: bytes_def bv_bit_pad)
  have "unat p mod 8 < 8" by simp
  with len have "bv_bit (bytes[b := (bytes ! b) OR 2 ^ (7 - unat p mod 8)]) i
      \<longleftrightarrow> i = 8 * b + unat p mod 8 \<or> bv_bit bytes i"
    by (rule bv_bit_update)
  moreover have "8 * b + unat p mod 8 = unat p" by (simp add: b_def)
  moreover have "inner (BitVec_set bv p) = bytes[b := (bytes ! b) OR 2 ^ (7 - unat p mod 8)]"
    unfolding BitVec_set_def Let_def div_mod_bucket
    by (simp add: probe_bit BUCKET_SIZE_def b_def bytes_def)
  ultimately show ?thesis using same by simp
qed

lemma get_or_zero_bit: "bit (get_or_zero xs (i div 8)) (7 - i mod 8) \<longleftrightarrow> bv_bit xs i"
  by (simp add: get_or_zero_def bv_bit_def)

lemma bitand_bv_bit:
  "bv_bit (inner (BitVec_bitand a b)) i \<longleftrightarrow> bv_bit (inner a) i \<and> bv_bit (inner b) i"
  by (auto simp: BitVec_bitand_def bv_bit_def bit_and_iff)

lemma bitor_bv_bit:
  "bv_bit (inner (BitVec_bitor a b)) i \<longleftrightarrow> bv_bit (inner a) i \<or> bv_bit (inner b) i"
proof -
  let ?n = "max (length (inner a)) (length (inner b))"
  have "bv_bit (inner (BitVec_bitor a b)) i \<longleftrightarrow> i div 8 < ?n \<and>
      bit (get_or_zero (inner a) (i div 8) OR get_or_zero (inner b) (i div 8)) (7 - i mod 8)"
    by (auto simp: BitVec_bitor_def bv_bit_def)
  then have "bv_bit (inner (BitVec_bitor a b)) i \<longleftrightarrow> i div 8 < ?n \<and>
      (bv_bit (inner a) i \<or> bv_bit (inner b) i)"
    by (simp only: bit_or_iff get_or_zero_bit)
  then show ?thesis by (auto simp: bv_bit_def)
qed

section \<open>Well-formed vectors and the set of positions\<close>

text \<open>
  The public constructors bound the number of buckets by \<open>MAX_BUCKETS\<close>: every index of a
  well-formed vector is then a \<open>u16\<close>.
\<close>

definition bv_wf :: "bit_vec \<Rightarrow> bool" where
  "bv_wf bv \<longleftrightarrow> length (inner bv) \<le> MAX_BUCKETS"

lemma bv_wf_set: "bv_wf bv \<Longrightarrow> bv_wf (BitVec_set bv p)"
  using u16_div_bucket_less [of p] by (simp add: bv_wf_def length_BitVec_set MAX_BUCKETS_def)

lemma required_buckets_bound: "required_buckets n \<le> MAX_BUCKETS"
proof (cases "checked_sub n 1")
  case (Some pos)
  then show ?thesis
    using u16_div_bucket_less [of pos]
    by (simp add: required_buckets_def BUCKET_SIZE_def MAX_BUCKETS_def)
qed (simp add: required_buckets_def)

lemma bv_wf_with_num_bits: "bv_wf (with_num_bits n)"
  by (simp add: bv_wf_def with_num_bits_def required_buckets_bound)

lemma bv_bit_with_num_bits [simp]: "\<not> bv_bit (inner (with_num_bits n)) i"
  by (simp add: bv_bit_def with_num_bits_def)

lemma bv_wf_index:
  assumes "bv_wf bv" "bv_bit (inner bv) i"
  shows "i < 2 ^ 16"
  using assms bv_bit_bound [of "inner bv" i] by (simp add: bv_wf_def MAX_BUCKETS_def)

lemma iter_ones_eq:
  assumes "bv_wf bv"
  shows "iter_ones bv = filter (bv_bit (inner bv)) [0..<length (inner bv) * 8]"
proof -
  have "unat (of_nat i :: u16) = i" if "i < length (inner bv) * 8" for i
    using that assms by (simp add: bv_wf_def MAX_BUCKETS_def unat_of_nat)
  then show ?thesis
    by (auto simp: iter_ones_def is_set_bv_bit BUCKET_SIZE_def intro!: filter_cong)
qed

lemma set_iter_ones:
  assumes "bv_wf bv"
  shows "set (iter_ones bv) = {i. bv_bit (inner bv) i}"
  using assms by (auto simp: iter_ones_eq bv_bit_bound)

lemma iter_ones_sorted: "sorted_wrt (<) (iter_ones bv)"
  unfolding iter_ones_def by (rule filter_upt_sorted)

lemma bv_bit_positions:
  assumes "bv_wf bv"
  shows "{i. bv_bit (inner bv) i} = unat ` {p. is_set bv p}"
proof
  show "{i. bv_bit (inner bv) i} \<subseteq> unat ` {p. is_set bv p}"
  proof
    fix i assume "i \<in> {i. bv_bit (inner bv) i}"
    then have "bv_bit (inner bv) i" and i: "unat (of_nat i :: u16) = i"
      using bv_wf_index [OF assms] by (auto simp: unat_of_nat)
    then have "is_set bv (of_nat i)" by (simp add: is_set_bv_bit)
    with i show "i \<in> unat ` {p. is_set bv p}" by (metis image_eqI mem_Collect_eq)
  qed
qed (auto simp: is_set_bv_bit)

lemma upt_8: "[0..<8] = [0, 1, 2, 3, 4, 5, 6, 7 :: nat]"
  by (simp add: upt_rec)

lemma byte_count_ones_reverse:
  "length (filter (\<lambda>i. bit b (7 - i mod 8)) [8 * n..<8 * n + 8]) = byte_count_ones b"
proof -
  have "[8 * n..<8 * n + 8] = map (\<lambda>k. k + 8 * n) [0..<8]"
    by (simp only: map_add_upt add.commute add_0)
  then have "length (filter (\<lambda>i. bit b (7 - i mod 8)) [8 * n..<8 * n + 8])
      = length (filter (\<lambda>k. bit b (7 - k mod 8)) [0..<8])"
    by (simp add: filter_map comp_def)
  also have "\<dots> = length (filter (bit b) [0..<8])"
    unfolding upt_8 by simp
  finally show ?thesis by (simp add: byte_count_ones_def)
qed

lemma count_ones_iter: "count_ones bv = length (filter (bv_bit (inner bv)) [0..<length (inner bv) * 8])"
proof -
  have "sum_list (map byte_count_ones xs) = length (filter (bv_bit xs) [0..<8 * length xs])" for xs
  proof (induction xs rule: rev_induct)
    case (snoc b xs)
    have "[0..<8 * length (xs @ [b])] = [0..<8 * length xs] @ [8 * length xs..<8 * length xs + 8]"
      using upt_add_eq_append [of 0 "8 * length xs" 8] by (simp add: add.commute)
    moreover have "filter (bv_bit (xs @ [b])) [0..<8 * length xs] = filter (bv_bit xs) [0..<8 * length xs]"
      by (auto simp: bv_bit_snoc intro!: filter_cong)
    moreover have "filter (bv_bit (xs @ [b])) [8 * length xs..<8 * length xs + 8]
        = filter (\<lambda>i. bit b (7 - i mod 8)) [8 * length xs..<8 * length xs + 8]"
      using bv_bit_bound [of xs] by (fastforce simp: bv_bit_snoc intro!: filter_cong)
    ultimately show ?case
      using snoc byte_count_ones_reverse [of b "length xs"] by simp
  qed simp
  then show ?thesis by (simp add: count_ones_def mult.commute)
qed

lemma count_ones_length: "bv_wf bv \<Longrightarrow> count_ones bv = length (iter_ones bv)"
  by (simp add: count_ones_iter iter_ones_eq)

section \<open>The last set bit\<close>

text \<open>The index \<open>last_set_bit\<close> computes before its cast to \<open>u16\<close>.\<close>

definition last_index :: "u8 list \<Rightarrow> nat option" where
  "last_index xs =
     map_option (\<lambda>(i, byte). 8 * (length xs - i) - byte_trailing_zeros byte - 1)
       (List.find (\<lambda>(_, byte). byte \<noteq> 0) (enumerate 0 (rev xs)))"

lemma last_set_bit_last_index: "last_set_bit bv = map_option of_nat (last_index (inner bv))"
  by (simp add: last_set_bit_def last_index_def option.map_comp comp_def split_def)

lemma find_enumerate_Suc:
  "List.find (\<lambda>(_, x). P x) (enumerate (Suc n) xs)
     = map_option (\<lambda>(i, x). (Suc i, x)) (List.find (\<lambda>(_, x). P x) (enumerate n xs))"
  by (induction xs arbitrary: n) auto

lemma last_index_Nil [simp]: "last_index [] = None"
  by (simp add: last_index_def)

lemma byte_trailing_zeros_props:
  assumes "b \<noteq> 0"
  shows "byte_trailing_zeros b < 8" and "bit b (byte_trailing_zeros b)"
    and "\<And>j. j < byte_trailing_zeros b \<Longrightarrow> \<not> bit b j"
proof -
  let ?P = "\<lambda>i. \<not> bit b i" and ?ws = "takeWhile (\<lambda>i. \<not> bit b i) [0..<8]"
  from assms obtain n where "bit b n" by (auto simp: bit_eq_iff)
  moreover then have "n < 8" using bit_imp_le_length [of b n] by simp
  ultimately have "takeWhile ?P [0..<8] \<noteq> [0..<8]"
    by (metis atLeastLessThan_iff atLeastLessThan_upt le0 set_takeWhileD)
  then show less: "byte_trailing_zeros b < 8"
    unfolding byte_trailing_zeros_def
    by (metis diff_zero length_takeWhile_le length_upt nat_less_le takeWhile_eq_take take_all_iff)
  then show "bit b (byte_trailing_zeros b)"
    using nth_length_takeWhile [of ?P "[0..<8]"] by (simp add: byte_trailing_zeros_def)
  show "\<not> bit b j" if "j < byte_trailing_zeros b" for j
    using that less takeWhile_nth [of j ?P "[0..<8]"] set_takeWhileD [of _ ?P "[0..<8]"]
    by (metis add_0 byte_trailing_zeros_def less_trans nth_mem nth_upt)
qed

lemma last_index_snoc:
  "last_index (xs @ [b]) =
     (if b = 0 then last_index xs else Some (8 * length xs + (7 - byte_trailing_zeros b)))"
proof (cases "b = 0")
  case True
  have "last_index (xs @ [b]) =
      map_option (\<lambda>(i, byte). 8 * (length (xs @ [b]) - i) - byte_trailing_zeros byte - 1)
        (map_option (\<lambda>(i, x). (Suc i, x)) (List.find (\<lambda>(_, x). x \<noteq> 0) (enumerate 0 (rev xs))))"
    using True by (simp add: last_index_def find_enumerate_Suc)
  with True show ?thesis
    by (simp add: last_index_def option.map_comp comp_def split_def)
next
  case False
  then show ?thesis
    using byte_trailing_zeros_props(1) [of b] by (simp add: last_index_def)
qed

lemma last_index_correct:
  "case last_index xs of
     None \<Rightarrow> \<forall>i. \<not> bv_bit xs i
   | Some k \<Rightarrow> bv_bit xs k \<and> (\<forall>i. bv_bit xs i \<longrightarrow> i \<le> k)"
proof (induction xs rule: rev_induct)
  case (snoc b xs)
  show ?case
  proof (cases "b = 0")
    case True
    with snoc show ?thesis by (auto simp: last_index_snoc bv_bit_snoc split: option.splits)
  next
    case False
    define t where "t = byte_trailing_zeros b"
    have t: "t < 8" "bit b t" "\<And>j. j < t \<Longrightarrow> \<not> bit b j"
      using byte_trailing_zeros_props [OF False] by (simp_all add: t_def)
    have "i \<le> 8 * length xs + (7 - t)" if "bv_bit (xs @ [b]) i" for i
    proof (cases "bv_bit xs i")
      case True
      then show ?thesis using bv_bit_bound [of xs i] by simp
    next
      case False
      with that have i: "i div 8 = length xs" "bit b (7 - i mod 8)" by (auto simp: bv_bit_snoc)
      with t(3) have "t \<le> 7 - i mod 8" by (meson not_le)
      with t(1) have "i mod 8 \<le> 7 - t" by simp
      with i(1) show ?thesis by (metis add_left_mono mult_div_mod_eq)
    qed
    moreover have "bv_bit (xs @ [b]) (8 * length xs + (7 - t))"
    proof -
      have "(8 * length xs + (7 - t)) div 8 = length xs" "(8 * length xs + (7 - t)) mod 8 = 7 - t"
        using t(1) by (simp_all only: div_mult_self4 mod_mult_self4) simp_all
      with t show ?thesis by (simp only: bv_bit_snoc) simp
    qed
    ultimately show ?thesis
      using False by (simp add: last_index_snoc t_def)
  qed
qed simp

lemma last_set_bit_cases:
  assumes "bv_wf bv"
  shows "case last_set_bit bv of
     None \<Rightarrow> \<forall>p. \<not> is_set bv p
   | Some p \<Rightarrow> is_set bv p \<and> (\<forall>q. is_set bv q \<longrightarrow> q \<le> p)"
proof (cases "last_index (inner bv)")
  case None
  then show ?thesis
    using last_index_correct [of "inner bv"] by (simp add: last_set_bit_last_index is_set_bv_bit)
next
  case (Some k)
  then have k: "bv_bit (inner bv) k" "\<forall>i. bv_bit (inner bv) i \<longrightarrow> i \<le> k"
    using last_index_correct [of "inner bv"] by simp_all
  then have "unat (of_nat k :: u16) = k"
    using bv_wf_index [OF assms k(1)] by (simp add: unat_of_nat)
  with k Some show ?thesis
    by (simp add: last_set_bit_last_index is_set_bv_bit word_le_nat_alt)
qed

section \<open>The contract: a finite set of positions\<close>

text \<open>
  What the signature code relies on: positions can be added and tested, the iterator lists the
  indices of exactly the members in increasing order, and the count is their number. The lemmas
  about adding a whole list of positions are proved once from these laws.
\<close>

locale bit_set =
  fixes empty :: "'b"
    and add :: "'b \<Rightarrow> 'p \<Rightarrow> 'b"
    and member :: "'b \<Rightarrow> 'p \<Rightarrow> bool"
    and ones :: "'b \<Rightarrow> nat list"
    and count :: "'b \<Rightarrow> nat"
    and index :: "'p \<Rightarrow> nat"
    and invar :: "'b \<Rightarrow> bool"
  assumes member_add: "member (add b p) q \<longleftrightarrow> q = p \<or> member b q"
    and member_empty: "\<not> member empty p"
    and set_ones: "invar b \<Longrightarrow> set (ones b) = index ` {p. member b p}"
    and sorted_ones: "sorted_wrt (<) (ones b)"
    and count_ones: "invar b \<Longrightarrow> count b = length (ones b)"
    and index_inj: "index p = index q \<Longrightarrow> p = q"
    and invar_empty: "invar empty"
    and invar_add: "invar b \<Longrightarrow> invar (add b p)"
begin

lemma invar_fold_add: "invar b \<Longrightarrow> invar (fold (\<lambda>p b. add b p) ps b)"
  by (induction ps arbitrary: b) (auto simp: invar_add)

lemma member_fold_add: "member (fold (\<lambda>p b. add b p) ps b) q \<longleftrightarrow> q \<in> set ps \<or> member b q"
  by (induction ps arbitrary: b) (auto simp: member_add)

lemma distinct_ones: "distinct (ones b)"
  using sorted_ones [of b] by (simp add: strict_sorted_iff)

lemma count_card: "invar b \<Longrightarrow> count b = card {p. member b p}"
proof -
  assume inv: "invar b"
  have "inj_on index {p. member b p}" by (auto intro!: inj_onI dest: index_inj)
  with inv show ?thesis
    by (simp add: count_ones distinct_ones card_image set_ones flip: distinct_card [OF distinct_ones])
qed

lemma ones_fold_add: "set (ones (fold (\<lambda>p b. add b p) ps empty)) = index ` set ps"
  by (simp add: set_ones invar_fold_add invar_empty member_fold_add member_empty)

lemma ones_unique:
  assumes "sorted_wrt (<) xs" "set xs = set (ones b)"
  shows "ones b = xs"
  using assms sorted_ones [of b] by (simp add: strict_sorted_equal)

end

lemma is_set_BitVec_set: "is_set (BitVec_set bv p) q \<longleftrightarrow> q = p \<or> is_set bv q"
  by (auto simp: is_set_bv_bit BitVec_set_bv_bit word_unat_eq_iff)

lemma is_set_empty [simp]: "\<not> is_set \<lparr>inner = []\<rparr> p"
  by (simp add: is_set_bv_bit)

lemma bv_wf_empty [simp]: "bv_wf \<lparr>inner = []\<rparr>"
  by (simp add: bv_wf_def)

interpretation bv: bit_set "\<lparr>inner = []\<rparr>" BitVec_set is_set iter_ones count_ones unat bv_wf
  by unfold_locales
    (auto simp: is_set_BitVec_set set_iter_ones bv_bit_positions iter_ones_sorted
      count_ones_length bv_wf_set word_unat_eq_iff)

lemma is_set_with_num_bits [simp]: "\<not> is_set (with_num_bits n) p"
  by (simp add: is_set_bv_bit)

lemma from_bools_fold:
  "is_set (fold (\<lambda>(index, b) bv. if b then BitVec_set bv (of_nat index) else bv) (enumerate n bits) bv) p
     \<longleftrightarrow> (\<exists>i < length bits. bits ! i \<and> p = of_nat (n + i)) \<or> is_set bv p"
proof (induction bits arbitrary: n bv)
  case (Cons b bits)
  show ?case
    by (cases b) (auto simp: Cons.IH is_set_BitVec_set less_Suc_eq_0_disj)
qed simp

lemma from_bools_wf:
  "bv_wf bv \<Longrightarrow>
     bv_wf (fold (\<lambda>(index, b) bv. if b then BitVec_set bv (of_nat index) else bv) xs bv)"
  by (induction xs arbitrary: bv) (auto simp: bv_wf_set)

section \<open>Properties\<close>

text \<open>
  Setting and testing bits, and the bitwise operators, implement a set of positions: after
  \<open>set(p)\<close> exactly \<open>p\<close> and the earlier positions are set, \<open>&\<close> is intersection and
  \<open>|\<close> is union, for vectors of any (also different) lengths.
\<close>

theorem bitvec_set_semantics:
  "(is_set (BitVec_set bv p) q \<longleftrightarrow> q = p \<or> is_set bv q) \<and>
   (is_set (BitVec_bitand a b) q \<longleftrightarrow> is_set a q \<and> is_set b q) \<and>
   (is_set (BitVec_bitor a b) q \<longleftrightarrow> is_set a q \<or> is_set b q)"
proof (intro conjI)
  show "is_set (BitVec_set bv p) q \<longleftrightarrow> q = p \<or> is_set bv q"
    by (rule is_set_BitVec_set)
qed (simp_all add: is_set_bv_bit bitand_bv_bit bitor_bv_bit)

text \<open>
  On every vector the constructors can build, the iterator lists the set positions in strictly
  increasing order, the count is the number of set positions, and \<open>last_set_bit\<close> is the
  largest of them (none when no bit is set).
\<close>

theorem bitvec_queries:
  assumes "bv_wf bv"
  shows "sorted_wrt (<) (iter_ones bv) \<and> set (iter_ones bv) = unat ` {p. is_set bv p} \<and>
    count_ones bv = card {p. is_set bv p} \<and>
    (case last_set_bit bv of
       None \<Rightarrow> {p. is_set bv p} = {}
     | Some p \<Rightarrow> is_set bv p \<and> (\<forall>q \<in> {q. is_set bv q}. q \<le> p))"
  using assms last_set_bit_cases [OF assms]
  by (simp add: bv.sorted_ones bv.set_ones bv.count_card split: option.splits)

theorem bitvec_queries_witness:
  "bv_wf \<lparr>inner = [0b00010000, 0, 0, 1]\<rparr> \<and>
   count_ones \<lparr>inner = [0b00010000, 0, 0, 1]\<rparr> = card {p. is_set \<lparr>inner = [0b00010000, 0, 0, 1]\<rparr> p}"
proof -
  have wf: "bv_wf \<lparr>inner = [0b00010000, 0, 0, 1]\<rparr>" by (simp add: bv_wf_def MAX_BUCKETS_def)
  with bitvec_queries [OF wf] show ?thesis by simp
qed

text \<open>
  Round trip with the list of flags: a vector built from at most 65536 booleans has exactly
  their positions set and is well formed (the length cast to \<open>u16\<close>, which is 0 for 65536
  booleans, does no harm because \<open>set\<close> grows the vector).
\<close>

theorem bitvec_from_bools:
  assumes "length bits \<le> 65536"
  shows "\<exists>bv. (BitVec_from_bools bits :: (bit_vec, unit) result) = Ok bv \<and> bv_wf bv \<and>
    (\<forall>p. is_set bv p \<longleftrightarrow> unat p < length bits \<and> bits ! unat p)"
proof -
  let ?step = "\<lambda>(index, b) bv. if b then BitVec_set bv (of_nat index) else bv"
  let ?bv = "fold ?step (enumerate 0 bits) (with_num_bits (of_nat (length bits)))"
  have "is_set ?bv p \<longleftrightarrow> unat p < length bits \<and> bits ! unat p" for p
  proof -
    have "unat (of_nat i :: u16) = i" if "i < length bits" for i
      using that assms by (simp add: unat_of_nat)
    then show ?thesis
      by (auto simp: from_bools_fold intro: exI [of _ "unat p"])
  qed
  moreover have "bv_wf ?bv"
    by (rule from_bools_wf) (rule bv_wf_with_num_bits)
  ultimately show ?thesis
    using assms by (simp add: BitVec_from_bools_def MAX_BUCKETS_def BUCKET_SIZE_def)
qed

theorem bitvec_from_bools_witness:
  "\<exists>bv. (BitVec_from_bools [True, False, True] :: (bit_vec, unit) result) = Ok bv \<and> is_set bv 2"
proof -
  have "length [True, False, True] \<le> 65536" by simp
  from bitvec_from_bools [OF this] obtain bv where
    "(BitVec_from_bools [True, False, True] :: (bit_vec, unit) result) = Ok bv"
    "is_set bv 2 \<longleftrightarrow> unat (2 :: u16) < 3 \<and> [True, False, True] ! unat (2 :: u16)"
    by auto
  then show ?thesis by auto
qed

end
