(* ===== verification/Crypto.thy ===== *)
theory Crypto
  imports Prelude "HOL-Library.Multiset"
begin

text \<open>
  The cryptography the sources call but do not contain: BLS12-381 signatures come from the
  \<open>blst\<close> package (\<open>crates/arx-crypto/src/bls12381\<close> only wraps it) and hashes from
  \<open>tiny-keccak\<close> over the \<open>bcs\<close> encoding. Both are parameters of the model: a record of
  functions \<open>bls12381\<close>, over the type \<open>'m\<close> of signed messages, and hash functions passed
  where a digest is computed. Keys and signatures are compared by their bytes, as the wrappers'
  \<open>PartialEq\<close> instances do.

  The hypotheses about these parameters are named here. \<open>bls_aggregates\<close> is the documented
  completeness of aggregation (\<open>Signature::aggregate\<close>, \<open>PublicKey::aggregate\<close> and
  \<open>Signature::verify\<close>): the aggregate of valid shares on one message is valid under the
  aggregate of the signers' keys, in whatever order the keys are taken.
\<close>

type_synonym hash_value = "256 word"

text \<open>
  The hash constants of \<open>arx-crypto/src/hash.rs\<close>: the bytes of a literal, padded with zeros to
  the 32 bytes of a hash, read as a big-endian number.
\<close>

definition literal_hash :: "string \<Rightarrow> hash_value" where
  "literal_hash lit =
     foldl (\<lambda>h b. h * 256 + b) 0 (map of_char lit @ replicate (32 - length lit) 0)"

definition create_literal_hash :: "string \<Rightarrow> (hash_value, 'e) result" where
  "create_literal_hash lit = (if length lit \<le> 32 then Ok (literal_hash lit) else Panic)"

definition ACCUMULATOR_PLACEHOLDER_HASH :: hash_value where
  "ACCUMULATOR_PLACEHOLDER_HASH = literal_hash ''ACCUMULATOR_PLACEHOLDER_HASH''"

definition PRE_GENESIS_BLOCK_ID :: hash_value where
  "PRE_GENESIS_BLOCK_ID = literal_hash ''PRE_GENESIS_BLOCK_ID''"

definition GENESIS_BLOCK_ID :: hash_value where
  "GENESIS_BLOCK_ID = 0x5E10BAD45B35ED929CD6D2C7098B135D02DD259AE88A8D09F4EB5FBAE9A6F6E4"

definition HashValue_zero :: hash_value where
  "HashValue_zero = 0"

type_synonym account_address = "256 word"
type_synonym public_key = "u8 list"
type_synonym private_key = "u8 list"
type_synonym signature = "u8 list"

record 'm bls12381 =
  bls_verify :: "public_key \<Rightarrow> 'm \<Rightarrow> signature \<Rightarrow> bool"
  bls_verify_aggregate :: "signature \<Rightarrow> 'm list \<Rightarrow> public_key list \<Rightarrow> bool"
  bls_aggregate_sigs :: "signature list \<Rightarrow> signature option"
  bls_aggregate_keys :: "public_key list \<Rightarrow> public_key option"
  bls_sign :: "private_key \<Rightarrow> 'm \<Rightarrow> signature option"
  bls_public_key :: "private_key \<Rightarrow> public_key"

definition bls_aggregates :: "'m bls12381 \<Rightarrow> bool" where
  "bls_aggregates bls \<longleftrightarrow>
     (\<forall>m shares keys. shares \<noteq> [] \<longrightarrow> (\<forall>(pk, s) \<in> set shares. bls_verify bls pk m s) \<longrightarrow>
        mset keys = mset (map fst shares) \<longrightarrow>
        (\<exists>s k. bls_aggregate_sigs bls (map snd shares) = Some s \<and>
               bls_aggregate_keys bls keys = Some k \<and> bls_verify bls k m s))"

text \<open>
  \<open>bls_aggregate_multi\<close> is the same law for signatures on different messages
  (\<open>Signature::verify_aggregate\<close>), where message \<open>i\<close> belongs to key \<open>i\<close>.
\<close>

definition bls_aggregate_multi :: "'m bls12381 \<Rightarrow> bool" where
  "bls_aggregate_multi bls \<longleftrightarrow>
     (\<forall>shares signed. shares \<noteq> [] \<longrightarrow> (\<forall>(pk, m, s) \<in> set shares. bls_verify bls pk m s) \<longrightarrow>
        mset signed = mset (map (\<lambda>(pk, m, s). (pk, m)) shares) \<longrightarrow>
        (\<exists>s. bls_aggregate_sigs bls (map (\<lambda>(pk, m, s). s) shares) = Some s \<and>
             bls_verify_aggregate bls s (map snd signed) (map fst signed)))"

text \<open>
  \<open>bls_aggregate_lengths\<close>: the verification of an aggregate fails when the numbers of messages
  and keys differ.
\<close>

definition bls_aggregate_lengths :: "'m bls12381 \<Rightarrow> bool" where
  "bls_aggregate_lengths bls \<longleftrightarrow>
     (\<forall>s ms pks. bls_verify_aggregate bls s ms pks \<longrightarrow> length ms = length pks)"

text \<open>\<open>bls_signs\<close>: a signature made with a private key verifies under its public key.\<close>

definition bls_signs :: "'m bls12381 \<Rightarrow> bool" where
  "bls_signs bls \<longleftrightarrow>
     (\<forall>sk m s. bls_sign bls sk m = Some s \<longrightarrow> bls_verify bls (bls_public_key bls sk) m s)"

text \<open>
  The signed messages of the node are of several types, which \<open>signing_message\<close> prefixes with
  a seed of their own (\<open>arx-crypto/src/traits.rs\<close>). \<open>bls_on emb bls\<close> is the scheme on one of
  them, where \<open>emb\<close> names the type among all messages.
\<close>

definition bls_on :: "('a \<Rightarrow> 'm) \<Rightarrow> 'm bls12381 \<Rightarrow> 'a bls12381" where
  "bls_on emb bls = \<lparr>
     bls_verify = (\<lambda>pk m s. bls_verify bls pk (emb m) s),
     bls_verify_aggregate = (\<lambda>s ms pks. bls_verify_aggregate bls s (map emb ms) pks),
     bls_aggregate_sigs = bls_aggregate_sigs bls,
     bls_aggregate_keys = bls_aggregate_keys bls,
     bls_sign = (\<lambda>sk m. bls_sign bls sk (emb m)),
     bls_public_key = bls_public_key bls\<rparr>"

lemma bls_on_simps [simp]:
  "bls_verify (bls_on emb bls) pk m s = bls_verify bls pk (emb m) s"
  "bls_verify_aggregate (bls_on emb bls) s ms pks = bls_verify_aggregate bls s (map emb ms) pks"
  "bls_aggregate_sigs (bls_on emb bls) = bls_aggregate_sigs bls"
  "bls_aggregate_keys (bls_on emb bls) = bls_aggregate_keys bls"
  "bls_sign (bls_on emb bls) sk m = bls_sign bls sk (emb m)"
  "bls_public_key (bls_on emb bls) = bls_public_key bls"
  by (simp_all add: bls_on_def)

lemma bls_aggregates_on:
  assumes "bls_aggregates bls"
  shows "bls_aggregates (bls_on emb bls)"
  unfolding bls_aggregates_def bls_on_simps
proof (intro allI impI)
  fix m and shares :: "(public_key \<times> signature) list" and keys
  assume "shares \<noteq> []" "\<forall>(pk, s) \<in> set shares. bls_verify bls pk (emb m) s"
    "mset keys = mset (map fst shares)"
  then show "\<exists>s k. bls_aggregate_sigs bls (map snd shares) = Some s \<and>
      bls_aggregate_keys bls keys = Some k \<and> bls_verify bls k (emb m) s"
    using assms unfolding bls_aggregates_def by blast
qed

lemma bls_aggregate_multi_on:
  fixes emb :: "'a \<Rightarrow> 'm" and bls :: "'m bls12381"
  assumes "bls_aggregate_multi bls"
  shows "bls_aggregate_multi (bls_on emb bls)"
  unfolding bls_aggregate_multi_def bls_on_simps
proof (intro allI impI)
  fix shares :: "(public_key \<times> 'a \<times> signature) list" and signed :: "(public_key \<times> 'a) list"
  assume ne: "shares \<noteq> []" and valid: "\<forall>(pk, m, s) \<in> set shares. bls_verify bls pk (emb m) s"
    and perm: "mset signed = mset (map (\<lambda>(pk, m, s). (pk, m)) shares)"
  let ?shares = "map (\<lambda>(pk, m, s). (pk, emb m, s)) shares" and ?signed = "map (\<lambda>(pk, m). (pk, emb m)) signed"
  have "mset ?signed = mset (map (\<lambda>(pk, m, s). (pk, m)) ?shares)"
    using arg_cong [OF perm, of "image_mset (\<lambda>(pk, m). (pk, emb m))"]
    by (simp add: multiset.map_comp comp_def split_def)
  moreover have "\<forall>(pk, m, s) \<in> set ?shares. bls_verify bls pk m s" using valid by auto
  moreover have "?shares \<noteq> []" using ne by simp
  ultimately obtain s where "bls_aggregate_sigs bls (map (\<lambda>(pk, m, s). s) ?shares) = Some s"
    "bls_verify_aggregate bls s (map snd ?signed) (map fst ?signed)"
    using assms unfolding bls_aggregate_multi_def by blast
  then show "\<exists>s. bls_aggregate_sigs bls (map (\<lambda>(pk, m, s). s) shares) = Some s \<and>
      bls_verify_aggregate bls s (map emb (map snd signed)) (map fst signed)"
    by (intro exI [of _ s]) (simp add: comp_def split_def)
qed

section \<open>A concrete instance of the parameter\<close>

text \<open>
  A linear scheme over bytes: the signature of a message with encoding \<open>e\<close> under the key
  \<open>k\<close> is \<open>k * e\<close>, and aggregation is addition. It is of course no secure scheme; it shows
  that the laws above can hold together, and instantiates the parameter in the witnesses.
\<close>

definition linear_bls :: "('m \<Rightarrow> u8) \<Rightarrow> 'm bls12381" where
  "linear_bls enc = \<lparr>
     bls_verify = (\<lambda>pk m s. length pk = 1 \<and> s = [hd pk * enc m]),
     bls_verify_aggregate = (\<lambda>s ms pks. length ms = length pks \<and>
        s = [sum_list (map (\<lambda>(pk, m). hd pk * enc m) (zip pks ms))]),
     bls_aggregate_sigs = (\<lambda>ss. if ss = [] then None else Some [sum_list (map hd ss)]),
     bls_aggregate_keys = (\<lambda>ks. if ks = [] then None else Some [sum_list (map hd ks)]),
     bls_sign = (\<lambda>sk m. Some [hd sk * enc m]),
     bls_public_key = (\<lambda>sk. [hd sk])\<rparr>"

lemma linear_bls_verify [simp]:
  "bls_verify (linear_bls enc) pk m s \<longleftrightarrow> length pk = 1 \<and> s = [hd pk * enc m]"
  by (simp add: linear_bls_def)

lemma sum_list_map_mset_cong:
  fixes f :: "'a \<Rightarrow> 'b::comm_monoid_add"
  assumes "mset xs = mset ys"
  shows "sum_list (map f xs) = sum_list (map f ys)"
  using assms by (metis mset_map sum_mset_sum_list)

lemma linear_bls_aggregates: "bls_aggregates (linear_bls enc)"
  unfolding bls_aggregates_def
proof (intro allI impI)
  fix m and shares :: "(public_key \<times> signature) list" and keys
  assume ne: "shares \<noteq> []"
    and ok: "\<forall>(pk, s) \<in> set shares. bls_verify (linear_bls enc) pk m s"
    and perm: "mset keys = mset (map fst shares)"
  from ok have "sum_list (map (hd \<circ> snd) shares) = sum_list (map (\<lambda>x. hd (fst x) * enc m) shares)"
    by (intro arg_cong [of _ _ sum_list] map_cong) auto
  also have "\<dots> = sum_list (map hd (map fst shares)) * enc m"
    by (simp add: sum_list_mult_const comp_def)
  also have "\<dots> = sum_list (map hd keys) * enc m"
    using perm by (simp only: sum_list_map_mset_cong [OF perm])
  finally have sum: "sum_list (map (hd \<circ> snd) shares) = sum_list (map hd keys) * enc m" .
  have "keys \<noteq> []" using ne perm by auto
  with ne sum show "\<exists>s k. bls_aggregate_sigs (linear_bls enc) (map snd shares) = Some s \<and>
      bls_aggregate_keys (linear_bls enc) keys = Some k \<and> bls_verify (linear_bls enc) k m s"
    by (simp add: linear_bls_def)
qed

lemma linear_bls_aggregate_multi: "bls_aggregate_multi (linear_bls enc)"
  unfolding bls_aggregate_multi_def
proof (intro allI impI)
  fix shares :: "(public_key \<times> 'a \<times> signature) list" and signed
  assume ne: "shares \<noteq> []"
    and ok: "\<forall>(pk, m, s) \<in> set shares. bls_verify (linear_bls enc) pk m s"
    and perm: "mset signed = mset (map (\<lambda>(pk, m, s). (pk, m)) shares)"
  let ?f = "\<lambda>(pk, m). hd pk * enc m"
  from ok have "sum_list (map (\<lambda>(pk, m, s). hd s) shares)
      = sum_list (map ?f (map (\<lambda>(pk, m, s). (pk, m)) shares))"
    by (intro arg_cong [of _ _ sum_list]) (fastforce simp: comp_def)
  also have "\<dots> = sum_list (map ?f signed)"
    by (rule sum_list_map_mset_cong [OF perm, symmetric])
  finally have "sum_list (map (\<lambda>(pk, m, s). hd s) shares)
      = sum_list (map ?f (zip (map fst signed) (map snd signed)))"
    by (simp add: zip_map_fst_snd)
  with ne show "\<exists>s. bls_aggregate_sigs (linear_bls enc) (map (\<lambda>(pk, m, s). s) shares) = Some s \<and>
      bls_verify_aggregate (linear_bls enc) s (map snd signed) (map fst signed)"
    by (simp add: linear_bls_def comp_def split_def)
qed

lemma linear_bls_signs: "bls_signs (linear_bls enc)"
  by (auto simp: bls_signs_def linear_bls_def)

lemma linear_bls_aggregate_lengths: "bls_aggregate_lengths (linear_bls enc)"
  by (simp add: bls_aggregate_lengths_def linear_bls_def)

end
