(* ===== verification/Validator_Verifier.thy ===== *)
theory Validator_Verifier
  imports BitVec Crypto
begin

text \<open>
  Validator sets and quorums: \<open>types/src/validator_verifier.rs\<close> and
  \<open>types/src/aggregate_signature.rs\<close>. A verifier holds the validators of an epoch with their
  keys and voting powers; it decides whether a set of signers has a quorum (more than two thirds of
  the voting power), aggregates signature shares, and verifies multi-signatures (one message) and
  aggregate signatures (one message per signer).

  The in-memory \<open>HashMap\<close> index is a finite map from addresses to positions; as its iteration
  order is never observed it is kept in key order. The early return under
  \<open>cfg(any(test, feature = "fuzzing"))\<close> in \<open>verify_multi_signatures\<close> is test code and not
  part of the model.
\<close>

section \<open>Model\<close>

datatype verify_error =
    UnknownAuthor
  | TooLittleVotingPower u128 u128
  | EmptySignature
  | InvalidMultiSignature
  | InvalidAggregatedSignature
  | InconsistentBlockInfo
  | FailedToAggregatePubKey
  | FailedToAggregateSignature
  | FailedToVerifyMultiSignature
  | InvalidBitVec
  | FailedToVerifyAggregatedSignature

record validator_consensus_info =
  vci_address :: account_address
  vci_public_key :: public_key
  vci_voting_power :: u64

record validator_verifier =
  validator_infos :: "validator_consensus_info list"
  quorum_voting_power :: u128
  total_voting_power :: u128
  address_to_validator_index :: "(account_address, nat) btree_map"

subsection \<open>Aggregate and partial signatures\<close>

record aggregate_signature =
  validator_bitmask :: bit_vec
  agg_sig :: "signature option"

definition AggregateSignature_empty :: aggregate_signature where
  "AggregateSignature_empty = \<lparr>validator_bitmask = \<lparr>inner = []\<rparr>, agg_sig = None\<rparr>"

definition get_voter_addresses :: "aggregate_signature \<Rightarrow> account_address list \<Rightarrow> account_address list" where
  "get_voter_addresses asig addrs =
     List.map_filter (\<lambda>(index, addr). if is_set (validator_bitmask asig) (of_nat index)
        then Some addr else None) (enumerate 0 addrs)"

definition get_num_voters :: "aggregate_signature \<Rightarrow> nat" where
  "get_num_voters asig = count_ones (validator_bitmask asig)"

record partial_signatures =
  ps_signatures :: "(account_address, signature) btree_map"

definition PartialSignatures_empty :: partial_signatures where
  "PartialSignatures_empty = \<lparr>ps_signatures = []\<rparr>"

definition PartialSignatures_remove :: "partial_signatures \<Rightarrow> account_address \<Rightarrow> partial_signatures" where
  "PartialSignatures_remove ps validator = ps\<lparr>ps_signatures := bt_remove validator (ps_signatures ps)\<rparr>"

definition PartialSignatures_add ::
  "partial_signatures \<Rightarrow> account_address \<Rightarrow> signature \<Rightarrow> partial_signatures" where
  "PartialSignatures_add ps validator sg =
     ps\<lparr>ps_signatures := bt_or_insert validator sg (ps_signatures ps)\<rparr>"

subsection \<open>Construction\<close>

definition build_index ::
  "validator_consensus_info list \<Rightarrow> u128 \<Rightarrow> u128 \<Rightarrow> validator_verifier" where
  "build_index infos quorum tot = \<lparr>
     validator_infos = infos,
     quorum_voting_power = quorum,
     total_voting_power = tot,
     address_to_validator_index =
       fold (\<lambda>(index, info) m. bt_insert (vci_address info) index m) (enumerate 0 infos) []\<rparr>"

fun sum_voting_power_from :: "u128 \<Rightarrow> validator_consensus_info list \<Rightarrow> (u128, 'e) result" where
  "sum_voting_power_from s [] = Ok s"
| "sum_voting_power_from s (x # xs) =
     bind_res (or_panic (checked_add s (ucast (vci_voting_power x))))
       (\<lambda>s'. sum_voting_power_from s' xs)"

definition sum_voting_power :: "validator_consensus_info list \<Rightarrow> (u128, 'e) result" where
  "sum_voting_power infos = sum_voting_power_from 0 infos"

definition ValidatorVerifier_new :: "validator_consensus_info list \<Rightarrow> (validator_verifier, 'e) result" where
  "ValidatorVerifier_new infos =
     bind_res (sum_voting_power infos) (\<lambda>tot.
     bind_res (if infos = [] then Ok 0
               else bind_res (mul_chk tot 2) (\<lambda>d. add_chk (d div 3) 1)) (\<lambda>quorum.
     Ok (build_index infos quorum tot)))"

definition new_with_quorum_voting_power ::
  "validator_consensus_info list \<Rightarrow> u128 \<Rightarrow> (validator_verifier, string) result" where
  "new_with_quorum_voting_power infos quorum =
     bind_res (sum_voting_power infos) (\<lambda>tot.
     bind_res (ensure (quorum \<le> tot)
       ''Quorum voting power is greater than the sum of all voting power of authors'') (\<lambda>_.
     Ok (build_index infos quorum tot)))"

definition new_single :: "account_address \<Rightarrow> public_key \<Rightarrow> (validator_verifier, 'e) result" where
  "new_single author pk =
     ValidatorVerifier_new [\<lparr>vci_address = author, vci_public_key = pk, vci_voting_power = 1\<rparr>]"

subsection \<open>Queries\<close>

definition get_public_key :: "validator_verifier \<Rightarrow> account_address \<Rightarrow> public_key option" where
  "get_public_key v author =
     map_option (\<lambda>index. vci_public_key (validator_infos v ! index))
       (map_of (address_to_validator_index v) author)"

definition get_voting_power :: "validator_verifier \<Rightarrow> account_address \<Rightarrow> u64 option" where
  "get_voting_power v author =
     map_option (\<lambda>index. vci_voting_power (validator_infos v ! index))
       (map_of (address_to_validator_index v) author)"

definition get_ordered_account_addresses :: "validator_verifier \<Rightarrow> account_address list" where
  "get_ordered_account_addresses v = map vci_address (validator_infos v)"

definition verifier_len :: "validator_verifier \<Rightarrow> nat" where
  "verifier_len v = length (validator_infos v)"

fun aggregate_voting_power ::
  "validator_verifier \<Rightarrow> u128 \<Rightarrow> account_address list \<Rightarrow> (u128, verify_error) result" where
  "aggregate_voting_power v acc [] = Ok acc"
| "aggregate_voting_power v acc (a # authors) =
     (case get_voting_power v a of
        Some vp \<Rightarrow> bind_res (add_chk acc (ucast vp)) (\<lambda>acc'. aggregate_voting_power v acc' authors)
      | None \<Rightarrow> Err UnknownAuthor)"

definition check_voting_power :: "validator_verifier \<Rightarrow> account_address list \<Rightarrow> (unit, verify_error) result" where
  "check_voting_power v authors =
     bind_res (aggregate_voting_power v 0 authors) (\<lambda>agg.
       if agg < quorum_voting_power v
       then Err (TooLittleVotingPower agg (quorum_voting_power v)) else Ok ())"

definition check_num_of_voters :: "u16 \<Rightarrow> bit_vec \<Rightarrow> (unit, verify_error) result" where
  "check_num_of_voters num_validators bitvec =
     (if num_buckets bitvec \<noteq> required_buckets num_validators then Err InvalidBitVec
      else case last_set_bit bitvec of
             Some last_bit \<Rightarrow> if last_bit \<ge> num_validators then Err InvalidBitVec else Ok ()
           | None \<Rightarrow> Ok ())"

subsection \<open>Signatures\<close>

definition ValidatorVerifier_verify ::
  "'m bls12381 \<Rightarrow> validator_verifier \<Rightarrow> account_address \<Rightarrow> 'm \<Rightarrow> signature \<Rightarrow> (unit, verify_error) result" where
  "ValidatorVerifier_verify bls v author message sg =
     (case get_public_key v author of
        Some pk \<Rightarrow> ensure (bls_verify bls pk message sg) InvalidMultiSignature
      | None \<Rightarrow> Err UnknownAuthor)"

fun mark_signers ::
  "validator_verifier \<Rightarrow> (account_address \<times> signature) list \<Rightarrow> bit_vec \<Rightarrow> signature list \<Rightarrow>
   (bit_vec \<times> signature list, verify_error) result" where
  "mark_signers v [] masks sigs = Ok (masks, sigs)"
| "mark_signers v ((addr, sg) # rest) masks sigs =
     bind_res (ok_or (map_of (address_to_validator_index v) addr) UnknownAuthor) (\<lambda>index.
       mark_signers v rest (BitVec_set masks (of_nat index)) (sigs @ [sg]))"

definition aggregate_signatures ::
  "'m bls12381 \<Rightarrow> validator_verifier \<Rightarrow> partial_signatures \<Rightarrow> (aggregate_signature, verify_error) result" where
  "aggregate_signatures bls v partial =
     bind_res (mark_signers v (ps_signatures partial) (with_num_bits (of_nat (verifier_len v))) [])
       (\<lambda>(masks, sigs).
     bind_res (ok_or (bls_aggregate_sigs bls sigs) FailedToAggregateSignature) (\<lambda>aggregated.
     Ok \<lparr>validator_bitmask = masks, agg_sig = Some aggregated\<rparr>))"

fun collect_signers ::
  "validator_verifier \<Rightarrow> nat list \<Rightarrow> (validator_consensus_info list, verify_error) result" where
  "collect_signers v [] = Ok []"
| "collect_signers v (i # is) =
     bind_res (ok_or (if i < length (validator_infos v) then Some (validator_infos v ! i) else None)
       UnknownAuthor) (\<lambda>info.
     bind_res (collect_signers v is) (\<lambda>infos. Ok (info # infos)))"

definition verify_multi_signatures ::
  "'m bls12381 \<Rightarrow> validator_verifier \<Rightarrow> 'm \<Rightarrow> aggregate_signature \<Rightarrow> (unit, verify_error) result" where
  "verify_multi_signatures bls v message multi_signature =
     bind_res (check_num_of_voters (of_nat (verifier_len v)) (validator_bitmask multi_signature)) (\<lambda>_.
     bind_res (collect_signers v (iter_ones (validator_bitmask multi_signature))) (\<lambda>signers.
     bind_res (check_voting_power v (map vci_address signers)) (\<lambda>_.
     bind_res (ok_or (agg_sig multi_signature) EmptySignature) (\<lambda>multi_sig.
     bind_res (ok_or (bls_aggregate_keys bls (map vci_public_key signers)) FailedToAggregatePubKey)
       (\<lambda>aggregated_key.
     ensure (bls_verify bls aggregated_key message multi_sig) InvalidMultiSignature)))))"

definition verify_aggregate_signatures ::
  "'m bls12381 \<Rightarrow> validator_verifier \<Rightarrow> 'm list \<Rightarrow> aggregate_signature \<Rightarrow> (unit, verify_error) result" where
  "verify_aggregate_signatures bls v messages aggregated_signature =
     bind_res (check_num_of_voters (of_nat (verifier_len v)) (validator_bitmask aggregated_signature)) (\<lambda>_.
     bind_res (collect_signers v (iter_ones (validator_bitmask aggregated_signature))) (\<lambda>signers.
     bind_res (check_voting_power v (map vci_address signers)) (\<lambda>_.
     bind_res (ok_or (agg_sig aggregated_signature) EmptySignature) (\<lambda>aggregated_sig.
     ensure (bls_verify_aggregate bls aggregated_sig messages (map vci_public_key signers))
       InvalidAggregatedSignature))))"

subsection \<open>Conversion from the on-chain validator set\<close>

record validator_config =
  vc_consensus_public_key :: public_key
  vc_validator_network_addresses :: "u8 list"
  vc_fullnode_network_addresses :: "u8 list"
  vc_validator_index :: u64

record validator_info =
  vi_account_address :: account_address
  vi_consensus_voting_power :: u64
  vi_config :: validator_config

datatype consensus_scheme = BLS12381

record validator_set =
  vs_scheme :: consensus_scheme
  active_validators :: "validator_info list"
  pending_inactive :: "validator_info list"
  pending_active :: "validator_info list"
  vs_total_voting_power :: u128
  vs_total_joining_power :: u128

definition ValidatorSet_new :: "validator_info list \<Rightarrow> validator_set" where
  "ValidatorSet_new payload = \<lparr>vs_scheme = BLS12381, active_validators = payload, pending_inactive = [],
     pending_active = [], vs_total_voting_power = 0, vs_total_joining_power = 0\<rparr>"

definition ValidatorSet_payload :: "validator_set \<Rightarrow> validator_info list" where
  "ValidatorSet_payload vs = active_validators vs @ pending_inactive vs"

definition verifier_from_validator_set :: "validator_set \<Rightarrow> (validator_verifier, 'e) result" where
  "verifier_from_validator_set vs =
     (let sorted = fold (\<lambda>info m. bt_insert (vc_validator_index (vi_config info))
                      \<lparr>vci_address = vi_account_address info,
                       vci_public_key = vc_consensus_public_key (vi_config info),
                       vci_voting_power = vi_consensus_voting_power info\<rparr> m)
                    (ValidatorSet_payload vs) [];
          infos = map snd sorted
      in if list_all (\<lambda>info. let i = unat (vc_validator_index (vi_config info)) in
                i < length infos \<and> vci_address (infos ! i) = vi_account_address info)
              (ValidatorSet_payload vs)
         then ValidatorVerifier_new infos
         else Panic)"

section \<open>The index of addresses\<close>

lemma index_lookup_Some:
  assumes "map_of (address_to_validator_index (build_index infos q t)) a = Some i"
  shows "i < length infos" and "vci_address (infos ! i) = a"
proof -
  have "map_of (address_to_validator_index (build_index infos q t)) a = Some i
      \<Longrightarrow> i < length infos \<and> vci_address (infos ! i) = a"
  proof (induction infos arbitrary: i rule: rev_induct)
    case (snoc x infos)
    then show ?case
      by (auto simp: build_index_def enumerate_append_eq bt_get_insert nth_append split: if_splits)
  qed (simp add: build_index_def)
  with assms show "i < length infos" and "vci_address (infos ! i) = a" by auto
qed

lemma index_dom:
  "dom (map_of (address_to_validator_index (build_index infos q t))) = vci_address ` set infos"
proof (induction infos rule: rev_induct)
  case (snoc x infos)
  have "map_of (address_to_validator_index (build_index (infos @ [x]) q t))
      = (map_of (address_to_validator_index (build_index infos q t)))(vci_address x \<mapsto> length infos)"
    by (simp add: build_index_def enumerate_append_eq bt_get_insert)
  with snoc show ?case by (simp only: dom_fun_upd) simp
qed (simp add: build_index_def)

lemma index_lookup_distinct:
  assumes "distinct (map vci_address infos)"
  shows "map_of (address_to_validator_index (build_index infos q t)) a = Some i \<longleftrightarrow>
    i < length infos \<and> vci_address (infos ! i) = a"
proof
  assume i: "i < length infos \<and> vci_address (infos ! i) = a"
  then have "a \<in> vci_address ` set infos" by auto
  then obtain j where j: "map_of (address_to_validator_index (build_index infos q t)) a = Some j"
    using index_dom [of infos q t] by auto
  with index_lookup_Some [OF j] i assms have "i = j"
    by (metis length_map nth_eq_iff_index_eq nth_map)
  with j show "map_of (address_to_validator_index (build_index infos q t)) a = Some i" by simp
qed (auto dest: index_lookup_Some)

section \<open>Well-formed verifiers\<close>

lemma unat_ucast_64_128 [simp]: "unat (ucast (x :: u64) :: u128) = unat x"
  using unat_below [of x] by (simp add: unsigned_ucast_eq take_bit_nat_eq_self)

lemma sum_voting_power_from_Ok [res_iff]:
  fixes r :: u128
  shows "sum_voting_power_from s infos = (Ok r :: (u128, 'e) result) \<longleftrightarrow>
     unat s + (\<Sum>x\<leftarrow>infos. unat (vci_voting_power x)) = unat r"
proof (induction infos arbitrary: s)
  case (Cons x xs)
  let ?p = "unat (vci_voting_power x)" and ?ps = "\<Sum>x\<leftarrow>xs. unat (vci_voting_power x)"
  have "(\<exists>s'. unat s + ?p = unat (s' :: u128) \<and> unat s' + ?ps = unat r) \<longleftrightarrow> unat s + ?p + ?ps = unat r"
  proof
    assume r: "unat s + ?p + ?ps = unat r"
    then have "unat s + unat (ucast (vci_voting_power x) :: u128) < 2 ^ LENGTH(128)"
      using unat_below [of r] by simp
    then have "unat (s + ucast (vci_voting_power x)) = unat s + ?p"
      by (simp only: unat_add_no_wrap unat_ucast_64_128)
    with r show "\<exists>s'. unat s + ?p = unat (s' :: u128) \<and> unat s' + ?ps = unat r" by metis
  qed auto
  then show ?case
    by (simp add: bind_res_Ok_iff or_panic_Ok_iff checked_add_Some Cons.IH add.assoc)
qed (auto simp: word_unat_eq_iff)

text \<open>A verifier of a non-empty validator set with distinct addresses, as the constructor builds it.\<close>

definition vv_wf :: "validator_verifier \<Rightarrow> bool" where
  "vv_wf v \<longleftrightarrow> validator_infos v \<noteq> [] \<and> distinct (map vci_address (validator_infos v)) \<and>
     ValidatorVerifier_new (validator_infos v) = (Ok v :: (validator_verifier, unit) result)"

lemma ValidatorVerifier_new_Ok:
  assumes "ValidatorVerifier_new infos = (Ok v :: (validator_verifier, 'e) result)" "infos \<noteq> []"
  shows "v = build_index infos (quorum_voting_power v) (total_voting_power v)"
    and "unat (total_voting_power v) = (\<Sum>x\<leftarrow>infos. unat (vci_voting_power x))"
    and "unat (quorum_voting_power v) = 2 * unat (total_voting_power v) div 3 + 1"
proof -
  from assms obtain t q where "sum_voting_power infos = (Ok t :: (u128, 'e) result)"
    and b: "bind_res (mul_chk t 2) (\<lambda>d. add_chk (d div 3) 1) = (Ok q :: (u128, 'e) result)"
    and v: "v = build_index infos q t"
    by (auto simp: ValidatorVerifier_new_def bind_res_Ok_iff)
  then have t: "(\<Sum>x\<leftarrow>infos. unat (vci_voting_power x)) = unat t"
    by (simp add: sum_voting_power_def sum_voting_power_from_Ok)
  from b have "\<exists>d :: u128. unat t * 2 = unat d \<and> unat (d div 3) + 1 = unat q"
    by (simp add: res_iff)
  then obtain d :: u128 where d: "unat t * 2 = unat d" and q: "unat (d div 3) + 1 = unat q" by blast
  from t d q v show "v = build_index infos (quorum_voting_power v) (total_voting_power v)"
    and "unat (total_voting_power v) = (\<Sum>x\<leftarrow>infos. unat (vci_voting_power x))"
    and "unat (quorum_voting_power v) = 2 * unat (total_voting_power v) div 3 + 1"
    by (simp_all add: build_index_def unat_div mult.commute)
qed

lemma vv_wf_build:
  assumes "vv_wf v"
  shows "v = build_index (validator_infos v) (quorum_voting_power v) (total_voting_power v)"
    and "unat (total_voting_power v) = (\<Sum>x\<leftarrow>validator_infos v. unat (vci_voting_power x))"
    and "unat (quorum_voting_power v) = 2 * unat (total_voting_power v) div 3 + 1"
    and "distinct (map vci_address (validator_infos v))"
  using assms ValidatorVerifier_new_Ok [of "validator_infos v" v] by (auto simp: vv_wf_def)

lemma vv_index:
  assumes "vv_wf v"
  shows "map_of (address_to_validator_index v) a = Some i \<longleftrightarrow>
    i < length (validator_infos v) \<and> vci_address (validator_infos v ! i) = a"
  using index_lookup_distinct [OF vv_wf_build(4) [OF assms]] vv_wf_build(1) [OF assms] by metis

text \<open>The voting power of an address, 0 for an unknown one.\<close>

definition power_of :: "validator_verifier \<Rightarrow> account_address \<Rightarrow> nat" where
  "power_of v a = (case get_voting_power v a of Some p \<Rightarrow> unat p | None \<Rightarrow> 0)"

definition validators :: "validator_verifier \<Rightarrow> account_address set" where
  "validators v = set (map vci_address (validator_infos v))"

lemma get_voting_power_info:
  assumes "vv_wf v" "i < length (validator_infos v)"
  shows "get_voting_power v (vci_address (validator_infos v ! i)) = Some (vci_voting_power (validator_infos v ! i))"
proof -
  have "map_of (address_to_validator_index v) (vci_address (validator_infos v ! i)) = Some i"
    using assms by (simp add: vv_index)
  then show ?thesis by (simp add: get_voting_power_def)
qed

lemma get_public_key_info:
  assumes "vv_wf v" "i < length (validator_infos v)"
  shows "get_public_key v (vci_address (validator_infos v ! i)) = Some (vci_public_key (validator_infos v ! i))"
proof -
  have "map_of (address_to_validator_index v) (vci_address (validator_infos v ! i)) = Some i"
    using assms by (simp add: vv_index)
  then show ?thesis by (simp add: get_public_key_def)
qed

lemma get_voting_power_known:
  assumes "vv_wf v"
  shows "get_voting_power v a \<noteq> None \<longleftrightarrow> a \<in> validators v"
proof -
  have "get_voting_power v a \<noteq> None \<longleftrightarrow> (\<exists>i. map_of (address_to_validator_index v) a = Some i)"
    by (simp add: get_voting_power_def)
  also have "\<dots> \<longleftrightarrow> a \<in> validators v"
    unfolding vv_index [OF assms] validators_def by (force simp: set_conv_nth)
  finally show ?thesis .
qed

lemma power_of_unknown: "vv_wf v \<Longrightarrow> a \<notin> validators v \<Longrightarrow> power_of v a = 0"
  using get_voting_power_known [of v a] by (auto simp: power_of_def)

lemma total_power_sum:
  assumes "vv_wf v"
  shows "unat (total_voting_power v) = sum (power_of v) (validators v)"
proof -
  have "map (power_of v) (map vci_address (validator_infos v))
      = map (\<lambda>x. unat (vci_voting_power x)) (validator_infos v)"
    by (auto simp: list_eq_iff_nth_eq power_of_def get_voting_power_info [OF assms])
  then show ?thesis
    using vv_wf_build [OF assms]
    by (simp add: validators_def sum_list_distinct_conv_sum_set [symmetric] del: map_map set_map)
qed

section \<open>Quorums\<close>

lemma aggregate_voting_power_Ok:
  "aggregate_voting_power v acc authors = Ok r \<longleftrightarrow>
     (\<forall>a \<in> set authors. get_voting_power v a \<noteq> None) \<and>
     unat acc + sum_list (map (power_of v) authors) = unat r"
proof (induction authors arbitrary: acc)
  case (Cons a authors)
  show ?case
  proof (cases "get_voting_power v a")
    case (Some p)
    have "(\<exists>s. unat acc + unat p = unat (s :: u128) \<and> unat s + sum_list (map (power_of v) authors) = unat r)
      \<longleftrightarrow> unat acc + unat p + sum_list (map (power_of v) authors) = unat r"
    proof
      assume r: "unat acc + unat p + sum_list (map (power_of v) authors) = unat r"
      then have "unat acc + unat (ucast p :: u128) < 2 ^ LENGTH(128)"
        using unat_below [of r] by simp
      then have "unat (acc + ucast p) = unat acc + unat p"
        by (simp only: unat_add_no_wrap unat_ucast_64_128)
      with r show "\<exists>s. unat acc + unat p = unat (s :: u128) \<and>
          unat s + sum_list (map (power_of v) authors) = unat r" by metis
    qed auto
    moreover have "power_of v a = unat p" by (simp add: power_of_def Some)
    ultimately show ?thesis
      by (simp add: Some bind_res_Ok_iff add_chk_Ok_iff Cons.IH add.assoc) blast
  qed simp
qed (auto simp: word_unat_eq_iff)

lemma aggregate_voting_power_unknown:
  assumes "sum_list (map (power_of v) authors) + unat acc < 2 ^ 128"
    and "\<exists>a \<in> set authors. get_voting_power v a = None"
  shows "aggregate_voting_power v acc authors = Err UnknownAuthor"
  using assms
proof (induction authors arbitrary: acc)
  case (Cons a authors)
  show ?case
  proof (cases "get_voting_power v a")
    case (Some p)
    then have pa: "power_of v a = unat p" by (simp add: power_of_def)
    with Cons.prems(1) have "unat acc + unat (ucast p :: u128) < 2 ^ LENGTH(128)" by simp
    then have "add_chk acc (ucast p) = (Ok (acc + ucast p) :: (u128, verify_error) result)"
      and "unat (acc + ucast p) = unat acc + unat p"
      by (simp_all only: add_chk_defined unat_add_no_wrap unat_ucast_64_128)
    with Cons Some pa show ?thesis by auto
  qed simp
qed simp

text \<open>
  The abstract contract of a weighted quorum system: a threshold above two thirds of the weight of
  finitely many members. Any two quorums then overlap in more than a third of the weight, hence
  in a member outside any set of at most a third of it.
\<close>

locale weighted_quorums =
  fixes members :: "'v \<Rightarrow> 'a set"
    and weight :: "'v \<Rightarrow> 'a \<Rightarrow> nat"
    and threshold :: "'v \<Rightarrow> nat"
    and invar :: "'v \<Rightarrow> bool"
  assumes finite_members: "invar v \<Longrightarrow> finite (members v)"
    and two_thirds: "invar v \<Longrightarrow> 2 * sum (weight v) (members v) < 3 * threshold v"
begin

lemma overlap_weight:
  assumes "invar v" "P \<subseteq> members v" "Q \<subseteq> members v"
    "threshold v \<le> sum (weight v) P" "threshold v \<le> sum (weight v) Q"
  shows "sum (weight v) (members v) < 3 * sum (weight v) (P \<inter> Q)"
proof -
  have fin: "finite P" "finite Q"
    using assms finite_members finite_subset by blast+
  have "sum (weight v) (P \<union> Q) + sum (weight v) (P \<inter> Q) = sum (weight v) P + sum (weight v) Q"
    by (rule sum.union_inter [OF fin])
  moreover have "sum (weight v) (P \<union> Q) \<le> sum (weight v) (members v)"
    using assms finite_members by (intro sum_mono2) auto
  ultimately show ?thesis
    using two_thirds [OF assms(1)] assms(4,5) by linarith
qed

lemma overlap_outside:
  assumes "invar v" "P \<subseteq> members v" "Q \<subseteq> members v"
    "threshold v \<le> sum (weight v) P" "threshold v \<le> sum (weight v) Q"
    and faulty: "3 * sum (weight v) (F \<inter> members v) \<le> sum (weight v) (members v)"
  shows "\<exists>a. a \<in> P \<and> a \<in> Q \<and> a \<notin> F"
proof (rule ccontr)
  assume "\<not> ?thesis"
  then have "P \<inter> Q \<subseteq> F \<inter> members v" using assms(2) by blast
  then have "sum (weight v) (P \<inter> Q) \<le> sum (weight v) (F \<inter> members v)"
    using assms(1) finite_members by (intro sum_mono2) auto
  with overlap_weight [OF assms(1-5)] faulty show False by linarith
qed

end

lemma quorum_above_two_thirds:
  assumes "vv_wf v"
  shows "unat (quorum_voting_power v) \<le> n \<longleftrightarrow> 2 * unat (total_voting_power v) < 3 * n"
  unfolding vv_wf_build(3) [OF assms] by linarith

interpretation vq: weighted_quorums validators power_of "\<lambda>v. unat (quorum_voting_power v)" vv_wf
proof unfold_locales
  fix v assume wf: "vv_wf v"
  show "finite (validators v)" by (simp add: validators_def)
  show "2 * sum (power_of v) (validators v) < 3 * unat (quorum_voting_power v)"
    using quorum_above_two_thirds [OF wf, of "unat (quorum_voting_power v)"] total_power_sum [OF wf]
    by simp
qed

lemma power_sum_below:
  assumes "vv_wf v" "distinct authors"
  shows "sum_list (map (power_of v) authors) \<le> unat (total_voting_power v)"
proof -
  have "sum_list (map (power_of v) authors) = sum (power_of v) (set authors)"
    using assms(2) by (simp add: sum_list_distinct_conv_sum_set)
  also have "\<dots> = sum (power_of v) (set authors \<inter> validators v)"
    using power_of_unknown [OF assms(1)] by (intro sum.mono_neutral_right) auto
  also have "\<dots> \<le> sum (power_of v) (validators v)"
    by (rule sum_mono2) (auto simp: validators_def)
  finally show ?thesis by (simp add: total_power_sum [OF assms(1)])
qed

lemma check_voting_power_Ok:
  assumes "vv_wf v" "check_voting_power v authors = Ok ()"
  shows "set authors \<subseteq> validators v"
    and "unat (quorum_voting_power v) \<le> sum_list (map (power_of v) authors)"
proof -
  from assms(2) obtain r where r: "aggregate_voting_power v 0 authors = Ok r"
    and q: "quorum_voting_power v \<le> r"
    by (auto simp: check_voting_power_def bind_res_Ok_iff split: if_splits)
  then show "set authors \<subseteq> validators v"
    using get_voting_power_known [OF assms(1)] by (auto simp: aggregate_voting_power_Ok)
  show "unat (quorum_voting_power v) \<le> sum_list (map (power_of v) authors)"
    using r q by (simp add: aggregate_voting_power_Ok word_le_nat_alt)
qed

lemma check_voting_power_OkI:
  assumes wf: "vv_wf v" and d: "distinct authors" and known: "set authors \<subseteq> validators v"
    and q: "unat (quorum_voting_power v) \<le> sum (power_of v) (set authors)"
  shows "check_voting_power v authors = Ok ()"
proof -
  let ?s = "sum_list (map (power_of v) authors)"
  have "?s < 2 ^ 128"
    using power_sum_below [OF wf d] unat_below [of "total_voting_power v"] by simp
  then have s: "unat (of_nat ?s :: u128) = ?s" by (simp add: unat_of_nat)
  have "aggregate_voting_power v 0 authors = Ok (of_nat ?s)"
    using known get_voting_power_known [OF wf] by (auto simp: aggregate_voting_power_Ok s)
  moreover have "unat (quorum_voting_power v) \<le> ?s"
    using q d by (simp add: sum_list_distinct_conv_sum_set)
  then have "\<not> of_nat ?s < quorum_voting_power v"
    by (simp only: word_less_nat_alt s not_less)
  ultimately show ?thesis by (simp add: check_voting_power_def)
qed

lemma aggregate_voting_power_value:
  assumes "vv_wf v" "distinct authors" "set authors \<subseteq> validators v"
  shows "aggregate_voting_power v 0 authors = Ok (of_nat (sum (power_of v) (set authors)))"
proof -
  have eq: "sum_list (map (power_of v) authors) = sum (power_of v) (set authors)"
    using assms(2) by (simp add: sum_list_distinct_conv_sum_set)
  have "sum (power_of v) (set authors) < 2 ^ 128"
    using power_sum_below [OF assms(1,2)] unat_below [of "total_voting_power v"] eq by simp
  then have "unat (of_nat (sum (power_of v) (set authors)) :: u128) = sum (power_of v) (set authors)"
    by (intro unat_of_nat_below) simp
  with assms(3) show ?thesis
    using get_voting_power_known [OF assms(1)] by (auto simp only: aggregate_voting_power_Ok eq) simp_all
qed

section \<open>Aggregation and verification of multi-signatures\<close>

definition index_of :: "validator_verifier \<Rightarrow> account_address \<Rightarrow> nat" where
  "index_of v a = the (map_of (address_to_validator_index v) a)"

lemma mark_signers_Ok:
  "mark_signers v ps masks sigs = Ok (masks', sigs') \<longleftrightarrow>
     (\<forall>a \<in> set (map fst ps). map_of (address_to_validator_index v) a \<noteq> None) \<and>
     masks' = fold (\<lambda>p b. BitVec_set b p) (map (of_nat \<circ> index_of v) (map fst ps)) masks \<and>
     sigs' = sigs @ map snd ps"
proof (induction ps arbitrary: masks sigs)
  case (Cons p ps)
  obtain a sg where "p = (a, sg)" by (cases p)
  then show ?case
    by (cases "map_of (address_to_validator_index v) a")
      (simp_all add: index_of_def res_iff Cons.IH del: map_map)
qed auto

lemma collect_signers_Ok:
  "collect_signers v is = Ok infos \<longleftrightarrow>
     (\<forall>i \<in> set is. i < length (validator_infos v)) \<and> infos = map (\<lambda>i. validator_infos v ! i) is"
  by (induction "is" arbitrary: infos) (auto simp: res_iff)

lemma num_buckets_fold_set:
  assumes "\<forall>i \<in> set is. i < n" "n < 2 ^ 16"
  shows "num_buckets (fold (\<lambda>p b. BitVec_set b p) (map of_nat is) (with_num_bits (of_nat n)))
    = required_buckets (of_nat n)"
proof -
  have req: "required_buckets (of_nat n) = (n + 7) div 8"
  proof (cases n)
    case (Suc m)
    have "unat (of_nat n :: u16) = n" using assms(2) by (simp add: unat_of_nat)
    moreover have "unat (of_nat m :: u16) = m" using assms(2) Suc by (simp add: unat_of_nat)
    ultimately have "checked_sub (of_nat n :: u16) 1 = Some (of_nat m)"
      using Suc by (simp add: checked_sub_Some)
    then show ?thesis
      using \<open>unat (of_nat m :: u16) = m\<close> Suc by (simp add: required_buckets_def BUCKET_SIZE_def)
  qed (simp add: required_buckets_def checked_sub_def)
  have "length (inner bv) = (n + 7) div 8 \<Longrightarrow>
    length (inner (fold (\<lambda>p b. BitVec_set b p) (map of_nat is) bv)) = (n + 7) div 8" for bv
    using assms(1)
  proof (induction "is" arbitrary: bv)
    case (Cons i "is")
    then have i: "i < n" by simp
    then have "unat (of_nat i :: u16) = i" using assms(2) by (simp add: unat_of_nat)
    moreover have "i div 8 + 1 \<le> (n + 7) div 8" using i by arith
    ultimately show ?case using Cons by (simp add: length_BitVec_set)
  qed simp
  then show ?thesis
    by (simp add: num_buckets_def req with_num_bits_def)
qed

text \<open>The bit mask \<open>aggregate_signatures\<close> builds for a list of signers.\<close>

definition signer_mask :: "validator_verifier \<Rightarrow> account_address list \<Rightarrow> bit_vec" where
  "signer_mask v addrs =
     fold (\<lambda>p b. BitVec_set b p) (map (of_nat \<circ> index_of v) addrs) (with_num_bits (of_nat (verifier_len v)))"

lemma index_of_validator:
  assumes "vv_wf v" "a \<in> validators v"
  shows "index_of v a < verifier_len v" "vci_address (validator_infos v ! index_of v a) = a"
    and "map_of (address_to_validator_index v) a = Some (index_of v a)"
proof -
  obtain i where "i < length (validator_infos v)" "vci_address (validator_infos v ! i) = a"
    using assms(2) unfolding validators_def by (force simp: set_conv_nth)
  then have i: "map_of (address_to_validator_index v) a = Some i"
    by (simp add: vv_index [OF assms(1)])
  then show "map_of (address_to_validator_index v) a = Some (index_of v a)"
    by (simp add: index_of_def)
  then show "index_of v a < verifier_len v" "vci_address (validator_infos v ! index_of v a) = a"
    by (simp_all add: vv_index [OF assms(1)] verifier_len_def)
qed

lemma bv_wf_signer_mask: "bv_wf (signer_mask v addrs)"
  unfolding signer_mask_def by (rule bv.invar_fold_add) (rule bv_wf_with_num_bits)

lemma is_set_signer_mask: "is_set (signer_mask v addrs) q \<longleftrightarrow> q \<in> of_nat ` index_of v ` set addrs"
  unfolding signer_mask_def bv.member_fold_add by (auto simp: image_iff)

lemma set_iter_ones_signer_mask:
  assumes "vv_wf v" "set addrs \<subseteq> validators v" "verifier_len v < 2 ^ 16"
  shows "set (iter_ones (signer_mask v addrs)) = index_of v ` set addrs"
proof -
  have "unat (of_nat (index_of v a) :: u16) = index_of v a" if "a \<in> set addrs" for a
    using that assms index_of_validator(1) [OF assms(1), of a]
    by (intro unat_of_nat_below) (auto dest: less_trans)
  then have "unat ` {p. is_set (signer_mask v addrs) p} = index_of v ` set addrs"
    by (auto simp: is_set_signer_mask image_image intro!: image_eqI)
  then show ?thesis by (simp add: bv.set_ones bv_wf_signer_mask)
qed

lemma bv_wf_required:
  assumes "num_buckets bv = required_buckets n"
  shows "bv_wf bv"
proof -
  have "required_buckets n \<le> MAX_BUCKETS"
    using unat_below [where 'a = 16]
    by (auto simp: required_buckets_def BUCKET_SIZE_def MAX_BUCKETS_def less_Suc_eq_le [symmetric]
      less_mult_imp_div_less split: option.splits)
  then show ?thesis using assms by (simp add: bv_wf_def num_buckets_def)
qed

lemma check_num_of_voters_Ok:
  assumes "n < 2 ^ 16"
  shows "check_num_of_voters (of_nat n) bv = Ok () \<longleftrightarrow>
    num_buckets bv = required_buckets (of_nat n) \<and> (\<forall>p. is_set bv p \<longrightarrow> unat p < n)"
proof (cases "num_buckets bv = required_buckets (of_nat n)")
  case True
  have le: "p < of_nat n \<longleftrightarrow> unat p < n" for p :: u16
    using assms by (simp add: word_less_nat_alt unat_of_nat_below)
  note last = last_set_bit_cases [OF bv_wf_required [OF True]]
  show ?thesis
  proof (cases "last_set_bit bv")
    case None
    with last True show ?thesis by (simp add: check_num_of_voters_def)
  next
    case (Some q)
    with last have q: "is_set bv q" "\<And>p. is_set bv p \<Longrightarrow> p \<le> q" by simp_all
    then have "(\<forall>p. is_set bv p \<longrightarrow> unat p < n) \<longleftrightarrow> q < of_nat n"
      by (meson le order.strict_trans1)
    with True Some show ?thesis by (simp add: check_num_of_voters_def not_le [symmetric])
  qed
qed (simp add: check_num_of_voters_def)

lemma check_num_of_voters_signer_mask:
  assumes "vv_wf v" "set addrs \<subseteq> validators v" "verifier_len v < 2 ^ 16"
  shows "check_num_of_voters (of_nat (verifier_len v)) (signer_mask v addrs) = Ok ()"
proof -
  have idx: "index_of v a < verifier_len v" if "a \<in> set addrs" for a
    using that assms(2) index_of_validator(1) [OF assms(1)] by blast
  have "num_buckets (signer_mask v addrs) = required_buckets (of_nat (verifier_len v))"
    using num_buckets_fold_set [of "map (index_of v) addrs" "verifier_len v"] idx assms(3)
    by (simp add: signer_mask_def)
  moreover have "unat p < verifier_len v" if p: "is_set (signer_mask v addrs) p" for p
  proof -
    from p have "unat p \<in> set (iter_ones (signer_mask v addrs))"
      by (simp add: bv.set_ones bv_wf_signer_mask)
    with idx show ?thesis by (auto simp: set_iter_ones_signer_mask [OF assms])
  qed
  ultimately show ?thesis by (simp add: check_num_of_voters_Ok [OF assms(3)])
qed

lemma collect_signers_signer_mask:
  assumes wf: "vv_wf v" and known: "set addrs \<subseteq> validators v" and d: "distinct addrs"
    and len: "verifier_len v < 2 ^ 16"
  obtains signers where "collect_signers v (iter_ones (signer_mask v addrs)) = Ok signers"
    and "signers = map (\<lambda>i. validator_infos v ! i) (iter_ones (signer_mask v addrs))"
    and "mset (map vci_address signers) = mset addrs"
    and "mset (map vci_public_key signers) = mset (map (\<lambda>a. the (get_public_key v a)) addrs)"
proof -
  let ?is = "iter_ones (signer_mask v addrs)"
  let ?signers = "map (\<lambda>i. validator_infos v ! i) ?is"
  have "is": "set ?is = index_of v ` set addrs"
    by (rule set_iter_ones_signer_mask [OF wf known len])
  have bound: "i < length (validator_infos v)" if "i \<in> set ?is" for i
    using that known index_of_validator(1) [OF wf] unfolding "is" verifier_len_def by blast
  have set: "set (map vci_address ?signers) = set addrs"
  proof -
    have "vci_address (validator_infos v ! index_of v a) = a" if "a \<in> set addrs" for a
      using that known index_of_validator(2) [OF wf] by blast
    then show ?thesis by (auto simp: "is" image_image)
  qed
  have "inj_on (\<lambda>i. vci_address (validator_infos v ! i)) (set ?is)"
    using vv_wf_build(4) [OF wf] bound by (auto intro!: inj_onI simp: distinct_conv_nth)
  then have "distinct (map vci_address ?signers)"
    using bv.distinct_ones [of "signer_mask v addrs"] by (simp add: distinct_map comp_def)
  then have ma: "mset (map vci_address ?signers) = mset addrs"
    using d set by (simp only: set_eq_iff_mset_eq_distinct [symmetric])
  have "map vci_public_key ?signers = map (\<lambda>a. the (get_public_key v a)) (map vci_address ?signers)"
    using bound by (simp add: get_public_key_info [OF wf])
  then have "mset (map vci_public_key ?signers) = mset (map (\<lambda>a. the (get_public_key v a)) addrs)"
    using ma by (metis mset_map)
  moreover have "collect_signers v ?is = Ok ?signers"
    using bound by (simp add: collect_signers_Ok)
  ultimately show ?thesis using that ma by blast
qed

lemma check_voting_power_perm:
  assumes "vv_wf v" "distinct addrs" "mset bs = mset addrs" "set addrs \<subseteq> validators v"
  shows "check_voting_power v bs = check_voting_power v addrs"
proof -
  have "set bs = set addrs" "distinct bs"
    using assms(2,3) by (metis mset_eq_setD, metis mset_eq_imp_distinct_iff)
  then show ?thesis
    using assms by (simp add: check_voting_power_def aggregate_voting_power_value)
qed

section \<open>Properties\<close>

subsection \<open>Supporting lemmas\<close>

lemma map_filter_enumerate:
  "List.map_filter (\<lambda>(i, a). if P i then Some a else None) (enumerate 0 xs)
     = map (\<lambda>i. xs ! i) (filter P [0..<length xs])"
proof (induction xs rule: rev_induct)
  case (snoc x xs)
  have "map (\<lambda>i. (xs @ [x]) ! i) (filter P [0..<length xs]) = map (\<lambda>i. xs ! i) (filter P [0..<length xs])"
    by (simp add: nth_append)
  with snoc show ?case
    by (simp add: enumerate_append_eq List.map_filter_def)
qed (simp add: List.map_filter_def)

lemma collect_signers_get_voter_addresses:
  assumes "collect_signers v (iter_ones (validator_bitmask sg)) = Ok signers"
    and len: "verifier_len v < 2 ^ 16"
  shows "map vci_address signers = get_voter_addresses sg (get_ordered_account_addresses v)"
proof -
  let ?bv = "validator_bitmask sg" and ?n = "verifier_len v"
  let ?P = "\<lambda>i. is_set ?bv (of_nat i)"
  from assms have bound: "\<forall>i \<in> set (iter_ones ?bv). i < ?n"
    and signers: "signers = map (\<lambda>i. validator_infos v ! i) (iter_ones ?bv)"
    by (simp_all add: collect_signers_Ok verifier_len_def)
  have "i < length (inner ?bv) * BUCKET_SIZE" if "i < ?n" "?P i" for i
  proof -
    have "unat (of_nat i :: u16) = i" using that(1) len by (intro unat_of_nat_below) simp
    with that(2) show ?thesis using bv_bit_bound by (auto simp: is_set_bv_bit BUCKET_SIZE_def)
  qed
  with bound have "set (filter ?P [0..<?n]) = set (iter_ones ?bv)"
    by (auto simp: iter_ones_def)
  then have "filter ?P [0..<?n] = iter_ones ?bv"
    using bv.ones_unique [OF filter_upt_sorted] by metis
  moreover have "\<forall>i \<in> set (iter_ones ?bv). i < length (validator_infos v)"
    using bound by (simp add: verifier_len_def)
  ultimately show ?thesis
    by (simp add: signers get_voter_addresses_def get_ordered_account_addresses_def
      map_filter_enumerate verifier_len_def)
qed

lemma distinct_voters:
  assumes "vv_wf v" "collect_signers v (iter_ones (validator_bitmask sg)) = Ok signers"
  shows "distinct (map vci_address signers)"
proof -
  from assms(2) have bound: "\<forall>i \<in> set (iter_ones (validator_bitmask sg)). i < length (validator_infos v)"
    and signers: "signers = map (\<lambda>i. validator_infos v ! i) (iter_ones (validator_bitmask sg))"
    by (simp_all add: collect_signers_Ok)
  have "inj_on (\<lambda>i. vci_address (validator_infos v ! i)) (set (iter_ones (validator_bitmask sg)))"
    using vv_wf_build(4) [OF assms(1)] bound by (auto intro!: inj_onI simp: distinct_conv_nth)
  then show ?thesis
    by (simp add: signers distinct_map comp_def bv.distinct_ones)
qed

lemma verified_quorum:
  assumes wf: "vv_wf v" and len: "verifier_len v < 2 ^ 16"
    and ok: "verify_multi_signatures bls v m sg = Ok () \<or> verify_aggregate_signatures bls v ms sg = Ok ()"
  defines "voters \<equiv> get_voter_addresses sg (get_ordered_account_addresses v)"
  shows "distinct voters" and "set voters \<subseteq> validators v"
    and "unat (quorum_voting_power v) \<le> sum (power_of v) (set voters)"
proof -
  from ok obtain signers
    where c: "collect_signers v (iter_ones (validator_bitmask sg)) = Ok signers"
      and p: "check_voting_power v (map vci_address signers) = Ok ()"
    by (auto simp: verify_multi_signatures_def verify_aggregate_signatures_def bind_res_Ok_iff)
  have eq: "map vci_address signers = voters"
    unfolding voters_def by (rule collect_signers_get_voter_addresses [OF c len])
  show d: "distinct voters" using distinct_voters [OF wf c] by (simp only: eq)
  show "set voters \<subseteq> validators v"
    using check_voting_power_Ok(1) [OF wf p] by (simp only: eq)
  show "unat (quorum_voting_power v) \<le> sum (power_of v) (set voters)"
    using check_voting_power_Ok(2) [OF wf p] d by (simp only: eq sum_list_distinct_conv_sum_set)
qed

lemma ValidatorVerifier_new_defined:
  fixes infos :: "validator_consensus_info list"
  defines "t \<equiv> of_nat (\<Sum>x\<leftarrow>infos. unat (vci_voting_power x)) :: u128"
  assumes "length infos < 2 ^ 63" "infos \<noteq> []"
  shows "ValidatorVerifier_new infos
      = (Ok (build_index infos (t * 2 div 3 + 1) t) :: (validator_verifier, 'e) result)"
    and "unat t = (\<Sum>x\<leftarrow>infos. unat (vci_voting_power x))"
    and "unat (t * 2 div 3 + 1) = 2 * unat t div 3 + 1"
proof -
  let ?s = "\<Sum>x\<leftarrow>infos. unat (vci_voting_power x)"
  have "?s \<le> (\<Sum>x\<leftarrow>infos. 2 ^ 64)"
    using unat_below [where 'a = 64] by (intro sum_list_mono) (simp add: less_imp_le)
  also have "\<dots> = length infos * 2 ^ 64" by (simp add: sum_list_triv)
  also have "\<dots> < 2 ^ 63 * 2 ^ 64" using assms(2) by simp
  finally have bound: "?s < 2 ^ 127" by simp
  show t: "unat t = ?s" unfolding t_def using bound by (intro unat_of_nat_below) simp
  then have d: "unat (t * 2) = 2 * ?s"
    using bound by (subst unat_mult_no_wrap) simp_all
  then show "unat (t * 2 div 3 + 1) = 2 * unat t div 3 + 1"
    using bound t by (subst unat_add_no_wrap) (simp_all add: unat_div)
  have "sum_voting_power infos = (Ok t :: (u128, 'e) result)"
    by (simp add: sum_voting_power_def sum_voting_power_from_Ok t)
  moreover have "mul_chk t 2 = (Ok (t * 2) :: (u128, 'e) result)"
    using bound t by (intro mul_chk_defined) simp
  moreover have "add_chk (t * 2 div 3) 1 = (Ok (t * 2 div 3 + 1) :: (u128, 'e) result)"
    using bound d by (intro add_chk_defined) (simp add: unat_div)
  ultimately show "ValidatorVerifier_new infos
      = (Ok (build_index infos (t * 2 div 3 + 1) t) :: (validator_verifier, 'e) result)"
    using assms(3) by (simp add: ValidatorVerifier_new_def)
qed

lemma check_voting_power_known:
  assumes "vv_wf v" "distinct authors" "set authors \<subseteq> validators v"
  shows "check_voting_power v authors =
    (if 2 * unat (total_voting_power v) < 3 * sum (power_of v) (set authors) then Ok ()
     else Err (TooLittleVotingPower (of_nat (sum (power_of v) (set authors))) (quorum_voting_power v)))"
proof -
  let ?s = "sum (power_of v) (set authors)"
  have "?s \<le> unat (total_voting_power v)"
    using power_sum_below [OF assms(1,2)] assms(2) by (simp add: sum_list_distinct_conv_sum_set)
  then have s: "unat (of_nat ?s :: u128) = ?s"
    using unat_below [of "total_voting_power v"] by (intro unat_of_nat_below) simp
  have "of_nat ?s < quorum_voting_power v \<longleftrightarrow> \<not> 2 * unat (total_voting_power v) < 3 * ?s"
    unfolding word_less_nat_alt s quorum_above_two_thirds [OF assms(1), of ?s, symmetric] by linarith
  then show ?thesis
    by (simp add: check_voting_power_def aggregate_voting_power_value [OF assms])
qed

lemma aggregate_shares:
  assumes bls: "bls_aggregates bls" and wf: "vv_wf v" and len: "verifier_len v < 2 ^ 16"
    and sorted: "bt_sorted (ps_signatures ps)" and ne: "ps_signatures ps \<noteq> []"
    and valid: "\<forall>(a, s) \<in> set (ps_signatures ps). ValidatorVerifier_verify bls v a m s = Ok ()"
  shows "\<exists>agg. aggregate_signatures bls v ps = Ok agg \<and>
    set (get_voter_addresses agg (get_ordered_account_addresses v)) = set (bt_keys (ps_signatures ps)) \<and>
    verify_multi_signatures bls v m agg = check_voting_power v (bt_keys (ps_signatures ps))"
proof -
  let ?addrs = "bt_keys (ps_signatures ps)"
  have d: "distinct ?addrs" by (rule bt_sorted_distinct [OF sorted])
  have known: "get_public_key v a \<noteq> None \<and> bls_verify bls (the (get_public_key v a)) m s"
    if "(a, s) \<in> set (ps_signatures ps)" for a s
    using that valid by (auto simp: ValidatorVerifier_verify_def res_iff split: option.splits)
  then have idx: "map_of (address_to_validator_index v) a \<noteq> None" if "a \<in> set ?addrs" for a
    using that by (fastforce simp: get_public_key_def)
  then have sub: "set ?addrs \<subseteq> validators v"
    using vv_index [OF wf] by (fastforce simp: validators_def)
  let ?shares = "map (\<lambda>(a, s). (the (get_public_key v a), s)) (ps_signatures ps)"
  obtain signers where c: "collect_signers v (iter_ones (signer_mask v ?addrs)) = Ok signers"
    and ma: "mset (map vci_address signers) = mset ?addrs"
    and mk: "mset (map vci_public_key signers) = mset (map (\<lambda>a. the (get_public_key v a)) ?addrs)"
    using collect_signers_signer_mask [OF wf sub d len] by metis
  have shares: "map snd ?shares = map snd (ps_signatures ps)"
    "map fst ?shares = map (\<lambda>a. the (get_public_key v a)) ?addrs"
    by (simp_all add: split_def comp_def)
  have "?shares \<noteq> []" "\<forall>(pk, s) \<in> set ?shares. bls_verify bls pk m s"
    using ne known by auto
  then obtain s k where sk: "bls_aggregate_sigs bls (map snd (ps_signatures ps)) = Some s"
    "bls_aggregate_keys bls (map vci_public_key signers) = Some k" "bls_verify bls k m s"
    using bls mk unfolding bls_aggregates_def shares(1,2) [symmetric] by blast
  let ?agg = "\<lparr>validator_bitmask = signer_mask v ?addrs, agg_sig = Some s\<rparr>"
  have "mark_signers v (ps_signatures ps) (with_num_bits (of_nat (verifier_len v))) []
      = Ok (signer_mask v ?addrs, map snd (ps_signatures ps))"
    using idx by (auto simp: mark_signers_Ok signer_mask_def)
  then have agg: "aggregate_signatures bls v ps = Ok ?agg"
    using sk by (simp add: aggregate_signatures_def)
  have "map vci_address signers = get_voter_addresses ?agg (get_ordered_account_addresses v)"
    using c by (intro collect_signers_get_voter_addresses len) simp
  then have "set (get_voter_addresses ?agg (get_ordered_account_addresses v)) = set ?addrs"
    using ma by (metis mset_eq_setD)
  moreover have "check_voting_power v (map vci_address signers) = check_voting_power v ?addrs"
    by (rule check_voting_power_perm [OF wf d ma sub])
  then have "verify_multi_signatures bls v m ?agg = check_voting_power v ?addrs"
    using c sk check_num_of_voters_signer_mask [OF wf sub len]
    by (simp add: verify_multi_signatures_def)
  ultimately show ?thesis using agg by blast
qed

text \<open>Four validators with keys 1 to 4 and voting power 10 each, for the examples.\<close>

definition sample_verifier :: validator_verifier where
  "sample_verifier = build_index
     [\<lparr>vci_address = 1, vci_public_key = [1], vci_voting_power = 10\<rparr>,
      \<lparr>vci_address = 2, vci_public_key = [2], vci_voting_power = 10\<rparr>,
      \<lparr>vci_address = 3, vci_public_key = [3], vci_voting_power = 10\<rparr>,
      \<lparr>vci_address = 4, vci_public_key = [4], vci_voting_power = 10\<rparr>] 27 40"

lemma sample_verifier_wf: "vv_wf sample_verifier"
proof -
  have "sum_voting_power (validator_infos sample_verifier) = (Ok 40 :: (u128, unit) result)"
    by (simp add: sum_voting_power_def sample_verifier_def build_index_def checked_add_def or_panic_def)
  moreover have "mul_chk 40 2 = (Ok 80 :: (u128, unit) result)" "add_chk 26 1 = (Ok 27 :: (u128, unit) result)"
    by (simp_all add: res_iff)
  moreover have "(80 :: u128) div 3 = 26" by simp
  ultimately show ?thesis
    by (simp add: vv_wf_def ValidatorVerifier_new_def) (simp add: sample_verifier_def build_index_def)
qed

lemma sample_verifier_index:
  "address_to_validator_index sample_verifier = [(1, 0), (2, 1), (3, 2), (4, 3)]"
  by (simp add: sample_verifier_def build_index_def)

lemma sample_verifier_validators [simp]: "validators sample_verifier = {1, 2, 3, 4}"
  by (auto simp: validators_def sample_verifier_def build_index_def)

lemma sample_verifier_power [simp]:
  "power_of sample_verifier 1 = 10" "power_of sample_verifier 2 = 10"
  "power_of sample_verifier 3 = 10" "power_of sample_verifier 4 = 10"
  by (simp_all add: power_of_def get_voting_power_def sample_verifier_index)
    (simp_all add: sample_verifier_def build_index_def)

lemma sample_verifier_simps [simp]:
  "verifier_len sample_verifier = 4" "total_voting_power sample_verifier = 40"
  "quorum_voting_power sample_verifier = 27"
  by (simp_all add: sample_verifier_def build_index_def verifier_len_def)

text \<open>A signature of validators 1, 2 and 3 under the linear scheme, each message encoded as 1.\<close>

definition sample_multi_signature :: aggregate_signature where
  "sample_multi_signature = \<lparr>validator_bitmask = \<lparr>inner = [0xE0]\<rparr>, agg_sig = Some [6]\<rparr>"

lemma sample_multi_signature_verifies:
  "verify_multi_signatures (linear_bls (\<lambda>_. 1)) sample_verifier m sample_multi_signature = Ok ()"
proof -
  have "check_num_of_voters (of_nat (verifier_len sample_verifier)) (validator_bitmask sample_multi_signature) = Ok ()"
    by code_simp
  moreover have "collect_signers sample_verifier (iter_ones (validator_bitmask sample_multi_signature))
      = Ok (take 3 (validator_infos sample_verifier))"
    by code_simp
  moreover have "map vci_address (take 3 (validator_infos sample_verifier)) = [1, 2, 3]"
    "map vci_public_key (take 3 (validator_infos sample_verifier)) = [[1], [2], [3]]"
    by (simp_all add: sample_verifier_def build_index_def)
  moreover have "check_voting_power sample_verifier [1, 2, 3] = Ok ()"
    by (rule check_voting_power_OkI [OF sample_verifier_wf]) simp_all
  ultimately show ?thesis
    unfolding verify_multi_signatures_def
    using sample_verifier_wf
    by (simp add: linear_bls_def) (simp add: sample_multi_signature_def vv_wf_def)
qed

subsection \<open>Voting power\<close>

text \<open>
  C29. The constructor never panics on fewer than 2 to the 63 validators: the sum of their 64-bit
  powers, doubled, fits the 128-bit accumulator. It computes the exact total, a quorum threshold
  above two thirds of it and, as soon as some validator has power, not above the total; and every
  listed address is found with its own power when the addresses are distinct.
\<close>

theorem ValidatorVerifier_new_total:
  assumes "length infos < 2 ^ 63" "infos \<noteq> []" "distinct (map vci_address infos)"
  shows "\<exists>v. ValidatorVerifier_new infos = (Ok v :: (validator_verifier, 'e) result) \<and> vv_wf v \<and>
    unat (total_voting_power v) = (\<Sum>x\<leftarrow>infos. unat (vci_voting_power x)) \<and>
    2 * unat (total_voting_power v) < 3 * unat (quorum_voting_power v) \<and>
    (0 < unat (total_voting_power v) \<longrightarrow> quorum_voting_power v \<le> total_voting_power v) \<and>
    (\<forall>x \<in> set infos. get_voting_power v (vci_address x) = Some (vci_voting_power x) \<and>
       get_public_key v (vci_address x) = Some (vci_public_key x))"
proof -
  define t :: u128 where "t = of_nat (\<Sum>x\<leftarrow>infos. unat (vci_voting_power x))"
  let ?v = "build_index infos (t * 2 div 3 + 1) t"
  note new = ValidatorVerifier_new_defined [OF assms(1,2), folded t_def]
  have v: "validator_infos ?v = infos" "total_voting_power ?v = t" "quorum_voting_power ?v = t * 2 div 3 + 1"
    by (simp_all add: build_index_def)
  have wf: "vv_wf ?v" using assms new(1) by (simp add: vv_wf_def v)
  have "get_voting_power ?v (vci_address x) = Some (vci_voting_power x) \<and>
      get_public_key ?v (vci_address x) = Some (vci_public_key x)" if "x \<in> set infos" for x
    using that get_voting_power_info [OF wf] get_public_key_info [OF wf] by (auto simp: in_set_conv_nth v)
  moreover have "2 * unat t < 3 * unat (t * 2 div 3 + 1)"
    "0 < unat t \<longrightarrow> t * 2 div 3 + 1 \<le> t"
    unfolding word_le_nat_alt new(3) by arith+
  ultimately show ?thesis
    using wf new(2) by (intro exI [of _ ?v] conjI) (simp_all only: new(1) v, blast+)
qed

theorem ValidatorVerifier_new_total_witness:
  "\<exists>v. ValidatorVerifier_new [\<lparr>vci_address = 7, vci_public_key = [1], vci_voting_power = - 1\<rparr>]
      = (Ok v :: (validator_verifier, unit) result) \<and> unat (total_voting_power v) = 2 ^ 64 - 1"
proof -
  let ?infos = "[\<lparr>vci_address = 7, vci_public_key = [1], vci_voting_power = - 1\<rparr>]"
  have "unat (- 1 :: u64) = 2 ^ 64 - 1" by (simp add: unsigned_minus_1_eq_mask mask_eq_exp_minus_1)
  then show ?thesis
    using ValidatorVerifier_new_total [of ?infos, where 'e = unit] by auto
qed

text \<open>
  C26. On a list of distinct authors the check of the voting power decides exactly whether they
  form a quorum: it rejects a list with an unknown author, accepts one with more than two thirds
  of the total power, and reports the exact power of any other.
\<close>

theorem check_voting_power_decides:
  assumes "vv_wf v" "distinct authors"
  shows "check_voting_power v authors =
    (if \<not> set authors \<subseteq> validators v then Err UnknownAuthor
     else if 2 * unat (total_voting_power v) < 3 * sum (power_of v) (set authors) then Ok ()
     else Err (TooLittleVotingPower (of_nat (sum (power_of v) (set authors))) (quorum_voting_power v)))"
proof (cases "set authors \<subseteq> validators v")
  case False
  have "sum_list (map (power_of v) authors) + unat (0 :: u128) < 2 ^ 128"
    using power_sum_below [OF assms] unat_below [of "total_voting_power v"] by simp
  moreover have "\<exists>a \<in> set authors. get_voting_power v a = None"
    using False get_voting_power_known [OF assms(1)] by blast
  ultimately have "aggregate_voting_power v 0 authors = Err UnknownAuthor"
    by (rule aggregate_voting_power_unknown)
  with False show ?thesis by (simp add: check_voting_power_def)
qed (simp add: check_voting_power_known [OF assms])

theorem check_voting_power_decides_witness:
  "check_voting_power sample_verifier [1, 2, 4] = Ok () \<and>
   check_voting_power sample_verifier [1, 2] = Err (TooLittleVotingPower 20 27) \<and>
   check_voting_power sample_verifier [1, 9] = Err UnknownAuthor"
  using check_voting_power_decides [OF sample_verifier_wf, of "[1, 2, 4]"]
    check_voting_power_decides [OF sample_verifier_wf, of "[1, 2]"]
    check_voting_power_decides [OF sample_verifier_wf, of "[1, 9]"] by simp

text \<open>
  C27. Quorum intersection: two multi-signatures that verify, on whatever messages, have a signer
  in common outside any set of validators with at most a third of the voting power.
\<close>

theorem verified_signatures_overlap:
  assumes "vv_wf v" "verifier_len v < 2 ^ 16"
    and "verify_multi_signatures bls v m1 s1 = Ok ()" "verify_multi_signatures bls v m2 s2 = Ok ()"
    and "3 * sum (power_of v) (F \<inter> validators v) \<le> unat (total_voting_power v)"
  shows "\<exists>a. a \<in> set (get_voter_addresses s1 (get_ordered_account_addresses v)) \<and>
    a \<in> set (get_voter_addresses s2 (get_ordered_account_addresses v)) \<and> a \<in> validators v \<and> a \<notin> F"
proof -
  have "verify_multi_signatures bls v m1 s1 = Ok () \<or> verify_aggregate_signatures bls v [] s1 = Ok ()"
    "verify_multi_signatures bls v m2 s2 = Ok () \<or> verify_aggregate_signatures bls v [] s2 = Ok ()"
    using assms by simp_all
  note q = verified_quorum [OF assms(1,2) this(1)] verified_quorum [OF assms(1,2) this(2)]
  show ?thesis
    using vq.overlap_outside [OF assms(1) q(2,5,3,6)] assms(5) q(2)
    by (auto simp: total_power_sum [OF assms(1)])
qed

theorem verified_signatures_overlap_witness:
  "\<exists>a. a \<in> set (get_voter_addresses sample_multi_signature (get_ordered_account_addresses sample_verifier)) \<and>
     a \<in> validators sample_verifier \<and> a \<notin> {1}"
  using verified_signatures_overlap [OF sample_verifier_wf _ sample_multi_signature_verifies
    sample_multi_signature_verifies, of "{1}"] by auto

text \<open>
  C28. Round trip of multi-signatures: the shares of distinct known validators, each valid on the
  same message, aggregate to a signature whose mask names exactly the contributors; it verifies
  on that message if the contributors form a quorum.
\<close>

theorem aggregate_then_verify:
  assumes bls: "bls_aggregates bls" and wf: "vv_wf v" and len: "verifier_len v < 2 ^ 16"
    and sorted: "bt_sorted (ps_signatures ps)" and ne: "ps_signatures ps \<noteq> []"
    and valid: "\<forall>(a, s) \<in> set (ps_signatures ps). ValidatorVerifier_verify bls v a m s = Ok ()"
  shows "\<exists>agg. aggregate_signatures bls v ps = Ok agg \<and>
    set (get_voter_addresses agg (get_ordered_account_addresses v)) = set (bt_keys (ps_signatures ps)) \<and>
    verify_multi_signatures bls v m agg = check_voting_power v (bt_keys (ps_signatures ps))"
  by (rule aggregate_shares [OF assms])

theorem aggregate_then_verify_witness:
  "\<exists>agg. aggregate_signatures (linear_bls (\<lambda>_ :: unit. 1)) sample_verifier
       \<lparr>ps_signatures = [(1, [1]), (2, [2]), (4, [4])]\<rparr> = Ok agg \<and>
     verify_multi_signatures (linear_bls (\<lambda>_. 1)) sample_verifier () agg = Ok ()"
proof -
  let ?ps = "\<lparr>ps_signatures = [(1, [1]), (2, [2]), (4, [4])]\<rparr>"
  have "\<forall>(a, s) \<in> set (ps_signatures ?ps).
      ValidatorVerifier_verify (linear_bls (\<lambda>_. 1)) sample_verifier a () s = Ok ()"
    by (simp add: ValidatorVerifier_verify_def get_public_key_def sample_verifier_index)
      (simp add: sample_verifier_def build_index_def)
  moreover have "check_voting_power sample_verifier [1, 2, 4] = Ok ()"
    by (rule check_voting_power_OkI [OF sample_verifier_wf]) simp_all
  ultimately show ?thesis
    using aggregate_then_verify [OF linear_bls_aggregates sample_verifier_wf, of ?ps "\<lambda>_. 1" "()"]
    by auto
qed

text \<open>
  A multi-signature is accepted exactly when its mask has the committee's length and no bit
  outside the committee, its signers hold more than two thirds of the power, and it carries a
  signature valid under the aggregate of the signers' keys.
\<close>

theorem verify_multi_signatures_accepts:
  assumes wf: "vv_wf v" and len: "verifier_len v < 2 ^ 16"
  shows "verify_multi_signatures bls v m sg = Ok () \<longleftrightarrow>
    num_buckets (validator_bitmask sg) = required_buckets (of_nat (verifier_len v)) \<and>
    (\<forall>p. is_set (validator_bitmask sg) p \<longrightarrow> unat p < verifier_len v) \<and>
    2 * unat (total_voting_power v)
      < 3 * sum (power_of v) (set (get_voter_addresses sg (get_ordered_account_addresses v))) \<and>
    (\<exists>s k. agg_sig sg = Some s \<and>
       bls_aggregate_keys bls (map (\<lambda>i. vci_public_key (validator_infos v ! i))
         (iter_ones (validator_bitmask sg))) = Some k \<and> bls_verify bls k m s)"
proof -
  let ?bv = "validator_bitmask sg" and ?n = "verifier_len v"
  let ?voters = "get_voter_addresses sg (get_ordered_account_addresses v)"
  show ?thesis
  proof (cases "check_num_of_voters (of_nat ?n) ?bv = Ok ()")
    case False
    then show ?thesis
      using check_num_of_voters_Ok [OF len, of ?bv] by (auto simp: verify_multi_signatures_def res_iff)
  next
    case True
    then have bits: "num_buckets ?bv = required_buckets (of_nat ?n)" "\<forall>p. is_set ?bv p \<longrightarrow> unat p < ?n"
      by (simp_all add: check_num_of_voters_Ok [OF len])
    let ?signers = "map (\<lambda>i. validator_infos v ! i) (iter_ones ?bv)"
    have bound: "i < ?n" if "i \<in> set (iter_ones ?bv)" for i
      using that bits(2) by (auto simp: bv.set_ones bv_wf_required [OF bits(1)])
    then have c: "collect_signers v (iter_ones ?bv) = Ok ?signers"
      by (simp add: collect_signers_Ok verifier_len_def)
    have voters: "map vci_address ?signers = ?voters"
      by (rule collect_signers_get_voter_addresses [OF c len])
    have d: "distinct ?voters" using distinct_voters [OF wf c] by (simp only: voters)
    have known: "set ?voters \<subseteq> validators v"
      unfolding voters [symmetric] using bound by (auto simp: validators_def verifier_len_def)
    have "check_voting_power v ?voters = Ok () \<longleftrightarrow> 2 * unat (total_voting_power v) < 3 * sum (power_of v) (set ?voters)"
      using check_voting_power_OkI [OF wf d known] check_voting_power_Ok(2) [OF wf, of ?voters] d
      by (auto simp: quorum_above_two_thirds [OF wf] sum_list_distinct_conv_sum_set)
    with True c voters bits show ?thesis
      by (auto simp: verify_multi_signatures_def res_iff comp_def)
  qed
qed

theorem verify_multi_signatures_accepts_witness:
  "num_buckets (validator_bitmask sample_multi_signature) = required_buckets 4 \<and>
   2 * unat (total_voting_power sample_verifier) < 3 * sum (power_of sample_verifier)
     (set (get_voter_addresses sample_multi_signature (get_ordered_account_addresses sample_verifier)))"
  using verify_multi_signatures_accepts [OF sample_verifier_wf, of "linear_bls (\<lambda>_. 1)" "()"
      sample_multi_signature] sample_multi_signature_verifies [of "()"] by simp

end
