(* ===== verification/Ledger_Types.thy ===== *)
theory Ledger_Types
  imports Validator_Verifier
begin

text \<open>
  The ledger types of \<open>types/src\<close>: block infos, ledger infos with their signatures, epoch
  states, waypoints, and the light client built on them. \<open>EpochChangeProof\<close> chains ledger
  infos that end their epochs, each verified by the validators the previous one names;
  \<open>TrustedState\<close> ratchets a client's view of the ledger forward with such proofs.

  The trait \<open>Verifier\<close> is a record of its three methods, as a \<open>dyn Verifier\<close> is; the
  law its implementations share is the locale \<open>ledger_verifier\<close>. Errors are the \<open>anyhow\<close>
  values the sources build, without the numbers formatted into their messages.
\<close>

datatype anyhow = Msg string | FromVerify verify_error | Context string anyhow

section \<open>Definitions\<close>

subsection \<open>Block infos\<close>

type_synonym round_t = u64
type_synonym version_t = u64

definition GENESIS_EPOCH :: u64 where "GENESIS_EPOCH = 0"
definition GENESIS_ROUND :: round_t where "GENESIS_ROUND = 0"
definition GENESIS_VERSION :: version_t where "GENESIS_VERSION = 0"
definition GENESIS_TIMESTAMP_USECS :: u64 where "GENESIS_TIMESTAMP_USECS = 0"

record epoch_state =
  es_epoch :: u64
  es_verifier :: validator_verifier

definition EpochState_empty :: "(epoch_state, 'e) result" where
  "EpochState_empty =
     bind_res (ValidatorVerifier_new []) (\<lambda>v. Ok \<lparr>es_epoch = 0, es_verifier = v\<rparr>)"

record block_info =
  bi_epoch :: u64
  bi_round :: round_t
  bi_id :: hash_value
  bi_executed_state_id :: hash_value
  bi_version :: version_t
  bi_timestamp_usecs :: u64
  bi_next_epoch_state :: "epoch_state option"

definition BlockInfo_empty :: block_info where
  "BlockInfo_empty = \<lparr>bi_epoch = 0, bi_round = 0, bi_id = HashValue_zero,
     bi_executed_state_id = HashValue_zero, bi_version = 0, bi_timestamp_usecs = 0,
     bi_next_epoch_state = None\<rparr>"

definition BlockInfo_genesis :: "hash_value \<Rightarrow> validator_set \<Rightarrow> (block_info, 'e) result" where
  "BlockInfo_genesis genesis_state_root_hash vs =
     bind_res (verifier_from_validator_set vs) (\<lambda>v.
       Ok \<lparr>bi_epoch = GENESIS_EPOCH, bi_round = GENESIS_ROUND, bi_id = HashValue_zero,
           bi_executed_state_id = genesis_state_root_hash, bi_version = GENESIS_VERSION,
           bi_timestamp_usecs = GENESIS_TIMESTAMP_USECS,
           bi_next_epoch_state = Some \<lparr>es_epoch = 1, es_verifier = v\<rparr>\<rparr>)"

definition next_block_epoch :: "block_info \<Rightarrow> u64" where
  "next_block_epoch bi =
     (case bi_next_epoch_state bi of None \<Rightarrow> bi_epoch bi | Some e \<Rightarrow> es_epoch e)"

definition has_reconfiguration :: "block_info \<Rightarrow> bool" where
  "has_reconfiguration bi \<longleftrightarrow> bi_next_epoch_state bi \<noteq> None"

definition allow_timestamp_change :: "block_info \<Rightarrow> u64 \<Rightarrow> bool" where
  "allow_timestamp_change bi timestamp \<longleftrightarrow>
     has_reconfiguration bi \<and> bi_timestamp_usecs bi \<ge> timestamp"

definition change_timestamp :: "block_info \<Rightarrow> u64 \<Rightarrow> (block_info, 'e) result" where
  "change_timestamp bi timestamp =
     (if allow_timestamp_change bi timestamp then Ok (bi\<lparr>bi_timestamp_usecs := timestamp\<rparr>) else Panic)"

definition match_ordered_only :: "block_info \<Rightarrow> block_info \<Rightarrow> bool" where
  "match_ordered_only bi executed \<longleftrightarrow>
     bi_epoch bi = bi_epoch executed \<and> bi_round bi = bi_round executed \<and> bi_id bi = bi_id executed \<and>
     (bi_timestamp_usecs bi = bi_timestamp_usecs executed \<or>
      bi_timestamp_usecs bi > bi_timestamp_usecs executed \<and> has_reconfiguration executed)"

definition is_ordered_only :: "block_info \<Rightarrow> bool" where
  "is_ordered_only bi \<longleftrightarrow>
     bi \<noteq> BlockInfo_empty \<and> bi_next_epoch_state bi = None \<and>
     bi_executed_state_id bi = ACCUMULATOR_PLACEHOLDER_HASH \<and> bi_version bi = 0"

subsection \<open>Ledger infos\<close>

record ledger_info =
  commit_info :: block_info
  consensus_data_hash :: hash_value

definition LedgerInfo_genesis :: "hash_value \<Rightarrow> validator_set \<Rightarrow> (ledger_info, 'e) result" where
  "LedgerInfo_genesis genesis_state_root_hash vs =
     bind_res (BlockInfo_genesis genesis_state_root_hash vs) (\<lambda>bi.
       Ok \<lparr>commit_info = bi, consensus_data_hash = HashValue_zero\<rparr>)"

definition li_epoch :: "ledger_info \<Rightarrow> u64" where
  [simp]: "li_epoch li = bi_epoch (commit_info li)"

definition li_next_block_epoch :: "ledger_info \<Rightarrow> u64" where
  [simp]: "li_next_block_epoch li = next_block_epoch (commit_info li)"

definition li_round :: "ledger_info \<Rightarrow> round_t" where
  [simp]: "li_round li = bi_round (commit_info li)"

definition consensus_block_id :: "ledger_info \<Rightarrow> hash_value" where
  [simp]: "consensus_block_id li = bi_id (commit_info li)"

definition transaction_accumulator_hash :: "ledger_info \<Rightarrow> hash_value" where
  [simp]: "transaction_accumulator_hash li = bi_executed_state_id (commit_info li)"

definition li_version :: "ledger_info \<Rightarrow> version_t" where
  [simp]: "li_version li = bi_version (commit_info li)"

definition li_timestamp_usecs :: "ledger_info \<Rightarrow> u64" where
  [simp]: "li_timestamp_usecs li = bi_timestamp_usecs (commit_info li)"

definition li_next_epoch_state :: "ledger_info \<Rightarrow> epoch_state option" where
  [simp]: "li_next_epoch_state li = bi_next_epoch_state (commit_info li)"

definition ends_epoch :: "ledger_info \<Rightarrow> bool" where
  "ends_epoch li \<longleftrightarrow> li_next_epoch_state li \<noteq> None"

definition set_consensus_data_hash :: "ledger_info \<Rightarrow> hash_value \<Rightarrow> ledger_info" where
  "set_consensus_data_hash li h = li\<lparr>consensus_data_hash := h\<rparr>"

record ledger_info_with_v0 =
  v0_ledger_info :: ledger_info
  v0_signatures :: aggregate_signature

datatype ledger_info_with_signatures = LedgerInfoV0 ledger_info_with_v0

primrec lis_deref :: "ledger_info_with_signatures \<Rightarrow> ledger_info_with_v0" where
  "lis_deref (LedgerInfoV0 ledger) = ledger"

definition LedgerInfoWithSignatures_new :: "ledger_info \<Rightarrow> aggregate_signature \<Rightarrow> ledger_info_with_signatures" where
  "LedgerInfoWithSignatures_new li signatures =
     LedgerInfoV0 \<lparr>v0_ledger_info = li, v0_signatures = signatures\<rparr>"

definition LedgerInfoWithSignatures_genesis ::
  "hash_value \<Rightarrow> validator_set \<Rightarrow> (ledger_info_with_signatures, 'e) result" where
  "LedgerInfoWithSignatures_genesis genesis_state_root_hash vs =
     bind_res (LedgerInfo_genesis genesis_state_root_hash vs) (\<lambda>li.
       Ok (LedgerInfoWithSignatures_new li AggregateSignature_empty))"

definition lis_ledger_info :: "ledger_info_with_signatures \<Rightarrow> ledger_info" where
  "lis_ledger_info lis = v0_ledger_info (lis_deref lis)"

definition lis_signatures :: "ledger_info_with_signatures \<Rightarrow> aggregate_signature" where
  "lis_signatures lis = v0_signatures (lis_deref lis)"

definition lis_commit_info :: "ledger_info_with_signatures \<Rightarrow> block_info" where
  [simp]: "lis_commit_info lis = commit_info (lis_ledger_info lis)"

definition get_voters :: "ledger_info_with_signatures \<Rightarrow> account_address list \<Rightarrow> account_address list" where
  "get_voters lis addrs = get_voter_addresses (lis_signatures lis) addrs"

definition lis_get_num_voters :: "ledger_info_with_signatures \<Rightarrow> nat" where
  "lis_get_num_voters lis = get_num_voters (lis_signatures lis)"

definition verify_signatures ::
  "ledger_info bls12381 \<Rightarrow> ledger_info_with_signatures \<Rightarrow> validator_verifier \<Rightarrow> (unit, verify_error) result" where
  "verify_signatures bls lis v = verify_multi_signatures bls v (lis_ledger_info lis) (lis_signatures lis)"

definition lis_check_voting_power ::
  "ledger_info_with_signatures \<Rightarrow> validator_verifier \<Rightarrow> (unit, verify_error) result" where
  "lis_check_voting_power lis v =
     check_voting_power v (get_voters lis (get_ordered_account_addresses v))"

lemma lis_new_simps [simp]:
  "lis_ledger_info (LedgerInfoWithSignatures_new li sg) = li"
  "lis_signatures (LedgerInfoWithSignatures_new li sg) = sg"
  by (simp_all add: lis_ledger_info_def lis_signatures_def LedgerInfoWithSignatures_new_def)

lemma lis_eq_iff:
  "x = y \<longleftrightarrow> lis_ledger_info x = lis_ledger_info y \<and> lis_signatures x = lis_signatures y"
  by (cases x; cases y) (auto simp: lis_ledger_info_def lis_signatures_def)

record ledger_info_with_partial_signatures =
  lips_ledger_info :: ledger_info
  lips_partial_sigs :: partial_signatures

definition lips_remove_signature ::
  "ledger_info_with_partial_signatures \<Rightarrow> account_address \<Rightarrow> ledger_info_with_partial_signatures" where
  "lips_remove_signature lips validator =
     lips\<lparr>lips_partial_sigs := PartialSignatures_remove (lips_partial_sigs lips) validator\<rparr>"

definition lips_add_signature ::
  "ledger_info_with_partial_signatures \<Rightarrow> account_address \<Rightarrow> signature \<Rightarrow> ledger_info_with_partial_signatures" where
  "lips_add_signature lips validator sg =
     lips\<lparr>lips_partial_sigs := PartialSignatures_add (lips_partial_sigs lips) validator sg\<rparr>"

definition lips_aggregate_signatures ::
  "ledger_info bls12381 \<Rightarrow> ledger_info_with_partial_signatures \<Rightarrow> validator_verifier \<Rightarrow>
   (ledger_info_with_signatures, verify_error) result" where
  "lips_aggregate_signatures bls lips v =
     bind_res (aggregate_signatures bls v (lips_partial_sigs lips)) (\<lambda>aggregated.
       Ok (LedgerInfoWithSignatures_new (lips_ledger_info lips) aggregated))"

section \<open>Examples\<close>

text \<open>
  An epoch state of the four sample validators, and ledger infos of its epoch that three of them
  signed under the linear scheme: one that ends the epoch and one that does not.
\<close>

definition sample_epoch_state :: "u64 \<Rightarrow> epoch_state" where
  "sample_epoch_state e = \<lparr>es_epoch = e, es_verifier = sample_verifier\<rparr>"

definition sample_block_info :: "u64 \<Rightarrow> u64 \<Rightarrow> epoch_state option \<Rightarrow> block_info" where
  "sample_block_info e v nes = \<lparr>bi_epoch = e, bi_round = 5, bi_id = 77, bi_executed_state_id = 78,
     bi_version = v, bi_timestamp_usecs = 1000, bi_next_epoch_state = nes\<rparr>"

definition sample_lis :: "u64 \<Rightarrow> u64 \<Rightarrow> epoch_state option \<Rightarrow> ledger_info_with_signatures" where
  "sample_lis e v nes = LedgerInfoWithSignatures_new
     \<lparr>commit_info = sample_block_info e v nes, consensus_data_hash = 0\<rparr> sample_multi_signature"

lemma sample_lis_verifies:
  "verify_signatures (linear_bls (\<lambda>_. 1)) (sample_lis e v nes) sample_verifier = Ok ()"
  by (simp add: verify_signatures_def sample_lis_def sample_multi_signature_verifies)

lemma sample_lis_simps [simp]:
  "commit_info (lis_ledger_info (sample_lis e v nes)) = sample_block_info e v nes"
  "bi_epoch (sample_block_info e v nes) = e" "bi_version (sample_block_info e v nes) = v"
  "bi_next_epoch_state (sample_block_info e v nes) = nes"
  "es_epoch (sample_epoch_state e) = e" "es_verifier (sample_epoch_state e) = sample_verifier"
  by (simp_all add: sample_lis_def sample_block_info_def sample_epoch_state_def)

end
