(* ===== verification/Accumulator.thy ===== *)
theory Accumulator
  imports Ledger_Types
begin

text \<open>
  The in-memory Merkle accumulator of \<open>types/src/proof/accumulator/mod.rs\<close> and the proofs of
  \<open>types/src/proof/definition.rs\<close> built on it. The hash of an internal node is the parameter
  \<open>h2\<close>. The reference is the Merkle tree of the list of all leaves (\<open>merkle\<close>); the
  accumulator keeps only the roots of its full subtrees, and the refinement relation
  \<open>acc_rep\<close> says which list of leaves it stands for.
\<close>

section \<open>Definitions\<close>

subsection \<open>The accumulator\<close>

type_synonym node_hasher = "hash_value \<Rightarrow> hash_value \<Rightarrow> hash_value"

definition MAX_ACCUMULATOR_PROOF_DEPTH :: nat where "MAX_ACCUMULATOR_PROOF_DEPTH = 63"

definition MAX_ACCUMULATOR_LEAVES :: u64 where
  "MAX_ACCUMULATOR_LEAVES = push_bit MAX_ACCUMULATOR_PROOF_DEPTH 1"

definition u64_count_ones :: "u64 \<Rightarrow> nat" where
  "u64_count_ones n = length (filter (bit n) [0..<64])"

definition u64_trailing_zeros :: "u64 \<Rightarrow> nat" where
  "u64_trailing_zeros n = length (takeWhile (\<lambda>i. \<not> bit n i) [0..<64])"

record in_memory_accumulator =
  frozen_subtree_roots :: "hash_value list"
  num_leaves :: u64
  root_hash :: hash_value

function root_loop ::
  "node_hasher \<Rightarrow> u64 \<Rightarrow> hash_value \<Rightarrow> hash_value list \<Rightarrow> (hash_value, 'e) result" where
  "root_loop h2 bitmap current_hash frozen_subtree_iter =
     (if bitmap = 0 then Ok current_hash
      else if bitmap AND 1 \<noteq> 0 then
        (case frozen_subtree_iter of
           [] \<Rightarrow> Panic
         | r # rest \<Rightarrow> root_loop h2 (drop_bit 1 bitmap) (h2 r current_hash) rest)
      else root_loop h2 (drop_bit 1 bitmap) (h2 current_hash ACCUMULATOR_PLACEHOLDER_HASH) frozen_subtree_iter)"
  by pat_completeness auto
termination
proof (relation "measure (\<lambda>(h2, bitmap, c, it). unat bitmap)")
  have "unat (drop_bit 1 b) < unat b" if "b \<noteq> 0" for b :: u64
  proof -
    have "unat (drop_bit 1 b) = unat b div 2" by (simp add: drop_bit_eq_div unat_div)
    moreover have "0 < unat b" using that by (simp add: unat_gt_0)
    ultimately show ?thesis by simp
  qed
  then show "((h2, drop_bit 1 bitmap, h2 r c, rest), h2, bitmap, c, it) \<in> measure (\<lambda>(h2, bitmap, c, it). unat bitmap)"
    "((h2, drop_bit 1 bitmap, h2 c p, it), h2, bitmap, c, it) \<in> measure (\<lambda>(h2, bitmap, c, it). unat bitmap)"
    if "bitmap \<noteq> 0" for h2 :: node_hasher and bitmap :: u64 and c r rest it p using that by simp_all
qed auto

declare root_loop.simps [simp del]

definition compute_root_hash :: "node_hasher \<Rightarrow> hash_value list \<Rightarrow> u64 \<Rightarrow> (hash_value, 'e) result" where
  "compute_root_hash h2 roots n =
     (case roots of
        [] \<Rightarrow> Ok ACCUMULATOR_PLACEHOLDER_HASH
      | [r] \<Rightarrow> Ok r
      | _ \<Rightarrow> if u64_trailing_zeros n < 64
            then root_loop h2 (drop_bit (u64_trailing_zeros n) n) ACCUMULATOR_PLACEHOLDER_HASH (rev roots)
            else Panic)"

definition InMemoryAccumulator_new ::
  "node_hasher \<Rightarrow> hash_value list \<Rightarrow> u64 \<Rightarrow> (in_memory_accumulator, anyhow) result" where
  "InMemoryAccumulator_new h2 roots n =
     bind_res (ensure (length roots = u64_count_ones n)
       (Msg ''The number of frozen subtrees does not match the number of leaves.'')) (\<lambda>_.
     bind_res (compute_root_hash h2 roots n) (\<lambda>root.
     Ok \<lparr>frozen_subtree_roots = roots, num_leaves = n, root_hash = root\<rparr>))"

definition InMemoryAccumulator_new_empty :: in_memory_accumulator where
  "InMemoryAccumulator_new_empty =
     \<lparr>frozen_subtree_roots = [], num_leaves = 0, root_hash = ACCUMULATOR_PLACEHOLDER_HASH\<rparr>"

fun merge_last :: "node_hasher \<Rightarrow> nat \<Rightarrow> hash_value list \<Rightarrow> (hash_value list, 'e) result" where
  "merge_last h2 0 roots = Ok roots"
| "merge_last h2 (Suc k) roots =
     (if length roots < 2 then Panic
      else let right_hash = last roots; left_hash = last (butlast roots)
           in merge_last h2 k (butlast (butlast roots) @ [h2 left_hash right_hash]))"

definition append_one :: "node_hasher \<Rightarrow> hash_value list \<Rightarrow> u64 \<Rightarrow> hash_value \<Rightarrow> (hash_value list, 'e) result" where
  "append_one h2 roots num_existing_leaves leaf =
     merge_last h2 (u64_trailing_zeros (NOT num_existing_leaves)) (roots @ [leaf])"

fun append_leaves ::
  "node_hasher \<Rightarrow> hash_value list \<Rightarrow> u64 \<Rightarrow> hash_value list \<Rightarrow> (hash_value list \<times> u64, 'e) result" where
  "append_leaves h2 roots n [] = Ok (roots, n)"
| "append_leaves h2 roots n (leaf # leaves) =
     bind_res (append_one h2 roots n leaf) (\<lambda>roots'.
     bind_res (add_chk n 1) (\<lambda>n'. append_leaves h2 roots' n' leaves))"

definition InMemoryAccumulator_append ::
  "node_hasher \<Rightarrow> in_memory_accumulator \<Rightarrow> hash_value list \<Rightarrow> (in_memory_accumulator, 'e) result" where
  "InMemoryAccumulator_append h2 acc leaves =
     bind_res (append_leaves h2 (frozen_subtree_roots acc) (num_leaves acc) leaves) (\<lambda>(roots, n).
     expect_ok (InMemoryAccumulator_new h2 roots n))"

definition from_leaves :: "node_hasher \<Rightarrow> hash_value list \<Rightarrow> (in_memory_accumulator, 'e) result" where
  "from_leaves h2 leaves =
     bind_res (expect_ok (InMemoryAccumulator_new h2 [] 0)) (\<lambda>acc. InMemoryAccumulator_append h2 acc leaves)"

text \<open>
  In \<open>append_subtrees\<close> a size that is a power of two is kept as its exponent: \<open>mask\<close> is
  \<open>2 ^ k\<close>, and \<open>mask <<= 1\<close> increments \<open>k\<close>, reaching 0 at \<open>k = 64\<close>.
\<close>

function carry_up ::
  "node_hasher \<Rightarrow> u64 \<Rightarrow> nat \<Rightarrow> hash_value list \<Rightarrow> hash_value \<Rightarrow> (nat \<times> hash_value list, 'e) result" where
  "carry_up h2 n k roots current_hash =
     (if n AND push_bit k 1 \<noteq> 0 then
        (if roots = [] then Panic
         else carry_up h2 n (Suc k) (butlast roots) (h2 (last roots) current_hash))
      else Ok (k, roots @ [current_hash]))"
  by pat_completeness auto
termination
proof (relation "measure (\<lambda>(h2, n, k, roots, c). length roots)")
qed auto

declare carry_up.simps [simp del]

fun append_subtrees_loop ::
  "node_hasher \<Rightarrow> u64 \<Rightarrow> hash_value list \<Rightarrow> nat \<Rightarrow> u64 \<Rightarrow> hash_value list \<Rightarrow>
   (hash_value list \<times> u64, anyhow) result" where
  "append_subtrees_loop h2 n roots k remaining [] =
     (if remaining \<ge> push_bit k 1 then Err (Msg ''Too few subtrees.'')
      else bind_res (add_chk n remaining) (\<lambda>n'. Ok (roots, n')))"
| "append_subtrees_loop h2 n roots k remaining (subtree # subtrees) =
     (if remaining \<ge> push_bit k 1 then
        bind_res (carry_up h2 n k roots subtree) (\<lambda>(k', roots').
        bind_res (add_chk n (push_bit k 1)) (\<lambda>n'.
        bind_res (sub_chk remaining (push_bit k 1)) (\<lambda>remaining'.
        append_subtrees_loop h2 n' roots' k' remaining' subtrees)))
      else bind_res (add_chk n remaining) (\<lambda>n'. Ok (roots @ subtree # subtrees, n')))"

definition append_subtrees ::
  "node_hasher \<Rightarrow> in_memory_accumulator \<Rightarrow> hash_value list \<Rightarrow> u64 \<Rightarrow> (in_memory_accumulator, anyhow) result" where
  "append_subtrees h2 acc subtrees num_new_leaves =
     bind_res (sub_chk MAX_ACCUMULATOR_LEAVES (num_leaves acc)) (\<lambda>room.
     bind_res (ensure (num_new_leaves \<le> room) (Msg ''Too many new leaves.'')) (\<lambda>_.
     if num_leaves acc = 0 then InMemoryAccumulator_new h2 subtrees num_new_leaves
     else bind_res (append_subtrees_loop h2 (num_leaves acc) (frozen_subtree_roots acc)
            (u64_trailing_zeros (num_leaves acc)) num_new_leaves subtrees) (\<lambda>(roots, n).
          InMemoryAccumulator_new h2 roots n)))"

definition accumulator_version :: "in_memory_accumulator \<Rightarrow> u64" where
  "accumulator_version acc = (if num_leaves acc = 0 then 0 else num_leaves acc - 1)"

definition accumulator_is_empty :: "in_memory_accumulator \<Rightarrow> bool" where
  "accumulator_is_empty acc \<longleftrightarrow> num_leaves acc = 0"

subsection \<open>Proofs\<close>

record accumulator_proof =
  siblings :: "hash_value list"

definition AccumulatorProof_verify ::
  "node_hasher \<Rightarrow> accumulator_proof \<Rightarrow> hash_value \<Rightarrow> hash_value \<Rightarrow> u64 \<Rightarrow> (unit, anyhow) result" where
  "AccumulatorProof_verify h2 pr expected_root_hash element_hash element_index =
     bind_res (ensure (length (siblings pr) \<le> MAX_ACCUMULATOR_PROOF_DEPTH)
       (Msg ''Accumulator proof has more than 63 siblings.'')) (\<lambda>_.
     let actual_root_hash = fst (foldl (\<lambda>(hash, index) sibling_hash.
           (if index mod 2 = 0 then h2 hash sibling_hash else h2 sibling_hash hash, index div 2))
           (element_hash, element_index) (siblings pr))
     in ensure (actual_root_hash = expected_root_hash) (Msg ''Root hashes do not match.''))"

record accumulator_extension_proof =
  aep_frozen_subtree_roots :: "hash_value list"
  aep_num_leaves :: u64
  aep_leaves :: "hash_value list"

definition AccumulatorExtensionProof_verify ::
  "node_hasher \<Rightarrow> accumulator_extension_proof \<Rightarrow> hash_value \<Rightarrow> (in_memory_accumulator, anyhow) result" where
  "AccumulatorExtensionProof_verify h2 pr original_root =
     bind_res (InMemoryAccumulator_new h2 (aep_frozen_subtree_roots pr) (aep_num_leaves pr)) (\<lambda>original_tree.
     bind_res (ensure (root_hash original_tree = original_root) (Msg ''Root hashes do not match.'')) (\<lambda>_.
     InMemoryAccumulator_append h2 original_tree (aep_leaves pr)))"

record accumulator_consistency_proof =
  subtrees :: "hash_value list"

datatype transaction_accumulator_summary = Summary in_memory_accumulator

primrec summary_accumulator :: "transaction_accumulator_summary \<Rightarrow> in_memory_accumulator" where
  "summary_accumulator (Summary acc) = acc"

definition TransactionAccumulatorSummary_new ::
  "in_memory_accumulator \<Rightarrow> (transaction_accumulator_summary, anyhow) result" where
  "TransactionAccumulatorSummary_new acc =
     bind_res (ensure (\<not> accumulator_is_empty acc)
       (Msg ''empty accumulator: we can't verify consistency proofs from an empty accumulator''))
       (\<lambda>_. Ok (Summary acc))"

definition summary_version :: "transaction_accumulator_summary \<Rightarrow> u64" where
  "summary_version sm = accumulator_version (summary_accumulator sm)"

definition summary_root_hash :: "transaction_accumulator_summary \<Rightarrow> hash_value" where
  "summary_root_hash sm = root_hash (summary_accumulator sm)"

definition verify_consistency ::
  "transaction_accumulator_summary \<Rightarrow> ledger_info \<Rightarrow> (unit, anyhow) result" where
  "verify_consistency sm li =
     bind_res (ensure (li_version li = summary_version sm)
       (Msg ''ledger info and accumulator must be at the same version'')) (\<lambda>_.
     bind_res (ensure (transaction_accumulator_hash li = summary_root_hash sm)
       (Msg ''ledger info root hash and accumulator root hash must match'')) (\<lambda>_. Ok ()))"

definition try_from_genesis_proof ::
  "node_hasher \<Rightarrow> accumulator_consistency_proof \<Rightarrow> u64 \<Rightarrow> (transaction_accumulator_summary, anyhow) result" where
  "try_from_genesis_proof h2 genesis_proof target_version =
     bind_res (InMemoryAccumulator_new h2 (subtrees genesis_proof) (saturating_add target_version 1))
       (\<lambda>acc. Ok (Summary acc))"

definition try_extend_with_proof ::
  "node_hasher \<Rightarrow> transaction_accumulator_summary \<Rightarrow> accumulator_consistency_proof \<Rightarrow> ledger_info \<Rightarrow>
   (transaction_accumulator_summary, anyhow) result" where
  "try_extend_with_proof h2 sm consistency_proof target_li =
     bind_res (ensure (li_version target_li \<ge> summary_version sm)
       (Msg ''target ledger info version must be newer than our current accumulator summary version'')) (\<lambda>_.
     bind_res (sub_chk (li_version target_li) (summary_version sm)) (\<lambda>num_new_txns.
     bind_res (append_subtrees h2 (summary_accumulator sm) (subtrees consistency_proof) num_new_txns) (\<lambda>acc.
     bind_res (map_err (Context ''accumulator is not consistent with the target ledger info after applying consistency proof'')
       (verify_consistency (Summary acc) target_li)) (\<lambda>_.
     Ok (Summary acc)))))"

section \<open>The reference tree\<close>

text \<open>
  The Merkle tree of depth \<open>d\<close> over at most \<open>2 ^ d\<close> leaves: a subtree without leaves is the
  placeholder, whatever its depth. The depth of the whole tree is the least that has room for all
  the leaves.
\<close>

fun merkle :: "node_hasher \<Rightarrow> nat \<Rightarrow> hash_value list \<Rightarrow> hash_value" where
  "merkle h2 0 xs = (if xs = [] then ACCUMULATOR_PLACEHOLDER_HASH else hd xs)"
| "merkle h2 (Suc d) xs =
     (if xs = [] then ACCUMULATOR_PLACEHOLDER_HASH
      else h2 (merkle h2 d (take (2 ^ d) xs)) (merkle h2 d (drop (2 ^ d) xs)))"

fun log2up :: "nat \<Rightarrow> nat" where
  "log2up n = (if n \<le> 1 then 0 else Suc (log2up ((n + 1) div 2)))"

declare log2up.simps [simp del]

definition merkle_root :: "node_hasher \<Rightarrow> hash_value list \<Rightarrow> hash_value" where
  "merkle_root h2 xs = merkle h2 (log2up (length xs)) xs"

text \<open>The full subtree of height \<open>i\<close>, for each set bit \<open>i\<close> of the number of leaves.\<close>

definition block_start :: "nat \<Rightarrow> nat \<Rightarrow> nat" where
  "block_start n i = 2 ^ i * (n div 2 ^ i)"

definition full_root :: "node_hasher \<Rightarrow> hash_value list \<Rightarrow> nat \<Rightarrow> hash_value" where
  "full_root h2 xs i = merkle h2 i (take (2 ^ i) (drop (block_start (length xs) (Suc i)) xs))"

definition full_roots :: "node_hasher \<Rightarrow> hash_value list \<Rightarrow> hash_value list" where
  "full_roots h2 xs = map (full_root h2 xs) (rev (filter (bit (length xs)) [0..<64]))"

definition acc_rep :: "node_hasher \<Rightarrow> in_memory_accumulator \<Rightarrow> hash_value list \<Rightarrow> bool" where
  "acc_rep h2 acc xs \<longleftrightarrow> length xs < 2 ^ 64 \<and> num_leaves acc = of_nat (length xs) \<and>
     frozen_subtree_roots acc = full_roots h2 xs \<and> root_hash acc = merkle_root h2 xs"

subsection \<open>Arithmetic of blocks\<close>

lemma merkle_Nil [simp]: "merkle h2 d [] = ACCUMULATOR_PLACEHOLDER_HASH"
  by (cases d) simp_all

lemma div_pow_Suc: "n div 2 ^ Suc i = n div 2 ^ i div 2" for n :: nat
  using div_mult2_eq [of n "2 ^ i" 2] by (simp add: mult.commute)

lemma block_start_Suc:
  "block_start n i = (if bit n i then block_start n (Suc i) + 2 ^ i else block_start n (Suc i))"
proof -
  have "n div 2 ^ i = 2 * (n div 2 ^ i div 2) + n div 2 ^ i mod 2" by simp
  moreover have "n div 2 ^ i mod 2 = (if bit n i then 1 else 0)"
    by (simp add: bit_iff_odd mod2_eq_if)
  ultimately have "n div 2 ^ i = 2 * (n div 2 ^ Suc i) + (if bit n i then 1 else 0)"
    unfolding div_pow_Suc by metis
  then show ?thesis by (simp add: block_start_def algebra_simps)
qed

lemma block_start_le: "block_start n i \<le> n"
  by (simp add: block_start_def)

lemma block_start_rest: "n - block_start n i = n mod 2 ^ i"
  by (simp add: block_start_def minus_mult_div_eq_mod)

lemma block_start_rest_less: "n - block_start n i < 2 ^ i"
  by (simp add: block_start_rest)

lemma block_start_top: "n < 2 ^ i \<Longrightarrow> block_start n i = 0"
  by (simp add: block_start_def)

lemma drop_block:
  assumes "bit (length xs) i"
  shows "drop (2 ^ i) (drop (block_start (length xs) (Suc i)) xs) = drop (block_start (length xs) i) xs"
  using assms by (simp add: block_start_Suc [of _ i] add.commute)

text \<open>One level up: the partial subtree of height \<open>i + 1\<close> at the right edge of the tree.\<close>

lemma merkle_edge_Suc:
  assumes "length xs mod 2 ^ i \<noteq> 0 \<or> bit (length xs) i"
  shows "merkle h2 (Suc i) (drop (block_start (length xs) (Suc i)) xs) =
    (if bit (length xs) i
     then h2 (full_root h2 xs i) (merkle h2 i (drop (block_start (length xs) i) xs))
     else h2 (merkle h2 i (drop (block_start (length xs) i) xs)) ACCUMULATOR_PLACEHOLDER_HASH)"
proof (cases "bit (length xs) i")
  case True
  have "block_start (length xs) (Suc i) + 2 ^ i \<le> length xs"
    using True block_start_Suc [of "length xs" i] block_start_le [of "length xs" i] by simp
  moreover have "0 < (2 :: nat) ^ i" by simp
  ultimately have "block_start (length xs) (Suc i) < length xs" by linarith
  with True show ?thesis by (simp add: full_root_def drop_block [OF True] del: drop_drop)
next
  case False
  then have eq: "block_start (length xs) (Suc i) = block_start (length xs) i"
    by (simp add: block_start_Suc [of _ i])
  let ?zs = "drop (block_start (length xs) i) xs"
  have "length ?zs = length xs mod 2 ^ i" by (simp add: block_start_rest)
  then have "?zs \<noteq> []" "length ?zs \<le> 2 ^ i" using assms False by (auto intro: less_imp_le)
  with False show ?thesis by (simp add: eq)
qed

lemma unat_drop_bit_u64: "unat (drop_bit i (of_nat n :: u64)) = n div 2 ^ i" if "n < 2 ^ 64"
proof -
  have "unat (of_nat n :: u64) = n" using that by (intro unat_of_nat_below) simp
  with that show ?thesis
    by (simp only: unsigned_drop_bit_eq) (simp add: take_bit_nat_eq_self drop_bit_eq_div)
qed

lemma and_one_ne_0: "(w :: u64) AND 1 \<noteq> 0 \<longleftrightarrow> odd w"
  by (simp add: and_one_eq mod_2_eq_odd)

lemma odd_of_nat_u64: "odd (of_nat m :: u64) \<longleftrightarrow> odd m"
  by (simp flip: bit_0 add: bit_of_nat_iff)

lemma drop_bit_of_nat_u64: "m < 2 ^ 64 \<Longrightarrow> drop_bit i (of_nat m :: u64) = of_nat (m div 2 ^ i)"
  using unat_drop_bit_u64 [of m i] by (metis of_nat_unat ucast_id)

lemma edge_Suc:
  fixes n :: nat
  assumes "n mod 2 ^ i \<noteq> 0 \<or> bit n i"
  shows "n mod 2 ^ Suc i \<noteq> 0"
proof
  assume "n mod 2 ^ Suc i = 0"
  then obtain q where "n = 2 ^ i * (2 * q)" by (auto elim!: dvdE simp: mod_0_imp_dvd ac_simps)
  then show False using assms by (simp add: bit_iff_odd)
qed

lemma root_loop_edge:
  fixes xs :: "hash_value list"
  defines "n \<equiv> length xs"
  assumes n: "n < 2 ^ 64" and b: "n < 2 ^ b" "b \<le> 64" and "i \<le> b"
    and edge: "n mod 2 ^ i \<noteq> 0 \<or> bit n i \<or> i = b" and top: "b = 0 \<or> 2 ^ (b - 1) \<le> n"
  shows "root_loop h2 (of_nat (n div 2 ^ i)) (merkle h2 i (drop (block_start n i) xs))
      (map (full_root h2 xs) (filter (bit n) [i..<b])) = (Ok (merkle h2 b xs) :: (hash_value, 'e) result)"
  using \<open>i \<le> b\<close> edge
proof (induction "b - i" arbitrary: i)
  case 0
  then have "i = b" by simp
  with b show ?case by (simp add: root_loop.simps block_start_top)
next
  case (Suc k)
  then have ib: "i < b" by simp
  have lt: "n div 2 ^ i < 2 ^ LENGTH(64)" using n by (auto intro: le_less_trans [OF div_le_dividend])
  have pos: "n div 2 ^ i \<noteq> 0"
  proof -
    have "2 ^ i \<le> (2 :: nat) ^ (b - 1)" using ib by (intro power_increasing) simp_all
    also have "\<dots> \<le> n" using top ib by blast
    finally have "2 ^ i \<le> n" .
    then show ?thesis by (simp add: div_eq_0_iff not_less)
  qed
  have w0: "of_nat (n div 2 ^ i) \<noteq> (0 :: u64)"
    using pos lt by (metis unat_of_nat_below unsigned_0)
  have odd: "of_nat (n div 2 ^ i) AND (1 :: u64) \<noteq> 0 \<longleftrightarrow> bit n i"
    by (simp add: and_one_ne_0 odd_of_nat_u64 bit_iff_odd)
  have step: "drop_bit 1 (of_nat (n div 2 ^ i)) = (of_nat (n div 2 ^ Suc i) :: u64)"
    using lt drop_bit_of_nat_u64 [of "n div 2 ^ i" 1] by (simp only: div_pow_Suc power_one_right) simp
  have upt: "[i..<b] = i # [Suc i..<b]" using ib by (rule upt_conv_Cons)
  have IH: "root_loop h2 (of_nat (n div 2 ^ Suc i)) (merkle h2 (Suc i) (drop (block_start n (Suc i)) xs))
      (map (full_root h2 xs) (filter (bit n) [Suc i..<b])) = (Ok (merkle h2 b xs) :: (hash_value, 'e) result)"
    using Suc.hyps(2) Suc.prems ib edge_Suc [of n i] by (intro Suc.hyps(1)) auto
  have edge_i: "length xs mod 2 ^ i \<noteq> 0 \<or> bit (length xs) i" using Suc.prems ib by (auto simp: n_def)
  show ?case
    using IH merkle_edge_Suc [OF edge_i, of h2, folded n_def]
    by (subst root_loop.simps) (cases "bit n i"; simp only: w0 odd step upt filter.simps list.map list.case
      if_True if_False not_True_eq_False not_False_eq_True)
qed

subsection \<open>The root of the full subtrees\<close>

lemma log2up_between: "2 ^ k < n \<Longrightarrow> n \<le> 2 ^ Suc k \<Longrightarrow> log2up n = Suc k"
proof (induction k arbitrary: n)
  case 0
  then have "n = 2" by simp
  then show ?case by (simp add: log2up.simps [of 2] log2up.simps [of "Suc 0"])
next
  case (Suc k)
  have "2 ^ k < (n + 1) div 2" "(n + 1) div 2 \<le> 2 ^ Suc k" using Suc.prems by simp_all
  then have "log2up ((n + 1) div 2) = Suc k" by (rule Suc.IH)
  moreover have "1 < n" using Suc.prems(1) one_le_power [of "2 :: nat" "Suc k"] by linarith
  ultimately show ?case by (simp add: log2up.simps [of n])
qed

lemma log2up_power: "log2up (2 ^ k) = k"
proof (cases k)
  case (Suc j)
  then show ?thesis using log2up_between [of j "2 ^ k"] by simp
qed (simp add: log2up.simps)

lemma bit_u64_of_nat: "bit (of_nat n :: u64) i \<longleftrightarrow> i < 64 \<and> bit n i"
  by (simp add: bit_of_nat_iff)

lemma bits_of_nat_u64: "filter (bit (of_nat n :: u64)) [0..<64] = filter (bit n) [0..<64]"
  by (auto simp: bit_u64_of_nat intro!: filter_cong)

lemma not_bit_above: "n < 2 ^ b \<Longrightarrow> b \<le> i \<Longrightarrow> \<not> bit n i" for n :: nat
  using less_le_trans [of n "2 ^ b" "2 ^ i"] by (simp add: bit_iff_odd)

lemma no_bits_zero:
  fixes n :: nat
  assumes "n < 2 ^ 64" "filter (bit n) [0..<64] = []"
  shows "n = 0"
proof (rule bit_eqI)
  fix i show "bit n i \<longleftrightarrow> bit (0 :: nat) i"
    using assms not_bit_above [OF assms(1), of i] by (cases "i < 64") (auto simp: filter_empty_conv)
qed

lemma filter_eq_upt_one: "length (filter (\<lambda>i. i = j) [m..<k]) \<le> 1"
  using distinct_length_filter [of "[m..<k]" "\<lambda>i. i = j"] card_mono [of "{j}" "{i. i = j} \<inter> {m..<k}"] by simp

lemma one_bit_power:
  fixes n :: nat
  assumes "n < 2 ^ 64" "filter (bit n) [0..<64] = [k]"
  shows "n = 2 ^ k"
proof (rule bit_eqI)
  fix i
  have "{i. i < 64 \<and> bit n i} = {k}" using arg_cong [OF assms(2), of set] by auto
  then show "bit n i \<longleftrightarrow> bit (2 ^ k :: nat) i"
    using not_bit_above [OF assms(1), of i] by (cases "i < 64") (auto simp: bit_exp_iff)
qed

lemma u64_trailing_zeros_of_nat:
  fixes n :: nat
  assumes "n < 2 ^ 64" "n \<noteq> 0"
  defines "k \<equiv> u64_trailing_zeros (of_nat n)"
  shows "k < 64" "bit n k" "n mod 2 ^ k = 0" "\<And>j. j < k \<Longrightarrow> \<not> bit n j"
proof -
  let ?P = "\<lambda>i. \<not> bit (of_nat n :: u64) i"
  have "\<exists>i. i < 64 \<and> bit n i" using no_bits_zero [OF assms(1)] assms(2) by (force simp: filter_empty_conv)
  then obtain i where i: "i < 64" "bit n i" by blast
  have k: "k = length (takeWhile ?P [0..<64])" by (simp add: k_def u64_trailing_zeros_def)
  have "\<not> list_all ?P [0..<64]" using i by (auto simp: list_all_iff bit_u64_of_nat)
  then have "takeWhile ?P [0..<64] \<noteq> [0..<64]" by (auto simp: list_all_iff takeWhile_eq_all_conv)
  then have less: "length (takeWhile ?P [0..<64]) < length [0..<64 :: nat]"
    using length_takeWhile_le [of ?P "[0..<64]"] takeWhile_eq_take [of ?P "[0..<64]"]
    by (metis le_neq_implies_less take_all_iff le_refl)
  then show k64: "k < 64" by (simp add: k)
  show "bit n k" using nth_length_takeWhile [OF less] k64 by (simp add: k bit_u64_of_nat)
  show low: "\<not> bit n j" if "j < k" for j
  proof -
    have "j < length (takeWhile ?P [0..<64])" using that by (simp add: k)
    then have "[0..<64] ! j \<in> set (takeWhile ?P [0..<64])" by (metis nth_mem takeWhile_nth)
    then show ?thesis using that k64 by (auto dest!: set_takeWhileD simp: bit_u64_of_nat)
  qed
  have "take_bit k n = 0" by (rule bit_eqI) (auto simp: bit_take_bit_iff low)
  then show "n mod 2 ^ k = 0" by (simp add: take_bit_eq_mod)
qed

lemma upt_split: "i \<le> j \<Longrightarrow> j \<le> k \<Longrightarrow> [i..<k] = [i..<j] @ [j..<k]"
  using upt_add_eq_append [of i j "k - j"] by simp

lemma zero_one_more: "xs = [] \<or> (\<exists>k. xs = [k]) \<or> (\<exists>x y zs. rev xs = x # y # zs)"
  by (cases "rev xs"; cases "tl (rev xs)") auto

lemma ex_bit_length: "\<exists>b. n < 2 ^ b \<and> (b = 0 \<or> 2 ^ (b - 1) \<le> n)" for n :: nat
proof -
  have "n < 2 ^ (LEAST b. n < 2 ^ b)" by (rule LeastI [of "\<lambda>b. n < 2 ^ b" n]) simp
  moreover have "\<not> n < 2 ^ ((LEAST b. n < 2 ^ b) - 1)" if "(LEAST b. n < 2 ^ b) \<noteq> 0"
    using that by (intro not_less_Least) simp
  ultimately show ?thesis by (metis not_less)
qed

lemma compute_root_hash_full_roots:
  assumes n: "length xs < 2 ^ 64"
  shows "compute_root_hash h2 (full_roots h2 xs) (of_nat (length xs))
    = (Ok (merkle_root h2 xs) :: (hash_value, 'e) result)"
proof -
  let ?n = "length xs"
  let ?bs = "filter (bit ?n) [0..<64]"
  consider "?bs = []" | k where "?bs = [k]" | x y zs where "rev ?bs = x # y # zs"
    using zero_one_more [of ?bs] by blast
  then show ?thesis
  proof cases
    case 1
    then have "xs = []" using no_bits_zero [OF n] by simp
    then show ?thesis using 1 by (simp add: full_roots_def compute_root_hash_def merkle_root_def)
  next
    case (2 k)
    then have nk: "?n = 2 ^ k" by (rule one_bit_power [OF n])
    then have "full_roots h2 xs = [merkle h2 k xs]"
      using 2 by (simp add: full_roots_def full_root_def block_start_top)
    then show ?thesis by (simp add: compute_root_hash_def merkle_root_def nk log2up_power)
  next
    case (3 x y zs)
    let ?k = "u64_trailing_zeros (of_nat ?n)"
    obtain b where b: "?n < 2 ^ b" "b = 0 \<or> 2 ^ (b - 1) \<le> ?n" using ex_bit_length by blast
    have "?n \<noteq> 0" using 3 by auto
    note k = u64_trailing_zeros_of_nat [OF n this]
    have b64: "b \<le> 64"
    proof (rule ccontr)
      assume "\<not> b \<le> 64"
      then have "2 ^ 64 \<le> (2 :: nat) ^ (b - 1)" by (intro power_increasing) simp_all
      also have "\<dots> \<le> ?n" using b(2) \<open>\<not> b \<le> 64\<close> by simp
      finally show False using n by simp
    qed
    have kb: "?k < b" using k(2) not_bit_above [OF b(1), of ?k] by (meson not_less)
    have "[0..<64] = [0..<?k] @ [?k..<64]" "[?k..<64] = [?k..<b] @ [b..<64]"
      by (rule upt_split; use kb b64 in simp)+
    then have "[0..<64] = [0..<?k] @ [?k..<b] @ [b..<64]" by metis
    moreover have "filter (bit ?n) [0..<?k] = []" "filter (bit ?n) [b..<64] = []"
      using k(4) not_bit_above [OF b(1)] by (auto simp: filter_empty_conv)
    ultimately have bs: "?bs = filter (bit ?n) [?k..<b]" by simp
    have "?n \<noteq> 2 ^ (b - 1)"
    proof
      assume "?n = 2 ^ (b - 1)"
      then have "?bs = filter (\<lambda>i. i = b - 1) [0..<64]" by (intro filter_cong) (auto simp: bit_exp_iff)
      then have "length ?bs \<le> 1" by (simp only: filter_eq_upt_one)
      then show False using arg_cong [OF 3, of length] by simp
    qed
    then have "log2up ?n = b" using b kb log2up_between [of "b - 1" ?n] by (cases b) auto
    moreover have "root_loop h2 (of_nat (?n div 2 ^ ?k)) (merkle h2 ?k (drop (block_start ?n ?k) xs))
        (map (full_root h2 xs) (filter (bit ?n) [?k..<b])) = (Ok (merkle h2 b xs) :: (hash_value, 'e) result)"
      using n b b64 kb k(2) by (intro root_loop_edge) auto
    moreover have "block_start ?n ?k = ?n"
      using block_start_rest [of ?n ?k] block_start_le [of ?n ?k] k(3) by simp
    moreover have "compute_root_hash h2 (full_roots h2 xs) (of_nat ?n)
      = (root_loop h2 (drop_bit ?k (of_nat ?n)) ACCUMULATOR_PLACEHOLDER_HASH (rev (full_roots h2 xs)) :: (hash_value, 'e) result)"
      using 3 k(1) by (simp add: compute_root_hash_def full_roots_def)
    ultimately show ?thesis
      using n by (simp add: merkle_root_def drop_bit_of_nat_u64 full_roots_def rev_map bs)
  qed
qed

lemma log2up_cases: "n \<le> 1 \<and> log2up n = 0 \<or> (\<exists>k. 2 ^ k < n \<and> n \<le> 2 ^ Suc k \<and> log2up n = Suc k)"
proof (induction n rule: log2up.induct)
  case (1 n)
  show ?case
  proof (cases "n \<le> 1")
    case False
    let ?m = "(n + 1) div 2"
    have n: "log2up n = Suc (log2up ?m)" using False by (simp add: log2up.simps [of n])
    from "1" [OF False] show ?thesis
    proof
      assume "?m \<le> 1 \<and> log2up ?m = 0"
      then have m: "?m \<le> 1" "log2up ?m = 0" by simp_all
      have "n = 2" using m(1) False by arith
      moreover have "log2up n = Suc 0" using n m(2) by simp
      ultimately show ?thesis by (intro disjI2 exI [of _ 0]) simp
    next
      assume "\<exists>k. 2 ^ k < ?m \<and> ?m \<le> 2 ^ Suc k \<and> log2up ?m = Suc k"
      then obtain k where "2 ^ k < ?m" "?m \<le> 2 ^ Suc k" "log2up ?m = Suc k" by blast
      then show ?thesis using n by (intro disjI2 exI [of _ "Suc k"]) auto
    qed
  qed (simp add: log2up.simps)
qed

lemma log2up_bound: "n \<le> 2 ^ log2up n"
  using log2up_cases [of n] by auto

lemma log2up_least: "n \<le> 2 ^ d \<Longrightarrow> log2up n \<le> d"
proof (rule ccontr)
  assume n: "n \<le> 2 ^ d" and "\<not> log2up n \<le> d"
  then obtain k where k: "2 ^ k < n" "log2up n = Suc k" using log2up_cases [of n] by auto
  then have "2 ^ d \<le> (2 :: nat) ^ k" using \<open>\<not> log2up n \<le> d\<close> by (intro power_increasing) auto
  then show False using n k(1) by linarith
qed

subsection \<open>Appending a leaf\<close>

text \<open>
  Appending to \<open>n\<close> leaves is adding one to \<open>n\<close>: with \<open>t\<close> trailing ones, the bits below
  \<open>t\<close> are cleared and bit \<open>t\<close> is set.
\<close>

lemma carry_low:
  fixes n :: nat
  assumes "\<And>j. j < t \<Longrightarrow> bit n j" "i \<le> t"
  shows "n mod 2 ^ i = 2 ^ i - 1" "block_start n i = Suc n - 2 ^ i" "2 ^ i \<le> Suc n"
proof -
  have "take_bit i n = mask i"
    by (rule bit_eqI) (use assms in \<open>auto simp: bit_take_bit_iff bit_mask_iff\<close>)
  then show m: "n mod 2 ^ i = 2 ^ i - 1" by (simp add: take_bit_eq_mod mask_eq_exp_minus_1)
  have pos: "0 < (2 :: nat) ^ i" by simp
  from m show le: "2 ^ i \<le> Suc n" using mod_less_eq_dividend [of n "2 ^ i"] pos by linarith
  show "block_start n i = Suc n - 2 ^ i"
    using block_start_rest [of n i] block_start_le [of n i] m le pos by linarith
qed

lemma carry_high:
  fixes n :: nat
  assumes "\<And>j. j < t \<Longrightarrow> bit n j" "\<not> bit n t" "t < i"
  shows "Suc n div 2 ^ i = n div 2 ^ i"
proof -
  have "block_start n (Suc t) = block_start n t" using assms(2) by (simp add: block_start_Suc [of n t])
  then have "n mod 2 ^ Suc t = n mod 2 ^ t" by (metis block_start_rest)
  also have "\<dots> = 2 ^ t - 1" using carry_low(1) [of t n t] assms(1) by simp
  finally have "Suc (n mod 2 ^ Suc t) \<noteq> 2 ^ Suc t" using zero_less_power [of "2 :: nat" t] by simp
  then have "Suc n div 2 ^ Suc t = n div 2 ^ Suc t" by (simp add: div_Suc mod_Suc del: power_Suc)
  moreover have "m div 2 ^ i = m div 2 ^ Suc t div 2 ^ (i - Suc t)" for m :: nat
    using assms(3) by (simp only: div_mult2_eq [symmetric] power_add [symmetric]) simp
  ultimately show ?thesis by metis
qed

lemma carry_bits:
  fixes n :: nat
  assumes "\<And>j. j < t \<Longrightarrow> bit n j" "\<not> bit n t"
  shows "bit (Suc n) i \<longleftrightarrow> i = t \<or> t < i \<and> bit n i"
proof (cases "t < i")
  case True
  then show ?thesis using carry_high [OF assms(1,2) True] by (simp add: bit_iff_odd)
next
  case False
  then have "n mod 2 ^ i = 2 ^ i - 1" using carry_low(1) [of t n i] assms(1) by simp
  then have "Suc (n mod 2 ^ i) = 2 ^ i" by simp
  then have "Suc n div 2 ^ i = Suc (n div 2 ^ i)" by (simp add: div_Suc mod_Suc)
  then have "bit (Suc n) i \<longleftrightarrow> \<not> bit n i" by (simp add: bit_iff_odd)
  then show ?thesis using False assms by (metis linorder_neqE_nat)
qed

lemma carry_roots:
  fixes xs :: "hash_value list" and h2 :: node_hasher
  assumes low: "\<And>j. j < t \<Longrightarrow> bit (length xs) j" and clear: "\<not> bit (length xs) t" and t: "t < 64"
  defines "hi \<equiv> map (full_root h2 xs) (rev (filter (bit (length xs)) [Suc t..<64]))"
  shows "full_roots h2 xs = hi @ map (full_root h2 xs) (rev [0..<t])"
    and "full_roots h2 (xs @ [x]) = hi @ [merkle h2 t (drop (Suc (length xs) - 2 ^ t) (xs @ [x]))]"
proof -
  let ?n = "length xs"
  have upt: "[0..<64] = [0..<t] @ t # [Suc t..<64]"
    using upt_split [of 0 t 64] t by (simp add: upt_conv_Cons)
  have "filter (bit ?n) [0..<t] = [0..<t]" using low by (simp add: filter_id_conv)
  then show "full_roots h2 xs = hi @ map (full_root h2 xs) (rev [0..<t])"
    using clear by (simp add: full_roots_def upt hi_def)
  have "filter (bit (Suc ?n)) [0..<t] = []" "filter (bit (Suc ?n)) [Suc t..<64] = filter (bit ?n) [Suc t..<64]"
    by (auto simp: carry_bits [OF low clear] filter_empty_conv intro!: filter_cong)
  then have bits: "filter (bit (Suc ?n)) [0..<64] = t # filter (bit ?n) [Suc t..<64]"
    by (simp add: upt carry_bits [OF low clear])
  have same: "block_start (Suc ?n) i = block_start ?n i" if "t < i" for i
    using carry_high [OF low clear that] by (simp add: block_start_def)
  have "full_root h2 (xs @ [x]) i = full_root h2 xs i" if "i \<in> set (filter (bit ?n) [Suc t..<64])" for i
  proof -
    have "block_start ?n (Suc i) + 2 ^ i \<le> ?n"
      using that block_start_Suc [of ?n i] block_start_le [of ?n i] by simp
    then show ?thesis using that by (simp add: full_root_def same)
  qed
  moreover have "block_start ?n (Suc t) = Suc ?n - 2 ^ t"
    using clear block_start_Suc [of ?n t] carry_low(2) [of t ?n t] low by simp
  then have "full_root h2 (xs @ [x]) t = merkle h2 t (drop (Suc ?n - 2 ^ t) (xs @ [x]))"
    using carry_low(3) [of t ?n t] low by (simp add: full_root_def same del: drop_append take_append)
  ultimately show "full_roots h2 (xs @ [x]) = hi @ [merkle h2 t (drop (Suc ?n - 2 ^ t) (xs @ [x]))]"
    by (simp add: full_roots_def bits hi_def del: drop_append)
qed

lemma merge_last_carry:
  assumes low: "\<And>j. j < t \<Longrightarrow> bit (length xs) j" and "k \<le> t"
  shows "merge_last h2 k (P @ map (full_root h2 xs) (rev [t - k..<t])
      @ [merkle h2 (t - k) (drop (Suc (length xs) - 2 ^ (t - k)) (xs @ [x]))])
    = (Ok (P @ [merkle h2 t (drop (Suc (length xs) - 2 ^ t) (xs @ [x]))]) :: (hash_value list, 'e) result)"
  using \<open>k \<le> t\<close>
proof (induction k)
  case (Suc k)
  let ?n = "length xs" and ?ys = "xs @ [x]" and ?j = "t - Suc k"
  have j: "t - k = Suc ?j" "?j < t" "Suc ?j \<le> t" using Suc.prems by simp_all
  have upt: "rev [?j..<t] = rev [Suc ?j..<t] @ [?j]" using j(2) by (simp add: upt_conv_Cons)
  note c = carry_low [of t ?n "Suc ?j", OF low j(3)] carry_low [of t ?n ?j, OF low less_imp_le [OF j(2)]]
  let ?zs = "drop (Suc ?n - 2 ^ Suc ?j) ?ys"
  have "length ?zs = 2 ^ Suc ?j" using c(3) by simp
  then have "?zs \<noteq> []" by (metis length_0_conv power_not_zero zero_neq_numeral)
  moreover have "take (2 ^ ?j) ?zs = take (2 ^ ?j) (drop (block_start ?n (Suc ?j)) xs)"
    using c(2,3) by simp
  moreover have "drop (2 ^ ?j) ?zs = drop (Suc ?n - 2 ^ ?j) ?ys"
    using c(3) by (simp add: drop_drop del: drop_append)
  ultimately have up: "h2 (full_root h2 xs ?j) (merkle h2 ?j (drop (Suc ?n - 2 ^ ?j) ?ys)) = merkle h2 (Suc ?j) ?zs"
    by (simp add: full_root_def del: drop_append)
  have "merge_last h2 (Suc k) (P @ map (full_root h2 xs) (rev [?j..<t])
      @ [merkle h2 ?j (drop (Suc ?n - 2 ^ ?j) ?ys)])
    = (merge_last h2 k (P @ map (full_root h2 xs) (rev [Suc ?j..<t])
      @ [h2 (full_root h2 xs ?j) (merkle h2 ?j (drop (Suc ?n - 2 ^ ?j) ?ys))]) :: (hash_value list, 'e) result)"
    unfolding upt by (simp add: butlast_append del: drop_append)
  also have "\<dots> = Ok (P @ [merkle h2 t (drop (Suc ?n - 2 ^ t) ?ys)])"
    using Suc.IH Suc.prems unfolding up j(1) by simp
  finally show ?case .
qed simp

lemma u64_trailing_ones:
  fixes n :: nat
  assumes "Suc n < 2 ^ 64"
  defines "t \<equiv> u64_trailing_zeros (NOT (of_nat n))"
  shows "t < 64" "\<not> bit n t" "\<And>j. j < t \<Longrightarrow> bit n j"
proof -
  have unat: "unat (of_nat n :: u64) = n" using assms(1) by (intro unat_of_nat_below) simp
  define m where "m = unat (NOT (of_nat n :: u64))"
  have m: "m < 2 ^ 64" "of_nat m = NOT (of_nat n :: u64)"
    using unat_below [of "NOT (of_nat n :: u64)"] by (simp_all add: m_def)
  have "m \<noteq> 0"
  proof
    assume "m = 0"
    then have "of_nat n = (- 1 :: u64)" using m(2) by (simp add: not_eq_complement) (metis minus_minus)
    then have "n = 2 ^ 64 - 1" using unat by (simp add: unsigned_minus_1_eq_mask mask_eq_exp_minus_1)
    then show False using assms(1) by simp
  qed
  note t = u64_trailing_zeros_of_nat [OF m(1) this, unfolded m(2), folded t_def]
  have bits: "bit m i \<longleftrightarrow> \<not> bit n i" if "i < 64" for i
    using that bit_u64_of_nat [of m i] bit_u64_of_nat [of n i] by (simp add: m(2) bit_not_iff)
  show "t < 64" by (rule t(1))
  show "\<not> bit n t" using t(1,2) bits by blast
  show "bit n j" if "j < t" for j using t(4) [OF that] bits [of j] that t(1) by (meson less_trans)
qed

lemma append_one_full_roots:
  assumes "Suc (length xs) < 2 ^ 64"
  shows "append_one h2 (full_roots h2 xs) (of_nat (length xs)) x
    = (Ok (full_roots h2 (xs @ [x])) :: (hash_value list, 'e) result)"
proof -
  let ?t = "u64_trailing_zeros (NOT (of_nat (length xs)))"
  let ?hi = "map (full_root h2 xs) (rev (filter (bit (length xs)) [Suc ?t..<64]))"
  note t = u64_trailing_ones [OF assms]
  have "full_roots h2 xs = ?hi @ map (full_root h2 xs) (rev [0..<?t])"
    and "full_roots h2 (xs @ [x]) = ?hi @ [merkle h2 ?t (drop (Suc (length xs) - 2 ^ ?t) (xs @ [x]))]"
    using carry_roots(1) [of ?t xs h2] carry_roots(2) [of ?t xs h2 x] t by blast+
  then show ?thesis
    using merge_last_carry [of ?t xs ?t h2 ?hi x] t(3) by (simp add: append_one_def)
qed

lemma append_leaves_full_roots:
  assumes "length xs + length ys < 2 ^ 64"
  shows "append_leaves h2 (full_roots h2 xs) (of_nat (length xs)) ys
    = (Ok (full_roots h2 (xs @ ys), of_nat (length (xs @ ys))) :: (hash_value list \<times> u64, 'e) result)"
  using assms
proof (induction ys arbitrary: xs)
  case (Cons y ys)
  have "unat (of_nat (length xs) :: u64) = length xs" using Cons.prems by (intro unat_of_nat_below) simp
  then have "add_chk (of_nat (length xs)) 1 = (Ok (of_nat (length xs) + 1) :: (u64, 'e) result)"
    using Cons.prems by (intro add_chk_defined) simp
  then show ?case
    using Cons.IH [of "xs @ [y]"] Cons.prems by (simp add: add.commute append_one_full_roots)
qed simp

lemma InMemoryAccumulator_new_full_roots:
  assumes "length xs < 2 ^ 64"
  shows "InMemoryAccumulator_new h2 (full_roots h2 xs) (of_nat (length xs)) = Ok
    \<lparr>frozen_subtree_roots = full_roots h2 xs, num_leaves = of_nat (length xs), root_hash = merkle_root h2 xs\<rparr>"
proof -
  have "length (full_roots h2 xs) = u64_count_ones (of_nat (length xs))"
    by (simp add: full_roots_def u64_count_ones_def bits_of_nat_u64)
  then show ?thesis
    using assms by (simp add: InMemoryAccumulator_new_def compute_root_hash_full_roots)
qed

section \<open>Inclusion proofs\<close>

text \<open>The siblings on the path of leaf \<open>i\<close>, from the leaf to the root.\<close>

fun sibling_path :: "node_hasher \<Rightarrow> nat \<Rightarrow> hash_value list \<Rightarrow> nat \<Rightarrow> hash_value list" where
  "sibling_path h2 0 xs i = []"
| "sibling_path h2 (Suc d) xs i =
     (if i < 2 ^ d then sibling_path h2 d (take (2 ^ d) xs) i @ [merkle h2 d (drop (2 ^ d) xs)]
      else sibling_path h2 d (drop (2 ^ d) xs) (i - 2 ^ d) @ [merkle h2 d (take (2 ^ d) xs)])"

definition fold_siblings :: "node_hasher \<Rightarrow> hash_value \<Rightarrow> u64 \<Rightarrow> hash_value list \<Rightarrow> hash_value \<times> u64" where
  "fold_siblings h2 e i sibs = foldl (\<lambda>(hash, index) sibling_hash.
     (if index mod 2 = 0 then h2 hash sibling_hash else h2 sibling_hash hash, index div 2)) (e, i) sibs"

lemma AccumulatorProof_verify_Ok [res_iff]:
  "AccumulatorProof_verify h2 pr root e i = Ok u \<longleftrightarrow>
     length (siblings pr) \<le> MAX_ACCUMULATOR_PROOF_DEPTH \<and> fst (fold_siblings h2 e i (siblings pr)) = root"
  by (simp add: AccumulatorProof_verify_def fold_siblings_def Let_def res_iff)

lemma fold_siblings_index: "unat (snd (fold_siblings h2 e i sibs)) = unat i div 2 ^ length sibs"
proof (induction sibs rule: rev_induct)
  case (snoc s sibs)
  then show ?case
    by (simp add: fold_siblings_def split_def unat_div div_mult2_eq [symmetric] mult.commute)
qed (simp add: fold_siblings_def)

lemma fold_siblings_snoc:
  "fst (fold_siblings h2 e i (sibs @ [s])) =
     (if bit (unat i) (length sibs) then h2 s (fst (fold_siblings h2 e i sibs))
      else h2 (fst (fold_siblings h2 e i sibs)) s)"
proof -
  have "snd (fold_siblings h2 e i sibs) mod 2 = 0 \<longleftrightarrow> \<not> bit (unat i) (length sibs)"
    by (simp add: word_unat_eq_iff unat_mod fold_siblings_index bit_iff_odd) presburger
  then show ?thesis by (simp add: fold_siblings_def split_def)
qed

text \<open>
  The pairs of hashes that the verification of a proof hashes, and those that the tree hashes on
  the path of leaf \<open>i\<close>, both from the leaf to the root.
\<close>

definition proof_nodes :: "node_hasher \<Rightarrow> hash_value \<Rightarrow> u64 \<Rightarrow> hash_value list \<Rightarrow> (hash_value \<times> hash_value) list" where
  "proof_nodes h2 e i sibs = map (\<lambda>k. let hash = fst (fold_siblings h2 e i (take k sibs))
     in if bit (unat i) k then (sibs ! k, hash) else (hash, sibs ! k)) [0..<length sibs]"

fun path_nodes :: "node_hasher \<Rightarrow> nat \<Rightarrow> hash_value list \<Rightarrow> nat \<Rightarrow> (hash_value \<times> hash_value) list" where
  "path_nodes h2 0 xs i = []"
| "path_nodes h2 (Suc d) xs i =
     (if i < 2 ^ d then path_nodes h2 d (take (2 ^ d) xs) i else path_nodes h2 d (drop (2 ^ d) xs) (i - 2 ^ d))
       @ [(merkle h2 d (take (2 ^ d) xs), merkle h2 d (drop (2 ^ d) xs))]"

text \<open>Two different pairs at the same level with the same hash.\<close>

definition collision_at :: "node_hasher \<Rightarrow> (hash_value \<times> hash_value) list \<Rightarrow> (hash_value \<times> hash_value) list \<Rightarrow> nat \<Rightarrow> bool" where
  "collision_at h2 ps qs k \<longleftrightarrow> k < length ps \<and> k < length qs \<and> ps ! k \<noteq> qs ! k \<and>
     h2 (fst (ps ! k)) (snd (ps ! k)) = h2 (fst (qs ! k)) (snd (qs ! k))"

lemma length_path_nodes [simp]: "length (path_nodes h2 d xs i) = d"
  by (induction h2 d xs i rule: path_nodes.induct) auto

lemma length_proof_nodes [simp]: "length (proof_nodes h2 e i sibs) = length sibs"
  by (simp add: proof_nodes_def)

lemma proof_nodes_snoc:
  "proof_nodes h2 e i (sibs @ [s]) = proof_nodes h2 e i sibs @
     [if bit (unat i) (length sibs) then (s, fst (fold_siblings h2 e i sibs)) else (fst (fold_siblings h2 e i sibs), s)]"
  by (simp add: proof_nodes_def nth_append Let_def)

lemma collision_at_snoc:
  assumes "(\<exists>k. collision_at h2 ps qs k) \<or> p \<noteq> q \<and> h2 (fst p) (snd p) = h2 (fst q) (snd q)" "length ps = length qs"
  shows "\<exists>k. collision_at h2 (ps @ [p]) (qs @ [q]) k"
proof -
  from assms(1) consider k where "collision_at h2 ps qs k" | "p \<noteq> q" "h2 (fst p) (snd p) = h2 (fst q) (snd q)" by blast
  then show ?thesis
  proof cases
    case 1
    then show ?thesis by (intro exI [of _ k]) (simp add: collision_at_def nth_append)
  next
    case 2
    then show ?thesis using assms(2) by (intro exI [of _ "length qs"]) (simp add: collision_at_def nth_append)
  qed
qed

lemma fold_siblings_sound:
  assumes "fst (fold_siblings h2 e i sibs) = merkle h2 (length sibs) xs"
    and "unat i mod 2 ^ length sibs < length xs"
  shows "e = xs ! (unat i mod 2 ^ length sibs) \<and> sibs = sibling_path h2 (length sibs) xs (unat i mod 2 ^ length sibs) \<or>
    (\<exists>k. collision_at h2 (proof_nodes h2 e i sibs) (path_nodes h2 (length sibs) xs (unat i mod 2 ^ length sibs)) k)"
  using assms
proof (induction sibs arbitrary: xs rule: rev_induct)
  case Nil
  then show ?case by (cases xs) (auto simp: fold_siblings_def)
next
  case (snoc s sibs)
  let ?d = "length sibs"
  let ?m = "unat i mod 2 ^ ?d"
  let ?h = "fst (fold_siblings h2 e i sibs)"
  let ?l = "merkle h2 ?d (take (2 ^ ?d) xs)" and ?r = "merkle h2 ?d (drop (2 ^ ?d) xs)"
  have ne: "xs \<noteq> []" using snoc.prems(2) by auto
  have idx: "unat i mod (2 * 2 ^ ?d) = (if bit (unat i) ?d then 2 ^ ?d else 0) + ?m"
    using take_bit_Suc_from_most [of ?d "unat i"] by (simp add: take_bit_eq_mod)
  let ?half = "if bit (unat i) ?d then drop (2 ^ ?d) xs else take (2 ^ ?d) xs"
  let ?p = "if bit (unat i) ?d then (s, ?h) else (?h, s)"
  have nodes: "path_nodes h2 (Suc ?d) xs (unat i mod (2 * 2 ^ ?d)) = path_nodes h2 ?d ?half ?m @ [(?l, ?r)]"
    by (simp add: idx)
  have hash: "h2 (fst ?p) (snd ?p) = h2 ?l ?r" using snoc.prems(1) ne by (simp add: fold_siblings_snoc split: if_splits)
  have sibs: "sibling_path h2 (Suc ?d) xs (unat i mod (2 * 2 ^ ?d)) = sibling_path h2 ?d ?half ?m @ [if bit (unat i) ?d then ?l else ?r]"
    by (simp add: idx)
  have elem: "xs ! (unat i mod (2 * 2 ^ ?d)) = ?half ! ?m" using snoc.prems(2) by (cases "bit (unat i) ?d") (simp_all add: idx)
  have "e = ?half ! ?m \<and> sibs @ [s] = sibling_path h2 ?d ?half ?m @ [if bit (unat i) ?d then ?l else ?r] \<or>
    (\<exists>k. collision_at h2 (proof_nodes h2 e i sibs @ [?p]) (path_nodes h2 ?d ?half ?m @ [(?l, ?r)]) k)"
  proof (cases "?p = (?l, ?r)")
    case True
    have len: "?m < length ?half" using snoc.prems(2) by (cases "bit (unat i) ?d") (simp_all add: idx)
    have "?h = merkle h2 ?d ?half" "s = (if bit (unat i) ?d then ?l else ?r)" using True by (cases "bit (unat i) ?d"; simp)+
    with snoc.IH [OF this(1) len] show ?thesis
      using collision_at_snoc [OF disjI1, of h2 "proof_nodes h2 e i sibs" "path_nodes h2 ?d ?half ?m" ?p "(?l, ?r)"]
      unfolding length_proof_nodes length_path_nodes by blast
  next
    case False
    with hash have "?p \<noteq> (?l, ?r) \<and> h2 (fst ?p) (snd ?p) = h2 (fst (?l, ?r)) (snd (?l, ?r))" by simp
    from collision_at_snoc [OF disjI2 [OF this], of "proof_nodes h2 e i sibs" "path_nodes h2 ?d ?half ?m"]
    show ?thesis by (intro disjI2) simp
  qed
  then show ?case unfolding length_append_singleton power_Suc nodes sibs elem proof_nodes_snoc .
qed

lemma length_sibling_path [simp]: "length (sibling_path h2 d xs i) = d"
  by (induction h2 d xs i rule: sibling_path.induct) auto

lemma fold_siblings_complete:
  assumes "unat i mod 2 ^ d < length xs" "length xs \<le> 2 ^ d"
  shows "fst (fold_siblings h2 (xs ! (unat i mod 2 ^ d)) i (sibling_path h2 d xs (unat i mod 2 ^ d))) = merkle h2 d xs"
  using assms
proof (induction d arbitrary: xs)
  case 0
  then show ?case by (cases xs) (auto simp: fold_siblings_def)
next
  case (Suc d)
  let ?m = "unat i mod 2 ^ d"
  have ne: "xs \<noteq> []" using Suc.prems(1) by auto
  have idx: "unat i mod (2 * 2 ^ d) = (if bit (unat i) d then 2 ^ d else 0) + ?m"
    using take_bit_Suc_from_most [of d "unat i"] by (simp add: take_bit_eq_mod)
  show ?case
  proof (cases "bit (unat i) d")
    case True
    then show ?thesis
      using Suc.IH [of "drop (2 ^ d) xs"] Suc.prems ne by (simp add: idx fold_siblings_snoc)
  next
    case False
    then show ?thesis
      using Suc.IH [of "take (2 ^ d) xs"] Suc.prems ne by (simp add: idx fold_siblings_snoc)
  qed
qed

section \<open>Properties\<close>

text \<open>
  C32. Appending leaves to an accumulator that stands for a list of leaves gives, without panic,
  the accumulator that stands for the longer list: its frozen roots are the roots of the maximal
  full subtrees and its root hash is the root of the Merkle tree of all leaves.
\<close>

theorem accumulator_append_refines:
  assumes "acc_rep h2 acc xs" "length xs + length ys < 2 ^ 64"
  shows "\<exists>acc'. InMemoryAccumulator_append h2 acc ys = (Ok acc' :: (in_memory_accumulator, 'e) result) \<and>
    acc_rep h2 acc' (xs @ ys)"
proof -
  have "append_leaves h2 (frozen_subtree_roots acc) (num_leaves acc) ys
      = (Ok (full_roots h2 (xs @ ys), of_nat (length (xs @ ys))) :: (hash_value list \<times> u64, 'e) result)"
    using assms(1) by (simp only: acc_rep_def append_leaves_full_roots [OF assms(2)])
  then show ?thesis
    using assms(2) InMemoryAccumulator_new_full_roots [of "xs @ ys" h2]
    by (simp add: InMemoryAccumulator_append_def acc_rep_def)
qed

theorem accumulator_append_refines_witness:
  "\<exists>acc. InMemoryAccumulator_append (\<lambda>a b. 3 * a + 5 * b) InMemoryAccumulator_new_empty [10, 20, 30]
      = (Ok acc :: (in_memory_accumulator, unit) result) \<and>
    root_hash acc = merkle_root (\<lambda>a b. 3 * a + 5 * b) [10, 20, 30]"
proof -
  have "acc_rep (\<lambda>a b. 3 * a + 5 * b) InMemoryAccumulator_new_empty []"
    by (simp add: acc_rep_def InMemoryAccumulator_new_empty_def full_roots_def merkle_root_def)
  from accumulator_append_refines [OF this, of "[10, 20, 30]", where 'e = unit]
  show ?thesis by (auto simp: acc_rep_def)
qed

text \<open>
  Inclusion proofs are complete: in a tree of at most 2 to the 63 leaves, the siblings on the
  path of a leaf prove that leaf at its index under the accumulator's root.
\<close>

theorem inclusion_proof_complete:
  assumes "acc_rep h2 acc xs" "unat i < length xs" "length xs \<le> 2 ^ 63"
  shows "AccumulatorProof_verify h2 \<lparr>siblings = sibling_path h2 (log2up (length xs)) xs (unat i)\<rparr>
    (root_hash acc) (xs ! unat i) i = Ok ()"
proof -
  let ?d = "log2up (length xs)"
  have d: "length xs \<le> 2 ^ ?d" "?d \<le> 63"
    using log2up_bound [of "length xs"] log2up_least [OF assms(3)] by simp_all
  then have "unat i mod 2 ^ ?d = unat i" using assms(2) by simp
  then show ?thesis
    using fold_siblings_complete [of i ?d xs h2] assms d
    by (simp add: AccumulatorProof_verify_Ok acc_rep_def merkle_root_def MAX_ACCUMULATOR_PROOF_DEPTH_def)
qed

text \<open>
  C33. Inclusion proofs are sound: when a proof of the tree's depth verifies under the root, its
  element is the leaf stored at the index, up to the bits above the depth, which the verification
  ignores, and its siblings are those on the path of that leaf; otherwise, at some level, the pair
  the verification hashed and the pair on that leaf's path in the tree are two different inputs
  with the same hash, that is, a collision of the hash of internal nodes is read off the proof.
\<close>

theorem inclusion_proof_sound:
  assumes "acc_rep h2 acc xs" "length (siblings pr) = log2up (length xs)"
    and "unat i mod 2 ^ log2up (length xs) < length xs"
    and "AccumulatorProof_verify h2 pr (root_hash acc) e i = Ok ()"
  defines "j \<equiv> unat i mod 2 ^ log2up (length xs)"
  shows "e = xs ! j \<and> siblings pr = sibling_path h2 (log2up (length xs)) xs j \<or>
    (\<exists>k. collision_at h2 (proof_nodes h2 e i (siblings pr)) (path_nodes h2 (log2up (length xs)) xs j) k)"
  using fold_siblings_sound [of h2 e i "siblings pr" xs] assms(1-4)
  by (simp add: AccumulatorProof_verify_Ok acc_rep_def merkle_root_def j_def)

theorem inclusion_proof_complete_witness:
  "AccumulatorProof_verify (\<lambda>a b. 3 * a + 5 * b)
     \<lparr>siblings = sibling_path (\<lambda>a b. 3 * a + 5 * b) (log2up (length [10, 20, 30])) [10, 20, 30] 1\<rparr>
     (merkle_root (\<lambda>a b. 3 * a + 5 * b) [10, 20, 30]) 20 1 = Ok ()"
proof -
  let ?h = "\<lambda>a b. 3 * a + 5 * b"
  let ?acc = "\<lparr>frozen_subtree_roots = full_roots ?h [10, 20, 30], num_leaves = 3,
    root_hash = merkle_root ?h [10, 20, 30]\<rparr>"
  have "acc_rep ?h ?acc [10, 20, 30]" by (simp add: acc_rep_def)
  from inclusion_proof_complete [OF this, of 1] show ?thesis by simp
qed

theorem inclusion_proof_sound_witness:
  "(20 :: hash_value) = [10, 20, 30] ! 1 \<and>
   [10, merkle (\<lambda>a b. 3 * a + 5 * b) 1 [30]] = sibling_path (\<lambda>a b. 3 * a + 5 * b) 2 [10, 20, 30] 1"
proof -
  let ?h = "\<lambda>a b :: hash_value. 3 * a + 5 * b"
  let ?acc = "\<lparr>frozen_subtree_roots = full_roots ?h [10, 20, 30], num_leaves = 3,
    root_hash = merkle_root ?h [10, 20, 30]\<rparr>"
  let ?sibs = "[10, merkle ?h 1 [30]]"
  have rep: "acc_rep ?h ?acc [10, 20, 30]" by (simp add: acc_rep_def)
  have depth: "log2up (length [10, 20, 30 :: hash_value]) = 2" by code_simp
  have ok: "AccumulatorProof_verify ?h \<lparr>siblings = ?sibs\<rparr> (root_hash ?acc) 20 1 = Ok ()"
    by (simp add: AccumulatorProof_verify_Ok fold_siblings_def merkle_root_def
      depth [simplified] eval_nat_numeral MAX_ACCUMULATOR_PROOF_DEPTH_def)
  have "proof_nodes ?h 20 1 ?sibs = path_nodes ?h 2 [10, 20, 30] 1"
    by (simp add: proof_nodes_def fold_siblings_def eval_nat_numeral upt_rec bit_0)
  then have "\<nexists>k. collision_at ?h (proof_nodes ?h 20 1 ?sibs) (path_nodes ?h 2 [10, 20, 30] 1) k"
    by (simp add: collision_at_def)
  then show ?thesis
    using inclusion_proof_sound [OF rep _ _ ok] by (simp add: depth [simplified])
qed

end
