(* ===== verification/Light_Client.thy ===== *)
theory Light_Client
  imports Accumulator
begin

text \<open>
  Verification of epoch changes and the trusted state of a light client
  (\<open>types/src/epoch_state.rs\<close>, \<open>epoch_change.rs\<close>, \<open>waypoint.rs\<close>,
  \<open>trusted_state.rs\<close>, \<open>state_proof.rs\<close>). The digest of a waypoint is a parameter
  \<open>wh\<close>: the BCS hash of the fields it keeps.
\<close>

section \<open>Definitions\<close>

subsection \<open>The verifier trait\<close>

record verifier =
  vf_verify :: "ledger_info_with_signatures \<Rightarrow> (unit, anyhow) result"
  vf_epoch_change_verification_required :: "u64 \<Rightarrow> bool"
  vf_is_ledger_info_stale :: "ledger_info \<Rightarrow> bool"

definition EpochState_verify ::
  "ledger_info bls12381 \<Rightarrow> epoch_state \<Rightarrow> ledger_info_with_signatures \<Rightarrow> (unit, anyhow) result" where
  "EpochState_verify bls es lis =
     bind_res (ensure (es_epoch es = li_epoch (lis_ledger_info lis)) (Msg ''LedgerInfo has unexpected epoch''))
       (\<lambda>_. bind_res (map_err FromVerify (verify_signatures bls lis (es_verifier es))) (\<lambda>_. Ok ()))"

definition EpochState_verifier :: "ledger_info bls12381 \<Rightarrow> epoch_state \<Rightarrow> verifier" where
  "EpochState_verifier bls es = \<lparr>
     vf_verify = EpochState_verify bls es,
     vf_epoch_change_verification_required = (\<lambda>epoch. es_epoch es < epoch),
     vf_is_ledger_info_stale = (\<lambda>li. li_epoch li < es_epoch es)\<rparr>"

subsection \<open>Waypoints\<close>

record waypoint =
  wp_version :: version_t
  wp_value :: hash_value

record ledger2waypoint_converter =
  l2w_epoch :: u64
  l2w_root_hash :: hash_value
  l2w_version :: version_t
  l2w_timestamp_usecs :: u64
  l2w_next_epoch_state :: "epoch_state option"

definition Ledger2WaypointConverter_new :: "ledger_info \<Rightarrow> ledger2waypoint_converter" where
  "Ledger2WaypointConverter_new li = \<lparr>
     l2w_epoch = li_epoch li, l2w_root_hash = transaction_accumulator_hash li,
     l2w_version = li_version li, l2w_timestamp_usecs = li_timestamp_usecs li,
     l2w_next_epoch_state = li_next_epoch_state li\<rparr>"

type_synonym waypoint_hasher = "ledger2waypoint_converter \<Rightarrow> hash_value"

definition Waypoint_new_any :: "waypoint_hasher \<Rightarrow> ledger_info \<Rightarrow> waypoint" where
  "Waypoint_new_any wh li =
     \<lparr>wp_version = li_version li, wp_value = wh (Ledger2WaypointConverter_new li)\<rparr>"

definition new_epoch_boundary :: "waypoint_hasher \<Rightarrow> ledger_info \<Rightarrow> (waypoint, anyhow) result" where
  "new_epoch_boundary wh li =
     bind_res (ensure (ends_epoch li) (Msg ''No validator set'')) (\<lambda>_. Ok (Waypoint_new_any wh li))"

definition Waypoint_verify :: "waypoint_hasher \<Rightarrow> waypoint \<Rightarrow> ledger_info \<Rightarrow> (unit, anyhow) result" where
  "Waypoint_verify wh wp li =
     bind_res (ensure (li_version li = wp_version wp) (Msg ''Waypoint version mismatch'')) (\<lambda>_.
     bind_res (ensure (wh (Ledger2WaypointConverter_new li) = wp_value wp) (Msg ''Waypoint value mismatch'')) (\<lambda>_.
     Ok ()))"

definition Waypoint_verifier :: "waypoint_hasher \<Rightarrow> waypoint \<Rightarrow> verifier" where
  "Waypoint_verifier wh wp = \<lparr>
     vf_verify = (\<lambda>lis. Waypoint_verify wh wp (lis_ledger_info lis)),
     vf_epoch_change_verification_required = (\<lambda>_. True),
     vf_is_ledger_info_stale = (\<lambda>li. li_version li < wp_version wp)\<rparr>"

subsection \<open>Epoch change proofs\<close>

record epoch_change_proof =
  ecp_ledger_info_with_sigs :: "ledger_info_with_signatures list"
  ecp_more :: bool

definition EpochChangeProof_epoch :: "epoch_change_proof \<Rightarrow> (u64, anyhow) result" where
  "EpochChangeProof_epoch pr =
     (case ecp_ledger_info_with_sigs pr of
        [] \<Rightarrow> Err (Msg ''Empty EpochChangeProof'')
      | lis # _ \<Rightarrow> Ok (li_epoch (lis_ledger_info lis)))"

fun verify_epoch_jumps ::
  "ledger_info bls12381 \<Rightarrow> verifier \<Rightarrow> ledger_info_with_signatures list \<Rightarrow> (unit, anyhow) result" where
  "verify_epoch_jumps bls vf [] = Ok ()"
| "verify_epoch_jumps bls vf (lis # rest) =
     bind_res (vf_verify vf lis) (\<lambda>_.
     bind_res (ok_or (li_next_epoch_state (lis_ledger_info lis)) (Msg ''LedgerInfo doesn't carry a ValidatorSet''))
       (\<lambda>es. verify_epoch_jumps bls (EpochState_verifier bls es) rest))"

definition EpochChangeProof_verify ::
  "ledger_info bls12381 \<Rightarrow> epoch_change_proof \<Rightarrow> verifier \<Rightarrow> (ledger_info_with_signatures, anyhow) result" where
  "EpochChangeProof_verify bls pr vf =
     bind_res (ensure (ecp_ledger_info_with_sigs pr \<noteq> []) (Msg ''The EpochChangeProof is empty'')) (\<lambda>_.
     bind_res (ensure (\<not> vf_is_ledger_info_stale vf (lis_ledger_info (last (ecp_ledger_info_with_sigs pr))))
       (Msg ''The EpochChangeProof is stale as our verifier is already ahead of the entire EpochChangeProof'')) (\<lambda>_.
     bind_res (verify_epoch_jumps bls vf
       (dropWhile (\<lambda>lis. vf_is_ledger_info_stale vf (lis_ledger_info lis)) (ecp_ledger_info_with_sigs pr))) (\<lambda>_.
     Ok (last (ecp_ledger_info_with_sigs pr)))))"

subsection \<open>Trusted states\<close>

record state_proof =
  latest_li_w_sigs :: ledger_info_with_signatures
  epoch_changes :: epoch_change_proof

datatype trusted_state = TrustedEpochWaypoint waypoint | TrustedEpochState waypoint epoch_state

datatype trusted_state_change =
    VersionChange trusted_state
  | EpochChange trusted_state ledger_info_with_signatures
  | NoChange

definition try_from_epoch_change_li ::
  "waypoint_hasher \<Rightarrow> ledger_info \<Rightarrow> transaction_accumulator_summary \<Rightarrow> (trusted_state, anyhow) result" where
  "try_from_epoch_change_li wh epoch_change_li accumulator =
     bind_res (verify_consistency accumulator epoch_change_li) (\<lambda>_.
     bind_res (ok_or (li_next_epoch_state epoch_change_li)
       (Msg ''No EpochState in LedgerInfo; it must not be on an epoch boundary'')) (\<lambda>es.
     bind_res (new_epoch_boundary wh epoch_change_li) (\<lambda>wp.
     Ok (TrustedEpochState wp es))))"

definition from_epoch_waypoint :: "waypoint \<Rightarrow> trusted_state" where
  "from_epoch_waypoint epoch_waypoint = TrustedEpochWaypoint epoch_waypoint"

primrec is_epoch_waypoint :: "trusted_state \<Rightarrow> bool" where
  "is_epoch_waypoint (TrustedEpochWaypoint wp) \<longleftrightarrow> True"
| "is_epoch_waypoint (TrustedEpochState wp es) \<longleftrightarrow> False"

primrec ts_waypoint :: "trusted_state \<Rightarrow> waypoint" where
  "ts_waypoint (TrustedEpochWaypoint wp) = wp"
| "ts_waypoint (TrustedEpochState wp es) = wp"

definition ts_version :: "trusted_state \<Rightarrow> version_t" where
  "ts_version ts = wp_version (ts_waypoint ts)"

primrec TrustedState_verifier ::
  "ledger_info bls12381 \<Rightarrow> waypoint_hasher \<Rightarrow> trusted_state \<Rightarrow> verifier" where
  "TrustedState_verifier bls wh (TrustedEpochWaypoint wp) = Waypoint_verifier wh wp"
| "TrustedState_verifier bls wh (TrustedEpochState wp es) = EpochState_verifier bls es"

primrec new_state :: "trusted_state_change \<Rightarrow> trusted_state option" where
  "new_state (VersionChange st) = Some st"
| "new_state (EpochChange st li) = Some st"
| "new_state NoChange = None"

definition verify_and_ratchet_inner ::
  "ledger_info bls12381 \<Rightarrow> waypoint_hasher \<Rightarrow> trusted_state \<Rightarrow> ledger_info_with_signatures \<Rightarrow>
   epoch_change_proof \<Rightarrow> (trusted_state_change, anyhow) result" where
  "verify_and_ratchet_inner bls wh ts latest_li pr =
     bind_res (ensure (li_version (lis_ledger_info latest_li) \<ge> ts_version ts)
       (Msg ''The target latest ledger info version is stale and behind our current trusted version'')) (\<lambda>_.
     if vf_epoch_change_verification_required (TrustedState_verifier bls wh ts)
          (li_next_block_epoch (lis_ledger_info latest_li))
     then
       bind_res (EpochChangeProof_verify bls pr (TrustedState_verifier bls wh ts)) (\<lambda>epoch_change_li.
       bind_res (ok_or (li_next_epoch_state (lis_ledger_info epoch_change_li))
         (Msg ''A valid EpochChangeProof will never return a non-epoch change ledger info'')) (\<lambda>new_epoch_state.
       bind_res
         (if epoch_change_li = latest_li then Ok latest_li
          else if li_epoch (lis_ledger_info latest_li) = es_epoch new_epoch_state
          then bind_res (EpochState_verify bls new_epoch_state latest_li) (\<lambda>_. Ok latest_li)
          else if li_epoch (lis_ledger_info latest_li) > es_epoch new_epoch_state \<and> ecp_more pr
          then Ok epoch_change_li
          else Err (Msg ''Inconsistent epoch change proof and latest ledger info'')) (\<lambda>verified_ledger_info.
       Ok (EpochChange
             (TrustedEpochState (Waypoint_new_any wh (lis_ledger_info verified_ledger_info)) new_epoch_state)
             epoch_change_li))))
     else
       (case ts of
          TrustedEpochWaypoint _ \<Rightarrow> Err (Msg ''EpochWaypoint can only verify an epoch change ledger info'')
        | TrustedEpochState curr_waypoint curr_epoch_state \<Rightarrow>
            let new_waypoint = Waypoint_new_any wh (lis_ledger_info latest_li) in
            if wp_version new_waypoint = wp_version curr_waypoint
            then bind_res (ensure (new_waypoint = curr_waypoint) (Msg ''LedgerInfo doesn't match verified state''))
                   (\<lambda>_. Ok NoChange)
            else bind_res (EpochState_verify bls curr_epoch_state latest_li) (\<lambda>_.
                   Ok (VersionChange (TrustedEpochState new_waypoint curr_epoch_state)))))"

definition verify_and_ratchet ::
  "ledger_info bls12381 \<Rightarrow> waypoint_hasher \<Rightarrow> trusted_state \<Rightarrow> state_proof \<Rightarrow> (trusted_state_change, anyhow) result" where
  "verify_and_ratchet bls wh ts sp =
     verify_and_ratchet_inner bls wh ts (latest_li_w_sigs sp) (epoch_changes sp)"

section \<open>The contract of verifiers\<close>

text \<open>
  What the client code relies on: an implementation of the trait never accepts a ledger info it
  calls stale. The skipped prefix of a proof therefore never hides a ledger info that the
  verifier would have accepted.
\<close>

locale ledger_verifier =
  fixes vf :: "'v \<Rightarrow> verifier"
  assumes verified_not_stale:
    "vf_verify (vf v) lis = Ok () \<Longrightarrow> \<not> vf_is_ledger_info_stale (vf v) (lis_ledger_info lis)"
begin

lemma starts_at_first_fresh:
  assumes "EpochChangeProof_verify bls pr (vf v) = Ok lis"
  obtains stale fresh rest where "ecp_ledger_info_with_sigs pr = stale @ fresh # rest"
    and "\<forall>x \<in> set stale. vf_verify (vf v) x \<noteq> Ok ()"
    and "vf_verify (vf v) fresh = Ok ()" and "lis = last (fresh # rest)"
    and "verify_epoch_jumps bls (vf v) (fresh # rest) = Ok ()"
proof -
  let ?xs = "ecp_ledger_info_with_sigs pr"
  let ?stale = "\<lambda>x. vf_is_ledger_info_stale (vf v) (lis_ledger_info x)"
  from assms have ne: "?xs \<noteq> []" and fresh: "\<not> ?stale (last ?xs)"
    and jumps: "verify_epoch_jumps bls (vf v) (dropWhile ?stale ?xs) = Ok ()" and last: "lis = last ?xs"
    by (auto simp: EpochChangeProof_verify_def res_iff)
  from ne fresh have "dropWhile ?stale ?xs \<noteq> []" by (metis dropWhile_eq_Nil_conv last_in_set)
  then obtain y ys where yys: "dropWhile ?stale ?xs = y # ys" unfolding neq_Nil_conv by blast
  have split: "?xs = takeWhile ?stale ?xs @ y # ys" by (metis takeWhile_dropWhile_id yys)
  have "\<forall>x \<in> set (takeWhile ?stale ?xs). vf_verify (vf v) x \<noteq> Ok ()"
    using verified_not_stale by (metis set_takeWhileD)
  moreover have "vf_verify (vf v) y = Ok ()" using jumps by (auto simp: yys res_iff)
  moreover have "lis = last (y # ys)" unfolding last by (subst split) simp
  ultimately show ?thesis using that split jumps yys by metis
qed

end

interpretation esv: ledger_verifier "EpochState_verifier bls" for bls
  by unfold_locales (auto simp: EpochState_verifier_def EpochState_verify_def res_iff)

interpretation wpv: ledger_verifier "Waypoint_verifier wh" for wh
  by unfold_locales (auto simp: Waypoint_verifier_def Waypoint_verify_def res_iff)

interpretation tsv: ledger_verifier "TrustedState_verifier bls wh" for bls wh
proof unfold_locales
  fix ts lis assume "vf_verify (TrustedState_verifier bls wh ts) lis = Ok ()"
  then show "\<not> vf_is_ledger_info_stale (TrustedState_verifier bls wh ts) (lis_ledger_info lis)"
    using esv.verified_not_stale [of bls] wpv.verified_not_stale [of wh] by (cases ts) simp_all
qed

section \<open>Chains of epoch changes\<close>

text \<open>
  The specification of an epoch change proof: from a trusted epoch state, each ledger info is
  verified by the current validators and names the validators of the next one.
\<close>

inductive epoch_chain ::
  "ledger_info bls12381 \<Rightarrow> epoch_state \<Rightarrow> ledger_info_with_signatures list \<Rightarrow> epoch_state \<Rightarrow> bool"
  for bls where
  chain_refl: "epoch_chain bls es [] es"
| chain_step: "EpochState_verify bls es lis = Ok () \<Longrightarrow>
    li_next_epoch_state (lis_ledger_info lis) = Some es' \<Longrightarrow>
    epoch_chain bls es' rest es'' \<Longrightarrow> epoch_chain bls es (lis # rest) es''"

inductive_simps epoch_chain_Nil: "epoch_chain bls es [] es'"
inductive_simps epoch_chain_Cons: "epoch_chain bls es (lis # rest) es'"

lemma vf_verify_EpochState [simp]: "vf_verify (EpochState_verifier bls es) = EpochState_verify bls es"
  by (simp add: EpochState_verifier_def)

lemma verify_epoch_jumps_chain:
  "verify_epoch_jumps bls (EpochState_verifier bls es) xs = Ok () \<longleftrightarrow> (\<exists>es'. epoch_chain bls es xs es')"
  by (induction xs arbitrary: es) (auto simp: epoch_chain_Nil epoch_chain_Cons res_iff, blast)

lemma epoch_chain_last:
  "epoch_chain bls es xs es' \<Longrightarrow> xs \<noteq> [] \<Longrightarrow> li_next_epoch_state (lis_ledger_info (last xs)) = Some es'"
proof (induction rule: epoch_chain.induct)
  case (chain_step es lis es' rest es'')
  then show ?case by (cases rest) (auto simp: epoch_chain_Nil)
qed simp

lemma epoch_chain_deterministic:
  "epoch_chain bls es xs es1 \<Longrightarrow> epoch_chain bls es xs es2 \<Longrightarrow> es1 = es2"
  by (induction rule: epoch_chain.induct) (auto simp: epoch_chain_Nil epoch_chain_Cons)

lemma jumps_next_epoch_state:
  assumes "verify_epoch_jumps bls vf xs = Ok ()" "xs \<noteq> []"
  shows "li_next_epoch_state (lis_ledger_info (last xs)) \<noteq> None"
  using assms by (induction bls vf xs rule: verify_epoch_jumps.induct) (auto simp: res_iff)

lemma EpochState_verify_Ok [res_iff]:
  "EpochState_verify bls es lis = Ok u \<longleftrightarrow>
     es_epoch es = li_epoch (lis_ledger_info lis) \<and> verify_signatures bls lis (es_verifier es) = Ok ()"
  by (auto simp: EpochState_verify_def res_iff)

lemma Waypoint_verify_Ok [res_iff]:
  "Waypoint_verify wh wp li = Ok u \<longleftrightarrow> Waypoint_new_any wh li = wp"
  by (cases wp) (auto simp: Waypoint_verify_def Waypoint_new_any_def res_iff)

lemma TrustedState_verify_cases:
  "vf_verify (TrustedState_verifier bls wh ts) lis = Ok () \<longleftrightarrow>
     (case ts of TrustedEpochWaypoint wp \<Rightarrow> Waypoint_new_any wh (lis_ledger_info lis) = wp
               | TrustedEpochState wp es \<Rightarrow> EpochState_verify bls es lis = Ok ())"
  by (cases ts) (simp_all add: Waypoint_verifier_def EpochState_verifier_def res_iff)

section \<open>Properties\<close>

text \<open>
  C30. An epoch change proof is accepted from a trusted epoch state exactly when, after a prefix
  of ledger infos of earlier epochs, it is a non-empty chain in which each ledger info carries a
  quorum of the validators named by the previous one; what is returned ends the chain, and
  carries the next validator set.
\<close>

theorem epoch_change_proof_accepts:
  "EpochChangeProof_verify bls pr (EpochState_verifier bls es) = Ok lis \<longleftrightarrow>
     (\<exists>stale chain es'. ecp_ledger_info_with_sigs pr = stale @ chain \<and> chain \<noteq> [] \<and> lis = last chain \<and>
        (\<forall>x \<in> set stale. li_epoch (lis_ledger_info x) < es_epoch es) \<and>
        \<not> li_epoch (lis_ledger_info lis) < es_epoch es \<and>
        epoch_chain bls es chain es' \<and> li_next_epoch_state (lis_ledger_info lis) = Some es')"
  (is "?L \<longleftrightarrow> ?R")
proof
  let ?old = "\<lambda>x. li_epoch (lis_ledger_info x) < es_epoch es"
  let ?xs = "ecp_ledger_info_with_sigs pr"
  assume ?L
  then have ne: "?xs \<noteq> []" and fresh: "\<not> ?old (last ?xs)" and last: "lis = last ?xs"
    and jumps: "verify_epoch_jumps bls (EpochState_verifier bls es) (dropWhile ?old ?xs) = Ok ()"
    by (auto simp: EpochChangeProof_verify_def EpochState_verifier_def res_iff)
  obtain es' where chain: "epoch_chain bls es (dropWhile ?old ?xs) es'"
    using jumps by (auto simp: verify_epoch_jumps_chain)
  have ne': "dropWhile ?old ?xs \<noteq> []" using ne fresh by (metis dropWhile_eq_Nil_conv last_in_set)
  then have "last (dropWhile ?old ?xs) = last ?xs" by (metis last_appendR takeWhile_dropWhile_id)
  moreover have "\<forall>x \<in> set (takeWhile ?old ?xs). ?old x" by (auto dest: set_takeWhileD)
  ultimately show ?R
    using chain ne' last fresh epoch_chain_last [OF chain ne']
    by (intro exI [of _ "takeWhile ?old ?xs"] exI [of _ "dropWhile ?old ?xs"] exI [of _ es']) simp
next
  let ?old = "\<lambda>x. li_epoch (lis_ledger_info x) < es_epoch es"
  assume ?R
  then obtain stale chain es' where xs: "ecp_ledger_info_with_sigs pr = stale @ chain" and ne: "chain \<noteq> []"
    and old: "\<forall>x \<in> set stale. ?old x" and chain: "epoch_chain bls es chain es'" and lis: "lis = last chain"
    and fresh: "\<not> ?old lis" by auto
  from chain ne have "\<not> ?old (hd chain)" by (cases chain) (auto simp: epoch_chain_Cons res_iff)
  then have "dropWhile ?old (stale @ chain) = chain"
    using old ne by (cases chain) (auto simp: dropWhile_append)
  moreover have "verify_epoch_jumps bls (EpochState_verifier bls es) chain = Ok ()"
    using chain by (auto simp: verify_epoch_jumps_chain)
  moreover have "vf_is_ledger_info_stale (EpochState_verifier bls es) = (\<lambda>li. li_epoch li < es_epoch es)"
    by (simp add: EpochState_verifier_def)
  ultimately show ?L
    using fresh ne by (simp add: EpochChangeProof_verify_def xs lis)
qed

theorem epoch_change_proof_accepts_witness:
  "EpochChangeProof_verify (linear_bls (\<lambda>_. 1))
     \<lparr>ecp_ledger_info_with_sigs = [sample_lis 3 50 None, sample_lis 4 90 (Some (sample_epoch_state 5))],
      ecp_more = False\<rparr>
     (EpochState_verifier (linear_bls (\<lambda>_. 1)) (sample_epoch_state 4))
   = Ok (sample_lis 4 90 (Some (sample_epoch_state 5)))"
  (is "EpochChangeProof_verify ?bls ?pr _ = Ok ?lis")
proof -
  have "epoch_chain ?bls (sample_epoch_state 4) [?lis] (sample_epoch_state 5)"
    by (simp add: epoch_chain_Cons epoch_chain_Nil res_iff sample_lis_verifies)
  then show ?thesis
    unfolding epoch_change_proof_accepts
    by (intro exI [of _ "[sample_lis 3 50 None]"] exI [of _ "[?lis]"] exI [of _ "sample_epoch_state 5"]) simp
qed

text \<open>
  What the version does across epochs rests on the validators: with \<open>more\<close> set, a proof whose
  ledger info ends the trusted epoch below the trusted version takes the client back, here from
  version 7 to version 5. The latest ledger info that lets the proof through is not verified.
\<close>

lemma ratchet_version_back:
  "\<exists>st li. verify_and_ratchet_inner (linear_bls (\<lambda>_. 1)) l2w_root_hash
       (TrustedEpochState \<lparr>wp_version = 7, wp_value = 1\<rparr> (sample_epoch_state 4)) (sample_lis 6 100 None)
       \<lparr>ecp_ledger_info_with_sigs = [sample_lis 4 5 (Some (sample_epoch_state 5))], ecp_more = True\<rparr>
     = Ok (EpochChange st li) \<and> ts_version st = 5"
proof -
  have "sample_lis 4 5 (Some (sample_epoch_state 5)) \<noteq> sample_lis 6 100 None"
  proof
    assume eq: "sample_lis 4 5 (Some (sample_epoch_state 5)) = sample_lis 6 100 None"
    have "bi_epoch (commit_info (lis_ledger_info (sample_lis 6 100 None))) = 4" unfolding eq [symmetric] by simp
    then show False by simp
  qed
  then show ?thesis
    by (simp add: verify_and_ratchet_inner_def ts_version_def EpochState_verifier_def next_block_epoch_def
      Waypoint_new_any_def EpochChangeProof_verify_def res_iff sample_lis_verifies)
qed

text \<open>
  C31. What a client trusts after a ratchet. Within an epoch the new state is the newest ledger
  info, at a strictly higher version and signed by a quorum of the trusted validators. Across
  epochs the new validators come from the ledger info that ends a verified chain, and the new
  waypoint is that of a ledger info verified either by the chain or by the new validators. Its
  version is then the one of the latest ledger info and not below the trusted one, with one
  exception: when the proof says that more epoch changes follow and the latest ledger info is of a
  later epoch than the new validators, the waypoint is that of the end of the chain, whatever its
  version. Nothing changes only if the latest ledger info has the trusted waypoint.
\<close>

theorem ratchet_trusts_only_verified:
  assumes "verify_and_ratchet_inner bls wh ts latest pr = Ok change"
  shows "case change of
      NoChange \<Rightarrow> Waypoint_new_any wh (lis_ledger_info latest) = ts_waypoint ts
    | VersionChange st \<Rightarrow> \<exists>wp es. ts = TrustedEpochState wp es \<and>
        st = TrustedEpochState (Waypoint_new_any wh (lis_ledger_info latest)) es \<and>
        EpochState_verify bls es latest = Ok () \<and> ts_version ts < ts_version st
    | EpochChange st li \<Rightarrow>
        EpochChangeProof_verify bls pr (TrustedState_verifier bls wh ts) = Ok li \<and>
        (\<exists>es verified. li_next_epoch_state (lis_ledger_info li) = Some es \<and>
           st = TrustedEpochState (Waypoint_new_any wh (lis_ledger_info verified)) es \<and>
           (verified = li \<or> verified = latest \<and> EpochState_verify bls es latest = Ok ()) \<and>
           (verified = latest \<and> ts_version ts \<le> ts_version st \<or>
            verified = li \<and> ecp_more pr \<and> es_epoch es < li_epoch (lis_ledger_info latest)))"
proof (cases "vf_epoch_change_verification_required (TrustedState_verifier bls wh ts)
    (li_next_block_epoch (lis_ledger_info latest))")
  case True
  with assms show ?thesis
    by (auto simp: verify_and_ratchet_inner_def bind_res_Ok_iff ensure_Ok_iff ok_or_Ok_iff ts_version_def
      Waypoint_new_any_def split: if_splits)
next
  case False
  with assms show ?thesis
    by (auto simp: verify_and_ratchet_inner_def bind_res_Ok_iff ensure_Ok_iff ts_version_def Let_def
      Waypoint_new_any_def order_less_le split: if_splits trusted_state.splits)
qed

theorem ratchet_trusts_only_verified_witness:
  "\<exists>st. verify_and_ratchet_inner (linear_bls (\<lambda>_. 1)) l2w_root_hash
       (TrustedEpochState \<lparr>wp_version = 7, wp_value = 1\<rparr> (sample_epoch_state 4)) (sample_lis 4 9 None)
       \<lparr>ecp_ledger_info_with_sigs = [], ecp_more = False\<rparr> = Ok (VersionChange st) \<and> 7 < ts_version st"
proof -
  let ?ts = "TrustedEpochState \<lparr>wp_version = 7, wp_value = 1\<rparr> (sample_epoch_state 4)"
  let ?st = "TrustedEpochState (Waypoint_new_any l2w_root_hash (lis_ledger_info (sample_lis 4 9 None)))
    (sample_epoch_state 4)"
  have ok: "verify_and_ratchet_inner (linear_bls (\<lambda>_. 1)) l2w_root_hash ?ts (sample_lis 4 9 None)
      \<lparr>ecp_ledger_info_with_sigs = [], ecp_more = False\<rparr> = Ok (VersionChange ?st)"
    by (simp add: verify_and_ratchet_inner_def ts_version_def EpochState_verifier_def next_block_epoch_def
      Waypoint_new_any_def Let_def bind_res_Ok_iff EpochState_verify_Ok sample_lis_verifies)
  then show ?thesis
    using ratchet_trusts_only_verified [OF ok] by (auto simp: ts_version_def)
qed

end
