(* ===== verification/Consensus_Data.thy ===== *)
theory Consensus_Data
  imports Light_Client
begin

text \<open>
  The messages of the consensus protocol (\<open>consensus/consensus-types/src\<close>): votes and quorum
  certificates, blocks, two-chain timeouts and their certificates, sync infos, proposals and
  block retrieval, whose operations are in the theories that import this one.

  A signed transaction is its bytes, which consensus never reads. The record
  \<open>consensus_crypto\<close> holds the cryptographic parameters: the signature scheme on the four
  kinds of signed messages, and the BCS hashes. Debug assertions are not part of the model: the
  shipped profiles compile them out.
\<close>

section \<open>Data\<close>

type_synonym author = account_address
type_synonym signed_transaction = "u8 list"

subsection \<open>Payloads\<close>

record logical_time =
  lt_epoch :: u64
  lt_round :: round_t

record signed_digest_info =
  sdi_digest :: hash_value
  sdi_expiration :: logical_time
  sdi_num_txns :: u64
  sdi_num_bytes :: u64

record signed_digest =
  sd_epoch :: u64
  sd_peer_id :: account_address
  sd_info :: signed_digest_info
  sd_signature :: signature

record proof_of_store =
  pos_info :: signed_digest_info
  pos_multi_signature :: aggregate_signature

datatype payload = DirectMempool "signed_transaction list" | InQuorumStore "proof_of_store list"

subsection \<open>Votes, certificates and blocks\<close>

record vote_data =
  vd_proposed :: block_info
  vd_parent :: block_info

record quorum_cert =
  qc_vote_data :: vote_data
  qc_signed_ledger_info :: ledger_info_with_signatures

datatype block_type =
    Proposal payload author "(round_t \<times> author) list"
  | NilBlock "(round_t \<times> author) list"
  | Genesis

record block_data =
  bd_epoch :: u64
  bd_round :: round_t
  bd_timestamp_usecs :: u64
  bd_quorum_cert :: quorum_cert
  bd_block_type :: block_type

record block =
  blk_id :: hash_value
  blk_block_data :: block_data
  blk_signature :: "signature option"

record two_chain_timeout =
  to_epoch :: u64
  to_round :: round_t
  to_quorum_cert :: quorum_cert

record timeout_signing_repr =
  tsr_epoch :: u64
  tsr_round :: round_t
  tsr_hqc_round :: round_t

record aggregate_signature_with_rounds =
  aswr_sig :: aggregate_signature
  aswr_rounds :: "round_t list"

record two_chain_timeout_certificate =
  tc_timeout :: two_chain_timeout
  tc_signatures_with_rounds :: aggregate_signature_with_rounds

record partial_signatures_with_round =
  psr_signatures :: "(account_address, round_t \<times> signature) btree_map"

record two_chain_timeout_with_partial_signatures =
  ttp_timeout :: two_chain_timeout
  ttp_signatures :: partial_signatures_with_round

record vote =
  v_vote_data :: vote_data
  v_author :: author
  v_ledger_info :: ledger_info
  v_signature :: signature
  v_two_chain_timeout :: "(two_chain_timeout \<times> signature) option"

record vote_proposal =
  vp_accumulator_extension_proof :: accumulator_extension_proof
  vp_block :: block
  vp_next_epoch_state :: "epoch_state option"
  vp_decoupled_execution :: bool

record sync_info =
  si_highest_quorum_cert :: quorum_cert
  si_highest_ordered_cert :: "quorum_cert option"
  si_highest_commit_cert :: quorum_cert
  si_highest_2chain_timeout_cert :: "two_chain_timeout_certificate option"

record vote_msg =
  vm_vote :: vote
  vm_sync_info :: sync_info

record proposal_msg =
  pm_proposal :: block
  pm_sync_info :: sync_info

record block_retrieval_request =
  brq_block_id :: hash_value
  brq_num_blocks :: u64
  brq_target_block_id :: "hash_value option"

datatype block_retrieval_status = Succeeded | IdNotFound | NotEnoughBlocks | SucceededWithTarget

record block_retrieval_response =
  brr_status :: block_retrieval_status
  brr_blocks :: "block list"

record block_metadata =
  bm_id :: hash_value
  bm_epoch :: u64
  bm_round :: u64
  bm_proposer :: account_address
  bm_previous_block_votes_bitvec :: "u8 list"
  bm_failed_proposer_indices :: "u32 list"
  bm_timestamp_usecs :: u64

datatype transaction =
    UserTransaction signed_transaction
  | BlockMetadataTransaction block_metadata
  | StateCheckpoint hash_value

subsection \<open>Signed messages and hashes\<close>

datatype signed_msg =
    SignLedgerInfo ledger_info
  | SignBlockData block_data
  | SignTimeout timeout_signing_repr
  | SignDigest signed_digest_info

record consensus_crypto =
  cc_bls :: "signed_msg bls12381"
  hash_vote_data :: "vote_data \<Rightarrow> hash_value"
  hash_block_data :: "block_data \<Rightarrow> hash_value"
  hash_ledger_info :: "ledger_info \<Rightarrow> hash_value"
  hash_accumulator_node :: node_hasher

abbreviation bls_ledger_info :: "consensus_crypto \<Rightarrow> ledger_info bls12381" where
  "bls_ledger_info cc \<equiv> bls_on SignLedgerInfo (cc_bls cc)"

abbreviation bls_block_data :: "consensus_crypto \<Rightarrow> block_data bls12381" where
  "bls_block_data cc \<equiv> bls_on SignBlockData (cc_bls cc)"

abbreviation bls_timeout :: "consensus_crypto \<Rightarrow> timeout_signing_repr bls12381" where
  "bls_timeout cc \<equiv> bls_on SignTimeout (cc_bls cc)"

abbreviation bls_digest :: "consensus_crypto \<Rightarrow> signed_digest_info bls12381" where
  "bls_digest cc \<equiv> bls_on SignDigest (cc_bls cc)"

record validator_signer =
  signer_author :: account_address
  signer_private_key :: private_key

definition ValidatorSigner_sign :: "'m bls12381 \<Rightarrow> validator_signer \<Rightarrow> 'm \<Rightarrow> signature option" where
  "ValidatorSigner_sign bls signer message = bls_sign bls (signer_private_key signer) message"

definition ValidatorSigner_public_key :: "'m bls12381 \<Rightarrow> validator_signer \<Rightarrow> public_key" where
  "ValidatorSigner_public_key bls signer = bls_public_key bls (signer_private_key signer)"

end
