(* ===== verification/Quorum_Cert.thy ===== *)
theory Quorum_Cert
  imports Consensus_Data
begin

text \<open>
  Vote data and quorum certificates (\<open>vote_data.rs\<close> and \<open>quorum_cert.rs\<close> of
  \<open>consensus/consensus-types/src\<close>). A certificate binds its vote data to the signed ledger
  info through a hash; the certificate of a genesis block is accepted without signatures.
\<close>

section \<open>Definitions\<close>

definition VoteData_verify :: "vote_data \<Rightarrow> (unit, anyhow) result" where
  "VoteData_verify vd =
     bind_res (ensure (bi_epoch (vd_parent vd) = bi_epoch (vd_proposed vd))
       (Msg ''Parent and proposed epochs do not match'')) (\<lambda>_.
     bind_res (ensure (bi_round (vd_parent vd) < bi_round (vd_proposed vd))
       (Msg ''Proposed round is less than parent round'')) (\<lambda>_.
     bind_res (ensure (bi_timestamp_usecs (vd_parent vd) \<le> bi_timestamp_usecs (vd_proposed vd))
       (Msg ''Proposed happened before parent'')) (\<lambda>_.
     bind_res (ensure (bi_version (vd_proposed vd) = 0 \<or> bi_version (vd_parent vd) \<le> bi_version (vd_proposed vd))
       (Msg ''Proposed version is less than parent version'')) (\<lambda>_. Ok ()))))"

definition is_for_nil :: "vote_data \<Rightarrow> bool" where
  "is_for_nil vd \<longleftrightarrow> bi_timestamp_usecs (vd_proposed vd) = bi_timestamp_usecs (vd_parent vd)"

definition certified_block :: "quorum_cert \<Rightarrow> block_info" where
  [simp]: "certified_block qc = vd_proposed (qc_vote_data qc)"

definition parent_block :: "quorum_cert \<Rightarrow> block_info" where
  [simp]: "parent_block qc = vd_parent (qc_vote_data qc)"

definition qc_commit_info :: "quorum_cert \<Rightarrow> block_info" where
  [simp]: "qc_commit_info qc = commit_info (lis_ledger_info (qc_signed_ledger_info qc))"

definition qc_ends_epoch :: "quorum_cert \<Rightarrow> bool" where
  "qc_ends_epoch qc \<longleftrightarrow> ends_epoch (lis_ledger_info (qc_signed_ledger_info qc))"

definition certificate_for_genesis_from_ledger_info ::
  "consensus_crypto \<Rightarrow> ledger_info \<Rightarrow> hash_value \<Rightarrow> (quorum_cert, 'e) result" where
  "certificate_for_genesis_from_ledger_info cc li genesis_id =
     bind_res (or_panic (checked_add (li_epoch li) 1)) (\<lambda>epoch.
     let ancestor = \<lparr>bi_epoch = epoch, bi_round = 0, bi_id = genesis_id,
           bi_executed_state_id = transaction_accumulator_hash li, bi_version = li_version li,
           bi_timestamp_usecs = li_timestamp_usecs li, bi_next_epoch_state = None\<rparr>;
         vote_data = \<lparr>vd_proposed = ancestor, vd_parent = ancestor\<rparr>;
         li' = \<lparr>commit_info = ancestor, consensus_data_hash = hash_vote_data cc vote_data\<rparr>
     in bind_res (or_panic (li_next_epoch_state li)) (\<lambda>es.
        Ok \<lparr>qc_vote_data = vote_data,
            qc_signed_ledger_info = LedgerInfoWithSignatures_new li'
              \<lparr>validator_bitmask = with_num_bits (of_nat (verifier_len (es_verifier es))), agg_sig = None\<rparr>\<rparr>))"

definition QuorumCert_verify :: "consensus_crypto \<Rightarrow> quorum_cert \<Rightarrow> validator_verifier \<Rightarrow> (unit, anyhow) result" where
  "QuorumCert_verify cc qc v =
     bind_res (ensure (consensus_data_hash (lis_ledger_info (qc_signed_ledger_info qc))
         = hash_vote_data cc (qc_vote_data qc)) (Msg ''Quorum Cert's hash mismatch LedgerInfo'')) (\<lambda>_.
     if bi_round (certified_block qc) = 0 then
       bind_res (ensure (parent_block qc = certified_block qc)
         (Msg ''Genesis QC has inconsistent parent block with certified block'')) (\<lambda>_.
       bind_res (ensure (certified_block qc = commit_info (lis_ledger_info (qc_signed_ledger_info qc)))
         (Msg ''Genesis QC has inconsistent commit block with certified block'')) (\<lambda>_.
       bind_res (ensure (lis_get_num_voters (qc_signed_ledger_info qc) = 0)
         (Msg ''Genesis QC should not carry signatures'')) (\<lambda>_. Ok ())))
     else
       bind_res (map_err (\<lambda>e. Context ''Fail to verify QuorumCert'' (FromVerify e))
         (verify_signatures (bls_ledger_info cc) (qc_signed_ledger_info qc) v)) (\<lambda>_.
       bind_res (VoteData_verify (qc_vote_data qc)) (\<lambda>_. Ok ())))"

definition create_merged_with_executed_state ::
  "quorum_cert \<Rightarrow> ledger_info_with_signatures \<Rightarrow> (quorum_cert, anyhow) result" where
  "create_merged_with_executed_state qc executed =
     bind_res (ensure (match_ordered_only (qc_commit_info qc) (commit_info (lis_ledger_info executed)))
       (Msg ''Block info from QC and executed LI need to match'')) (\<lambda>_.
     Ok \<lparr>qc_vote_data = qc_vote_data qc, qc_signed_ledger_info = executed\<rparr>)"

section \<open>Lemmas\<close>

lemma VoteData_verify_Ok [res_iff]:
  "VoteData_verify vd = Ok u \<longleftrightarrow>
     bi_epoch (vd_parent vd) = bi_epoch (vd_proposed vd) \<and>
     bi_round (vd_parent vd) < bi_round (vd_proposed vd) \<and>
     bi_timestamp_usecs (vd_parent vd) \<le> bi_timestamp_usecs (vd_proposed vd) \<and>
     (bi_version (vd_proposed vd) = 0 \<or> bi_version (vd_parent vd) \<le> bi_version (vd_proposed vd))"
  by (simp add: VoteData_verify_def res_iff)

lemma QuorumCert_verify_Ok [res_iff]:
  "QuorumCert_verify cc qc v = Ok u \<longleftrightarrow>
     consensus_data_hash (lis_ledger_info (qc_signed_ledger_info qc)) = hash_vote_data cc (qc_vote_data qc) \<and>
     (if bi_round (certified_block qc) = 0
      then parent_block qc = certified_block qc \<and> certified_block qc = qc_commit_info qc \<and>
           lis_get_num_voters (qc_signed_ledger_info qc) = 0
      else verify_signatures (bls_ledger_info cc) (qc_signed_ledger_info qc) v = Ok () \<and>
           VoteData_verify (qc_vote_data qc) = Ok ())"
  by (auto simp: QuorumCert_verify_def bind_res_Ok_iff ensure_Ok_iff map_err_Ok_iff)

text \<open>The authors of the votes a certificate collects.\<close>

definition qc_voters :: "validator_verifier \<Rightarrow> quorum_cert \<Rightarrow> account_address set" where
  "qc_voters v qc = set (get_voters (qc_signed_ledger_info qc) (get_ordered_account_addresses v))"

lemma qc_quorum:
  assumes "vv_wf v" "verifier_len v < 2 ^ 16" "QuorumCert_verify cc qc v = Ok ()"
    and "bi_round (certified_block qc) \<noteq> 0"
  shows "qc_voters v qc \<subseteq> validators v"
    and "unat (quorum_voting_power v) \<le> sum (power_of v) (qc_voters v qc)"
proof -
  have "verify_multi_signatures (bls_ledger_info cc) v (lis_ledger_info (qc_signed_ledger_info qc))
      (lis_signatures (qc_signed_ledger_info qc)) = Ok ()"
    using assms(3,4) by (simp add: QuorumCert_verify_Ok verify_signatures_def)
  then have "verify_multi_signatures (bls_ledger_info cc) v (lis_ledger_info (qc_signed_ledger_info qc))
      (lis_signatures (qc_signed_ledger_info qc)) = Ok () \<or>
      verify_aggregate_signatures (bls_ledger_info cc) v [] (lis_signatures (qc_signed_ledger_info qc)) = Ok ()"
    by simp
  from verified_quorum(2,3) [OF assms(1,2) this]
  show "qc_voters v qc \<subseteq> validators v"
    and "unat (quorum_voting_power v) \<le> sum (power_of v) (qc_voters v qc)"
    by (simp_all add: qc_voters_def get_voters_def)
qed

section \<open>Examples\<close>

text \<open>
  Parameters for the examples: the linear scheme with every message encoded as 1, and hashes that
  keep one field of what they hash.
\<close>

definition sample_crypto :: consensus_crypto where
  "sample_crypto = \<lparr>cc_bls = linear_bls (\<lambda>_. 1), hash_vote_data = (\<lambda>vd. bi_id (vd_proposed vd)),
     hash_block_data = (\<lambda>bd. ucast (bd_round bd) + 1000), hash_ledger_info = consensus_data_hash,
     hash_accumulator_node = (\<lambda>a b. 3 * a + 5 * b)\<rparr>"

definition sample_qc :: "block_info \<Rightarrow> block_info \<Rightarrow> block_info \<Rightarrow> quorum_cert" where
  "sample_qc proposed parent commit = \<lparr>qc_vote_data = \<lparr>vd_proposed = proposed, vd_parent = parent\<rparr>,
     qc_signed_ledger_info = LedgerInfoWithSignatures_new
       \<lparr>commit_info = commit, consensus_data_hash = bi_id proposed\<rparr> sample_multi_signature\<rparr>"

definition sample_block_at :: "round_t \<Rightarrow> block_info" where
  "sample_block_at r = \<lparr>bi_epoch = 1, bi_round = r, bi_id = ucast r + 1000, bi_executed_state_id = 0,
     bi_version = 0, bi_timestamp_usecs = 10 * r, bi_next_epoch_state = None\<rparr>"

lemma linear_bls_on [simp]: "bls_on emb (linear_bls enc) = linear_bls (enc \<circ> emb)"
  by (auto simp: bls_on_def linear_bls_def fun_eq_iff zip_map2 split_def comp_def intro!: arg_cong [of _ _ sum_list])

lemma sample_signatures:
  "lis_signatures lis = sample_multi_signature \<Longrightarrow>
     verify_signatures (bls_ledger_info sample_crypto) lis sample_verifier = Ok ()"
  by (simp add: verify_signatures_def sample_crypto_def comp_def sample_multi_signature_verifies)

lemma sample_qc_verifies:
  assumes "bi_round proposed \<noteq> 0"
    and "VoteData_verify \<lparr>vd_proposed = proposed, vd_parent = parent\<rparr> = Ok ()"
  shows "QuorumCert_verify sample_crypto (sample_qc proposed parent commit) sample_verifier = Ok ()"
  using assms sample_signatures by (simp add: QuorumCert_verify_Ok sample_qc_def sample_crypto_def)

section \<open>Properties\<close>

text \<open>
  Two verified certificates of rounds above genesis were voted for by a common validator
  outside any set with at most a third of the voting power; each one binds its vote data, whose
  parent precedes the certified block in the same epoch.
\<close>

theorem quorum_certs_overlap:
  assumes "vv_wf v" "verifier_len v < 2 ^ 16"
    and "QuorumCert_verify cc qc1 v = Ok ()" "QuorumCert_verify cc qc2 v = Ok ()"
    and "bi_round (certified_block qc1) \<noteq> 0" "bi_round (certified_block qc2) \<noteq> 0"
    and "3 * sum (power_of v) (F \<inter> validators v) \<le> unat (total_voting_power v)"
  shows "(\<exists>a. a \<in> qc_voters v qc1 \<and> a \<in> qc_voters v qc2 \<and> a \<notin> F) \<and>
    consensus_data_hash (lis_ledger_info (qc_signed_ledger_info qc1)) = hash_vote_data cc (qc_vote_data qc1) \<and>
    bi_round (parent_block qc1) < bi_round (certified_block qc1) \<and>
    bi_epoch (parent_block qc1) = bi_epoch (certified_block qc1)"
  using vq.overlap_outside [OF assms(1) qc_quorum(1) [OF assms(1-3,5)] qc_quorum(1) [OF assms(1,2,4,6)]
      qc_quorum(2) [OF assms(1-3,5)] qc_quorum(2) [OF assms(1,2,4,6)]] assms
  by (auto simp: total_power_sum QuorumCert_verify_Ok VoteData_verify_Ok)

theorem quorum_certs_overlap_witness:
  "\<exists>a. a \<in> qc_voters sample_verifier (sample_qc (sample_block_at 3) (sample_block_at 2) (sample_block_at 2)) \<and>
     a \<in> qc_voters sample_verifier (sample_qc (sample_block_at 5) (sample_block_at 3) BlockInfo_empty) \<and> a \<notin> {2}"
proof -
  have "QuorumCert_verify sample_crypto (sample_qc (sample_block_at 3) (sample_block_at 2) (sample_block_at 2))
      sample_verifier = Ok ()"
    "QuorumCert_verify sample_crypto (sample_qc (sample_block_at 5) (sample_block_at 3) BlockInfo_empty)
      sample_verifier = Ok ()"
    by (simp_all add: sample_qc_verifies VoteData_verify_Ok sample_block_at_def)
  from quorum_certs_overlap [OF sample_verifier_wf _ this, of "{2}"]
  show ?thesis by (simp add: sample_qc_def sample_block_at_def)
qed

end
