(* ===== verification/Blocks.thy ===== *)
theory Blocks
  imports Quorum_Cert
begin

text \<open>
  Payloads, blocks and block retrieval (\<open>common.rs\<close>, \<open>proof_of_store.rs\<close>,
  \<open>block_data.rs\<close>, \<open>block.rs\<close> and \<open>block_retrieval.rs\<close> of
  \<open>consensus/consensus-types/src\<close>). The clock is a parameter \<open>now\<close>, in microseconds.
\<close>

section \<open>Definitions\<close>

subsection \<open>Payloads\<close>

definition SignedDigest_new ::
  "consensus_crypto \<Rightarrow> u64 \<Rightarrow> hash_value \<Rightarrow> logical_time \<Rightarrow> u64 \<Rightarrow> u64 \<Rightarrow> validator_signer \<Rightarrow> signed_digest option" where
  "SignedDigest_new cc epoch digest expiration num_txns num_bytes signer =
     (let info = \<lparr>sdi_digest = digest, sdi_expiration = expiration, sdi_num_txns = num_txns, sdi_num_bytes = num_bytes\<rparr>
      in map_option (\<lambda>sg. \<lparr>sd_epoch = epoch, sd_peer_id = signer_author signer, sd_info = info, sd_signature = sg\<rparr>)
           (ValidatorSigner_sign (bls_digest cc) signer info))"

definition SignedDigest_verify :: "consensus_crypto \<Rightarrow> signed_digest \<Rightarrow> validator_verifier \<Rightarrow> (unit, anyhow) result" where
  "SignedDigest_verify cc sd v =
     map_err FromVerify (ValidatorVerifier_verify (bls_digest cc) v (sd_peer_id sd) (sd_info sd) (sd_signature sd))"

definition ProofOfStore_verify :: "consensus_crypto \<Rightarrow> proof_of_store \<Rightarrow> validator_verifier \<Rightarrow> (unit, anyhow) result" where
  "ProofOfStore_verify cc pos v =
     map_err (\<lambda>e. Context ''Failed to verify ProofOfStore'' (FromVerify e))
       (verify_multi_signatures (bls_digest cc) v (pos_info pos) (pos_multi_signature pos))"

definition Payload_empty :: "bool \<Rightarrow> payload" where
  "Payload_empty quorum_store_enabled = (if quorum_store_enabled then InQuorumStore [] else DirectMempool [])"

text \<open>The sum of an iterator of \<open>usize\<close>, which panics when it does not fit.\<close>

fun sum_usize :: "u64 \<Rightarrow> u64 list \<Rightarrow> (u64, 'e) result" where
  "sum_usize acc [] = Ok acc"
| "sum_usize acc (x # xs) = bind_res (add_chk acc x) (\<lambda>acc'. sum_usize acc' xs)"

primrec Payload_len :: "payload \<Rightarrow> (u64, 'e) result" where
  "Payload_len (DirectMempool txns) = Ok (of_nat (length txns))"
| "Payload_len (InQuorumStore proofs) = sum_usize 0 (map (\<lambda>pos. sdi_num_txns (pos_info pos)) proofs)"

primrec Payload_size :: "(signed_transaction \<Rightarrow> u64) \<Rightarrow> payload \<Rightarrow> (u64, 'e) result" where
  "Payload_size raw_txn_bytes_len (DirectMempool txns) = sum_usize 0 (map raw_txn_bytes_len txns)"
| "Payload_size raw_txn_bytes_len (InQuorumStore proofs) =
     sum_usize 0 (map (\<lambda>pos. sdi_num_bytes (pos_info pos)) proofs)"

primrec Payload_is_empty :: "payload \<Rightarrow> bool" where
  "Payload_is_empty (DirectMempool txns) \<longleftrightarrow> txns = []"
| "Payload_is_empty (InQuorumStore proofs) \<longleftrightarrow> proofs = []"

primrec Payload_is_direct :: "payload \<Rightarrow> bool" where
  "Payload_is_direct (DirectMempool txns) \<longleftrightarrow> True"
| "Payload_is_direct (InQuorumStore proofs) \<longleftrightarrow> False"

fun verify_proofs :: "consensus_crypto \<Rightarrow> proof_of_store list \<Rightarrow> validator_verifier \<Rightarrow> (unit, anyhow) result" where
  "verify_proofs cc [] v = Ok ()"
| "verify_proofs cc (pos # rest) v = bind_res (ProofOfStore_verify cc pos v) (\<lambda>_. verify_proofs cc rest v)"

definition Payload_verify ::
  "consensus_crypto \<Rightarrow> payload \<Rightarrow> validator_verifier \<Rightarrow> bool \<Rightarrow> (unit, anyhow) result" where
  "Payload_verify cc payload v quorum_store_enabled =
     (case (quorum_store_enabled, payload) of
        (False, DirectMempool _) \<Rightarrow> Ok ()
      | (True, InQuorumStore proofs) \<Rightarrow> verify_proofs cc proofs v
      | _ \<Rightarrow> Err (Msg ''Wrong payload type.''))"

subsection \<open>Block data\<close>

definition BlockData_author :: "block_data \<Rightarrow> author option" where
  "BlockData_author bd = (case bd_block_type bd of Proposal _ author _ \<Rightarrow> Some author | _ \<Rightarrow> None)"

definition bd_parent_id :: "block_data \<Rightarrow> hash_value" where
  "bd_parent_id bd = bi_id (certified_block (bd_quorum_cert bd))"

definition BlockData_payload :: "block_data \<Rightarrow> payload option" where
  "BlockData_payload bd = (case bd_block_type bd of Proposal payload _ _ \<Rightarrow> Some payload | _ \<Rightarrow> None)"

definition bd_is_genesis_block :: "block_data \<Rightarrow> bool" where
  "bd_is_genesis_block bd \<longleftrightarrow> (case bd_block_type bd of Genesis \<Rightarrow> True | _ \<Rightarrow> False)"

definition bd_is_nil_block :: "block_data \<Rightarrow> bool" where
  "bd_is_nil_block bd \<longleftrightarrow> (case bd_block_type bd of NilBlock _ \<Rightarrow> True | _ \<Rightarrow> False)"

definition failed_authors :: "block_data \<Rightarrow> (round_t \<times> author) list option" where
  "failed_authors bd =
     (case bd_block_type bd of Proposal _ _ fa \<Rightarrow> Some fa | NilBlock fa \<Rightarrow> Some fa | Genesis \<Rightarrow> None)"

definition BlockData_new_genesis :: "u64 \<Rightarrow> quorum_cert \<Rightarrow> (block_data, 'e) result" where
  "BlockData_new_genesis timestamp_usecs qc =
     bind_res (add_chk (bi_epoch (certified_block qc)) 1) (\<lambda>epoch.
     Ok \<lparr>bd_epoch = epoch, bd_round = 0, bd_timestamp_usecs = timestamp_usecs, bd_quorum_cert = qc,
         bd_block_type = Genesis\<rparr>)"

definition new_genesis_from_ledger_info :: "ledger_info \<Rightarrow> (block_data, 'e) result" where
  "new_genesis_from_ledger_info li =
     (if ends_epoch li then
        let ancestor = \<lparr>bi_epoch = li_epoch li, bi_round = 0, bi_id = HashValue_zero,
              bi_executed_state_id = transaction_accumulator_hash li, bi_version = li_version li,
              bi_timestamp_usecs = li_timestamp_usecs li, bi_next_epoch_state = None\<rparr>;
            genesis_quorum_cert = \<lparr>qc_vote_data = \<lparr>vd_proposed = ancestor, vd_parent = ancestor\<rparr>,
              qc_signed_ledger_info = LedgerInfoWithSignatures_new
                \<lparr>commit_info = ancestor, consensus_data_hash = HashValue_zero\<rparr> AggregateSignature_empty\<rparr>
        in BlockData_new_genesis (li_timestamp_usecs li) genesis_quorum_cert
      else Panic)"

definition BlockData_new_nil :: "round_t \<Rightarrow> quorum_cert \<Rightarrow> (round_t \<times> author) list \<Rightarrow> block_data" where
  "BlockData_new_nil round qc fa =
     \<lparr>bd_epoch = bi_epoch (certified_block qc), bd_round = round,
      bd_timestamp_usecs = bi_timestamp_usecs (certified_block qc), bd_quorum_cert = qc,
      bd_block_type = NilBlock fa\<rparr>"

definition BlockData_new_proposal ::
  "payload \<Rightarrow> author \<Rightarrow> (round_t \<times> author) list \<Rightarrow> round_t \<Rightarrow> u64 \<Rightarrow> quorum_cert \<Rightarrow> block_data" where
  "BlockData_new_proposal payload author fa round timestamp_usecs qc =
     \<lparr>bd_epoch = bi_epoch (certified_block qc), bd_round = round, bd_timestamp_usecs = timestamp_usecs,
      bd_quorum_cert = qc, bd_block_type = Proposal payload author fa\<rparr>"

definition is_reconfiguration_suffix :: "block_data \<Rightarrow> bool" where
  "is_reconfiguration_suffix bd \<longleftrightarrow> has_reconfiguration (certified_block (bd_quorum_cert bd))"

subsection \<open>Blocks\<close>

definition blk_author :: "block \<Rightarrow> author option" where
  [simp]: "blk_author b = BlockData_author (blk_block_data b)"

definition blk_epoch :: "block \<Rightarrow> u64" where
  [simp]: "blk_epoch b = bd_epoch (blk_block_data b)"

definition blk_quorum_cert :: "block \<Rightarrow> quorum_cert" where
  [simp]: "blk_quorum_cert b = bd_quorum_cert (blk_block_data b)"

definition blk_parent_id :: "block \<Rightarrow> hash_value" where
  "blk_parent_id b = bi_id (certified_block (blk_quorum_cert b))"

definition blk_payload :: "block \<Rightarrow> payload option" where
  [simp]: "blk_payload b = BlockData_payload (blk_block_data b)"

definition blk_round :: "block \<Rightarrow> round_t" where
  [simp]: "blk_round b = bd_round (blk_block_data b)"

definition blk_timestamp_usecs :: "block \<Rightarrow> u64" where
  [simp]: "blk_timestamp_usecs b = bd_timestamp_usecs (blk_block_data b)"

definition blk_is_genesis_block :: "block \<Rightarrow> bool" where
  [simp]: "blk_is_genesis_block b = bd_is_genesis_block (blk_block_data b)"

definition blk_is_nil_block :: "block \<Rightarrow> bool" where
  [simp]: "blk_is_nil_block b = bd_is_nil_block (blk_block_data b)"

definition gen_block_info :: "block \<Rightarrow> hash_value \<Rightarrow> version_t \<Rightarrow> epoch_state option \<Rightarrow> block_info" where
  "gen_block_info b executed_state_id version nes =
     \<lparr>bi_epoch = blk_epoch b, bi_round = blk_round b, bi_id = blk_id b,
      bi_executed_state_id = executed_state_id, bi_version = version,
      bi_timestamp_usecs = blk_timestamp_usecs b, bi_next_epoch_state = nes\<rparr>"

definition block_of_data :: "consensus_crypto \<Rightarrow> block_data \<Rightarrow> signature option \<Rightarrow> block" where
  "block_of_data cc bd sg = \<lparr>blk_id = hash_block_data cc bd, blk_block_data = bd, blk_signature = sg\<rparr>"

definition make_genesis_block_from_ledger_info :: "consensus_crypto \<Rightarrow> ledger_info \<Rightarrow> (block, 'e) result" where
  "make_genesis_block_from_ledger_info cc li =
     bind_res (new_genesis_from_ledger_info li) (\<lambda>bd. Ok (block_of_data cc bd None))"

definition Block_new_nil :: "consensus_crypto \<Rightarrow> round_t \<Rightarrow> quorum_cert \<Rightarrow> (round_t \<times> author) list \<Rightarrow> block" where
  "Block_new_nil cc round qc fa = block_of_data cc (BlockData_new_nil round qc fa) None"

definition new_proposal_from_block_data_and_signature ::
  "consensus_crypto \<Rightarrow> block_data \<Rightarrow> signature \<Rightarrow> block" where
  "new_proposal_from_block_data_and_signature cc bd sg = block_of_data cc bd (Some sg)"

definition new_proposal_from_block_data ::
  "consensus_crypto \<Rightarrow> block_data \<Rightarrow> validator_signer \<Rightarrow> (block, anyhow) result" where
  "new_proposal_from_block_data cc bd signer =
     bind_res (ok_or (ValidatorSigner_sign (bls_block_data cc) signer bd) (Msg ''CryptoMaterialError'')) (\<lambda>sg.
     Ok (new_proposal_from_block_data_and_signature cc bd sg))"

definition Block_new_proposal ::
  "consensus_crypto \<Rightarrow> payload \<Rightarrow> round_t \<Rightarrow> u64 \<Rightarrow> quorum_cert \<Rightarrow> validator_signer \<Rightarrow>
   (round_t \<times> author) list \<Rightarrow> (block, anyhow) result" where
  "Block_new_proposal cc payload round timestamp_usecs qc signer fa =
     new_proposal_from_block_data cc
       (BlockData_new_proposal payload (signer_author signer) fa round timestamp_usecs qc) signer"

definition validate_signature :: "consensus_crypto \<Rightarrow> block \<Rightarrow> validator_verifier \<Rightarrow> (unit, anyhow) result" where
  "validate_signature cc b v =
     (case bd_block_type (blk_block_data b) of
        Genesis \<Rightarrow> Err (Msg ''We should not accept genesis from others'')
      | NilBlock _ \<Rightarrow> QuorumCert_verify cc (blk_quorum_cert b) v
      | Proposal _ author _ \<Rightarrow>
          bind_res (ok_or (blk_signature b) (Msg ''Missing signature in Proposal'')) (\<lambda>sg.
          bind_res (map_err FromVerify (ValidatorVerifier_verify (bls_block_data cc) v author (blk_block_data b) sg)) (\<lambda>_.
          QuorumCert_verify cc (blk_quorum_cert b) v)))"

fun check_failed_authors :: "round_t \<Rightarrow> round_t \<Rightarrow> (round_t \<times> author) list \<Rightarrow> (unit, anyhow) result" where
  "check_failed_authors bound succ_round [] = Ok ()"
| "check_failed_authors bound succ_round ((round, _) # rest) =
     bind_res (ensure (bound < round \<and> round < succ_round) (Msg ''Incorrect round in failed authors''))
       (\<lambda>_. check_failed_authors round succ_round rest)"

definition verify_failed_authors ::
  "round_t \<Rightarrow> bool \<Rightarrow> round_t \<Rightarrow> (round_t \<times> author) list \<Rightarrow> (unit, anyhow) result" where
  "verify_failed_authors round is_nil parent_round fa =
     bind_res (add_chk round (if is_nil then 1 else 0)) (\<lambda>succ_round.
     bind_res (add_chk parent_round 1) (\<lambda>parent_succ.
     let skipped_rounds = checked_sub succ_round parent_succ in
     bind_res (ensure (skipped_rounds \<noteq> None)
       (Msg ''Block round is smaller than block's parent round'')) (\<lambda>_.
     bind_res (ensure (length fa \<le> unat (the skipped_rounds))
       (Msg ''Block has more failed authors than missed rounds'')) (\<lambda>_.
     check_failed_authors parent_round succ_round fa))))"

definition TIMEBOUND :: u64 where "TIMEBOUND = 300000000"

definition verify_well_formed :: "u64 \<Rightarrow> block \<Rightarrow> (unit, anyhow) result" where
  "verify_well_formed now b =
     bind_res (ensure (\<not> blk_is_genesis_block b) (Msg ''We must not accept genesis from others'')) (\<lambda>_.
     let parent = certified_block (blk_quorum_cert b) in
     bind_res (ensure (bi_round parent < blk_round b) (Msg ''Block must have a greater round than parent's block'')) (\<lambda>_.
     bind_res (ensure (bi_epoch parent = blk_epoch b) (Msg ''block's parent should be in the same epoch'')) (\<lambda>_.
     bind_res (if has_reconfiguration parent
               then ensure (case blk_payload b of None \<Rightarrow> True | Some p \<Rightarrow> Payload_is_empty p)
                      (Msg ''Reconfiguration suffix should not carry payload'')
               else Ok ()) (\<lambda>_.
     bind_res (case failed_authors (blk_block_data b) of
                 None \<Rightarrow> Ok ()
               | Some fa \<Rightarrow>
                   verify_failed_authors (blk_round b) (blk_is_nil_block b) (bi_round parent) fa) (\<lambda>_.
     bind_res (if blk_is_nil_block b \<or> has_reconfiguration parent
               then ensure (blk_timestamp_usecs b = bi_timestamp_usecs parent)
                      (Msg ''Nil/reconfig suffix block must have same timestamp as parent'')
               else bind_res (ensure (blk_timestamp_usecs b > bi_timestamp_usecs parent)
                      (Msg ''Blocks must have strictly increasing timestamps'')) (\<lambda>_.
                    ensure (blk_timestamp_usecs b \<le> saturating_add now TIMEBOUND)
                      (Msg ''Blocks must not be too far in the future''))) (\<lambda>_.
     bind_res (ensure (\<not> qc_ends_epoch (blk_quorum_cert b))
       (Msg ''Block cannot be proposed in an epoch that has ended'')) (\<lambda>_. Ok ())))))))"

fun failed_authors_to_indices ::
  "account_address list \<Rightarrow> (round_t \<times> author) list \<Rightarrow> (u32 list, 'e) result" where
  "failed_authors_to_indices vals [] = Ok []"
| "failed_authors_to_indices vals ((_, failed_author) # rest) =
     (let index = length (takeWhile (\<lambda>v. v \<noteq> failed_author) vals)
      in if index < length vals \<and> index < 2 ^ 32
         then bind_res (failed_authors_to_indices vals rest) (\<lambda>is. Ok (of_nat index # is))
         else Panic)"

definition new_block_metadata :: "block \<Rightarrow> account_address list \<Rightarrow> (block_metadata, 'e) result" where
  "new_block_metadata b vals =
     bind_res (case failed_authors (blk_block_data b) of
                 None \<Rightarrow> Ok [] | Some fa \<Rightarrow> failed_authors_to_indices vals fa) (\<lambda>indices.
     Ok \<lparr>bm_id = blk_id b, bm_epoch = blk_epoch b, bm_round = blk_round b,
         bm_proposer = (case blk_author b of Some a \<Rightarrow> a | None \<Rightarrow> 0),
         bm_previous_block_votes_bitvec =
           inner (validator_bitmask (lis_signatures (qc_signed_ledger_info (blk_quorum_cert b)))),
         bm_failed_proposer_indices = indices, bm_timestamp_usecs = blk_timestamp_usecs b\<rparr>)"

definition transactions_to_execute ::
  "block \<Rightarrow> account_address list \<Rightarrow> signed_transaction list \<Rightarrow> (transaction list, 'e) result" where
  "transactions_to_execute b vals txns =
     bind_res (new_block_metadata b vals) (\<lambda>metadata.
     Ok ([BlockMetadataTransaction metadata] @ map UserTransaction txns @ [StateCheckpoint (blk_id b)]))"

subsection \<open>Block retrieval\<close>

definition MAX_BLOCKS_PER_REQUEST :: u64 where "MAX_BLOCKS_PER_REQUEST = 10"

definition match_target_id :: "block_retrieval_request \<Rightarrow> hash_value \<Rightarrow> bool" where
  "match_target_id req h \<longleftrightarrow> (case brq_target_block_id req of None \<Rightarrow> False | Some target \<Rightarrow> target = h)"

fun verify_chain ::
  "consensus_crypto \<Rightarrow> u64 \<Rightarrow> validator_verifier \<Rightarrow> hash_value \<Rightarrow> block list \<Rightarrow> (hash_value, anyhow) result" where
  "verify_chain cc now v expected_id [] = Ok expected_id"
| "verify_chain cc now v expected_id (b # rest) =
     bind_res (validate_signature cc b v) (\<lambda>_.
     bind_res (verify_well_formed now b) (\<lambda>_.
     bind_res (ensure (blk_id b = expected_id) (Msg ''blocks doesn't form a chain'')) (\<lambda>_.
     verify_chain cc now v (blk_parent_id b) rest)))"

definition BlockRetrievalResponse_verify ::
  "consensus_crypto \<Rightarrow> u64 \<Rightarrow> block_retrieval_response \<Rightarrow> block_retrieval_request \<Rightarrow> validator_verifier \<Rightarrow>
   (unit, anyhow) result" where
  "BlockRetrievalResponse_verify cc now resp req v =
     bind_res (ensure (brr_status resp \<noteq> Succeeded \<or> of_nat (length (brr_blocks resp)) = brq_num_blocks req)
       (Msg ''not enough blocks returned'')) (\<lambda>_.
     bind_res (ensure (brr_status resp \<noteq> SucceededWithTarget \<or>
         brr_blocks resp \<noteq> [] \<and> match_target_id req (blk_id (last (brr_blocks resp))))
       (Msg ''target not found in blocks returned'')) (\<lambda>_.
     bind_res (verify_chain cc now v (brq_block_id req) (brr_blocks resp)) (\<lambda>_. Ok ())))"

section \<open>Lemmas\<close>

lemma check_failed_authors_Ok [res_iff]:
  "check_failed_authors bound s fa = Ok u \<longleftrightarrow>
     sorted_wrt (<) (bound # map fst fa) \<and> (\<forall>r \<in> set (map fst fa). r < s)"
proof (induction bound s fa rule: check_failed_authors.induct)
  case (2 bound s round a rest)
  then show ?case by (auto simp: res_iff dest: less_trans)
qed simp

lemma increasing_words_length:
  fixes b s :: "'a::len word"
  assumes "sorted_wrt (<) (b # rs)" "\<forall>r \<in> set rs. r < s"
  shows "length rs \<le> unat s - (unat b + 1)"
proof -
  have "distinct rs" using assms(1) by (simp add: strict_sorted_iff)
  then have "length rs = card (unat ` set rs)"
    by (simp add: card_image inj_on_def word_unat_eq_iff distinct_card)
  also have "\<dots> \<le> card {unat b + 1..<unat s}"
    using assms by (intro card_mono) (auto simp: word_less_nat_alt)
  finally show ?thesis by simp
qed

lemma u64_not_max: "(r :: u64) \<noteq> - 1 \<Longrightarrow> unat r + 1 < 2 ^ 64"
proof -
  assume "r \<noteq> - 1"
  then have "unat r \<noteq> unat (- 1 :: u64)" by (simp add: word_unat_eq_iff)
  then show ?thesis
    using unat_below [of r] by (simp add: unsigned_minus_1_eq_mask mask_eq_exp_minus_1)
qed

lemma u64_less_succ: "(r :: u64) \<noteq> - 1 \<Longrightarrow> r < r + 1"
  using u64_not_max [of r] by (simp add: word_less_nat_alt unat_add_no_wrap)

lemma succ_round_cases:
  fixes r :: u64
  shows "add_chk r (if c then 1 else 0) = (if c \<and> r = - 1 then Panic else Ok (if c then r + 1 else r) :: (u64, 'e) result)"
proof (cases "c \<and> r = - 1")
  case True
  then show ?thesis
    by (simp add: add_chk_def checked_add_def or_panic_def unsigned_minus_1_eq_mask mask_eq_exp_minus_1)
next
  case False
  with u64_not_max [of r] show ?thesis by (simp add: add_chk_Ok_iff unat_add_no_wrap)
qed

lemma add_chk_below:
  fixes r s :: u64
  assumes "r < s"
  shows "add_chk r 1 = (Ok (r + 1) :: (u64, 'e) result)" and "unat (r + 1) = unat r + 1"
proof -
  have "unat r + unat (1 :: u64) < 2 ^ LENGTH(64)"
    using assms unat_below [of s] by (simp add: word_less_nat_alt)
  then show "add_chk r 1 = (Ok (r + 1) :: (u64, 'e) result)" and "unat (r + 1) = unat r + 1"
    by (simp_all only: add_chk_defined unat_add_no_wrap unsigned_1)
qed

lemma verify_failed_authors_wrap: "verify_failed_authors (- 1) True p fa = Panic"
  using succ_round_cases [of "- 1" True, where 'e = anyhow] by (simp add: verify_failed_authors_def)

lemma verify_failed_authors_Ok:
  fixes r p :: round_t
  assumes "p < r" "\<not> (c \<and> r = - 1)"
  defines "succ \<equiv> if c then r + 1 else r"
  shows "verify_failed_authors r c p fa = Ok () \<longleftrightarrow> check_failed_authors p succ fa = Ok ()"
proof -
  have le: "r \<le> succ" "p < succ"
    using assms u64_less_succ [of r] by (auto simp: succ_def)
  have sub: "checked_sub succ (p + 1) = Some (succ - (p + 1))"
    using le(2) add_chk_below(2) [OF le(2)] by (simp add: checked_sub_def word_le_nat_alt word_less_nat_alt)
  then have diff: "unat (succ - (p + 1)) = unat succ - (unat p + 1)"
    using add_chk_below(2) [OF le(2)] by (simp add: checked_sub_Some)
  show ?thesis
    unfolding verify_failed_authors_def succ_round_cases
    using assms(2) increasing_words_length [of p "map fst fa" succ]
    by (auto simp: add_chk_below(1) [OF assms(1)] Let_def sub diff res_iff simp flip: succ_def split: if_splits)
qed

lemma check_failed_authors_not_Panic [simp]: "check_failed_authors bound s fa \<noteq> Panic"
  by (induction bound s fa rule: check_failed_authors.induct) (auto simp: bind_res_Panic_iff)

lemma verify_failed_authors_Panic:
  assumes "p < r"
  shows "verify_failed_authors r c p fa = Panic \<longleftrightarrow> c \<and> r = - 1"
  unfolding verify_failed_authors_def succ_round_cases
  by (auto simp: add_chk_below(1) [OF assms] Let_def bind_res_Panic_iff)

lemma verify_chain_Ok:
  "(\<exists>e. verify_chain cc now v expected bs = Ok e) \<longleftrightarrow>
     map blk_id bs = butlast (expected # map blk_parent_id bs) \<and>
     (\<forall>b \<in> set bs. validate_signature cc b v = Ok () \<and> verify_well_formed now b = Ok ())"
proof (induction bs arbitrary: expected)
  case (Cons b bs)
  have "(\<exists>e. verify_chain cc now v expected (b # bs) = Ok e) \<longleftrightarrow>
      validate_signature cc b v = Ok () \<and> verify_well_formed now b = Ok () \<and> blk_id b = expected \<and>
      (\<exists>e. verify_chain cc now v (blk_parent_id b) bs = Ok e)"
    by (auto simp: res_iff)
  then show ?case unfolding Cons.IH by auto
qed simp

definition sample_nil_block :: "round_t \<Rightarrow> round_t \<Rightarrow> (round_t \<times> author) list \<Rightarrow> block" where
  "sample_nil_block r p fa = Block_new_nil sample_crypto r
     (sample_qc (sample_block_at p) (sample_block_at (p - 1)) BlockInfo_empty) fa"

lemma sample_nil_block_simps [simp]:
  "blk_is_nil_block (sample_nil_block r p fa)" "\<not> blk_is_genesis_block (sample_nil_block r p fa)"
  "blk_round (sample_nil_block r p fa) = r" "failed_authors (blk_block_data (sample_nil_block r p fa)) = Some fa"
  "certified_block (blk_quorum_cert (sample_nil_block r p fa)) = sample_block_at p"
  "blk_epoch (sample_nil_block r p fa) = 1" "blk_payload (sample_nil_block r p fa) = None"
  "blk_timestamp_usecs (sample_nil_block r p fa) = 10 * p"
  "\<not> qc_ends_epoch (blk_quorum_cert (sample_nil_block r p fa))"
  by (simp_all add: sample_nil_block_def Block_new_nil_def BlockData_new_nil_def block_of_data_def
    bd_is_nil_block_def bd_is_genesis_block_def failed_authors_def BlockData_payload_def sample_qc_def
    sample_block_at_def qc_ends_epoch_def ends_epoch_def BlockInfo_empty_def)

lemma sample_nil_block_validates:
  assumes "1 < p" "p < 10"
  shows "validate_signature sample_crypto (sample_nil_block r p fa) sample_verifier = Ok ()"
proof -
  have "p - 1 < p" "10 * (p - 1) \<le> 10 * p" "p \<noteq> 0"
    using assms by (auto simp: word_less_nat_alt word_le_nat_alt unat_sub unat_word_ariths)
  then have "QuorumCert_verify sample_crypto
      (sample_qc (sample_block_at p) (sample_block_at (p - 1)) BlockInfo_empty) sample_verifier = Ok ()"
    by (intro sample_qc_verifies) (simp_all add: sample_block_at_def VoteData_verify_Ok)
  then show ?thesis
    by (simp add: validate_signature_def sample_nil_block_def Block_new_nil_def block_of_data_def
      BlockData_new_nil_def)
qed

lemma sample_nil_block_well_formed:
  assumes "p < r" "r \<noteq> - 1"
  shows "verify_well_formed 0 (sample_nil_block r p []) = Ok ()"
proof -
  have "verify_failed_authors r True p [] = Ok ()"
    using assms by (simp add: verify_failed_authors_Ok check_failed_authors_Ok)
  then show ?thesis
    using assms sample_nil_block_simps [of r p "[]"]
    by (simp add: verify_well_formed_def Let_def sample_block_at_def has_reconfiguration_def)
qed

lemma sample_nil_block_ids:
  "blk_id (sample_nil_block r p fa) = ucast r + 1000" "blk_parent_id (sample_nil_block r p fa) = ucast p + 1000"
  by (simp_all add: sample_nil_block_def Block_new_nil_def block_of_data_def BlockData_new_nil_def
    sample_crypto_def blk_parent_id_def sample_qc_def sample_block_at_def)

section \<open>Properties\<close>

text \<open>
  What a well-formed block is: not a genesis block, above its parent in the same epoch, with
  no payload after a reconfiguration, failed authors listed at strictly increasing rounds between
  the parent and the block, a timestamp above the parent's and not too far ahead (equal to the
  parent's for nil blocks and after a reconfiguration), and a certificate that does not end the
  epoch. The bound on the number of failed authors follows from the order of their rounds.
\<close>

theorem well_formed_accepts:
  "verify_well_formed now b = Ok () \<longleftrightarrow>
     (let parent = certified_block (blk_quorum_cert b) in
      \<not> blk_is_genesis_block b \<and> bi_round parent < blk_round b \<and> bi_epoch parent = blk_epoch b \<and>
      (has_reconfiguration parent \<longrightarrow> (\<forall>p. blk_payload b = Some p \<longrightarrow> Payload_is_empty p)) \<and>
      \<not> (blk_is_nil_block b \<and> blk_round b = - 1) \<and>
      (\<forall>fa. failed_authors (blk_block_data b) = Some fa \<longrightarrow>
         sorted_wrt (<) (bi_round parent # map fst fa) \<and>
         (\<forall>r \<in> set (map fst fa). r < (if blk_is_nil_block b then blk_round b + 1 else blk_round b))) \<and>
      (if blk_is_nil_block b \<or> has_reconfiguration parent
       then blk_timestamp_usecs b = bi_timestamp_usecs parent
       else bi_timestamp_usecs parent < blk_timestamp_usecs b \<and>
            blk_timestamp_usecs b \<le> saturating_add now TIMEBOUND) \<and>
      \<not> qc_ends_epoch (blk_quorum_cert b))"
proof (cases "blk_is_genesis_block b \<or> \<not> bi_round (certified_block (blk_quorum_cert b)) < blk_round b")
  case True
  then show ?thesis by (auto simp: verify_well_formed_def Let_def res_iff)
next
  case False
  let ?p = "certified_block (blk_quorum_cert b)" and ?nil = "blk_is_nil_block b"
  from False have less: "bi_round ?p < blk_round b" by simp
  obtain fa where fa: "failed_authors (blk_block_data b) = Some fa"
    using False by (cases "bd_block_type (blk_block_data b)") (auto simp: failed_authors_def bd_is_genesis_block_def)
  show ?thesis
  proof (cases "?nil \<and> blk_round b = - 1")
    case True
    then have "verify_failed_authors (blk_round b) ?nil (bi_round ?p) fa = Panic"
      by (simp only: verify_failed_authors_wrap)
    then show ?thesis using True fa by (auto simp: verify_well_formed_def Let_def bind_res_Ok_iff)
  next
    case nowrap: False
    have "verify_failed_authors (blk_round b) ?nil (bi_round ?p) fa = Ok () \<longleftrightarrow>
        check_failed_authors (bi_round ?p) (if ?nil then blk_round b + 1 else blk_round b) fa = Ok ()"
      by (rule verify_failed_authors_Ok [OF less nowrap])
    then show ?thesis
      using False nowrap fa
      by (simp add: verify_well_formed_def Let_def res_iff split: option.splits)
  qed
qed

theorem well_formed_accepts_witness:
  "verify_well_formed 0 (sample_nil_block 9 4 [(6, 1), (9, 2)]) = Ok () \<and>
   verify_well_formed 0 (sample_nil_block 9 4 [(6, 1), (6, 2)]) \<noteq> Ok ()"
  using well_formed_accepts [of 0 "sample_nil_block 9 4 [(6, 1), (9, 2)]"]
    well_formed_accepts [of 0 "sample_nil_block 9 4 [(6, 1), (6, 2)]"]
  by (simp add: Let_def del: certified_block_def blk_quorum_cert_def blk_round_def blk_epoch_def
      blk_payload_def blk_timestamp_usecs_def blk_is_genesis_block_def blk_is_nil_block_def)
    (simp add: sample_block_at_def has_reconfiguration_def)

text \<open>
  C40. The check of a block panics in exactly one case: on a nil block at the last representable
  round, above a parent of the same epoch, where adding one to the round overflows. Nil blocks
  carry no signature of an author, so a peer that answers a retrieval request can build one on
  any certificate it has seen.
\<close>

theorem well_formed_panics:
  "verify_well_formed now b = Panic \<longleftrightarrow>
     blk_is_nil_block b \<and> blk_round b = - 1 \<and> bi_round (certified_block (blk_quorum_cert b)) < - 1 \<and>
     bi_epoch (certified_block (blk_quorum_cert b)) = blk_epoch b"
proof -
  let ?p = "certified_block (blk_quorum_cert b)"
  have nil: "\<not> blk_is_genesis_block b" "blk_payload b = None" "\<exists>fa. failed_authors (blk_block_data b) = Some fa"
    if "blk_is_nil_block b"
    using that by (auto simp: bd_is_nil_block_def bd_is_genesis_block_def BlockData_payload_def failed_authors_def
      split: block_type.splits)
  have "verify_well_formed now b = Panic \<longleftrightarrow>
      \<not> blk_is_genesis_block b \<and> bi_round ?p < blk_round b \<and> bi_epoch ?p = blk_epoch b \<and>
      (has_reconfiguration ?p \<longrightarrow> (\<forall>pl. blk_payload b = Some pl \<longrightarrow> Payload_is_empty pl)) \<and>
      (\<exists>fa. failed_authors (blk_block_data b) = Some fa \<and>
         verify_failed_authors (blk_round b) (blk_is_nil_block b) (bi_round ?p) fa = Panic)"
    by (auto simp: verify_well_formed_def Let_def bind_res_Panic_iff ensure_Ok_iff
      split: option.splits if_splits)
  then show ?thesis using nil verify_failed_authors_Panic by (auto simp del: blk_is_nil_block_def)
qed

text \<open>
  A retrieval response is accepted exactly when its blocks are linked by their parent ids,
  starting at the requested block, each of them signed, certified and well-formed, with the
  requested number of blocks (or the target as its last block) if the peer claims success.
\<close>

theorem retrieval_response_accepts:
  "BlockRetrievalResponse_verify cc now resp req v = Ok () \<longleftrightarrow>
     (brr_status resp = Succeeded \<longrightarrow> of_nat (length (brr_blocks resp)) = brq_num_blocks req) \<and>
     (brr_status resp = SucceededWithTarget \<longrightarrow>
        brr_blocks resp \<noteq> [] \<and> brq_target_block_id req = Some (blk_id (last (brr_blocks resp)))) \<and>
     map blk_id (brr_blocks resp) = butlast (brq_block_id req # map blk_parent_id (brr_blocks resp)) \<and>
     (\<forall>b \<in> set (brr_blocks resp). validate_signature cc b v = Ok () \<and> verify_well_formed now b = Ok ())"
  using verify_chain_Ok [of cc now v "brq_block_id req" "brr_blocks resp"]
  by (auto simp: BlockRetrievalResponse_verify_def match_target_id_def bind_res_Ok_iff ensure_Ok_iff
    split: option.splits)

theorem retrieval_response_accepts_witness:
  "BlockRetrievalResponse_verify sample_crypto 0
     \<lparr>brr_status = Succeeded, brr_blocks = [sample_nil_block 9 8 [], sample_nil_block 8 4 []]\<rparr>
     \<lparr>brq_block_id = 1009, brq_num_blocks = 2, brq_target_block_id = None\<rparr> sample_verifier = Ok ()"
  unfolding retrieval_response_accepts
  by (simp add: sample_nil_block_validates sample_nil_block_well_formed sample_nil_block_ids)

end
