(* ===== verification/Timeouts.thy ===== *)
theory Timeouts
  imports Quorum_Cert
begin

text \<open>
  Two-chain timeouts (\<open>consensus/consensus-types/src/timeout_2chain.rs\<close>). A validator that
  times out signs the epoch, the round and the round of the highest certificate it has seen; a
  timeout certificate aggregates these signatures, with the signed rounds listed in the order of
  the bit mask, and carries the certificate of the highest of them.
\<close>

section \<open>Definitions\<close>

subsection \<open>Timeouts\<close>

definition hqc_round :: "two_chain_timeout \<Rightarrow> round_t" where
  "hqc_round t = bi_round (certified_block (to_quorum_cert t))"

definition signing_format :: "two_chain_timeout \<Rightarrow> timeout_signing_repr" where
  "signing_format t = \<lparr>tsr_epoch = to_epoch t, tsr_round = to_round t, tsr_hqc_round = hqc_round t\<rparr>"

definition TwoChainTimeout_sign ::
  "consensus_crypto \<Rightarrow> two_chain_timeout \<Rightarrow> validator_signer \<Rightarrow> signature option" where
  "TwoChainTimeout_sign cc t signer = ValidatorSigner_sign (bls_timeout cc) signer (signing_format t)"

definition TwoChainTimeout_verify ::
  "consensus_crypto \<Rightarrow> two_chain_timeout \<Rightarrow> validator_verifier \<Rightarrow> (unit, anyhow) result" where
  "TwoChainTimeout_verify cc t v =
     bind_res (ensure (hqc_round t < to_round t) (Msg ''Timeout round should be larger than the QC round'')) (\<lambda>_.
     bind_res (QuorumCert_verify cc (to_quorum_cert t) v) (\<lambda>_. Ok ()))"

subsection \<open>Timeout certificates\<close>

definition AggregateSignatureWithRounds_new ::
  "aggregate_signature \<Rightarrow> round_t list \<Rightarrow> (aggregate_signature_with_rounds, 'e) result" where
  "AggregateSignatureWithRounds_new sg rounds =
     (if get_num_voters sg = length rounds then Ok \<lparr>aswr_sig = sg, aswr_rounds = rounds\<rparr> else Panic)"

definition AggregateSignatureWithRounds_empty :: aggregate_signature_with_rounds where
  "AggregateSignatureWithRounds_empty = \<lparr>aswr_sig = AggregateSignature_empty, aswr_rounds = []\<rparr>"

definition aswr_get_voters ::
  "aggregate_signature_with_rounds \<Rightarrow> account_address list \<Rightarrow> account_address list" where
  "aswr_get_voters sr addrs = get_voter_addresses (aswr_sig sr) addrs"

definition get_voters_and_rounds ::
  "aggregate_signature_with_rounds \<Rightarrow> account_address list \<Rightarrow> (account_address \<times> round_t) list" where
  "get_voters_and_rounds sr addrs = zip (get_voter_addresses (aswr_sig sr) addrs) (aswr_rounds sr)"

definition TwoChainTimeoutCertificate_new :: "two_chain_timeout \<Rightarrow> two_chain_timeout_certificate" where
  "TwoChainTimeoutCertificate_new t =
     \<lparr>tc_timeout = t, tc_signatures_with_rounds = AggregateSignatureWithRounds_empty\<rparr>"

definition tc_epoch :: "two_chain_timeout_certificate \<Rightarrow> u64" where
  [simp]: "tc_epoch tc = to_epoch (tc_timeout tc)"

definition tc_round :: "two_chain_timeout_certificate \<Rightarrow> round_t" where
  [simp]: "tc_round tc = to_round (tc_timeout tc)"

definition highest_hqc_round :: "two_chain_timeout_certificate \<Rightarrow> round_t" where
  [simp]: "highest_hqc_round tc = hqc_round (tc_timeout tc)"

fun max_round :: "round_t list \<Rightarrow> round_t option" where
  "max_round [] = None"
| "max_round (r # rs) = Some (fold max rs r)"

definition tc_messages ::
  "two_chain_timeout_certificate \<Rightarrow> validator_verifier \<Rightarrow> timeout_signing_repr list" where
  "tc_messages tc v =
     map (\<lambda>(_, round). \<lparr>tsr_epoch = to_epoch (tc_timeout tc), tsr_round = to_round (tc_timeout tc),
           tsr_hqc_round = round\<rparr>)
       (get_voters_and_rounds (tc_signatures_with_rounds tc) (get_ordered_account_addresses v))"

definition TwoChainTimeoutCertificate_verify ::
  "consensus_crypto \<Rightarrow> two_chain_timeout_certificate \<Rightarrow> validator_verifier \<Rightarrow> (unit, anyhow) result" where
  "TwoChainTimeoutCertificate_verify cc tc v =
     bind_res (TwoChainTimeout_verify cc (tc_timeout tc) v) (\<lambda>_.
     bind_res (map_err FromVerify (verify_aggregate_signatures (bls_timeout cc) v (tc_messages tc v)
       (aswr_sig (tc_signatures_with_rounds tc)))) (\<lambda>_.
     bind_res (or_panic (max_round (aswr_rounds (tc_signatures_with_rounds tc)))) (\<lambda>signed_hqc.
     ensure (hqc_round (tc_timeout tc) = signed_hqc) (Msg ''Inconsistent hqc round''))))"

subsection \<open>Collecting timeouts\<close>

definition PartialSignaturesWithRound_empty :: partial_signatures_with_round where
  "PartialSignaturesWithRound_empty = \<lparr>psr_signatures = []\<rparr>"

definition psr_add_signature ::
  "partial_signatures_with_round \<Rightarrow> account_address \<Rightarrow> round_t \<Rightarrow> signature \<Rightarrow> partial_signatures_with_round" where
  "psr_add_signature psr validator round sg =
     psr\<lparr>psr_signatures := bt_or_insert validator (round, sg) (psr_signatures psr)\<rparr>"

definition get_partial_sig_with_rounds ::
  "partial_signatures_with_round \<Rightarrow> (account_address, nat) btree_map \<Rightarrow> partial_signatures \<times> round_t list" where
  "get_partial_sig_with_rounds psr index =
     (let (partial_sig, index_to_rounds) = fold (\<lambda>(address, (round, sg)) (partial_sig, index_to_rounds).
            case map_of index address of
              Some i \<Rightarrow> (PartialSignatures_add partial_sig address sg, bt_insert i round index_to_rounds)
            | None \<Rightarrow> (partial_sig, index_to_rounds))
          (psr_signatures psr) (PartialSignatures_empty, [])
      in (partial_sig, map snd index_to_rounds))"

definition TwoChainTimeoutWithPartialSignatures_new ::
  "two_chain_timeout \<Rightarrow> two_chain_timeout_with_partial_signatures" where
  "TwoChainTimeoutWithPartialSignatures_new t =
     \<lparr>ttp_timeout = t, ttp_signatures = PartialSignaturesWithRound_empty\<rparr>"

definition ttp_signers :: "two_chain_timeout_with_partial_signatures \<Rightarrow> author list" where
  "ttp_signers ttp = bt_keys (psr_signatures (ttp_signatures ttp))"

definition ttp_add ::
  "two_chain_timeout_with_partial_signatures \<Rightarrow> author \<Rightarrow> two_chain_timeout \<Rightarrow> signature \<Rightarrow>
   two_chain_timeout_with_partial_signatures" where
  "ttp_add ttp author timeout sg =
     (let ttp' = (if hqc_round timeout > hqc_round (ttp_timeout ttp) then ttp\<lparr>ttp_timeout := timeout\<rparr> else ttp)
      in ttp'\<lparr>ttp_signatures := psr_add_signature (ttp_signatures ttp') author (hqc_round timeout) sg\<rparr>)"

definition ttp_aggregate_signatures ::
  "consensus_crypto \<Rightarrow> two_chain_timeout_with_partial_signatures \<Rightarrow> validator_verifier \<Rightarrow>
   (two_chain_timeout_certificate, verify_error) result" where
  "ttp_aggregate_signatures cc ttp v =
     (let (partial_sig, ordered_rounds) =
            get_partial_sig_with_rounds (ttp_signatures ttp) (address_to_validator_index v)
      in bind_res (aggregate_signatures (bls_timeout cc) v partial_sig) (\<lambda>aggregated_sig.
         bind_res (AggregateSignatureWithRounds_new aggregated_sig ordered_rounds) (\<lambda>sr.
         Ok \<lparr>tc_timeout = ttp_timeout ttp, tc_signatures_with_rounds = sr\<rparr>)))"

section \<open>Lemmas\<close>

lemma max_round_Some:
  "max_round rs = Some m \<longleftrightarrow> m \<in> set rs \<and> (\<forall>r \<in> set rs. r \<le> m)"
proof (cases rs)
  case (Cons r rs')
  have "fold max rs' r \<in> set (r # rs') \<and> (\<forall>x \<in> set (r # rs'). x \<le> fold max rs' r)"
  proof (induction rs' arbitrary: r)
    case (Cons a rs')
    from Cons.IH [of "max a r"] show ?case by (auto simp: max_def split: if_splits intro: order_trans)
  qed simp
  with Cons show ?thesis by (auto intro: order_antisym)
qed simp

lemma max_round_Max: "max_round rs = Some m \<Longrightarrow> m = Max (set rs)"
  by (rule Max_eqI [symmetric]) (simp_all add: max_round_Some)

lemma TwoChainTimeout_verify_Ok [res_iff]:
  "TwoChainTimeout_verify cc t v = Ok u \<longleftrightarrow> hqc_round t < to_round t \<and> QuorumCert_verify cc (to_quorum_cert t) v = Ok ()"
  by (auto simp: TwoChainTimeout_verify_def bind_res_Ok_iff ensure_Ok_iff)

lemma TC_verify_Ok [res_iff]:
  "TwoChainTimeoutCertificate_verify cc tc v = Ok u \<longleftrightarrow>
     TwoChainTimeout_verify cc (tc_timeout tc) v = Ok () \<and>
     verify_aggregate_signatures (bls_timeout cc) v (tc_messages tc v)
       (aswr_sig (tc_signatures_with_rounds tc)) = Ok () \<and>
     max_round (aswr_rounds (tc_signatures_with_rounds tc)) = Some (highest_hqc_round tc)"
  by (auto simp: TwoChainTimeoutCertificate_verify_def bind_res_Ok_iff ensure_Ok_iff map_err_Ok_iff or_panic_Ok_iff)

definition tc_voters :: "validator_verifier \<Rightarrow> two_chain_timeout_certificate \<Rightarrow> account_address list" where
  "tc_voters v tc = get_voter_addresses (aswr_sig (tc_signatures_with_rounds tc)) (get_ordered_account_addresses v)"

lemma tc_quorum:
  assumes "vv_wf v" "verifier_len v < 2 ^ 16" "TwoChainTimeoutCertificate_verify cc tc v = Ok ()"
  shows "set (tc_voters v tc) \<subseteq> validators v" "distinct (tc_voters v tc)"
    and "unat (quorum_voting_power v) \<le> sum (power_of v) (set (tc_voters v tc))"
proof -
  let ?sg = "aswr_sig (tc_signatures_with_rounds tc)"
  have "verify_multi_signatures (bls_timeout cc) v undefined ?sg = Ok () \<or>
      verify_aggregate_signatures (bls_timeout cc) v (tc_messages tc v) ?sg = Ok ()"
    using assms(3) by (simp add: TC_verify_Ok)
  from verified_quorum [OF assms(1,2) this]
  show "set (tc_voters v tc) \<subseteq> validators v" "distinct (tc_voters v tc)"
    and "unat (quorum_voting_power v) \<le> sum (power_of v) (set (tc_voters v tc))"
    by (simp_all add: tc_voters_def)
qed

lemma tc_listed_rounds:
  assumes "bls_aggregate_lengths (cc_bls cc)" "verifier_len v < 2 ^ 16"
    and "TwoChainTimeoutCertificate_verify cc tc v = Ok ()"
  shows "map fst (get_voters_and_rounds (tc_signatures_with_rounds tc) (get_ordered_account_addresses v)) = tc_voters v tc"
    and "\<forall>(a, r) \<in> set (get_voters_and_rounds (tc_signatures_with_rounds tc) (get_ordered_account_addresses v)).
      r \<le> highest_hqc_round tc"
proof -
  let ?sr = "tc_signatures_with_rounds tc"
  from assms(3) have agg: "verify_aggregate_signatures (bls_timeout cc) v (tc_messages tc v) (aswr_sig ?sr) = Ok ()"
    and max: "max_round (aswr_rounds ?sr) = Some (highest_hqc_round tc)"
    by (simp_all only: TC_verify_Ok)
  from agg obtain signers sg where c: "collect_signers v (iter_ones (validator_bitmask (aswr_sig ?sr))) = Ok signers"
    and "bls_verify_aggregate (bls_timeout cc) sg (tc_messages tc v) (map vci_public_key signers)"
    by (auto simp: verify_aggregate_signatures_def res_iff simp del: bls_on_simps)
  with assms(1) have "length (map SignTimeout (tc_messages tc v)) = length (map vci_public_key signers)"
    unfolding bls_aggregate_lengths_def bls_on_simps by blast
  moreover have voters: "map vci_address signers = tc_voters v tc"
    unfolding tc_voters_def by (rule collect_signers_get_voter_addresses [OF c assms(2)])
  then have "length signers = length (tc_voters v tc)" by (metis length_map)
  ultimately have "length (tc_voters v tc) \<le> length (aswr_rounds ?sr)"
    by (simp add: tc_messages_def get_voters_and_rounds_def tc_voters_def min_def split: if_splits)
  then show "map fst (get_voters_and_rounds ?sr (get_ordered_account_addresses v)) = tc_voters v tc"
    by (simp add: get_voters_and_rounds_def tc_voters_def map_fst_zip_take)
  show "\<forall>(a, r) \<in> set (get_voters_and_rounds ?sr (get_ordered_account_addresses v)). r \<le> highest_hqc_round tc"
    using max by (auto simp: get_voters_and_rounds_def max_round_Some dest: set_zip_rightD)
qed

subsection \<open>Collected timeouts\<close>

text \<open>
  The invariant of a collection: the timeout it keeps has the highest of the signed rounds. It
  holds as long as every author is added once, which the caller guarantees.
\<close>

definition ttp_rounds :: "two_chain_timeout_with_partial_signatures \<Rightarrow> round_t list" where
  "ttp_rounds ttp = map (fst \<circ> snd) (psr_signatures (ttp_signatures ttp))"

definition ttp_inv :: "two_chain_timeout_with_partial_signatures \<Rightarrow> bool" where
  "ttp_inv ttp \<longleftrightarrow> bt_sorted (psr_signatures (ttp_signatures ttp)) \<and>
     max_round (ttp_rounds ttp) = Some (hqc_round (ttp_timeout ttp))"

lemma set_bt_insert_fresh:
  "k \<notin> set (bt_keys m) \<Longrightarrow> set (bt_insert k v m) = insert (k, v) (set m)"
  by (induction k v m rule: bt_insert.induct) (auto split: if_splits)

lemma set_bt_or_insert_fresh:
  "k \<notin> set (bt_keys m) \<Longrightarrow> set (bt_or_insert k v m) = insert (k, v) (set m)"
  by (simp add: bt_or_insert_def set_bt_insert_fresh map_of_eq_None_iff [THEN iffD2])

lemma ttp_inv_new: "ttp_inv (ttp_add (TwoChainTimeoutWithPartialSignatures_new t) a t sg)"
  by (simp add: ttp_inv_def ttp_rounds_def ttp_add_def TwoChainTimeoutWithPartialSignatures_new_def
    psr_add_signature_def PartialSignaturesWithRound_empty_def bt_or_insert_def)

lemma ttp_inv_add:
  assumes "ttp_inv ttp" "a \<notin> set (ttp_signers ttp)"
  shows "ttp_inv (ttp_add ttp a t sg)"
proof -
  let ?m = "psr_signatures (ttp_signatures ttp)"
  have sigs: "psr_signatures (ttp_signatures (ttp_add ttp a t sg)) = bt_or_insert a (hqc_round t, sg) ?m"
    and to: "ttp_timeout (ttp_add ttp a t sg)
      = (if hqc_round t > hqc_round (ttp_timeout ttp) then t else ttp_timeout ttp)"
    by (simp_all add: ttp_add_def psr_add_signature_def Let_def)
  have "set (ttp_rounds (ttp_add ttp a t sg)) = insert (hqc_round t) (set (ttp_rounds ttp))"
    using assms(2) by (simp add: ttp_rounds_def sigs set_bt_or_insert_fresh ttp_signers_def image_image [symmetric])
  moreover have "bt_sorted (bt_or_insert a (hqc_round t, sg) ?m)"
    using assms(1) by (simp add: ttp_inv_def bt.invar_or_insert)
  ultimately show ?thesis
    using assms(1) by (auto simp: ttp_inv_def max_round_Some sigs to)
qed

subsection \<open>Ordering rounds by validator index\<close>

lemma bt_insert_last: "\<forall>k' \<in> set (bt_keys m). k' < k \<Longrightarrow> bt_insert k v m = m @ [(k, v)]"
  by (induction k v m rule: bt_insert.induct) auto

lemma bt_or_insert_last:
  assumes "\<forall>k' \<in> set (bt_keys m). k' < k"
  shows "bt_or_insert k v m = m @ [(k, v)]"
proof -
  have "map_of m k = None" using assms by (auto simp: map_of_eq_None_iff)
  with assms show ?thesis by (simp add: bt_or_insert_def bt_insert_last)
qed

definition rounds_by_index ::
  "validator_verifier \<Rightarrow> (account_address \<times> round_t \<times> signature) list \<Rightarrow> (nat, round_t) btree_map" where
  "rounds_by_index v sigs = fold (\<lambda>(a, r, s). bt_insert (index_of v a) r) sigs []"

lemma get_partial_sig_with_rounds_known:
  assumes "vv_wf v" "bt_sorted (psr_signatures psr)" "set (bt_keys (psr_signatures psr)) \<subseteq> validators v"
  shows "get_partial_sig_with_rounds psr (address_to_validator_index v) =
    (\<lparr>ps_signatures = map (\<lambda>(a, r, s). (a, s)) (psr_signatures psr)\<rparr>, map snd (rounds_by_index v (psr_signatures psr)))"
proof -
  let ?step = "\<lambda>(address, (round, sg)) (partial_sig, index_to_rounds).
      case map_of (address_to_validator_index v) address of
        Some i \<Rightarrow> (PartialSignatures_add partial_sig address sg, bt_insert i round index_to_rounds)
      | None \<Rightarrow> (partial_sig, index_to_rounds)"
  have "fold ?step sigs (PartialSignatures_empty, [])
      = (\<lparr>ps_signatures = map (\<lambda>(a, r, s). (a, s)) sigs\<rparr>, rounds_by_index v sigs)"
    if "sorted_wrt (<) (bt_keys sigs)" "set (bt_keys sigs) \<subseteq> validators v" for sigs
    using that
  proof (induction sigs rule: rev_induct)
    case (snoc x sigs)
    obtain a r s where x: "x = (a, r, s)" by (cases x)
    have "map_of (address_to_validator_index v) a = Some (index_of v a)"
      using index_of_validator(3) [OF assms(1)] snoc.prems(2) x by simp
    moreover have "\<forall>k' \<in> set (bt_keys (map (\<lambda>(a, r, s). (a, s)) sigs)). k' < a"
      using snoc.prems(1) x by (auto simp: sorted_wrt_append)
    then have "bt_or_insert a s (map (\<lambda>(a, r, s). (a, s)) sigs) = map (\<lambda>(a, r, s). (a, s)) sigs @ [(a, s)]"
      by (rule bt_or_insert_last)
    ultimately show ?case
      using snoc x by (simp add: PartialSignatures_add_def rounds_by_index_def sorted_wrt_append)
  qed (simp add: PartialSignatures_empty_def rounds_by_index_def)
  from this [OF assms(2,3)] show ?thesis by (simp add: get_partial_sig_with_rounds_def)
qed

lemma rounds_by_index_map:
  assumes "vv_wf v" "distinct (bt_keys sigs)" "set (bt_keys sigs) \<subseteq> validators v"
  shows "bt_sorted (rounds_by_index v sigs)"
    and "set (bt_keys (rounds_by_index v sigs)) = index_of v ` set (bt_keys sigs)"
    and "\<And>a r s. (a, r, s) \<in> set sigs \<Longrightarrow> map_of (rounds_by_index v sigs) (index_of v a) = Some r"
proof -
  have "bt_sorted (rounds_by_index v sigs) \<and>
      set (bt_keys (rounds_by_index v sigs)) = index_of v ` set (bt_keys sigs) \<and>
      (\<forall>(a, r, s) \<in> set sigs. map_of (rounds_by_index v sigs) (index_of v a) = Some r)"
    using assms(2,3)
  proof (induction sigs rule: rev_induct)
    case (snoc x sigs)
    obtain a r s where x: "x = (a, r, s)" by (cases x)
    have step: "rounds_by_index v (sigs @ [x]) = bt_insert (index_of v a) r (rounds_by_index v sigs)"
      by (simp add: rounds_by_index_def x)
    have "index_of v a' \<noteq> index_of v a" if "(a', y) \<in> set sigs" for a' y
    proof -
      have "a' \<noteq> a" "a' \<in> validators v" "a \<in> validators v"
        using that snoc.prems x by (auto simp: rev_image_eqI)
      then show ?thesis using index_of_validator(2) [OF assms(1)] by metis
    qed
    with snoc show ?case
      unfolding step by (auto simp: x bt_insert_sorted bt_insert_keys bt_get_insert simp del: set_map split_paired_Ex)
  qed (simp add: rounds_by_index_def)
  then show "bt_sorted (rounds_by_index v sigs)"
    and "set (bt_keys (rounds_by_index v sigs)) = index_of v ` set (bt_keys sigs)"
    and "\<And>a r s. (a, r, s) \<in> set sigs \<Longrightarrow> map_of (rounds_by_index v sigs) (index_of v a) = Some r"
    by auto
qed

lemma map_snd_lookup: "distinct (map fst m) \<Longrightarrow> map snd m = map (\<lambda>k. the (map_of m k)) (map fst m)"
  by (auto simp: map_of_is_SomeI)

lemma rounds_in_mask_order:
  assumes "vv_wf v" "verifier_len v < 2 ^ 16" "distinct (bt_keys sigs)" "set (bt_keys sigs) \<subseteq> validators v"
  defines "signers \<equiv> map (\<lambda>i. validator_infos v ! i) (iter_ones (signer_mask v (bt_keys sigs)))"
  shows "map snd (rounds_by_index v sigs) = map (\<lambda>x. fst (the (map_of sigs (vci_address x)))) signers"
proof -
  let ?ones = "iter_ones (signer_mask v (bt_keys sigs))"
  note m = rounds_by_index_map [OF assms(1,3,4)]
  have ones: "set ?ones = index_of v ` set (bt_keys sigs)"
    by (rule set_iter_ones_signer_mask [OF assms(1,4,2)])
  then have keys: "bt_keys (rounds_by_index v sigs) = ?ones"
    using m(1,2) by (intro bv.ones_unique [symmetric]) simp_all
  have "the (map_of (rounds_by_index v sigs) i) = fst (the (map_of sigs (vci_address (validator_infos v ! i))))"
    if "i \<in> set ?ones" for i
  proof -
    from that obtain a r s where a: "i = index_of v a" "(a, r, s) \<in> set sigs" unfolding ones by auto
    moreover have "vci_address (validator_infos v ! i) = a"
      using a assms(4) index_of_validator(2) [OF assms(1), of a] by (auto simp: rev_image_eqI)
    ultimately show ?thesis using m(3) [OF a(2)] assms(3) by (simp add: map_of_is_SomeI)
  qed
  then show ?thesis
    using map_snd_lookup [of "rounds_by_index v sigs"] bt_sorted_distinct [OF m(1)]
    by (simp add: signers_def keys)
qed

lemma verified_known:
  assumes "vv_wf v" "ValidatorVerifier_verify bls v a m s = Ok ()"
  shows "a \<in> validators v" "bls_verify bls (the (get_public_key v a)) m s"
proof -
  from assms(2) obtain pk where pk: "get_public_key v a = Some pk" "bls_verify bls pk m s"
    by (auto simp: ValidatorVerifier_verify_def res_iff split: option.splits)
  then obtain i where "map_of (address_to_validator_index v) a = Some i" by (auto simp: get_public_key_def)
  then show "a \<in> validators v" using vv_index [OF assms(1)] by (force simp: validators_def)
  show "bls_verify bls (the (get_public_key v a)) m s" using pk by simp
qed

lemma zip_map_same: "map (\<lambda>(_, y). h y) (zip (map f xs) (map g xs)) = map (\<lambda>x. h (g x)) xs"
  by (induction xs) simp_all

subsection \<open>Aggregation\<close>

lemma signers_signed:
  assumes wf: "vv_wf v" and d: "distinct (bt_keys sigs)"
    and signers: "\<forall>x \<in> set signers. x \<in> set (validator_infos v)"
    and perm: "mset (map vci_address signers) = mset (bt_keys sigs)"
  shows "mset (map (\<lambda>x. (vci_public_key x, f (fst (the (map_of sigs (vci_address x)))))) signers) =
    mset (map (\<lambda>(pk, m, s). (pk, m)) (map (\<lambda>(a, r, s). (the (get_public_key v a), f r, s)) sigs))"
proof -
  let ?g = "\<lambda>a. (the (get_public_key v a), f (fst (the (map_of sigs a))))"
  have "vci_public_key x = the (get_public_key v (vci_address x))" if "x \<in> set signers" for x
    using signers that get_public_key_info [OF wf] by (force simp: in_set_conv_nth)
  then have "map (\<lambda>x. (vci_public_key x, f (fst (the (map_of sigs (vci_address x)))))) signers
      = map ?g (map vci_address signers)"
    by simp
  also have "mset \<dots> = image_mset ?g (mset (map vci_address signers))" by (rule mset_map)
  also have "\<dots> = mset (map ?g (bt_keys sigs))" by (subst perm) (rule mset_map [symmetric])
  also have "map ?g (bt_keys sigs) = map (\<lambda>(a, r, s). (the (get_public_key v a), f r)) sigs"
    using d by (auto simp: map_of_is_SomeI)
  finally show ?thesis by (simp add: comp_def split_def)
qed

lemma ttp_aggregate_valid:
  assumes bls: "bls_aggregate_multi (cc_bls cc)" and wf: "vv_wf v" and len: "verifier_len v < 2 ^ 16"
    and sorted: "bt_sorted sigs" and ne: "sigs \<noteq> []"
    and valid: "\<forall>(a, r, s) \<in> set sigs. ValidatorVerifier_verify (bls_timeout cc) v a (repr r) s = Ok ()"
    and sigs: "psr_signatures (ttp_signatures ttp) = sigs"
  obtains sg signers where
    "ttp_aggregate_signatures cc ttp v = Ok \<lparr>tc_timeout = ttp_timeout ttp, tc_signatures_with_rounds =
       \<lparr>aswr_sig = \<lparr>validator_bitmask = signer_mask v (bt_keys sigs), agg_sig = Some sg\<rparr>,
        aswr_rounds = map (\<lambda>x. fst (the (map_of sigs (vci_address x)))) signers\<rparr>\<rparr>"
    and "collect_signers v (iter_ones (signer_mask v (bt_keys sigs))) = Ok signers"
    and "mset (map vci_address signers) = mset (bt_keys sigs)"
    and "bls_verify_aggregate (bls_timeout cc) sg
      (map (\<lambda>x. repr (fst (the (map_of sigs (vci_address x))))) signers) (map vci_public_key signers)"
proof -
  let ?rnd = "\<lambda>x. fst (the (map_of sigs (vci_address x)))"
  let ?shares = "map (\<lambda>(a, r, s). (the (get_public_key v a), repr r, s)) sigs"
  have shares: "\<forall>(pk, m, s) \<in> set ?shares. bls_verify (bls_timeout cc) pk m s"
  proof -
    have "bls_verify (bls_timeout cc) (the (get_public_key v a)) (repr r) s" if "(a, r, s) \<in> set sigs" for a r s
      by (rule verified_known(2) [OF wf]) (use valid that in auto)
    then show ?thesis by auto
  qed
  have d: "distinct (bt_keys sigs)" by (rule bt_sorted_distinct [OF sorted])
  have "a \<in> validators v" if "(a, r, s) \<in> set sigs" for a r s
    by (rule verified_known(1) [OF wf]) (use valid that in auto)
  then have sub: "set (bt_keys sigs) \<subseteq> validators v" by auto
  obtain signers where c: "collect_signers v (iter_ones (signer_mask v (bt_keys sigs))) = Ok signers"
    and sgn: "signers = map (\<lambda>i. validator_infos v ! i) (iter_ones (signer_mask v (bt_keys sigs)))"
    and ma: "mset (map vci_address signers) = mset (bt_keys sigs)"
    using collect_signers_signer_mask [OF wf sub d len] by metis
  have "\<forall>x \<in> set signers. x \<in> set (validator_infos v)"
    using c by (auto simp: collect_signers_Ok)
  note signed = signers_signed [OF wf d this ma, of repr]
  let ?signed = "map (\<lambda>x. (vci_public_key x, repr (?rnd x))) signers"
  have "?shares \<noteq> []" using ne by simp
  with shares obtain sg where sg: "bls_aggregate_sigs (bls_timeout cc) (map (\<lambda>(pk, m, s). s) ?shares) = Some sg"
    and "bls_verify_aggregate (bls_timeout cc) sg (map snd ?signed) (map fst ?signed)"
    using bls_aggregate_multi_on [OF bls, of SignTimeout] signed unfolding bls_aggregate_multi_def by blast
  then have v: "bls_verify_aggregate (bls_timeout cc) sg (map (\<lambda>x. repr (?rnd x)) signers) (map vci_public_key signers)"
    by (simp add: comp_def)
  have rounds: "get_partial_sig_with_rounds (ttp_signatures ttp) (address_to_validator_index v) =
    (\<lparr>ps_signatures = map (\<lambda>(a, r, s). (a, s)) sigs\<rparr>, map ?rnd signers)"
    using get_partial_sig_with_rounds_known [OF wf, of "ttp_signatures ttp"] sorted sub sigs
      rounds_in_mask_order [OF wf len d sub] by (simp add: sgn)
  have "map_of (address_to_validator_index v) a \<noteq> None" if "a \<in> set (bt_keys sigs)" for a
    using that sub index_of_validator(3) [OF wf] by auto
  then have "mark_signers v (map (\<lambda>(a, r, s). (a, s)) sigs) (with_num_bits (of_nat (verifier_len v))) []
      = Ok (signer_mask v (bt_keys sigs), map (\<lambda>(pk, m, s). s) ?shares)"
    by (auto simp: mark_signers_Ok signer_mask_def comp_def split_def)
  moreover have "count_ones (signer_mask v (bt_keys sigs)) = length signers"
    by (simp add: sgn count_ones_length bv_wf_signer_mask)
  ultimately show ?thesis
    using sg c ma v that [of sg signers]
    by (simp add: ttp_aggregate_signatures_def rounds aggregate_signatures_def
      AggregateSignatureWithRounds_new_def get_num_voters_def)
qed

lemma signers_tc_verifies:
  assumes wf: "vv_wf v" and len: "verifier_len v < 2 ^ 16"
    and d: "distinct addrs" and sub: "set addrs \<subseteq> validators v" and quorum: "check_voting_power v addrs = Ok ()"
    and c: "collect_signers v (iter_ones (signer_mask v addrs)) = Ok signers"
    and perm: "mset (map vci_address signers) = mset addrs"
    and ver: "bls_verify_aggregate (bls_timeout cc) sg
      (map (\<lambda>x. \<lparr>tsr_epoch = to_epoch t, tsr_round = to_round t, tsr_hqc_round = rnd x\<rparr>) signers)
      (map vci_public_key signers)"
    and to: "TwoChainTimeout_verify cc t v = Ok ()" and max: "max_round (map rnd signers) = Some (hqc_round t)"
  defines "tc \<equiv> \<lparr>tc_timeout = t, tc_signatures_with_rounds =
    \<lparr>aswr_sig = \<lparr>validator_bitmask = signer_mask v addrs, agg_sig = Some sg\<rparr>, aswr_rounds = map rnd signers\<rparr>\<rparr>"
  shows "TwoChainTimeoutCertificate_verify cc tc v = Ok ()" "tc_voters v tc = map vci_address signers"
proof -
  show voters: "tc_voters v tc = map vci_address signers"
    unfolding tc_voters_def using c
    by (intro collect_signers_get_voter_addresses [symmetric] len) (simp add: tc_def)
  then have "tc_messages tc v =
      map (\<lambda>x. \<lparr>tsr_epoch = to_epoch t, tsr_round = to_round t, tsr_hqc_round = rnd x\<rparr>) signers"
    by (simp add: tc_messages_def get_voters_and_rounds_def tc_voters_def tc_def zip_map_same)
  moreover have "check_voting_power v (map vci_address signers) = Ok ()"
    using check_voting_power_perm [OF wf d perm sub] quorum by simp
  ultimately have "verify_aggregate_signatures (bls_timeout cc) v (tc_messages tc v)
      (aswr_sig (tc_signatures_with_rounds tc)) = Ok ()"
    using c ver check_num_of_voters_signer_mask [OF wf sub len]
    by (simp add: verify_aggregate_signatures_def tc_def del: bls_on_simps)
  then show "TwoChainTimeoutCertificate_verify cc tc v = Ok ()"
    using to max by (simp add: TC_verify_Ok) (simp add: tc_def)
qed

text \<open>
  Timeouts are collected as \<open>PendingVotes::insert_vote\<close> does: the collection starts at the
  first timeout, and every timeout, the first one included, is added to it.
\<close>

definition collect_timeouts ::
  "(author \<times> two_chain_timeout \<times> signature) list \<Rightarrow> two_chain_timeout_with_partial_signatures" where
  "collect_timeouts ts = fold (\<lambda>(a, t, s) ttp. ttp_add ttp a t s) ts
     (TwoChainTimeoutWithPartialSignatures_new (fst (snd (hd ts))))"

definition ttp_holds ::
  "(author \<times> two_chain_timeout \<times> signature) list \<Rightarrow> two_chain_timeout_with_partial_signatures \<Rightarrow> bool" where
  "ttp_holds ts ttp \<longleftrightarrow> ttp_inv ttp \<and> ttp_timeout ttp \<in> (\<lambda>(a, t, s). t) ` set ts \<and>
     set (psr_signatures (ttp_signatures ttp)) = (\<lambda>(a, t, s). (a, hqc_round t, s)) ` set ts"

lemma ttp_holds_signers: "ttp_holds ts ttp \<Longrightarrow> set (ttp_signers ttp) = fst ` set ts"
  by (force simp: ttp_holds_def ttp_signers_def image_image split_def)

lemma ttp_holds_add:
  assumes "ttp_holds ts ttp" "a \<notin> fst ` set ts"
  shows "ttp_holds (ts @ [(a, t, s)]) (ttp_add ttp a t s)"
proof -
  have fresh: "a \<notin> set (ttp_signers ttp)" using assms by (simp add: ttp_holds_signers)
  then have "ttp_inv (ttp_add ttp a t s)" using assms(1) by (simp add: ttp_holds_def ttp_inv_add)
  moreover have "set (psr_signatures (ttp_signatures (ttp_add ttp a t s)))
      = insert (a, hqc_round t, s) (set (psr_signatures (ttp_signatures ttp)))"
    using fresh by (simp add: ttp_add_def psr_add_signature_def Let_def set_bt_or_insert_fresh ttp_signers_def)
  moreover have "ttp_timeout (ttp_add ttp a t s) \<in> {t, ttp_timeout ttp}"
    by (simp add: ttp_add_def Let_def)
  ultimately show ?thesis
    using assms(1) unfolding ttp_holds_def by (elim insertE emptyE conjE; simp)
qed

lemma ttp_holds_collect:
  assumes "ts \<noteq> []" "distinct (map fst ts)"
  shows "ttp_holds ts (collect_timeouts ts)"
  using assms
proof (induction ts rule: rev_induct)
  case (snoc x ts)
  obtain a t s where x: "x = (a, t, s)" by (cases x)
  show ?case
  proof (cases "ts = []")
    case True
    then show ?thesis using ttp_inv_new [of t a s]
      by (simp add: collect_timeouts_def x ttp_holds_def)
        (simp add: ttp_add_def TwoChainTimeoutWithPartialSignatures_new_def psr_add_signature_def
          PartialSignaturesWithRound_empty_def bt_or_insert_def)
  next
    case False
    then have "collect_timeouts (ts @ [x]) = ttp_add (collect_timeouts ts) a t s"
      by (simp add: collect_timeouts_def x)
    then show ?thesis using ttp_holds_add [OF snoc.IH, of a t s] False snoc.prems(2) x by simp
  qed
qed simp

lemma rounds_of_signers:
  assumes "distinct (bt_keys sigs)" "mset (map vci_address signers) = mset (bt_keys sigs)"
  shows "set (map (\<lambda>x. fst (the (map_of sigs (vci_address x)))) signers) = set (map (fst \<circ> snd) sigs)"
proof -
  have "vci_address ` set signers = fst ` set sigs" using mset_eq_setD [OF assms(2)] by simp
  then have "(\<lambda>a. fst (the (map_of sigs a))) ` vci_address ` set signers
      = (\<lambda>a. fst (the (map_of sigs a))) ` fst ` set sigs" by simp
  also have "\<dots> = (fst \<circ> snd) ` set sigs"
    unfolding image_image using assms(1) by (intro image_cong) (auto simp: map_of_is_SomeI)
  finally show ?thesis by (simp add: image_image)
qed

lemma ttp_holds_certificate:
  assumes bls: "bls_aggregate_multi (cc_bls cc)" and wf: "vv_wf v" and len: "verifier_len v < 2 ^ 16"
    and h: "ttp_holds ts ttp"
    and valid: "\<forall>(a, t, s) \<in> set ts. to_epoch t = e \<and> to_round t = r \<and> TwoChainTimeout_verify cc t v = Ok () \<and>
      ValidatorVerifier_verify (bls_timeout cc) v a (signing_format t) s = Ok ()"
    and q: "check_voting_power v (ttp_signers ttp) = Ok ()"
  shows "\<exists>tc. ttp_aggregate_signatures cc ttp v = Ok tc \<and>
    TwoChainTimeoutCertificate_verify cc tc v = Ok () \<and> tc_epoch tc = e \<and> tc_round tc = r \<and>
    set (tc_voters v tc) = fst ` set ts \<and> highest_hqc_round tc = Max ((\<lambda>(a, t, s). hqc_round t) ` set ts)"
proof -
  let ?ttp = ttp and ?repr = "\<lambda>q. \<lparr>tsr_epoch = e, tsr_round = r, tsr_hqc_round = q\<rparr>"
  define sigs where "sigs = psr_signatures (ttp_signatures ?ttp)"
  have set: "set sigs = (\<lambda>(a, t, s). (a, hqc_round t, s)) ` set ts" and inv: "ttp_inv ?ttp"
    and to: "ttp_timeout ?ttp \<in> (\<lambda>(a, t, s). t) ` set ts" using h by (simp_all add: ttp_holds_def sigs_def)
  have sorted: "bt_sorted sigs" and ne: "sigs \<noteq> []" using inv set to by (auto simp: ttp_inv_def sigs_def)
  have "\<forall>(a, q, s) \<in> set sigs. ValidatorVerifier_verify (bls_timeout cc) v a (?repr q) s = Ok ()"
    using valid by (auto simp: set signing_format_def)
  from ttp_aggregate_valid [OF bls wf len sorted ne this sigs_def [symmetric]]
  obtain sg signers where agg: "ttp_aggregate_signatures cc ?ttp v = Ok \<lparr>tc_timeout = ttp_timeout ?ttp,
      tc_signatures_with_rounds = \<lparr>aswr_sig = \<lparr>validator_bitmask = signer_mask v (bt_keys sigs), agg_sig = Some sg\<rparr>,
        aswr_rounds = map (\<lambda>x. fst (the (map_of sigs (vci_address x)))) signers\<rparr>\<rparr>" (is "_ = Ok ?tc")
    and c: "collect_signers v (iter_ones (signer_mask v (bt_keys sigs))) = Ok signers"
    and perm: "mset (map vci_address signers) = mset (bt_keys sigs)"
    and ver: "bls_verify_aggregate (bls_timeout cc) sg
      (map (\<lambda>x. ?repr (fst (the (map_of sigs (vci_address x))))) signers) (map vci_public_key signers)"
    by metis
  have to': "to_epoch (ttp_timeout ?ttp) = e" "to_round (ttp_timeout ?ttp) = r"
    "TwoChainTimeout_verify cc (ttp_timeout ?ttp) v = Ok ()" using to valid by auto
  have keys: "set (bt_keys sigs) = fst ` set ts" and d: "distinct (bt_keys sigs)"
    using ttp_holds_signers [OF h] sorted by (simp_all add: sigs_def ttp_signers_def bt_sorted_distinct)
  have q: "check_voting_power v (bt_keys sigs) = Ok ()" using q by (simp add: sigs_def ttp_signers_def)
  have sub: "set (bt_keys sigs) \<subseteq> validators v" by (rule check_voting_power_Ok(1) [OF wf q])
  have "set (map (\<lambda>x. fst (the (map_of sigs (vci_address x)))) signers) = set (ttp_rounds ?ttp)"
    using rounds_of_signers [OF d perm] by (simp add: ttp_rounds_def sigs_def)
  then have "max_round (map (\<lambda>x. fst (the (map_of sigs (vci_address x)))) signers) = Some (hqc_round (ttp_timeout ?ttp))"
    using inv by (simp add: ttp_inv_def max_round_Some)
  note tc = signers_tc_verifies [OF wf len d sub q c perm _ to'(3) this, unfolded to', OF ver]
  have "set (tc_voters v ?tc) = fst ` set ts"
    unfolding tc(2) using perm keys by (metis mset_eq_setD)
  moreover have "set (ttp_rounds ?ttp) = (\<lambda>(a, t, s). hqc_round t) ` set ts"
    by (simp add: ttp_rounds_def sigs_def [symmetric] set image_image split_def)
  then have "hqc_round (ttp_timeout ?ttp) = Max ((\<lambda>(a, t, s). hqc_round t) ` set ts)"
    using inv max_round_Max [of "ttp_rounds ?ttp"] by (simp only: ttp_inv_def)
  ultimately show ?thesis using agg tc(1) to' by (intro exI [of _ ?tc]) simp
qed

section \<open>Examples\<close>

definition sample_timeout :: "round_t \<Rightarrow> two_chain_timeout" where
  "sample_timeout hqc = \<lparr>to_epoch = 1, to_round = 9,
     to_quorum_cert = sample_qc (sample_block_at hqc) (sample_block_at 1) BlockInfo_empty\<rparr>"

definition sample_tc :: "round_t \<Rightarrow> round_t \<Rightarrow> two_chain_timeout_certificate" where
  "sample_tc r hqc = \<lparr>tc_timeout = (sample_timeout hqc)\<lparr>to_round := r\<rparr>, tc_signatures_with_rounds =
     \<lparr>aswr_sig = sample_multi_signature, aswr_rounds = [1, hqc, 1]\<rparr>\<rparr>"

lemma hqc_round_sample_timeout [simp]: "hqc_round (sample_timeout hqc) = hqc"
  by (simp add: hqc_round_def sample_timeout_def sample_qc_def sample_block_at_def)

lemma hqc_round_to_round [simp]: "hqc_round (t\<lparr>to_round := r\<rparr>) = hqc_round t"
  by (simp add: hqc_round_def)

lemma sample_timeout_verifies:
  assumes "1 < hqc" "hqc < r" "hqc < 1000"
  shows "TwoChainTimeout_verify sample_crypto ((sample_timeout hqc)\<lparr>to_round := r\<rparr>) sample_verifier = Ok ()"
proof -
  have "10 \<le> 10 * hqc" using assms(1,3) by (simp add: word_le_nat_alt word_less_nat_alt unat_word_ariths)
  then have "QuorumCert_verify sample_crypto (to_quorum_cert (sample_timeout hqc)) sample_verifier = Ok ()"
    using assms unfolding sample_timeout_def two_chain_timeout.select_convs
    by (intro sample_qc_verifies) (auto simp: VoteData_verify_Ok sample_block_at_def)
  then show ?thesis
    using assms(2) by (simp add: TwoChainTimeout_verify_Ok hqc_round_def)
      (simp add: sample_timeout_def sample_qc_def sample_block_at_def)
qed

lemma sample_signers:
  "check_num_of_voters (of_nat (verifier_len sample_verifier)) (validator_bitmask sample_multi_signature) = Ok ()"
  "collect_signers sample_verifier (iter_ones (validator_bitmask sample_multi_signature))
     = Ok (take 3 (validator_infos sample_verifier))"
  "get_voter_addresses sample_multi_signature (get_ordered_account_addresses sample_verifier) = [1, 2, 3]"
  by code_simp+

lemma sample_tc_verifies:
  assumes "1 < hqc" "hqc < r" "hqc < 1000"
  shows "TwoChainTimeoutCertificate_verify sample_crypto (sample_tc r hqc) sample_verifier = Ok ()"
proof -
  have "check_voting_power sample_verifier [1, 2, 3] = Ok ()"
    by (rule check_voting_power_OkI [OF sample_verifier_wf]) simp_all
  moreover have "map vci_address (take 3 (validator_infos sample_verifier)) = [1, 2, 3]"
    "map vci_public_key (take 3 (validator_infos sample_verifier)) = [[1], [2], [3]]"
    by (simp_all add: sample_verifier_def build_index_def)
  ultimately have "verify_aggregate_signatures (bls_timeout sample_crypto) sample_verifier
      (tc_messages (sample_tc r hqc) sample_verifier) sample_multi_signature = Ok ()"
    unfolding verify_aggregate_signatures_def sample_signers bind_res.simps
    by (simp add: tc_messages_def get_voters_and_rounds_def sample_tc_def sample_signers sample_crypto_def linear_bls_def)
      (simp add: sample_multi_signature_def)
  moreover have "max_round [1, hqc, 1] = Some hqc" using assms(1) by (simp only: max_round_Some) simp
  ultimately show ?thesis
    using sample_timeout_verifies [OF assms] by (simp only: TC_verify_Ok) (simp add: sample_tc_def del: max_round.simps)
qed

section \<open>Properties\<close>

text \<open>
  Round trip of timeouts: verified timeouts of one round, from distinct validators that form
  a quorum, aggregate to a timeout certificate that verifies. It names exactly their authors and
  carries the certificate of the highest round among theirs, in whatever order they arrived.
\<close>

theorem timeout_cert_roundtrip:
  assumes bls: "bls_aggregate_multi (cc_bls cc)" and wf: "vv_wf v" and len: "verifier_len v < 2 ^ 16"
    and ts: "ts \<noteq> []" "distinct (map fst ts)"
    and valid: "\<forall>(a, t, s) \<in> set ts. to_epoch t = e \<and> to_round t = r \<and> TwoChainTimeout_verify cc t v = Ok () \<and>
      ValidatorVerifier_verify (bls_timeout cc) v a (signing_format t) s = Ok ()"
    and quorum: "check_voting_power v (map fst ts) = Ok ()"
  shows "\<exists>tc. ttp_aggregate_signatures cc (collect_timeouts ts) v = Ok tc \<and>
    TwoChainTimeoutCertificate_verify cc tc v = Ok () \<and> tc_epoch tc = e \<and> tc_round tc = r \<and>
    set (tc_voters v tc) = fst ` set ts \<and> highest_hqc_round tc = Max ((\<lambda>(a, t, s). hqc_round t) ` set ts)"
proof (rule ttp_holds_certificate [OF bls wf len ttp_holds_collect [OF ts] valid])
  let ?signers = "ttp_signers (collect_timeouts ts)"
  have h: "ttp_holds ts (collect_timeouts ts)" by (rule ttp_holds_collect [OF ts])
  then have d: "distinct ?signers" by (simp add: ttp_holds_def ttp_inv_def ttp_signers_def bt_sorted_distinct)
  have perm: "mset (map fst ts) = mset ?signers"
    using ts(2) d ttp_holds_signers [OF h] by (simp only: set_eq_iff_mset_eq_distinct [symmetric] set_map)
  have "set ?signers \<subseteq> validators v"
    using check_voting_power_Ok(1) [OF wf quorum] unfolding ttp_holds_signers [OF h] by simp
  from check_voting_power_perm [OF wf d perm this] quorum
  show "check_voting_power v ?signers = Ok ()" by (simp only:)
qed

theorem timeout_cert_roundtrip_witness:
  "\<exists>tc. ttp_aggregate_signatures sample_crypto (collect_timeouts
       [(4, sample_timeout 2, [4]), (1, sample_timeout 5, [1]), (3, sample_timeout 3, [3])]) sample_verifier = Ok tc \<and>
     TwoChainTimeoutCertificate_verify sample_crypto tc sample_verifier = Ok () \<and> highest_hqc_round tc = 5"
proof -
  define ts :: "(author \<times> two_chain_timeout \<times> signature) list"
    where "ts = [(4, sample_timeout 2, [4]), (1, sample_timeout 5, [1]), (3, sample_timeout 3, [3])]"
  have multi: "bls_aggregate_multi (cc_bls sample_crypto)"
    by (simp add: sample_crypto_def linear_bls_aggregate_multi)
  have r: "(sample_timeout q)\<lparr>to_round := 9\<rparr> = sample_timeout q" for q by (simp add: sample_timeout_def)
  have to: "to_epoch (sample_timeout q) = 1 \<and> to_round (sample_timeout q) = 9" for q
    by (simp add: sample_timeout_def)
  have ver: "TwoChainTimeout_verify sample_crypto (sample_timeout q) sample_verifier = Ok ()" if "1 < q" "q < 9" for q
    using sample_timeout_verifies [of q 9] that by (simp add: r word_less_nat_alt)
  have "\<forall>(a, t, s) \<in> set ts. ValidatorVerifier_verify (bls_timeout sample_crypto) sample_verifier a (signing_format t) s = Ok ()"
    by (simp add: ts_def ValidatorVerifier_verify_def get_public_key_def sample_verifier_index sample_crypto_def)
      (simp add: sample_verifier_def build_index_def)
  then have valid: "\<forall>(a, t, s) \<in> set ts. to_epoch t = 1 \<and> to_round t = 9 \<and>
      TwoChainTimeout_verify sample_crypto t sample_verifier = Ok () \<and>
      ValidatorVerifier_verify (bls_timeout sample_crypto) sample_verifier a (signing_format t) s = Ok ()"
    by (simp add: ts_def to ver)
  have quorum: "check_voting_power sample_verifier (map fst ts) = Ok ()"
    by (rule check_voting_power_OkI [OF sample_verifier_wf]) (simp_all add: ts_def)
  have ts: "verifier_len sample_verifier < 2 ^ 16" "ts \<noteq> []" "distinct (map fst ts)" by (simp_all add: ts_def)
  have "Max ((\<lambda>(a, t, s). hqc_round t) ` set ts) = 5" by (simp add: ts_def max_def)
  with timeout_cert_roundtrip [OF multi sample_verifier_wf ts valid quorum]
  show ?thesis unfolding ts_def by metis
qed

text \<open>
  C37. What a verified timeout certificate shows: a quorum of distinct validators signed the round,
  each of them with a round of its own that is listed for it, none above the round of the carried
  certificate, which itself verifies and lies below the round of the timeout.
\<close>

theorem timeout_cert_sound:
  assumes "bls_aggregate_lengths (cc_bls cc)" "vv_wf v" "verifier_len v < 2 ^ 16"
    and "TwoChainTimeoutCertificate_verify cc tc v = Ok ()"
  defines "listed \<equiv> get_voters_and_rounds (tc_signatures_with_rounds tc) (get_ordered_account_addresses v)"
  shows "distinct (map fst listed) \<and> set (map fst listed) \<subseteq> validators v \<and>
    unat (quorum_voting_power v) \<le> sum (power_of v) (set (map fst listed)) \<and>
    (\<forall>(a, r) \<in> set listed. r \<le> highest_hqc_round tc) \<and>
    highest_hqc_round tc < tc_round tc \<and>
    QuorumCert_verify cc (to_quorum_cert (tc_timeout tc)) v = Ok ()"
  using tc_quorum [OF assms(2,3,4)] tc_listed_rounds [OF assms(1,3,4)] assms(4)
  by (simp only: listed_def TC_verify_Ok TwoChainTimeout_verify_Ok highest_hqc_round_def tc_round_def)

theorem timeout_cert_sound_witness:
  "unat (quorum_voting_power sample_verifier) \<le> sum (power_of sample_verifier) (set (map fst
     (get_voters_and_rounds (tc_signatures_with_rounds (sample_tc 9 5)) (get_ordered_account_addresses sample_verifier))))"
proof -
  have "bls_aggregate_lengths (cc_bls sample_crypto)"
    by (simp add: sample_crypto_def linear_bls_aggregate_lengths)
  moreover have "TwoChainTimeoutCertificate_verify sample_crypto (sample_tc 9 5) sample_verifier = Ok ()"
    by (rule sample_tc_verifies) simp_all
  ultimately show ?thesis
    using timeout_cert_sound [OF _ sample_verifier_wf] by simp
qed

end
