(* ===== verification/Consensus_Msgs.thy ===== *)
theory Consensus_Msgs
  imports Blocks Timeouts
begin

text \<open>
  Votes, vote proposals, sync infos and the two messages of a round (\<open>vote.rs\<close>,
  \<open>vote_proposal.rs\<close>, \<open>sync_info.rs\<close>, \<open>vote_msg.rs\<close> and \<open>proposal_msg.rs\<close> of
  \<open>consensus/consensus-types/src\<close>).
\<close>

section \<open>Definitions\<close>

subsection \<open>Votes\<close>

definition new_with_signature :: "vote_data \<Rightarrow> author \<Rightarrow> ledger_info \<Rightarrow> signature \<Rightarrow> vote" where
  "new_with_signature vd author li sg =
     \<lparr>v_vote_data = vd, v_author = author, v_ledger_info = li, v_signature = sg, v_two_chain_timeout = None\<rparr>"

definition Vote_new ::
  "consensus_crypto \<Rightarrow> vote_data \<Rightarrow> author \<Rightarrow> ledger_info \<Rightarrow> validator_signer \<Rightarrow> (vote, anyhow) result" where
  "Vote_new cc vd author li_placeholder signer =
     (let li = set_consensus_data_hash li_placeholder (hash_vote_data cc vd)
      in bind_res (ok_or (ValidatorSigner_sign (bls_ledger_info cc) signer li) (Msg ''CryptoMaterialError'')) (\<lambda>sg.
         Ok (new_with_signature vd author li sg)))"

definition add_2chain_timeout :: "vote \<Rightarrow> two_chain_timeout \<Rightarrow> signature \<Rightarrow> vote" where
  "add_2chain_timeout vote timeout sg = vote\<lparr>v_two_chain_timeout := Some (timeout, sg)\<rparr>"

definition generate_2chain_timeout :: "vote \<Rightarrow> quorum_cert \<Rightarrow> two_chain_timeout" where
  "generate_2chain_timeout vote qc = \<lparr>to_epoch = bi_epoch (vd_proposed (v_vote_data vote)),
     to_round = bi_round (vd_proposed (v_vote_data vote)), to_quorum_cert = qc\<rparr>"

definition v_epoch :: "vote \<Rightarrow> u64" where
  [simp]: "v_epoch vote = bi_epoch (vd_proposed (v_vote_data vote))"

definition is_timeout :: "vote \<Rightarrow> bool" where
  "is_timeout vote \<longleftrightarrow> v_two_chain_timeout vote \<noteq> None"

definition Vote_verify :: "consensus_crypto \<Rightarrow> vote \<Rightarrow> validator_verifier \<Rightarrow> (unit, anyhow) result" where
  "Vote_verify cc vote v =
     bind_res (ensure (consensus_data_hash (v_ledger_info vote) = hash_vote_data cc (v_vote_data vote))
       (Msg ''Vote's hash mismatch with LedgerInfo'')) (\<lambda>_.
     bind_res (map_err (\<lambda>e. Context ''Failed to verify Vote'' (FromVerify e))
       (ValidatorVerifier_verify (bls_ledger_info cc) v (v_author vote) (v_ledger_info vote) (v_signature vote))) (\<lambda>_.
     bind_res (case v_two_chain_timeout vote of
         None \<Rightarrow> Ok ()
       | Some (timeout, sg) \<Rightarrow>
           bind_res (ensure ((to_epoch timeout, to_round timeout) =
               (v_epoch vote, bi_round (vd_proposed (v_vote_data vote))))
             (Msg ''2-chain timeout has different (epoch, round) than Vote'')) (\<lambda>_.
           bind_res (TwoChainTimeout_verify cc timeout v) (\<lambda>_.
           map_err (\<lambda>e. Context ''Failed to verify 2-chain timeout signature'' (FromVerify e))
             (ValidatorVerifier_verify (bls_timeout cc) v (v_author vote) (signing_format timeout) sg)))) (\<lambda>_.
     bind_res (VoteData_verify (v_vote_data vote)) (\<lambda>_. Ok ()))))"

subsection \<open>Vote proposals\<close>

definition vote_data_ordering_only :: "vote_proposal \<Rightarrow> vote_data" where
  "vote_data_ordering_only vp =
     \<lparr>vd_proposed = gen_block_info (vp_block vp) ACCUMULATOR_PLACEHOLDER_HASH 0 (vp_next_epoch_state vp),
      vd_parent = certified_block (blk_quorum_cert (vp_block vp))\<rparr>"

definition vote_data_with_extension_proof :: "vote_proposal \<Rightarrow> in_memory_accumulator \<Rightarrow> vote_data" where
  "vote_data_with_extension_proof vp new_tree =
     \<lparr>vd_proposed = gen_block_info (vp_block vp) (root_hash new_tree) (accumulator_version new_tree)
        (vp_next_epoch_state vp),
      vd_parent = certified_block (blk_quorum_cert (vp_block vp))\<rparr>"

definition gen_vote_data :: "consensus_crypto \<Rightarrow> vote_proposal \<Rightarrow> (vote_data, anyhow) result" where
  "gen_vote_data cc vp =
     (if vp_decoupled_execution vp then Ok (vote_data_ordering_only vp)
      else bind_res (AccumulatorExtensionProof_verify (hash_accumulator_node cc)
             (vp_accumulator_extension_proof vp)
             (bi_executed_state_id (certified_block (blk_quorum_cert (vp_block vp))))) (\<lambda>new_tree.
           Ok (vote_data_with_extension_proof vp new_tree)))"

subsection \<open>Sync infos\<close>

definition SyncInfo_new_decoupled ::
  "quorum_cert \<Rightarrow> quorum_cert \<Rightarrow> quorum_cert \<Rightarrow> two_chain_timeout_certificate option \<Rightarrow> sync_info" where
  "SyncInfo_new_decoupled hqc hoc hcc htc =
     \<lparr>si_highest_quorum_cert = hqc,
      si_highest_ordered_cert = (if hoc \<noteq> hqc then Some hoc else None),
      si_highest_commit_cert = hcc,
      si_highest_2chain_timeout_cert =
        (case htc of Some tc \<Rightarrow> if tc_round tc > bi_round (certified_block hqc) then Some tc else None | None \<Rightarrow> None)\<rparr>"

definition SyncInfo_new ::
  "quorum_cert \<Rightarrow> quorum_cert \<Rightarrow> two_chain_timeout_certificate option \<Rightarrow> sync_info" where
  "SyncInfo_new hqc hoc htc = SyncInfo_new_decoupled hqc hoc hoc htc"

definition highest_ordered_cert :: "sync_info \<Rightarrow> quorum_cert" where
  "highest_ordered_cert si = (case si_highest_ordered_cert si of Some qc \<Rightarrow> qc | None \<Rightarrow> si_highest_quorum_cert si)"

definition highest_certified_round :: "sync_info \<Rightarrow> round_t" where
  "highest_certified_round si = bi_round (certified_block (si_highest_quorum_cert si))"

definition highest_timeout_round :: "sync_info \<Rightarrow> round_t" where
  "highest_timeout_round si = (case si_highest_2chain_timeout_cert si of None \<Rightarrow> 0 | Some tc \<Rightarrow> tc_round tc)"

definition highest_ordered_round :: "sync_info \<Rightarrow> round_t" where
  "highest_ordered_round si = bi_round (qc_commit_info (highest_ordered_cert si))"

definition highest_commit_round :: "sync_info \<Rightarrow> round_t" where
  "highest_commit_round si = bi_round (qc_commit_info (si_highest_commit_cert si))"

definition highest_round :: "sync_info \<Rightarrow> round_t" where
  "highest_round si = max (highest_certified_round si) (highest_timeout_round si)"

definition si_epoch :: "sync_info \<Rightarrow> u64" where
  "si_epoch si = bi_epoch (certified_block (si_highest_quorum_cert si))"

definition SyncInfo_verify :: "consensus_crypto \<Rightarrow> sync_info \<Rightarrow> validator_verifier \<Rightarrow> (unit, anyhow) result" where
  "SyncInfo_verify cc si v =
     (let epoch = bi_epoch (certified_block (si_highest_quorum_cert si)) in
     bind_res (ensure (epoch = bi_epoch (certified_block (highest_ordered_cert si)))
       (Msg ''Multi epoch in SyncInfo - HOC and HQC'')) (\<lambda>_.
     bind_res (ensure (epoch = bi_epoch (qc_commit_info (si_highest_commit_cert si)))
       (Msg ''Multi epoch in SyncInfo - HOC and HCC'')) (\<lambda>_.
     bind_res (case si_highest_2chain_timeout_cert si of None \<Rightarrow> Ok ()
       | Some tc \<Rightarrow> ensure (epoch = tc_epoch tc) (Msg ''Multi epoch in SyncInfo - TC and HQC'')) (\<lambda>_.
     bind_res (ensure (bi_round (certified_block (si_highest_quorum_cert si)) \<ge>
         bi_round (certified_block (highest_ordered_cert si))) (Msg ''HQC has lower round than HOC'')) (\<lambda>_.
     bind_res (ensure (bi_round (certified_block (highest_ordered_cert si)) \<ge> highest_commit_round si)
       (Msg ''HOC has lower round than HLI'')) (\<lambda>_.
     bind_res (ensure (qc_commit_info (highest_ordered_cert si) \<noteq> BlockInfo_empty)
       (Msg ''HOC has no committed block'')) (\<lambda>_.
     bind_res (ensure (qc_commit_info (si_highest_commit_cert si) \<noteq> BlockInfo_empty)
       (Msg ''HLI has empty commit info'')) (\<lambda>_.
     bind_res (map_err (Context ''Fail to verify SyncInfo'')
       (bind_res (QuorumCert_verify cc (si_highest_quorum_cert si) v) (\<lambda>_.
        bind_res (case si_highest_ordered_cert si of None \<Rightarrow> Ok () | Some cert \<Rightarrow> QuorumCert_verify cc cert v) (\<lambda>_.
        bind_res (if bi_round (qc_commit_info (si_highest_commit_cert si)) > 0
                  then QuorumCert_verify cc (si_highest_commit_cert si) v else Ok ()) (\<lambda>_.
        case si_highest_2chain_timeout_cert si of None \<Rightarrow> Ok ()
        | Some tc \<Rightarrow> TwoChainTimeoutCertificate_verify cc tc v))))) (\<lambda>_.
     Ok ())))))))))"

definition has_newer_certificates :: "sync_info \<Rightarrow> sync_info \<Rightarrow> bool" where
  "has_newer_certificates si other \<longleftrightarrow>
     highest_certified_round si > highest_certified_round other \<or>
     highest_timeout_round si > highest_timeout_round other \<or>
     highest_ordered_round si > highest_ordered_round other \<or>
     highest_commit_round si > highest_commit_round other"

subsection \<open>Vote messages\<close>

definition VoteMsg_verify :: "consensus_crypto \<Rightarrow> vote_msg \<Rightarrow> validator_verifier \<Rightarrow> (unit, anyhow) result" where
  "VoteMsg_verify cc vm v =
     bind_res (ensure (v_epoch (vm_vote vm) = si_epoch (vm_sync_info vm)) (Msg ''VoteMsg has different epoch'')) (\<lambda>_.
     bind_res (ensure (bi_round (vd_proposed (v_vote_data (vm_vote vm))) > highest_round (vm_sync_info vm))
       (Msg ''Vote Round should be higher than SyncInfo'')) (\<lambda>_.
     bind_res (case v_two_chain_timeout (vm_vote vm) of None \<Rightarrow> Ok ()
       | Some (timeout, _) \<Rightarrow> ensure (hqc_round timeout \<le> highest_certified_round (vm_sync_info vm))
           (Msg ''2-chain Timeout hqc should be less or equal than the sync info hqc'')) (\<lambda>_.
     Vote_verify cc (vm_vote vm) v)))"

subsection \<open>Proposal messages\<close>

definition ProposalMsg_verify_well_formed :: "u64 \<Rightarrow> proposal_msg \<Rightarrow> (unit, anyhow) result" where
  "ProposalMsg_verify_well_formed now pm =
     (let proposal = pm_proposal pm; si = pm_sync_info pm in
     bind_res (ensure (\<not> blk_is_nil_block proposal) (Msg ''Proposal for a NIL block'')) (\<lambda>_.
     bind_res (map_err (Context ''Fail to verify ProposalMsg's block'') (verify_well_formed now proposal)) (\<lambda>_.
     bind_res (ensure (blk_round proposal > 0) (Msg ''Proposal has an incorrect round of 0'')) (\<lambda>_.
     bind_res (ensure (blk_epoch proposal = si_epoch si)
       (Msg ''ProposalMsg has different epoch number from SyncInfo'')) (\<lambda>_.
     bind_res (ensure (blk_parent_id proposal = bi_id (certified_block (si_highest_quorum_cert si)))
       (Msg ''Proposal HQC in SyncInfo certifies another block than the parent'')) (\<lambda>_.
     bind_res (ok_or (checked_sub (blk_round proposal) 1) (Msg ''proposal round overflowed!'')) (\<lambda>previous_round.
     let highest_certified = max (bi_round (certified_block (blk_quorum_cert proposal))) (highest_timeout_round si) in
     bind_res (ensure (previous_round = highest_certified) (Msg ''Proposal does not have a certified round'')) (\<lambda>_.
     bind_res (ensure (blk_author proposal \<noteq> None) (Msg ''Proposal does not define an author'')) (\<lambda>_.
     Ok ())))))))))"

definition ProposalMsg_verify ::
  "consensus_crypto \<Rightarrow> u64 \<Rightarrow> proposal_msg \<Rightarrow> validator_verifier \<Rightarrow> bool \<Rightarrow> (unit, anyhow) result" where
  "ProposalMsg_verify cc now pm v quorum_store_enabled =
     bind_res (case blk_payload (pm_proposal pm) of None \<Rightarrow> Ok ()
       | Some p \<Rightarrow> Payload_verify cc p v quorum_store_enabled) (\<lambda>_.
     bind_res (validate_signature cc (pm_proposal pm) v) (\<lambda>_.
     bind_res (case si_highest_2chain_timeout_cert (pm_sync_info pm) of None \<Rightarrow> Ok ()
       | Some tc \<Rightarrow> TwoChainTimeoutCertificate_verify cc tc v) (\<lambda>_.
     ProposalMsg_verify_well_formed now pm)))"

definition proposer :: "proposal_msg \<Rightarrow> (author, 'e) result" where
  "proposer pm = or_panic (blk_author (pm_proposal pm))"

section \<open>Lemmas\<close>

lemma Vote_verify_Ok [res_iff]:
  "Vote_verify cc vote v = Ok u \<longleftrightarrow>
     consensus_data_hash (v_ledger_info vote) = hash_vote_data cc (v_vote_data vote) \<and>
     ValidatorVerifier_verify (bls_ledger_info cc) v (v_author vote) (v_ledger_info vote) (v_signature vote) = Ok () \<and>
     (\<forall>t sg. v_two_chain_timeout vote = Some (t, sg) \<longrightarrow>
        to_epoch t = v_epoch vote \<and> to_round t = bi_round (vd_proposed (v_vote_data vote)) \<and>
        TwoChainTimeout_verify cc t v = Ok () \<and>
        ValidatorVerifier_verify (bls_timeout cc) v (v_author vote) (signing_format t) sg = Ok ()) \<and>
     VoteData_verify (v_vote_data vote) = Ok ()"
  by (auto simp: Vote_verify_def bind_res_Ok_iff ensure_Ok_iff map_err_Ok_iff split: option.splits)

lemma gen_vote_data_parent:
  "gen_vote_data cc vp = Ok vd \<Longrightarrow> vd_parent vd = certified_block (blk_quorum_cert (vp_block vp)) \<and>
     bi_epoch (vd_proposed vd) = blk_epoch (vp_block vp) \<and> bi_round (vd_proposed vd) = blk_round (vp_block vp) \<and>
     bi_id (vd_proposed vd) = blk_id (vp_block vp)"
  by (auto simp: gen_vote_data_def vote_data_ordering_only_def vote_data_with_extension_proof_def
    gen_block_info_def bind_res_Ok_iff split: if_splits)

lemma signer_verifies:
  assumes "bls_signs bls" "get_public_key v (signer_author signer) = Some (ValidatorSigner_public_key bls signer)"
    and "ValidatorSigner_sign bls signer m = Some sg"
  shows "ValidatorVerifier_verify bls v (signer_author signer) m sg = Ok ()"
  using assms by (auto simp: ValidatorVerifier_verify_def ValidatorSigner_sign_def ValidatorSigner_public_key_def
    bls_signs_def res_iff)

lemma bls_signs_on: "bls_signs bls \<Longrightarrow> bls_signs (bls_on emb bls)"
  by (simp add: bls_signs_def)

lemma max_u64_cases: "max a (b :: u64) = a \<or> max a b = b"
  by (simp add: max_def)

lemma checked_sub_1: "checked_sub r 1 = Some (p :: u64) \<longleftrightarrow> unat r = unat p + 1"
  by (auto simp: checked_sub_Some)

lemma well_formed_not_genesis:
  "verify_well_formed now b = Ok () \<Longrightarrow> bi_round (certified_block (blk_quorum_cert b)) < blk_round b \<and>
     bi_epoch (certified_block (blk_quorum_cert b)) = blk_epoch b"
  by (auto simp: verify_well_formed_def bind_res_Ok_iff ensure_Ok_iff Let_def)

lemma sample_crypto_signs: "bls_signs (cc_bls sample_crypto)"
  by (simp add: sample_crypto_def linear_bls_signs)

lemma sample_signer_key:
  "get_public_key sample_verifier 2
     = Some (ValidatorSigner_public_key (cc_bls sample_crypto) \<lparr>signer_author = 2, signer_private_key = [2]\<rparr>)"
  by (simp add: get_public_key_def sample_verifier_index)
    (simp add: sample_verifier_def build_index_def ValidatorSigner_public_key_def sample_crypto_def linear_bls_def)

section \<open>Properties\<close>

text \<open>
  Round trip of votes: a vote signed by a known validator verifies exactly when its vote data
  is consistent; with the timeout the voter generates from it and signs, exactly when the timeout
  verifies too. Neither the hash of the vote data nor the signatures can be what fails.
\<close>

theorem vote_roundtrip:
  assumes "bls_signs (cc_bls cc)"
    and "get_public_key v (signer_author signer) = Some (ValidatorSigner_public_key (cc_bls cc) signer)"
    and "Vote_new cc vd (signer_author signer) li signer = Ok vote"
    and "t = generate_2chain_timeout vote qc" "TwoChainTimeout_sign cc t signer = Some sg"
  shows "Vote_verify cc vote v = VoteData_verify vd \<and>
    Vote_verify cc (add_2chain_timeout vote t sg) v =
      bind_res (TwoChainTimeout_verify cc t v) (\<lambda>_. VoteData_verify vd)"
proof -
  have pk: "get_public_key v (signer_author signer) = Some (ValidatorSigner_public_key (bls_on emb (cc_bls cc)) signer)"
    for emb :: "'a \<Rightarrow> signed_msg" using assms(2) by (simp add: ValidatorSigner_public_key_def)
  from assms(3) obtain s where vote: "vote = new_with_signature vd (signer_author signer)
      (set_consensus_data_hash li (hash_vote_data cc vd)) s"
    and s: "ValidatorSigner_sign (bls_ledger_info cc) signer (set_consensus_data_hash li (hash_vote_data cc vd)) = Some s"
    by (auto simp: Vote_new_def Let_def res_iff)
  have "bind_res (VoteData_verify vd) (\<lambda>_. Ok ()) = VoteData_verify vd" by (cases "VoteData_verify vd") auto
  moreover note signer_verifies [OF bls_signs_on [OF assms(1)] pk s]
  moreover have "ValidatorVerifier_verify (bls_timeout cc) v (signer_author signer) (signing_format t) sg = Ok ()"
    using assms(5) by (intro signer_verifies bls_signs_on assms(1) pk) (simp add: TwoChainTimeout_sign_def)
  ultimately show ?thesis
    using assms(4) by (cases "TwoChainTimeout_verify cc t v")
      (simp_all add: Vote_verify_def vote new_with_signature_def set_consensus_data_hash_def add_2chain_timeout_def
        generate_2chain_timeout_def)
qed

theorem vote_roundtrip_witness:
  "\<exists>vote sg. Vote_new sample_crypto \<lparr>vd_proposed = sample_block_at 9, vd_parent = sample_block_at 5\<rparr> 2
       \<lparr>commit_info = BlockInfo_empty, consensus_data_hash = 0\<rparr> \<lparr>signer_author = 2, signer_private_key = [2]\<rparr> = Ok vote \<and>
     Vote_verify sample_crypto (add_2chain_timeout vote
       (generate_2chain_timeout vote (to_quorum_cert (sample_timeout 5))) sg) sample_verifier = Ok ()"
proof -
  let ?signer = "\<lparr>signer_author = 2, signer_private_key = [2]\<rparr>" and ?qc = "to_quorum_cert (sample_timeout 5)"
  let ?vd = "\<lparr>vd_proposed = sample_block_at 9, vd_parent = sample_block_at 5\<rparr>"
  let ?li = "\<lparr>commit_info = BlockInfo_empty, consensus_data_hash = 0\<rparr>"
  have pk: "get_public_key sample_verifier (signer_author ?signer) = Some (ValidatorSigner_public_key (cc_bls sample_crypto) ?signer)"
    using sample_signer_key by simp
  obtain vote where vote: "Vote_new sample_crypto ?vd (signer_author ?signer) ?li ?signer = Ok vote"
    by (simp add: Vote_new_def Let_def ValidatorSigner_sign_def sample_crypto_def linear_bls_def)
  then have "v_vote_data vote = ?vd" by (auto simp: Vote_new_def Let_def res_iff new_with_signature_def)
  then have t: "generate_2chain_timeout vote ?qc = sample_timeout 5"
    by (simp add: generate_2chain_timeout_def sample_timeout_def sample_block_at_def)
  moreover obtain sg where "TwoChainTimeout_sign sample_crypto (sample_timeout 5) ?signer = Some sg"
    by (simp add: TwoChainTimeout_sign_def ValidatorSigner_sign_def sample_crypto_def linear_bls_def)
  moreover have "TwoChainTimeout_verify sample_crypto (sample_timeout 5) sample_verifier = Ok ()"
    using sample_timeout_verifies [of 5 9] by (simp add: sample_timeout_def)
  moreover have "VoteData_verify ?vd = Ok ()" by (simp add: VoteData_verify_Ok sample_block_at_def)
  ultimately show ?thesis
    using vote_roundtrip [OF sample_crypto_signs pk vote refl, of ?qc sg] vote by auto
qed

text \<open>
  A proposal message is accepted exactly when its payload, signature, timeout certificate and
  block are valid, it has an author, agrees with the sync info on epoch and parent, and directly
  follows the highest of the rounds of its parent and of the timeout certificate; the checks for
  nil blocks and for round 0 reject nothing more. An accepted proposal has a proposer.
\<close>

theorem proposal_msg_accepts:
  fixes pm :: proposal_msg
  defines "b \<equiv> pm_proposal pm" and "si \<equiv> pm_sync_info pm"
  shows "ProposalMsg_verify cc now pm v qs = Ok () \<longleftrightarrow>
    pred_option (\<lambda>p. Payload_verify cc p v qs = Ok ()) (blk_payload b) \<and>
    validate_signature cc b v = Ok () \<and>
    pred_option (\<lambda>tc. TwoChainTimeoutCertificate_verify cc tc v = Ok ()) (si_highest_2chain_timeout_cert si) \<and>
    verify_well_formed now b = Ok () \<and> (\<exists>a. proposer pm = (Ok a :: (author, anyhow) result)) \<and>
    blk_epoch b = si_epoch si \<and> blk_parent_id b = bi_id (certified_block (si_highest_quorum_cert si)) \<and>
    unat (blk_round b) =
      unat (max (bi_round (certified_block (blk_quorum_cert b))) (highest_timeout_round si)) + 1"
proof -
  let ?b = "pm_proposal pm" and ?si = "pm_sync_info pm"
  let ?m = "max (bi_round (certified_block (blk_quorum_cert ?b))) (highest_timeout_round ?si)"
  have "blk_author ?b \<noteq> None \<Longrightarrow> \<not> blk_is_nil_block ?b"
    by (simp add: BlockData_author_def bd_is_nil_block_def split: block_type.splits)
  moreover have "unat (blk_round ?b) = unat ?m + 1 \<Longrightarrow> 0 < blk_round ?b"
    by (simp add: word_less_nat_alt)
  ultimately have "ProposalMsg_verify_well_formed now pm = Ok () \<longleftrightarrow>
      verify_well_formed now ?b = Ok () \<and> blk_author ?b \<noteq> None \<and> blk_epoch ?b = si_epoch ?si \<and>
      blk_parent_id ?b = bi_id (certified_block (si_highest_quorum_cert ?si)) \<and> unat (blk_round ?b) = unat ?m + 1"
    unfolding ProposalMsg_verify_well_formed_def Let_def bind_res_Ok_iff ensure_Ok_iff map_err_Ok_iff ok_or_Ok_iff
      checked_sub_1 by (auto simp del: blk_author_def blk_is_nil_block_def blk_round_def)
  moreover have "(\<exists>a. proposer pm = (Ok a :: (author, anyhow) result)) \<longleftrightarrow> blk_author ?b \<noteq> None"
    by (auto simp: proposer_def or_panic_def split: option.splits)
  ultimately show ?thesis
    by (auto simp: ProposalMsg_verify_def b_def si_def bind_res_Ok_iff split: option.splits)
qed

text \<open>
  The sync info of a node drops a timeout certificate that is not above its highest
  certificate and an ordered certificate equal to it. Neither loses anything: a receiver reads
  back the ordered certificate and the highest round, and no sync info is newer than itself.
\<close>

theorem sync_info_keeps_rounds:
  fixes hqc hoc hcc :: quorum_cert and htc :: "two_chain_timeout_certificate option"
  defines "si \<equiv> SyncInfo_new_decoupled hqc hoc hcc htc"
  shows "highest_ordered_cert si = hoc \<and>
    highest_round si = max (bi_round (certified_block hqc)) (case htc of None \<Rightarrow> 0 | Some tc \<Rightarrow> tc_round tc) \<and>
    highest_commit_round si = bi_round (qc_commit_info hcc) \<and> \<not> has_newer_certificates si si"
  by (auto simp: si_def SyncInfo_new_decoupled_def highest_ordered_cert_def highest_round_def
    highest_certified_round_def highest_timeout_round_def highest_commit_round_def has_newer_certificates_def
    max_def word_gt_0 split: option.splits)

end
