(* ===== verification/Exec.thy ===== *)
theory Exec
  imports Prelude
begin

text \<open>
  Computations that change a state and may fail or panic, as the methods on \<open>&mut self\<close> that
  return a \<open>Result\<close> do: the changes made before an error stay. The rules of a small Hoare logic
  on them carry the invariants of the components through their handlers; the third condition is
  what holds when the computation fails.
\<close>

named_theorems hoare_intro \<open>rules of the Hoare logic on stateful computations\<close>

section \<open>Definitions\<close>

type_synonym ('s, 'a, 'e) exec = "'s \<Rightarrow> ('a, 'e) result \<times> 's"

definition bind_ex :: "('s, 'a, 'e) exec \<Rightarrow> ('a \<Rightarrow> ('s, 'b, 'e) exec) \<Rightarrow> ('s, 'b, 'e) exec" where
  "bind_ex m f s = (case m s of (Ok x, s') \<Rightarrow> f x s' | (Err e, s') \<Rightarrow> (Err e, s') | (Panic, s') \<Rightarrow> (Panic, s'))"

definition reads :: "('s \<Rightarrow> ('a, 'e) result) \<Rightarrow> ('s, 'a, 'e) exec" where
  "reads f s = (f s, s)"

definition lift_ex :: "('a, 'e) result \<Rightarrow> ('s, 'a, 'e) exec" where
  "lift_ex r s = (r, s)"

definition hoare ::
  "('s \<Rightarrow> bool) \<Rightarrow> ('s, 'a, 'e) exec \<Rightarrow> ('a \<Rightarrow> 's \<Rightarrow> bool) \<Rightarrow> ('s \<Rightarrow> bool) \<Rightarrow> bool" where
  "hoare P m Q E \<longleftrightarrow> (\<forall>s r s'. P s \<longrightarrow> m s = (r, s') \<longrightarrow> (case r of Ok x \<Rightarrow> Q x s' | _ \<Rightarrow> E s'))"

section \<open>Lemmas\<close>

lemma bind_ex_simps [simp]:
  "m s = (Ok x, s') \<Longrightarrow> bind_ex m f s = f x s'"
  "m s = (Err e, s') \<Longrightarrow> bind_ex m f s = (Err e, s')"
  "m s = (Panic, s') \<Longrightarrow> bind_ex m f s = (Panic, s')"
  by (simp_all add: bind_ex_def)

lemma reads_simp [simp]: "reads f s = (f s, s)"
  and lift_ex_simp [simp]: "lift_ex r s = (r, s)"
  by (simp_all add: reads_def lift_ex_def)

lemma bind_ex_Ok: "bind_ex m f s = (Ok y, s') \<longleftrightarrow> (\<exists>x s1. m s = (Ok x, s1) \<and> f x s1 = (Ok y, s'))"
  by (auto simp: bind_ex_def split: prod.splits result.splits)

lemma hoareI:
  assumes "\<And>s x s'. P s \<Longrightarrow> m s = (Ok x, s') \<Longrightarrow> Q x s'"
    and "\<And>s r s'. P s \<Longrightarrow> m s = (r, s') \<Longrightarrow> (\<forall>x. r \<noteq> Ok x) \<Longrightarrow> E s'"
  shows "hoare P m Q E"
  using assms by (auto simp: hoare_def split: result.splits)

lemma hoareD: "hoare P m Q E \<Longrightarrow> P s \<Longrightarrow> m s = (Ok x, s') \<Longrightarrow> Q x s'"
  by (fastforce simp: hoare_def)

lemma hoare_failD: "hoare P m Q E \<Longrightarrow> P s \<Longrightarrow> m s = (r, s') \<Longrightarrow> \<forall>x. r \<noteq> Ok x \<Longrightarrow> E s'"
  by (cases r) (fastforce simp: hoare_def)+

lemma hoare_bind:
  assumes "hoare P m R E" "\<And>x. hoare (R x) (f x) Q E"
  shows "hoare P (bind_ex m f) Q E"
proof (rule hoareI)
  fix s y s' assume "P s" "bind_ex m f s = (Ok y, s')"
  then show "Q y s'" using hoareD [OF assms(1)] hoareD [OF assms(2)] by (metis bind_ex_Ok)
next
  fix s r s' assume P: "P s" and b: "bind_ex m f s = (r, s')" and r: "\<forall>x. r \<noteq> Ok x"
  obtain q s1 where m: "m s = (q, s1)" by (cases "m s")
  show "E s'"
  proof (cases q)
    case (Ok x)
    then have "R x s1" "f x s1 = (r, s')" using hoareD [OF assms(1) P] m b by simp_all
    then show ?thesis using hoare_failD [OF assms(2)] r by blast
  qed (use hoare_failD [OF assms(1) P m] m b in simp_all)
qed

lemma hoare_reads:
  assumes "\<And>s x. P s \<Longrightarrow> f s = Ok x \<Longrightarrow> Q x s" "\<And>s. P s \<Longrightarrow> E s"
  shows "hoare P (reads f) Q E"
  using assms by (auto simp: hoare_def split: result.splits)

lemma hoare_lift:
  assumes "\<And>s x. P s \<Longrightarrow> r = Ok x \<Longrightarrow> Q x s" "\<And>s. P s \<Longrightarrow> E s"
  shows "hoare P (lift_ex r) Q E"
  using assms by (auto simp: hoare_def split: result.splits)

lemma hoare_if:
  assumes "b \<Longrightarrow> hoare P m Q E" "\<not> b \<Longrightarrow> hoare P m' Q E"
  shows "hoare P (if b then m else m') Q E"
  using assms by simp

lemma hoare_conseq:
  assumes "hoare P' m Q' E'" "\<And>s. P s \<Longrightarrow> P' s" "\<And>x s. Q' x s \<Longrightarrow> Q x s" "\<And>s. E' s \<Longrightarrow> E s"
  shows "hoare P m Q E"
  using assms hoareD [OF assms(1)] hoare_failD [OF assms(1)] by (intro hoareI) blast+

lemma hoare_ex: "(\<And>a. hoare (P a) m Q E) \<Longrightarrow> hoare (\<lambda>s. \<exists>a. P a s) m Q E"
  by (rule hoareI) (blast dest: hoareD, blast dest: hoare_failD)

lemma hoare_pre: "(\<And>s. P s \<Longrightarrow> C) \<Longrightarrow> (C \<Longrightarrow> hoare P m Q E) \<Longrightarrow> hoare P m Q E"
  by (rule hoareI) (blast dest: hoareD, blast dest: hoare_failD)

text \<open>Facts that a check establishes once and for all, whatever the state is.\<close>

lemma hoare_pure: "(C \<Longrightarrow> hoare P m Q E) \<Longrightarrow> hoare (\<lambda>s. P s \<and> C) m Q E"
  by (auto simp: hoare_def)

lemma hoare_bind_pure:
  assumes "hoare P m (\<lambda>x s. P s \<and> C x) E" "\<And>x. C x \<Longrightarrow> hoare P (f x) Q E"
  shows "hoare P (bind_ex m f) Q E"
  by (rule hoare_bind [OF assms(1)]) (rule hoare_pure, rule assms(2))

lemma hoare_bind_reads:
  assumes "\<And>s x. P s \<Longrightarrow> g s = Ok x \<Longrightarrow> C x" "\<And>x. C x \<Longrightarrow> hoare P (f x) Q E" "\<And>s. P s \<Longrightarrow> E s"
  shows "hoare P (bind_ex (reads g) f) Q E"
  by (rule hoare_bind_pure [where C = C], rule hoare_reads) (use assms in auto)

lemma lift_ex_reads: "lift_ex r = reads (\<lambda>_. r)"
  by (simp add: fun_eq_iff)

lemma hoare_bind_lift:
  assumes "\<And>x. r = Ok x \<Longrightarrow> hoare P (f x) Q E" "\<And>s. P s \<Longrightarrow> E s"
  shows "hoare P (bind_ex (lift_ex r) f) Q E"
  unfolding lift_ex_reads by (rule hoare_bind_reads [where C = "\<lambda>x. r = Ok x"]) (use assms in auto)

lemma hoare_keep [hoare_intro]:
  "hoare P m (\<lambda>_. P) P \<Longrightarrow> (\<And>x. hoare P (f x) (\<lambda>_. P) P) \<Longrightarrow> hoare P (bind_ex m f) (\<lambda>_. P) P"
  "hoare P (reads g) (\<lambda>_. P) P"
  "hoare P (lift_ex r) (\<lambda>_. P) P"
  by (rule hoare_bind; assumption) (rule hoare_reads hoare_lift; assumption)+

end
