(* ===== verification/Secure_Storage.thy ===== *)
theory Secure_Storage
  imports Consensus_Msgs Exec
begin

text \<open>
  The persistent state of the safety rules: the key-value storage
  (\<open>storage/secure/src/kv_storage.rs\<close>, \<open>in_memory.rs\<close>, \<open>error.rs\<close>), the safety
  data (\<open>consensus-types/src/safety_data.rs\<close>), the errors of the safety rules
  (\<open>safety-rules/src/error.rs\<close>) and the cached storage
  (\<open>safety-rules/src/persistent_safety_storage.rs\<close>).

  The backend may be a remote service: every access may fail, and a write that reports a failure
  may nevertheless have been carried out. \<open>st_outcomes\<close> lists what the environment does to the
  accesses to come; with the empty list the storage is \<open>InMemoryStorage\<close>. A stored value is
  kept with its type instead of its JSON text, and reading at another type fails.
\<close>

section \<open>Definitions\<close>

subsection \<open>Key-value storage\<close>

datatype storage_error =
    EntropyError string
  | InternalStorageError string
  | KeyAlreadyExists string
  | KeyNotSet string
  | PermissionDenied
  | StorageSerializationError string
  | KeyVersionNotFound string string

record safety_data =
  sfd_epoch :: u64
  last_voted_round :: u64
  preferred_round :: u64
  one_chain_round :: u64
  last_vote :: "vote option"

text \<open>
  The errors of the safety rules. Where the code keeps the text of an error, the model keeps the
  error itself.
\<close>

datatype cause = Cause anyhow | StorageCause storage_error

datatype sr_error =
    IncorrectEpoch u64 u64
  | IncorrectRound u64
  | IncorrectLastVotedRound u64 u64
  | IncorrectPreferredRound u64 u64
  | InvalidAccumulatorExtension anyhow
  | InvalidEpochChangeProof anyhow
  | InternalError anyhow
  | InvalidLedgerInfo
  | InvalidProposal anyhow
  | InvalidQuorumCertificate anyhow
  | NotInitialized string
  | SecureStorageMissingDataError cause
  | SecureStorageUnexpectedError cause
  | SerializationError string
  | ValidatorKeyNotFound cause
  | ValidatorNotInSet account_address
  | VoteProposalSignatureNotFound
  | NotSafeToVote u64 u64 u64 u64
  | NotSafeToTimeout u64 u64 u64 u64
  | InvalidTimeoutCertificate anyhow
  | InconsistentExecutionResult block_info block_info
  | InvalidOrderedLedgerInfo ledger_info
  | WaypointOutOfDate u64 u64 u64 u64
  | InvalidTimeout anyhow

datatype stored_value =
    StoredAuthor account_address
  | StoredKey private_key
  | StoredSafetyData safety_data
  | StoredWaypoint waypoint
  | StoredResult "(safety_data, sr_error) result"

record storage =
  st_data :: "string \<Rightarrow> stored_value option"
  st_outcomes :: "(storage_error \<times> bool) option list"

definition next_outcome :: "storage \<Rightarrow> (storage_error \<times> bool) option \<times> storage" where
  "next_outcome st =
     (case st_outcomes st of [] \<Rightarrow> (None, st) | oc # rest \<Rightarrow> (oc, st\<lparr>st_outcomes := rest\<rparr>))"

definition kv_get :: "(stored_value \<Rightarrow> 'a option) \<Rightarrow> string \<Rightarrow> (storage, 'a, storage_error) exec" where
  "kv_get decode key st =
     (case next_outcome st of
        (Some (e, _), st') \<Rightarrow> (Err e, st')
      | (None, st') \<Rightarrow>
          (bind_res (ok_or (st_data st' key) (KeyNotSet key)) (\<lambda>v. ok_or (decode v) (StorageSerializationError key)), st'))"

definition kv_set :: "string \<Rightarrow> stored_value \<Rightarrow> (storage, unit, storage_error) exec" where
  "kv_set key v st =
     (case next_outcome st of
        (Some (e, applied), st') \<Rightarrow> (Err e, if applied then st'\<lparr>st_data := (st_data st')(key \<mapsto> v)\<rparr> else st')
      | (None, st') \<Rightarrow> (Ok (), st'\<lparr>st_data := (st_data st')(key \<mapsto> v)\<rparr>))"

fun decode_author :: "stored_value \<Rightarrow> account_address option" where
  "decode_author (StoredAuthor a) = Some a"
| "decode_author _ = None"

fun decode_key :: "stored_value \<Rightarrow> private_key option" where
  "decode_key (StoredKey k) = Some k"
| "decode_key _ = None"

fun decode_safety_data :: "stored_value \<Rightarrow> safety_data option" where
  "decode_safety_data (StoredSafetyData d) = Some d"
| "decode_safety_data _ = None"

fun decode_waypoint :: "stored_value \<Rightarrow> waypoint option" where
  "decode_waypoint (StoredWaypoint w) = Some w"
| "decode_waypoint _ = None"

fun decode_result :: "stored_value \<Rightarrow> (safety_data, sr_error) result option" where
  "decode_result (StoredResult r) = Some r"
| "decode_result _ = None"

subsection \<open>Errors of the storage\<close>

fun from_storage_error :: "storage_error \<Rightarrow> ('a, sr_error) result" where
  "from_storage_error PermissionDenied = Panic"
| "from_storage_error (KeyVersionNotFound k v) = Err (SecureStorageMissingDataError (StorageCause (KeyVersionNotFound k v)))"
| "from_storage_error (KeyNotSet k) = Err (SecureStorageMissingDataError (StorageCause (KeyNotSet k)))"
| "from_storage_error e = Err (SecureStorageUnexpectedError (StorageCause e))"

primrec from_storage :: "('a, storage_error) result \<Rightarrow> ('a, sr_error) result" where
  "from_storage (Ok x) = Ok x"
| "from_storage (Err e) = from_storage_error e"
| "from_storage Panic = Panic"

subsection \<open>Persistent safety storage\<close>

definition CONSENSUS_KEY :: string where "CONSENSUS_KEY = ''consensus''"
definition OWNER_ACCOUNT :: string where "OWNER_ACCOUNT = ''owner_account''"
definition SAFETY_DATA :: string where "SAFETY_DATA = ''safety_data''"
definition WAYPOINT :: string where "WAYPOINT = ''waypoint''"

definition SafetyData_new :: "u64 \<Rightarrow> u64 \<Rightarrow> u64 \<Rightarrow> u64 \<Rightarrow> vote option \<Rightarrow> safety_data" where
  "SafetyData_new epoch lvr pr ocr lv =
     \<lparr>sfd_epoch = epoch, last_voted_round = lvr, preferred_round = pr, one_chain_round = ocr, last_vote = lv\<rparr>"

record persistent_safety_storage =
  enable_cached_safety_data :: bool
  cached_safety_data :: "safety_data option"
  internal_store :: storage

definition on_store :: "(storage, 'a, storage_error) exec \<Rightarrow> (persistent_safety_storage, 'a, sr_error) exec" where
  "on_store m p = (case m (internal_store p) of (r, st) \<Rightarrow> (from_storage r, p\<lparr>internal_store := st\<rparr>))"

definition PersistentSafetyStorage_new :: "storage \<Rightarrow> bool \<Rightarrow> persistent_safety_storage" where
  "PersistentSafetyStorage_new st enable =
     \<lparr>enable_cached_safety_data = enable, cached_safety_data = None, internal_store = st\<rparr>"

definition pss_author :: "(persistent_safety_storage, author, sr_error) exec" where
  "pss_author = on_store (kv_get decode_author OWNER_ACCOUNT)"

definition consensus_key_for_version ::
  "'m bls12381 \<Rightarrow> public_key \<Rightarrow> (persistent_safety_storage, private_key, sr_error) exec" where
  "consensus_key_for_version bls version =
     bind_ex (on_store (kv_get decode_key CONSENSUS_KEY)) (\<lambda>key.
     lift_ex (if bls_public_key bls key \<noteq> version
              then Err (SecureStorageMissingDataError (Cause (Msg ''PrivateKey not found''))) else Ok key))"

definition pss_safety_data :: "(persistent_safety_storage, safety_data, sr_error) exec" where
  "pss_safety_data p =
     (if \<not> enable_cached_safety_data p
      then bind_ex (on_store (kv_get decode_result SAFETY_DATA)) lift_ex p
      else case cached_safety_data p of
        Some d \<Rightarrow> (Ok d, p)
      | None \<Rightarrow> bind_ex (on_store (kv_get decode_safety_data SAFETY_DATA))
          (\<lambda>d p'. (Ok d, p'\<lparr>cached_safety_data := Some d\<rparr>)) p)"

definition set_safety_data :: "safety_data \<Rightarrow> (persistent_safety_storage, unit, sr_error) exec" where
  "set_safety_data d p =
     (case kv_set SAFETY_DATA (StoredSafetyData d) (internal_store p) of
        (Ok _, st) \<Rightarrow> (Ok (), p\<lparr>internal_store := st, cached_safety_data := Some d\<rparr>)
      | (Err e, st) \<Rightarrow> (Err (SecureStorageUnexpectedError (StorageCause e)),
          p\<lparr>internal_store := st, cached_safety_data := None\<rparr>)
      | (Panic, st) \<Rightarrow> (Panic, p\<lparr>internal_store := st\<rparr>))"

definition pss_waypoint :: "(persistent_safety_storage, waypoint, sr_error) exec" where
  "pss_waypoint = on_store (kv_get decode_waypoint WAYPOINT)"

definition set_waypoint :: "waypoint \<Rightarrow> (persistent_safety_storage, unit, sr_error) exec" where
  "set_waypoint w = on_store (kv_set WAYPOINT (StoredWaypoint w))"

definition initialize_keys_and_accounts :: "author \<Rightarrow> private_key \<Rightarrow> (storage, unit, sr_error) exec" where
  "initialize_keys_and_accounts author key st =
     (case kv_set CONSENSUS_KEY (StoredKey key) st of
        (Err (KeyAlreadyExists _), st') \<Rightarrow> (Ok (), st')
      | (_, st') \<Rightarrow> (case kv_set OWNER_ACCOUNT (StoredAuthor author) st' of (r, st'') \<Rightarrow> (from_storage r, st'')))"

text \<open>\<open>expect\<close> on the results of \<open>initialize\<close>: an error is a panic.\<close>

definition PersistentSafetyStorage_initialize ::
  "storage \<Rightarrow> author \<Rightarrow> private_key \<Rightarrow> waypoint \<Rightarrow> bool \<Rightarrow> (persistent_safety_storage, 'e) result" where
  "PersistentSafetyStorage_initialize st author key w enable =
     (case initialize_keys_and_accounts author key st of
        (Ok _, st') \<Rightarrow>
          (let d = SafetyData_new 1 0 0 0 None;
               p = \<lparr>enable_cached_safety_data = enable, cached_safety_data = Some d, internal_store = st'\<rparr>
           in case bind_ex (set_safety_data d) (\<lambda>_. set_waypoint w) p of
                (Ok _, p') \<Rightarrow> Ok p' | _ \<Rightarrow> Panic)
      | _ \<Rightarrow> Panic)"

section \<open>The storage interface\<close>

text \<open>
  What the safety rules rely on: reading changes nothing and returns what is stored; a write that
  succeeds is carried out, and one that fails either is or is not; in no case is another key
  touched.
\<close>

locale kv_storage =
  fixes data :: "'st \<Rightarrow> 'k \<Rightarrow> 'v option"
    and get :: "'k \<Rightarrow> 'st \<Rightarrow> ('v, 'e) result \<times> 'st"
    and put :: "'k \<Rightarrow> 'v \<Rightarrow> 'st \<Rightarrow> (unit, 'e) result \<times> 'st"
  assumes get_data: "data (snd (get k st)) = data st"
    and get_Ok: "fst (get k st) = Ok v \<Longrightarrow> data st k = Some v"
    and put_Ok: "fst (put k v st) = Ok u \<Longrightarrow> data (snd (put k v st)) = (data st)(k \<mapsto> v)"
    and put_any: "data (snd (put k v st)) = data st \<or> data (snd (put k v st)) = (data st)(k \<mapsto> v)"
begin

lemma put_other: "k' \<noteq> k \<Longrightarrow> data (snd (put k v st)) k' = data st k'"
  using put_any [of k v st] by auto

lemma put_get:
  assumes "fst (put k v st) = Ok u" "fst (get k (snd (put k v st))) = Ok v'"
  shows "v' = v"
  using put_Ok [OF assms(1)] get_Ok [OF assms(2)] by simp

end

lemma next_outcome_data: "next_outcome st = (oc, st') \<Longrightarrow> st_data st' = st_data st"
  by (auto simp: next_outcome_def split: list.splits)

lemma kv_get_data [simp]: "st_data (snd (kv_get decode k st)) = st_data st"
  by (auto simp: kv_get_def next_outcome_data split: prod.splits option.splits)

lemma kv_get_Ok:
  "fst (kv_get decode k st) = Ok x \<Longrightarrow> \<exists>v. st_data st k = Some v \<and> decode v = Some x"
  by (auto simp: kv_get_def res_iff next_outcome_data split: prod.splits option.splits)

lemma kv_set_cases:
  "st_data (snd (kv_set k v st)) = (st_data st)(k \<mapsto> v) \<or>
     (\<exists>e. fst (kv_set k v st) = Err e) \<and> st_data (snd (kv_set k v st)) = st_data st"
  by (auto simp: kv_set_def next_outcome_data split: prod.splits option.splits)

interpretation kv: kv_storage st_data "kv_get Some" kv_set
proof unfold_locales
  show "st_data (snd (kv_get Some k st)) = st_data st" for k st by simp
  show "st_data st k = Some v" if "fst (kv_get Some k st) = Ok v" for k st v
    using kv_get_Ok [OF that] by simp
  show "st_data (snd (kv_set k v st)) = (st_data st)(k \<mapsto> v)" if "fst (kv_set k v st) = Ok u" for k v st u
    using kv_set_cases [of k v st] that by auto
  show "st_data (snd (kv_set k v st)) = st_data st \<or> st_data (snd (kv_set k v st)) = (st_data st)(k \<mapsto> v)" for k v st
    using kv_set_cases [of k v st] by blast
qed

section \<open>Calls of the storage\<close>

text \<open>
  Any sequence of calls of the safety storage and of restarts, with the outcomes of the accesses
  after the restart and either setting of the cache, and beside it the safety data that the storage
  may hold: those of the last write that succeeded and of the later ones that failed, which may
  have taken effect.
\<close>

datatype storage_call =
    CallAuthor
  | CallConsensusKey public_key
  | CallSafetyData
  | CallSetSafetyData safety_data
  | CallWaypoint
  | CallSetWaypoint waypoint
  | CallRestart "(storage_error \<times> bool) option list" bool

primrec storage_exec :: "'m bls12381 \<Rightarrow> storage_call \<Rightarrow> persistent_safety_storage \<Rightarrow> persistent_safety_storage" where
  "storage_exec bls CallAuthor p = snd (pss_author p)"
| "storage_exec bls (CallConsensusKey version) p = snd (consensus_key_for_version bls version p)"
| "storage_exec bls CallSafetyData p = snd (pss_safety_data p)"
| "storage_exec bls (CallSetSafetyData d) p = snd (set_safety_data d p)"
| "storage_exec bls CallWaypoint p = snd (pss_waypoint p)"
| "storage_exec bls (CallSetWaypoint w) p = snd (set_waypoint w p)"
| "storage_exec bls (CallRestart outcomes enable) p =
     PersistentSafetyStorage_new ((internal_store p)\<lparr>st_outcomes := outcomes\<rparr>) enable"

primrec written :: "storage_call list \<Rightarrow> 'm bls12381 \<Rightarrow> persistent_safety_storage \<Rightarrow> safety_data set \<Rightarrow> safety_data set" where
  "written [] bls p D = D"
| "written (c # calls) bls p D = written calls bls (storage_exec bls c p) (case c of
     CallSetSafetyData d \<Rightarrow> if fst (set_safety_data d p) = Ok () then {d} else insert d D
   | _ \<Rightarrow> D)"

definition stored_in :: "safety_data set \<Rightarrow> persistent_safety_storage \<Rightarrow> bool" where
  "stored_in D p \<longleftrightarrow> (\<exists>d \<in> D. st_data (internal_store p) SAFETY_DATA = Some (StoredSafetyData d) \<and>
     (cached_safety_data p = None \<or> cached_safety_data p = Some d))"

lemma on_store_get [simp]:
  "st_data (internal_store (snd (on_store (kv_get decode k) p))) = st_data (internal_store p)"
  "cached_safety_data (snd (on_store f p)) = cached_safety_data p"
  by (auto simp: on_store_def split: prod.splits) (metis kv_get_data snd_conv)

lemma set_safety_data_cases:
  "fst (set_safety_data d p) = Ok () \<and> cached_safety_data (snd (set_safety_data d p)) = Some d \<and>
     st_data (internal_store (snd (set_safety_data d p))) SAFETY_DATA = Some (StoredSafetyData d) \<or>
   fst (set_safety_data d p) \<noteq> Ok () \<and> cached_safety_data (snd (set_safety_data d p)) = None \<and>
     (st_data (internal_store (snd (set_safety_data d p))) SAFETY_DATA = Some (StoredSafetyData d) \<or>
      st_data (internal_store (snd (set_safety_data d p))) = st_data (internal_store p))"
proof -
  obtain oc st where no: "next_outcome (internal_store p) = (oc, st)" by fastforce
  with next_outcome_data [OF no] show ?thesis
    by (cases oc) (auto simp: set_safety_data_def kv_set_def split: if_splits)
qed

lemma pss_safety_data_reads:
  assumes "stored_in D p"
  shows "stored_in D (snd (pss_safety_data p))" and "fst (pss_safety_data p) = Ok x \<Longrightarrow> x \<in> D"
    and "enable_cached_safety_data p \<Longrightarrow> cached_safety_data p \<noteq> None \<or> fst (next_outcome (internal_store p)) = None \<Longrightarrow>
      \<exists>x \<in> D. fst (pss_safety_data p) = Ok x"
proof -
  obtain oc st where no: "next_outcome (internal_store p) = (oc, st)" by fastforce
  note data = next_outcome_data [OF no]
  from assms obtain d where d: "d \<in> D" "st_data (internal_store p) SAFETY_DATA = Some (StoredSafetyData d)"
    "cached_safety_data p = None \<or> cached_safety_data p = Some d" unfolding stored_in_def by blast
  have get: "kv_get decode SAFETY_DATA (internal_store p) = (case oc of Some (e, _) \<Rightarrow> Err e
      | None \<Rightarrow> ok_or (decode (StoredSafetyData d)) (StorageSerializationError SAFETY_DATA), st)"
    for decode :: "stored_value \<Rightarrow> 'a option"
    using d(2) data no by (cases oc) (auto simp: kv_get_def ok_or_def)
  have fails: "from_storage_error e \<noteq> Ok y" for e :: storage_error and y :: 'b by (cases e) simp_all
  show "stored_in D (snd (pss_safety_data p))"
    using d data unfolding stored_in_def
    by (intro bexI [of _ d]) (auto simp: pss_safety_data_def bind_ex_def on_store_def get lift_ex_def ok_or_def fails
      split: option.splits result.splits)
  show "x \<in> D" if "fst (pss_safety_data p) = Ok x"
    using d that by (auto simp: pss_safety_data_def bind_ex_def on_store_def get lift_ex_def ok_or_def fails
      split: option.splits result.splits if_splits)
  show "\<exists>x \<in> D. fst (pss_safety_data p) = Ok x"
    if "enable_cached_safety_data p" "cached_safety_data p \<noteq> None \<or> fst (next_outcome (internal_store p)) = None"
    using d that no by (auto simp: pss_safety_data_def bind_ex_def on_store_def get ok_or_def)
qed

lemma storage_exec_stored:
  assumes "stored_in D p"
  shows "stored_in (case c of CallSetSafetyData d \<Rightarrow> if fst (set_safety_data d p) = Ok () then {d} else insert d D | _ \<Rightarrow> D)
    (storage_exec bls c p)"
proof (cases c)
  case (CallSetSafetyData d)
  then show ?thesis using assms set_safety_data_cases [of d p] by (auto simp: stored_in_def)
next
  case (CallConsensusKey v)
  have "snd (consensus_key_for_version bls v p) = snd (on_store (kv_get decode_key CONSENSUS_KEY) p)"
    by (auto simp: consensus_key_for_version_def bind_ex_def lift_ex_def split: prod.splits result.splits)
  then show ?thesis using assms CallConsensusKey by (simp add: stored_in_def)
next
  case (CallSetWaypoint w)
  have "st_data (internal_store (snd (set_waypoint w p))) SAFETY_DATA = st_data (internal_store p) SAFETY_DATA"
    using kv.put_other [of SAFETY_DATA WAYPOINT "StoredWaypoint w" "internal_store p"]
    by (auto simp: set_waypoint_def on_store_def SAFETY_DATA_def WAYPOINT_def split: prod.splits)
  then show ?thesis using assms CallSetWaypoint by (simp add: stored_in_def set_waypoint_def)
next
  case CallSafetyData
  then show ?thesis using pss_safety_data_reads(1) [OF assms] by simp
qed (use assms in \<open>auto simp: stored_in_def pss_author_def pss_waypoint_def PersistentSafetyStorage_new_def\<close>)

lemma storage_calls_stored:
  "stored_in D p \<Longrightarrow> stored_in (written calls bls p D) (fold (storage_exec bls) calls p)"
proof (induction calls arbitrary: D p)
  case (Cons c calls)
  from Cons.IH [OF storage_exec_stored [OF Cons.prems]] show ?case by simp
qed simp

lemma written_same: "(\<And>d. CallSetSafetyData d \<notin> set calls) \<Longrightarrow> written calls bls p D = D"
proof (induction calls arbitrary: p)
  case (Cons c calls)
  have "CallSetSafetyData d \<notin> set calls" for d using Cons.prems by auto
  moreover have "\<nexists>d. c = CallSetSafetyData d" using Cons.prems by auto
  ultimately show ?case using Cons.IH by (simp split: storage_call.splits)
qed simp

end
