(* ===== verification/Safety_Rules.thy ===== *)
theory Safety_Rules
  imports Secure_Storage
begin

text \<open>
  The safety rules of a validator (\<open>consensus/safety-rules/src/safety_rules.rs\<close>,
  \<open>safety_rules_2chain.rs\<close>, \<open>consensus_state.rs\<close>): the component that holds the consensus
  key and decides which votes, timeouts and proposals to sign. Every handler is modelled in full,
  with its reads and writes of the persistent storage and all its errors; \<open>now\<close> is the time
  the check of a block reads from the clock.
\<close>

section \<open>Definitions\<close>

record safety_rules =
  sr_storage :: persistent_safety_storage
  sr_signer :: "validator_signer option"
  sr_epoch_state :: "epoch_state option"

record consensus_state =
  cs_safety_data :: safety_data
  cs_waypoint :: waypoint
  in_validator_set :: bool

type_synonym 'a sr = "(safety_rules, 'a, sr_error) exec"

definition on_storage :: "(persistent_safety_storage, 'a, sr_error) exec \<Rightarrow> 'a sr" where
  "on_storage m s = (case m (sr_storage s) of (r, p) \<Rightarrow> (r, s\<lparr>sr_storage := p\<rparr>))"

definition next_round :: "round_t \<Rightarrow> (round_t, sr_error) result" where
  "next_round round = ok_or (checked_add round 1) (IncorrectRound round)"

definition SafetyRules_new :: "persistent_safety_storage \<Rightarrow> safety_rules" where
  "SafetyRules_new p = \<lparr>sr_storage = p, sr_signer = None, sr_epoch_state = None\<rparr>"

definition signer :: "safety_rules \<Rightarrow> (validator_signer, sr_error) result" where
  "signer s = ok_or (sr_signer s) (NotInitialized ''validator_signer'')"

definition epoch_state_of :: "safety_rules \<Rightarrow> (epoch_state, sr_error) result" where
  "epoch_state_of s = ok_or (sr_epoch_state s) (NotInitialized ''epoch_state'')"

definition sr_sign :: "'m bls12381 \<Rightarrow> 'm \<Rightarrow> safety_rules \<Rightarrow> (signature, sr_error) result" where
  "sr_sign bls message s =
     bind_res (signer s) (\<lambda>sn. ok_or (ValidatorSigner_sign bls sn message) (SerializationError ''CryptoMaterialError''))"

definition observe_qc :: "quorum_cert \<Rightarrow> safety_data \<Rightarrow> bool \<times> safety_data" where
  "observe_qc qc sd =
     (let one_chain = bi_round (certified_block qc);
          two_chain = bi_round (parent_block qc);
          (updated, sd) = (if one_chain > one_chain_round sd
                           then (True, sd\<lparr>one_chain_round := one_chain\<rparr>) else (False, sd))
      in if two_chain > preferred_round sd
         then (True, sd\<lparr>preferred_round := two_chain\<rparr>) else (updated, sd))"

definition verify_and_update_preferred_round ::
  "quorum_cert \<Rightarrow> safety_data \<Rightarrow> (bool \<times> safety_data, sr_error) result" where
  "verify_and_update_preferred_round qc sd =
     (if bi_round (certified_block qc) < preferred_round sd
      then Err (IncorrectPreferredRound (bi_round (certified_block qc)) (preferred_round sd))
      else Ok (observe_qc qc sd))"

definition verify_author :: "author option \<Rightarrow> safety_rules \<Rightarrow> (unit, sr_error) result" where
  "verify_author author s =
     bind_res (signer s) (\<lambda>sn.
     bind_res (ok_or author (InvalidProposal (Msg ''No author found in the proposal''))) (\<lambda>a.
     ensure (signer_author sn = a) (InvalidProposal (Msg ''Proposal author is not validator signer!''))))"

definition verify_epoch :: "u64 \<Rightarrow> safety_data \<Rightarrow> (unit, sr_error) result" where
  "verify_epoch epoch sd = (if epoch \<noteq> sfd_epoch sd then Err (IncorrectEpoch epoch (sfd_epoch sd)) else Ok ())"

definition verify_and_update_last_vote_round :: "round_t \<Rightarrow> safety_data \<Rightarrow> (safety_data, sr_error) result" where
  "verify_and_update_last_vote_round round sd =
     (if round \<le> last_voted_round sd then Err (IncorrectLastVotedRound round (last_voted_round sd))
      else Ok (sd\<lparr>last_voted_round := round\<rparr>))"

definition verify_qc :: "consensus_crypto \<Rightarrow> quorum_cert \<Rightarrow> safety_rules \<Rightarrow> (unit, sr_error) result" where
  "verify_qc cc qc s =
     bind_res (epoch_state_of s) (\<lambda>es. map_err InvalidQuorumCertificate (QuorumCert_verify cc qc (es_verifier es)))"

definition verify_tc ::
  "consensus_crypto \<Rightarrow> two_chain_timeout_certificate \<Rightarrow> safety_rules \<Rightarrow> (unit, sr_error) result" where
  "verify_tc cc tc s =
     bind_res (epoch_state_of s) (\<lambda>es.
     map_err InvalidTimeoutCertificate (TwoChainTimeoutCertificate_verify cc tc (es_verifier es)))"

definition verify_proposal :: "consensus_crypto \<Rightarrow> u64 \<Rightarrow> vote_proposal \<Rightarrow> vote_data sr" where
  "verify_proposal cc now vp =
     (let proposed_block = vp_block vp in
     bind_ex (on_storage pss_safety_data) (\<lambda>sd.
     bind_ex (lift_ex (verify_epoch (blk_epoch proposed_block) sd)) (\<lambda>_.
     bind_ex (reads (verify_qc cc (blk_quorum_cert proposed_block))) (\<lambda>_.
     bind_ex (reads (\<lambda>s. bind_res (epoch_state_of s) (\<lambda>es.
       map_err InvalidProposal (validate_signature cc proposed_block (es_verifier es))))) (\<lambda>_.
     bind_ex (lift_ex (map_err InvalidProposal (verify_well_formed now proposed_block))) (\<lambda>_.
     lift_ex (map_err InvalidAccumulatorExtension (gen_vote_data cc vp))))))))"

text \<open>The author is read only for the trace output, if it is enabled.\<close>

definition guarded_consensus_state :: "bool \<Rightarrow> consensus_state sr" where
  "guarded_consensus_state tracing =
     bind_ex (on_storage pss_waypoint) (\<lambda>waypoint.
     bind_ex (on_storage pss_safety_data) (\<lambda>sd.
     bind_ex (if tracing then on_storage pss_author else lift_ex (Ok 0)) (\<lambda>_.
     bind_ex (on_storage pss_safety_data) (\<lambda>sd.
     bind_ex (on_storage pss_waypoint) (\<lambda>waypoint.
     reads (\<lambda>s. Ok \<lparr>cs_safety_data = sd, cs_waypoint = waypoint,
       in_validator_set = (case signer s of Ok _ \<Rightarrow> True | _ \<Rightarrow> False)\<rparr>))))))"

text \<open>
  The last part of the initialization: find the key of the validator for the new epoch. An error
  here clears the signer.
\<close>

definition reconcile_key :: "consensus_crypto \<Rightarrow> author \<Rightarrow> epoch_state \<Rightarrow> unit sr" where
  "reconcile_key cc author es s =
     (case get_public_key (es_verifier es) author of
        None \<Rightarrow> (Err (ValidatorNotInSet author), s)
      | Some expected_key \<Rightarrow>
          if (case sr_signer s of Some sn \<Rightarrow> ValidatorSigner_public_key (cc_bls cc) sn = expected_key | None \<Rightarrow> False)
          then (Ok (), s)
          else case on_storage (consensus_key_for_version (cc_bls cc) expected_key) s of
            (Ok consensus_key, s') \<Rightarrow>
              (Ok (), s'\<lparr>sr_signer := Some \<lparr>signer_author = author, signer_private_key = consensus_key\<rparr>\<rparr>)
          | (Err (SecureStorageMissingDataError error), s') \<Rightarrow> (Err (ValidatorKeyNotFound error), s')
          | (Err error, s') \<Rightarrow> (Err error, s')
          | (Panic, s') \<Rightarrow> (Panic, s'))"

definition guarded_initialize :: "consensus_crypto \<Rightarrow> waypoint_hasher \<Rightarrow> epoch_change_proof \<Rightarrow> unit sr" where
  "guarded_initialize cc wh pr =
     bind_ex (on_storage pss_waypoint) (\<lambda>waypoint.
     bind_ex (lift_ex (map_err InvalidEpochChangeProof
       (EpochChangeProof_verify (bls_ledger_info cc) pr (Waypoint_verifier wh waypoint)))) (\<lambda>last_li.
     let ledger_info = lis_ledger_info last_li in
     bind_ex (lift_ex (ok_or (li_next_epoch_state ledger_info) InvalidLedgerInfo)) (\<lambda>epoch_state.
     bind_ex (lift_ex (map_err InternalError (new_epoch_boundary wh ledger_info))) (\<lambda>new_waypoint.
     bind_ex (if wp_version new_waypoint > wp_version waypoint
              then on_storage (set_waypoint new_waypoint) else lift_ex (Ok ())) (\<lambda>_.
     bind_ex (on_storage pss_safety_data) (\<lambda>sd.
     bind_ex (if sfd_epoch sd > es_epoch epoch_state
              then lift_ex (Err (WaypointOutOfDate (wp_version waypoint) (wp_version new_waypoint)
                     (sfd_epoch sd) (es_epoch epoch_state)))
              else if sfd_epoch sd < es_epoch epoch_state
              then on_storage (set_safety_data (SafetyData_new (es_epoch epoch_state) 0 0 0 None))
              else lift_ex (Ok ())) (\<lambda>_.
     bind_ex (\<lambda>s. (Ok (), s\<lparr>sr_epoch_state := Some epoch_state\<rparr>)) (\<lambda>_.
     bind_ex (on_storage pss_author) (\<lambda>author s.
     case reconcile_key cc author epoch_state s of
       (Err error, s') \<Rightarrow> (Err error, s'\<lparr>sr_signer := None\<rparr>)
     | res \<Rightarrow> res)))))))))"

definition guarded_sign_proposal :: "consensus_crypto \<Rightarrow> block_data \<Rightarrow> signature sr" where
  "guarded_sign_proposal cc bd =
     bind_ex (reads signer) (\<lambda>_.
     bind_ex (reads (verify_author (BlockData_author bd))) (\<lambda>_.
     bind_ex (on_storage pss_safety_data) (\<lambda>sd.
     bind_ex (lift_ex (verify_epoch (bd_epoch bd) sd)) (\<lambda>_.
     bind_ex (lift_ex (if bd_round bd \<le> last_voted_round sd
       then Err (InvalidProposal (Msg ''Proposed round is not higher than last voted round'')) else Ok ())) (\<lambda>_.
     bind_ex (reads (verify_qc cc (bd_quorum_cert bd))) (\<lambda>_.
     bind_ex (lift_ex (verify_and_update_preferred_round (bd_quorum_cert bd) sd)) (\<lambda>_.
     reads (sr_sign (bls_block_data cc) bd))))))))"

definition guarded_sign_commit_vote ::
  "consensus_crypto \<Rightarrow> ledger_info_with_signatures \<Rightarrow> ledger_info \<Rightarrow> signature sr" where
  "guarded_sign_commit_vote cc lis new_ledger_info =
     bind_ex (reads signer) (\<lambda>_.
     let old_ledger_info = lis_ledger_info lis in
     bind_ex (lift_ex (if \<not> is_ordered_only (commit_info old_ledger_info)
       then Err (InvalidOrderedLedgerInfo old_ledger_info) else Ok ())) (\<lambda>_.
     bind_ex (lift_ex (if \<not> match_ordered_only (commit_info old_ledger_info) (commit_info new_ledger_info)
       then Err (InconsistentExecutionResult (commit_info old_ledger_info) (commit_info new_ledger_info))
       else Ok ())) (\<lambda>_.
     bind_ex (reads (\<lambda>s. bind_res (epoch_state_of s) (\<lambda>es.
       map_err (\<lambda>e. InvalidQuorumCertificate (FromVerify e)) (verify_signatures (bls_ledger_info cc) lis (es_verifier es))))) (\<lambda>_.
     reads (sr_sign (bls_ledger_info cc) new_ledger_info)))))"

subsection \<open>Two-chain rules\<close>

definition tc_round_or_0 :: "two_chain_timeout_certificate option \<Rightarrow> round_t" where
  "tc_round_or_0 tc = (case tc of None \<Rightarrow> 0 | Some tc \<Rightarrow> tc_round tc)"

definition tc_hqc_round_or_0 :: "two_chain_timeout_certificate option \<Rightarrow> round_t" where
  "tc_hqc_round_or_0 tc = (case tc of None \<Rightarrow> 0 | Some tc \<Rightarrow> highest_hqc_round tc)"

text \<open>
  The disjunctions are evaluated from the left: the second \<open>next_round\<close> is computed, and can
  fail, only if the first comparison is false.
\<close>

definition safe_to_timeout ::
  "two_chain_timeout \<Rightarrow> two_chain_timeout_certificate option \<Rightarrow> safety_data \<Rightarrow> (unit, sr_error) result" where
  "safe_to_timeout timeout maybe_tc sd =
     (let round = to_round timeout; qc_round = hqc_round timeout; tc_round = tc_round_or_0 maybe_tc in
     bind_res (next_round qc_round) (\<lambda>next_qc.
     bind_res (if round = next_qc then Ok True
               else bind_res (next_round tc_round) (\<lambda>next_tc. Ok (round = next_tc))) (\<lambda>next.
     if next \<and> qc_round \<ge> one_chain_round sd then Ok ()
     else Err (NotSafeToTimeout round qc_round tc_round (one_chain_round sd)))))"

definition safe_to_vote :: "block \<Rightarrow> two_chain_timeout_certificate option \<Rightarrow> (unit, sr_error) result" where
  "safe_to_vote b maybe_tc =
     (let round = blk_round b; qc_round = bi_round (certified_block (blk_quorum_cert b));
          tc_round = tc_round_or_0 maybe_tc; hqc_round = tc_hqc_round_or_0 maybe_tc in
     bind_res (next_round qc_round) (\<lambda>next_qc.
     bind_res (if round = next_qc then Ok True
               else bind_res (next_round tc_round) (\<lambda>next_tc. Ok (round = next_tc \<and> qc_round \<ge> hqc_round))) (\<lambda>safe.
     if safe then Ok () else Err (NotSafeToVote round qc_round tc_round hqc_round))))"

definition construct_ledger_info_2chain :: "block \<Rightarrow> hash_value \<Rightarrow> (ledger_info, sr_error) result" where
  "construct_ledger_info_2chain b h =
     bind_res (next_round (bi_round (certified_block (blk_quorum_cert b)))) (\<lambda>next.
     Ok \<lparr>commit_info = (if next = blk_round b then certified_block (blk_quorum_cert b) else BlockInfo_empty),
         consensus_data_hash = h\<rparr>)"

definition verify_tc_option ::
  "consensus_crypto \<Rightarrow> two_chain_timeout_certificate option \<Rightarrow> safety_rules \<Rightarrow> (unit, sr_error) result" where
  "verify_tc_option cc maybe_tc s = (case maybe_tc of None \<Rightarrow> Ok () | Some tc \<Rightarrow> verify_tc cc tc s)"

definition guarded_sign_timeout_with_qc ::
  "consensus_crypto \<Rightarrow> two_chain_timeout \<Rightarrow> two_chain_timeout_certificate option \<Rightarrow> signature sr" where
  "guarded_sign_timeout_with_qc cc timeout timeout_cert =
     bind_ex (reads signer) (\<lambda>_.
     bind_ex (on_storage pss_safety_data) (\<lambda>sd.
     bind_ex (lift_ex (verify_epoch (to_epoch timeout) sd)) (\<lambda>_.
     bind_ex (reads (\<lambda>s. bind_res (epoch_state_of s) (\<lambda>es.
       map_err InvalidTimeout (TwoChainTimeout_verify cc timeout (es_verifier es))))) (\<lambda>_.
     bind_ex (reads (verify_tc_option cc timeout_cert)) (\<lambda>_.
     bind_ex (lift_ex (safe_to_timeout timeout timeout_cert sd)) (\<lambda>_.
     bind_ex (lift_ex (if to_round timeout < last_voted_round sd
       then Err (IncorrectLastVotedRound (to_round timeout) (last_voted_round sd)) else Ok ())) (\<lambda>_.
     bind_ex (if to_round timeout > last_voted_round sd
              then bind_ex (lift_ex (verify_and_update_last_vote_round (to_round timeout) sd))
                     (\<lambda>sd'. on_storage (set_safety_data sd'))
              else lift_ex (Ok ())) (\<lambda>_.
     reads (sr_sign (bls_timeout cc) (signing_format timeout))))))))))"

definition sign_new_vote ::
  "consensus_crypto \<Rightarrow> block \<Rightarrow> vote_data \<Rightarrow> two_chain_timeout_certificate option \<Rightarrow> safety_data \<Rightarrow> vote sr" where
  "sign_new_vote cc proposed_block vd timeout_cert sd =
     bind_ex (lift_ex (verify_and_update_last_vote_round (blk_round proposed_block) sd)) (\<lambda>sd.
     bind_ex (lift_ex (safe_to_vote proposed_block timeout_cert)) (\<lambda>_.
     let sd = snd (observe_qc (blk_quorum_cert proposed_block) sd) in
     bind_ex (reads signer) (\<lambda>sn.
     bind_ex (lift_ex (construct_ledger_info_2chain proposed_block (hash_vote_data cc vd))) (\<lambda>ledger_info.
     bind_ex (reads (sr_sign (bls_ledger_info cc) ledger_info)) (\<lambda>sg.
     let vote = new_with_signature vd (signer_author sn) ledger_info sg in
     bind_ex (on_storage (set_safety_data (sd\<lparr>last_vote := Some vote\<rparr>))) (\<lambda>_.
     lift_ex (Ok vote)))))))"

definition guarded_construct_and_sign_vote_two_chain ::
  "consensus_crypto \<Rightarrow> u64 \<Rightarrow> vote_proposal \<Rightarrow> two_chain_timeout_certificate option \<Rightarrow> vote sr" where
  "guarded_construct_and_sign_vote_two_chain cc now vp timeout_cert =
     bind_ex (reads signer) (\<lambda>_.
     bind_ex (verify_proposal cc now vp) (\<lambda>vd.
     bind_ex (reads (verify_tc_option cc timeout_cert)) (\<lambda>_.
     bind_ex (on_storage pss_safety_data) (\<lambda>sd.
     if (case last_vote sd of
           Some vote \<Rightarrow> bi_round (vd_proposed (v_vote_data vote)) = blk_round (vp_block vp) | None \<Rightarrow> False)
     then lift_ex (Ok (the (last_vote sd)))
     else sign_new_vote cc (vp_block vp) vd timeout_cert sd))))"

end
