(* ===== verification/Safety_Runs.thy ===== *)
theory Safety_Runs
  imports Safety_Rules
begin

text \<open>
  The runs of a validator's safety rules: any sequence of calls of the interface
  \<open>TSafetyRules\<close>, with restarts that keep only the storage, and with storage accesses that fail
  in any way. The invariant ties the messages signed so far to the stored safety data; it gives
  the two facts the protocol needs of every validator: one vote per round, and no timeout that
  hides a certificate it has voted on.
\<close>

section \<open>Definitions\<close>

datatype sr_op =
    OpConsensusState bool
  | OpInitialize epoch_change_proof
  | OpSignProposal block_data
  | OpSignTimeout two_chain_timeout "two_chain_timeout_certificate option"
  | OpVote u64 vote_proposal "two_chain_timeout_certificate option"
  | OpSignCommitVote ledger_info_with_signatures ledger_info
  | OpRestart "(storage_error \<times> bool) option list" bool

text \<open>What a call hands out, if it succeeds.\<close>

datatype sr_event =
    Voted vote
  | TimedOut two_chain_timeout
  | Proposed block_data
  | CommitSigned ledger_info_with_signatures ledger_info

definition emit :: "('a \<Rightarrow> sr_event) \<Rightarrow> ('a, sr_error) result \<times> safety_rules \<Rightarrow> sr_event list \<times> safety_rules" where
  "emit f res = (case res of (Ok x, s) \<Rightarrow> ([f x], s) | (_, s) \<Rightarrow> ([], s))"

primrec sr_exec ::
  "consensus_crypto \<Rightarrow> waypoint_hasher \<Rightarrow> sr_op \<Rightarrow> safety_rules \<Rightarrow> sr_event list \<times> safety_rules" where
  "sr_exec cc wh (OpConsensusState tracing) s = ([], snd (guarded_consensus_state tracing s))"
| "sr_exec cc wh (OpInitialize pr) s = ([], snd (guarded_initialize cc wh pr s))"
| "sr_exec cc wh (OpSignProposal bd) s = emit (\<lambda>_. Proposed bd) (guarded_sign_proposal cc bd s)"
| "sr_exec cc wh (OpSignTimeout t tc) s = emit (\<lambda>_. TimedOut t) (guarded_sign_timeout_with_qc cc t tc s)"
| "sr_exec cc wh (OpVote now vp tc) s = emit Voted (guarded_construct_and_sign_vote_two_chain cc now vp tc s)"
| "sr_exec cc wh (OpSignCommitVote lis li) s = emit (\<lambda>_. CommitSigned lis li) (guarded_sign_commit_vote cc lis li s)"
| "sr_exec cc wh (OpRestart outcomes enable) s = ([], SafetyRules_new (PersistentSafetyStorage_new
     ((internal_store (sr_storage s))\<lparr>st_outcomes := outcomes\<rparr>) enable))"

text \<open>
  \<open>sr_trace\<close> relates the messages handed out and the state reached. The predicate \<open>env\<close>
  is what the environment keeps to: which calls it makes under which epoch state.
\<close>

inductive sr_trace ::
  "consensus_crypto \<Rightarrow> waypoint_hasher \<Rightarrow> (epoch_state option \<Rightarrow> sr_op \<Rightarrow> bool) \<Rightarrow> safety_rules \<Rightarrow>
   sr_event list \<Rightarrow> safety_rules \<Rightarrow> bool"
  for cc wh env s0 where
  start: "sr_trace cc wh env s0 [] s0"
| step: "sr_trace cc wh env s0 H s \<Longrightarrow> env (sr_epoch_state s) op \<Longrightarrow> sr_exec cc wh op s = (evs, s') \<Longrightarrow>
    sr_trace cc wh env s0 (H @ evs) s'"

abbreviation v_round :: "vote \<Rightarrow> round_t" where
  "v_round v \<equiv> bi_round (vd_proposed (v_vote_data v))"

abbreviation v_parent_round :: "vote \<Rightarrow> round_t" where
  "v_parent_round v \<equiv> bi_round (vd_parent (v_vote_data v))"

text \<open>What was checked, and under which epoch state, before a vote was first signed.\<close>

definition vote_checks ::
  "consensus_crypto \<Rightarrow> epoch_state \<Rightarrow> u64 \<Rightarrow> vote_proposal \<Rightarrow> two_chain_timeout_certificate option \<Rightarrow> vote \<Rightarrow> bool" where
  "vote_checks cc es now vp tc v \<longleftrightarrow>
     QuorumCert_verify cc (blk_quorum_cert (vp_block vp)) (es_verifier es) = Ok () \<and>
     verify_well_formed now (vp_block vp) = Ok () \<and> gen_vote_data cc vp = Ok (v_vote_data v) \<and>
     pred_option (\<lambda>tc. TwoChainTimeoutCertificate_verify cc tc (es_verifier es) = Ok ()) tc \<and>
     safe_to_vote (vp_block vp) tc = Ok () \<and>
     construct_ledger_info_2chain (vp_block vp) (hash_vote_data cc (v_vote_data v)) = Ok (v_ledger_info v)"

definition justified ::
  "consensus_crypto \<Rightarrow> (epoch_state option \<Rightarrow> sr_op \<Rightarrow> bool) \<Rightarrow> bool \<Rightarrow> vote \<Rightarrow> bool" where
  "justified cc env lossy v \<longleftrightarrow> (\<exists>es now vp tc. env (Some es) (OpVote now vp tc) \<and>
     (lossy \<or> es_epoch es = v_epoch v) \<and> vote_checks cc es now vp tc v)"

definition safe_history ::
  "consensus_crypto \<Rightarrow> (epoch_state option \<Rightarrow> sr_op \<Rightarrow> bool) \<Rightarrow> bool \<Rightarrow> sr_event list \<Rightarrow> bool" where
  "safe_history cc env lossy H \<longleftrightarrow>
     (\<forall>v v'. Voted v \<in> set H \<longrightarrow> Voted v' \<in> set H \<longrightarrow> v_epoch v = v_epoch v' \<longrightarrow> v_round v = v_round v' \<longrightarrow> v = v') \<and>
     (\<forall>v t. Voted v \<in> set H \<longrightarrow> TimedOut t \<in> set H \<longrightarrow> v_epoch v = to_epoch t \<longrightarrow> v_round v \<le> to_round t \<longrightarrow>
        v_parent_round v \<le> hqc_round t) \<and>
     (\<forall>v. Voted v \<in> set H \<longrightarrow> justified cc env lossy v)"

definition covers_vote :: "safety_data \<Rightarrow> vote \<Rightarrow> bool" where
  "covers_vote d v \<longleftrightarrow> v_round v \<le> last_voted_round d \<and> v_parent_round v \<le> one_chain_round d"

definition hist_inv ::
  "consensus_crypto \<Rightarrow> (epoch_state option \<Rightarrow> sr_op \<Rightarrow> bool) \<Rightarrow> bool \<Rightarrow> sr_event list \<Rightarrow> safety_data \<Rightarrow> bool" where
  "hist_inv cc env lossy H d \<longleftrightarrow>
     (\<forall>v. Voted v \<in> set H \<longrightarrow> v_epoch v \<le> sfd_epoch d \<and> (v_epoch v = sfd_epoch d \<longrightarrow> covers_vote d v \<and>
        (\<forall>lv. last_vote d = Some lv \<longrightarrow> v_round lv = v_round v \<longrightarrow> lv = v))) \<and>
     (\<forall>lv. last_vote d = Some lv \<longrightarrow> v_epoch lv = sfd_epoch d \<and> covers_vote d lv \<and> justified cc env lossy lv) \<and>
     (\<forall>t. TimedOut t \<in> set H \<longrightarrow> to_epoch t \<le> sfd_epoch d \<and> (to_epoch t = sfd_epoch d \<longrightarrow>
        to_round t \<le> last_voted_round d \<and>
        (\<forall>lv. last_vote d = Some lv \<longrightarrow> v_round lv \<le> to_round t \<longrightarrow> v_parent_round lv \<le> hqc_round t))) \<and>
     safe_history cc env lossy H"

text \<open>
  The state of the storage: the safety data \<open>d\<close> is stored, and cached if anything is. Unless
  \<open>lossy\<close>, no write that reports a failure is carried out.
\<close>

definition acked :: "bool \<Rightarrow> storage \<Rightarrow> bool" where
  "acked lossy st \<longleftrightarrow> lossy \<or> (\<forall>e. Some (e, True) \<notin> set (st_outcomes st))"

definition holds :: "bool \<Rightarrow> safety_data \<Rightarrow> epoch_state option \<Rightarrow> safety_rules \<Rightarrow> bool" where
  "holds lossy d eso s \<longleftrightarrow>
     st_data (internal_store (sr_storage s)) SAFETY_DATA = Some (StoredSafetyData d) \<and>
     cached_safety_data (sr_storage s) \<in> {None, Some d} \<and> sr_epoch_state s = eso \<and>
     acked lossy (internal_store (sr_storage s))"

definition sr_inv ::
  "consensus_crypto \<Rightarrow> (epoch_state option \<Rightarrow> sr_op \<Rightarrow> bool) \<Rightarrow> bool \<Rightarrow> sr_event list \<Rightarrow> safety_rules \<Rightarrow> bool" where
  "sr_inv cc env lossy H s \<longleftrightarrow> (\<exists>d eso. holds lossy d eso s \<and> hist_inv cc env lossy H d \<and>
     (lossy \<or> pred_option (\<lambda>es. es_epoch es = sfd_epoch d) eso))"

section \<open>Lemmas\<close>

subsection \<open>Histories\<close>

lemma hist_inv_new_vote:
  assumes "hist_inv cc env lossy H d" "v_epoch v = sfd_epoch d" "last_voted_round d < v_round v"
    and "justified cc env lossy v"
    and "sfd_epoch d' = sfd_epoch d" "last_voted_round d' = v_round v" "last_vote d' = Some v"
    and "one_chain_round d \<le> one_chain_round d'" "v_parent_round v \<le> one_chain_round d'"
  shows "hist_inv cc env lossy H d'" "hist_inv cc env lossy (H @ [Voted v]) d'"
proof -
  have old: "v_round u < v_round v \<and> v_parent_round u \<le> one_chain_round d'"
    if "Voted u \<in> set H" "v_epoch u = sfd_epoch d" for u
    using assms(1,3,8) that unfolding hist_inv_def covers_vote_def by (meson order.strict_trans1 order_trans)
  have old_t: "to_round t < v_round v" if "TimedOut t \<in> set H" "to_epoch t = sfd_epoch d" for t
    using assms(1,3) that unfolding hist_inv_def by (meson order.strict_trans1)
  have le: "\<And>u. Voted u \<in> set H \<Longrightarrow> v_epoch u \<le> sfd_epoch d" "\<And>t. TimedOut t \<in> set H \<Longrightarrow> to_epoch t \<le> sfd_epoch d"
    and safe: "safe_history cc env lossy H"
    using assms(1) unfolding hist_inv_def by blast+
  have lv: "covers_vote d' v" using assms(6,9) by (simp add: covers_vote_def)
  have "covers_vote d' u \<and> v_round v \<noteq> v_round u" if "Voted u \<in> set H" "v_epoch u = sfd_epoch d" for u
    using old [OF that] assms(6) by (auto simp: covers_vote_def)
  moreover have "\<not> v_round v \<le> to_round t" "to_round t \<le> last_voted_round d'"
    if "TimedOut t \<in> set H" "to_epoch t = sfd_epoch d" for t
    using old_t [OF that] assms(6) by (simp_all add: less_imp_le)
  ultimately show 1: "hist_inv cc env lossy H d'"
    unfolding hist_inv_def assms(5,7) using le lv safe assms(2,4) by auto
  have "v_round u \<noteq> v_round v" if "Voted u \<in> set H" "v_epoch u = v_epoch v" for u
    using old [OF that(1)] that(2) assms(2) by auto
  moreover have "\<not> v_round v \<le> to_round t" if "TimedOut t \<in> set H" "v_epoch v = to_epoch t" for t
    using old_t [OF that(1)] that(2) assms(2) by auto
  ultimately have "safe_history cc env lossy (H @ [Voted v])"
    using safe assms(4) unfolding safe_history_def by (intro conjI allI impI) (auto, metis+)
  with 1 show "hist_inv cc env lossy (H @ [Voted v]) d'"
    unfolding hist_inv_def assms(5,7) using lv assms(2) by auto
qed

lemma hist_inv_old_vote:
  assumes "hist_inv cc env lossy H d" "last_vote d = Some v"
  shows "hist_inv cc env lossy (H @ [Voted v]) d"
proof -
  have v: "v_epoch v = sfd_epoch d" "covers_vote d v" "justified cc env lossy v"
    using assms unfolding hist_inv_def by blast+
  have "safe_history cc env lossy (H @ [Voted v])"
    using assms v(1,3) unfolding hist_inv_def safe_history_def by auto
  with assms v show ?thesis unfolding hist_inv_def by auto
qed

lemma hist_inv_timeout:
  assumes "hist_inv cc env lossy H d" "to_epoch t = sfd_epoch d" "one_chain_round d \<le> hqc_round t"
    and "last_voted_round d \<le> to_round t" "d' = d\<lparr>last_voted_round := to_round t\<rparr>"
  shows "hist_inv cc env lossy H d'" "hist_inv cc env lossy (H @ [TimedOut t]) d'"
proof -
  have cov: "covers_vote d u \<Longrightarrow> covers_vote d' u" for u
    using assms(4,5) by (auto simp: covers_vote_def)
  have sel: "sfd_epoch d' = sfd_epoch d" "last_vote d' = last_vote d" "last_voted_round d' = to_round t"
    using assms(5) by simp_all
  show 1: "hist_inv cc env lossy H d'"
    using assms(1,4) cov unfolding hist_inv_def sel by (meson order_trans)
  have hqc: "covers_vote d u \<Longrightarrow> v_parent_round u \<le> hqc_round t" for u
    using assms(3) by (auto simp: covers_vote_def)
  have "safe_history cc env lossy (H @ [TimedOut t])"
    using assms(1,2) hqc unfolding hist_inv_def safe_history_def by auto
  with 1 show "hist_inv cc env lossy (H @ [TimedOut t]) d'"
    using assms(1,2) hqc unfolding hist_inv_def sel by auto
qed

lemma hist_inv_new_epoch:
  assumes "hist_inv cc env lossy H d" "sfd_epoch d < e"
  shows "hist_inv cc env lossy H (SafetyData_new e 0 0 0 None)"
  using assms unfolding hist_inv_def SafetyData_new_def
  by (auto dest: order.strict_trans1)

lemma hist_inv_other: "\<forall>v. ev \<noteq> Voted v \<Longrightarrow> \<forall>t. ev \<noteq> TimedOut t \<Longrightarrow>
    hist_inv cc env lossy H d \<Longrightarrow> hist_inv cc env lossy (H @ [ev]) d"
  unfolding hist_inv_def safe_history_def by auto

subsection \<open>Storage accesses\<close>

lemma next_outcome_subset: "next_outcome st = (oc, st') \<Longrightarrow> set (st_outcomes st') \<subseteq> set (st_outcomes st)"
  by (auto simp: next_outcome_def split: list.splits)

lemma next_outcome_in: "next_outcome st = (Some x, st') \<Longrightarrow> Some x \<in> set (st_outcomes st)"
  by (auto simp: next_outcome_def split: list.splits)

lemma acked_next: "next_outcome st = (oc, st') \<Longrightarrow> acked lossy st \<Longrightarrow> acked lossy st'"
  using next_outcome_subset unfolding acked_def by blast

lemma acked_data [simp]: "acked lossy (st\<lparr>st_data := f\<rparr>) = acked lossy st"
  by (simp add: acked_def)

lemma acked_get: "acked lossy st \<Longrightarrow> acked lossy (snd (kv_get decode k st))"
  by (auto simp: kv_get_def intro: acked_next split: prod.splits option.splits)

lemma acked_set: "acked lossy st \<Longrightarrow> acked lossy (snd (kv_set k v st))"
  by (auto simp: kv_set_def intro: acked_next split: prod.splits option.splits)

lemma kv_set_lost:
  assumes "fst (kv_set k v st) \<noteq> Ok ()" "acked False st"
  shows "st_data (snd (kv_set k v st)) = st_data st"
  using assms by (auto simp: kv_set_def acked_def next_outcome_data dest: next_outcome_in split: prod.splits option.splits)

lemma from_storage_Ok: "from_storage r = Ok x \<longleftrightarrow> r = Ok x"
proof (cases r)
  case (Err e)
  then show ?thesis by (cases e) auto
qed auto

lemma holds_on_store:
  assumes "\<And>st. st_data (snd (m st)) SAFETY_DATA = st_data st SAFETY_DATA"
    and "\<And>st. acked lossy st \<Longrightarrow> acked lossy (snd (m st))"
  shows "hoare (holds lossy d eso) (on_storage (on_store m))
    (\<lambda>x s. holds lossy d eso s \<and> (\<exists>st. st_data st SAFETY_DATA = Some (StoredSafetyData d) \<and> fst (m st) = Ok x))
    (holds lossy d eso)"
proof -
  have "holds lossy d eso s' \<and> r = from_storage (fst (m (internal_store (sr_storage s))))"
    if "holds lossy d eso s" "on_storage (on_store m) s = (r, s')" for s r s'
    using that assms [of "internal_store (sr_storage s)"]
    by (cases "m (internal_store (sr_storage s))") (auto simp: on_storage_def on_store_def holds_def)
  moreover have "st_data (internal_store (sr_storage s)) SAFETY_DATA = Some (StoredSafetyData d)"
    if "holds lossy d eso s" for s using that by (simp add: holds_def)
  ultimately show ?thesis by (intro hoareI) (metis from_storage_Ok)+
qed

lemmas store_keys = SAFETY_DATA_def OWNER_ACCOUNT_def CONSENSUS_KEY_def WAYPOINT_def

lemma holds_get:
  "hoare (holds lossy d eso) (on_storage (on_store (kv_get decode k))) (\<lambda>_. holds lossy d eso) (holds lossy d eso)"
  by (rule hoare_conseq [OF holds_on_store]) (simp_all add: acked_get)

lemma holds_waypoint [hoare_intro]:
  "hoare (holds lossy d eso) (on_storage pss_waypoint) (\<lambda>_. holds lossy d eso) (holds lossy d eso)"
  unfolding pss_waypoint_def by (rule holds_get)

lemma holds_author [hoare_intro]:
  "hoare (holds lossy d eso) (on_storage pss_author) (\<lambda>_. holds lossy d eso) (holds lossy d eso)"
  unfolding pss_author_def by (rule holds_get)

lemma holds_set_waypoint [hoare_intro]:
  "hoare (holds lossy d eso) (on_storage (set_waypoint w)) (\<lambda>_. holds lossy d eso) (holds lossy d eso)"
  unfolding set_waypoint_def
  by (rule hoare_conseq [OF holds_on_store]) (simp_all add: kv.put_other acked_set store_keys)

lemma on_storage_bind: "on_storage (bind_ex m f) = bind_ex (on_storage m) (\<lambda>x. on_storage (f x))"
  by (auto simp: fun_eq_iff on_storage_def bind_ex_def split: prod.splits result.splits)

lemma on_storage_lift: "on_storage (lift_ex r) = lift_ex r"
  by (auto simp: fun_eq_iff on_storage_def)

lemma holds_safety_data:
  "hoare (holds lossy d eso) (on_storage pss_safety_data) (\<lambda>sd s. sd = d \<and> holds lossy d eso s) (holds lossy d eso)"
proof -
  have uncached: "hoare (holds lossy d eso) (on_storage (on_store (kv_get decode_result SAFETY_DATA)))
      (\<lambda>_ _. False) (holds lossy d eso)"
    by (rule hoare_conseq [OF holds_on_store]) (auto simp: acked_get dest: kv_get_Ok)
  have cached: "hoare (holds lossy d eso) (on_storage (on_store (kv_get decode_safety_data SAFETY_DATA)))
      (\<lambda>sd s. sd = d \<and> holds lossy d eso s) (holds lossy d eso)"
    by (rule hoare_conseq [OF holds_on_store]) (auto simp: acked_get dest: kv_get_Ok)
  let ?Q = "\<lambda>sd s. sd = d \<and> holds lossy d eso s" and ?E = "holds lossy d eso"
  let ?m1 = "on_storage (bind_ex (on_store (kv_get decode_result SAFETY_DATA)) lift_ex)"
  let ?m2 = "on_storage (bind_ex (on_store (kv_get decode_safety_data SAFETY_DATA))
    (\<lambda>d p'. (Ok d, p'\<lparr>cached_safety_data := Some d\<rparr>)))"
  have 1: "hoare ?E ?m1 ?Q ?E"
    unfolding on_storage_bind by (rule hoare_bind [OF uncached]) (simp add: hoare_def)
  have 2: "hoare ?E ?m2 ?Q ?E"
    unfolding on_storage_bind by (rule hoare_bind [OF cached]) (auto simp: hoare_def on_storage_def holds_def)
  have cases: "on_storage pss_safety_data s = ?m1 s \<or> on_storage pss_safety_data s = ?m2 s \<or>
      on_storage pss_safety_data s = (Ok d, s)" if "?E s" for s
    using that by (auto simp: on_storage_def pss_safety_data_def holds_def)
  show ?thesis
  proof (rule hoareI)
    fix s sd s' assume E: "?E s" and e: "on_storage pss_safety_data s = (Ok sd, s')"
    from cases [OF E] consider "?m1 s = (Ok sd, s')" | "?m2 s = (Ok sd, s')" | "sd = d" "s' = s"
      unfolding e by auto
    then show "?Q sd s'" by cases (simp_all add: hoareD [OF 1 E] hoareD [OF 2 E] E)
  next
    fix s r s' assume E: "?E s" and e: "on_storage pss_safety_data s = (r, s')" and r: "\<forall>x. r \<noteq> Ok x"
    from cases [OF E] r consider "?m1 s = (r, s')" | "?m2 s = (r, s')"
      unfolding e by auto
    then show "?E s'" by cases (simp_all add: hoare_failD [OF 1 E _ r] hoare_failD [OF 2 E _ r])
  qed
qed

lemma holds_set_safety_data:
  "hoare (holds lossy d eso) (on_storage (set_safety_data d')) (\<lambda>_. holds lossy d' eso)
     (\<lambda>s. holds lossy d eso s \<or> lossy \<and> holds lossy d' eso s)"
proof -
  have "(case r of Ok _ \<Rightarrow> holds lossy d' eso s' | _ \<Rightarrow> holds lossy d eso s' \<or> lossy \<and> holds lossy d' eso s')"
    if h: "holds lossy d eso s" and e: "on_storage (set_safety_data d') s = (r, s')" for s r s'
  proof -
    let ?st = "internal_store (sr_storage s)" and ?v = "StoredSafetyData d'"
    obtain q st where g: "kv_set SAFETY_DATA ?v ?st = (q, st)" by (cases "kv_set SAFETY_DATA ?v ?st")
    have "q \<noteq> Panic" using g by (auto simp: kv_set_def split: prod.splits option.splits)
    then show ?thesis
      using h e g kv_set_cases [of SAFETY_DATA ?v ?st] acked_set [of lossy ?st SAFETY_DATA ?v]
        kv_set_lost [of SAFETY_DATA ?v ?st]
      by (cases q; cases lossy) (auto simp: on_storage_def set_safety_data_def holds_def)
  qed
  then show ?thesis unfolding hoare_def by blast
qed

lemma holds_bind_safety_data:
  assumes "hoare (holds lossy d eso) (f d) Q E" "\<And>s. holds lossy d eso s \<Longrightarrow> E s"
  shows "hoare (holds lossy d eso) (bind_ex (on_storage pss_safety_data) f) Q E"
proof (rule hoare_bind)
  show "hoare (holds lossy d eso) (on_storage pss_safety_data) (\<lambda>sd s. sd = d \<and> holds lossy d eso s) E"
    by (rule hoare_conseq [OF holds_safety_data]) (use assms(2) in auto)
  show "hoare (\<lambda>s. x = d \<and> holds lossy d eso s) (f x) Q E" for x
    by (rule hoare_pre [of _ "x = d"]) (use assms(1) in \<open>auto simp: hoare_def\<close>)
qed

subsection \<open>Handlers\<close>

definition epoch_ok :: "bool \<Rightarrow> safety_data \<Rightarrow> epoch_state option \<Rightarrow> bool" where
  "epoch_ok lossy d eso \<longleftrightarrow> lossy \<or> pred_option (\<lambda>es. es_epoch es = sfd_epoch d) eso"

lemma sr_invI: "holds lossy d eso s \<Longrightarrow> hist_inv cc env lossy H d \<Longrightarrow> epoch_ok lossy d eso \<Longrightarrow> sr_inv cc env lossy H s"
  unfolding sr_inv_def epoch_ok_def by blast

lemma epoch_checks:
  assumes "holds lossy d eso s"
  shows "verify_qc cc qc s = Ok () \<Longrightarrow> \<exists>es. eso = Some es \<and> QuorumCert_verify cc qc (es_verifier es) = Ok ()"
    and "verify_tc_option cc tco s = Ok () \<Longrightarrow>
      pred_option (\<lambda>tc. \<exists>es. eso = Some es \<and> TwoChainTimeoutCertificate_verify cc tc (es_verifier es) = Ok ()) tco"
  using assms by (auto simp: verify_qc_def verify_tc_option_def verify_tc_def epoch_state_of_def holds_def res_iff
    split: option.splits)

lemma safe_to_timeout_Ok:
  "safe_to_timeout t tco sd = Ok () \<Longrightarrow> one_chain_round sd \<le> hqc_round t"
  by (auto simp: safe_to_timeout_def Let_def res_iff split: if_splits)

lemma timeout_handler:
  assumes inv: "hist_inv cc env lossy H d" and ep: "epoch_ok lossy d eso"
  shows "hoare (holds lossy d eso) (guarded_sign_timeout_with_qc cc t tco)
    (\<lambda>_. sr_inv cc env lossy (H @ [TimedOut t])) (sr_inv cc env lossy H)"
proof -
  let ?d = "d\<lparr>last_voted_round := to_round t\<rparr>"
  have E: "sr_inv cc env lossy H s" if "holds lossy d eso s" for s by (rule sr_invI [OF that inv ep])
  have ep': "epoch_ok lossy ?d eso" using ep by (simp add: epoch_ok_def)
  have sign: "hoare (holds lossy ?d eso) (reads (sr_sign (bls_timeout cc) (signing_format t)))
      (\<lambda>_. sr_inv cc env lossy (H @ [TimedOut t])) (sr_inv cc env lossy H)"
    if "verify_epoch (to_epoch t) d = Ok ()" "safe_to_timeout t tco d = Ok ()" "last_voted_round d \<le> to_round t"
  proof -
    have "to_epoch t = sfd_epoch d" using that(1) by (simp add: verify_epoch_def split: if_splits)
    note * = hist_inv_timeout [OF inv this safe_to_timeout_Ok [OF that(2)] that(3) refl]
    show ?thesis by (rule hoare_reads) (blast intro: sr_invI * ep')+
  qed
  have store: "hoare (holds lossy d eso)
      (if to_round t > last_voted_round d
       then bind_ex (lift_ex (verify_and_update_last_vote_round (to_round t) d)) (\<lambda>sd'. on_storage (set_safety_data sd'))
       else lift_ex (Ok ())) (\<lambda>_. holds lossy ?d eso) (sr_inv cc env lossy H)"
    if "verify_epoch (to_epoch t) d = Ok ()" "safe_to_timeout t tco d = Ok ()" "last_voted_round d \<le> to_round t"
  proof (cases "to_round t > last_voted_round d")
    case True
    have "to_epoch t = sfd_epoch d" using that(1) by (simp add: verify_epoch_def split: if_splits)
    note * = hist_inv_timeout(1) [OF inv this safe_to_timeout_Ok [OF that(2)] that(3) refl]
    have "hoare (holds lossy d eso) (on_storage (set_safety_data ?d)) (\<lambda>_. holds lossy ?d eso) (sr_inv cc env lossy H)"
      by (rule hoare_conseq [OF holds_set_safety_data]) (use E sr_invI [OF _ * ep'] in auto)
    then show ?thesis
      using True by (auto simp: verify_and_update_last_vote_round_def intro!: hoare_bind_lift E)
  next
    case False
    with that(3) have "?d = d" by simp
    then show ?thesis using False by (simp add: hoare_lift E)
  qed
  show ?thesis
    unfolding guarded_sign_timeout_with_qc_def
    apply (rule hoare_bind_reads [where C = "\<lambda>_. True"], simp, rule holds_bind_safety_data)
     apply (rule hoare_bind_lift, rule hoare_bind_reads [where C = "\<lambda>_. True"], simp)
      apply (rule hoare_bind_reads [where C = "\<lambda>_. True"], simp, rule hoare_bind_lift, rule hoare_bind_lift)
    subgoal by (rule hoare_bind [OF store], simp_all add: not_less split: if_splits) (rule sign; simp add: not_less split: if_splits)
    by (rule E, assumption)+
qed

lemma observe_qc_simps [simp]:
  "sfd_epoch (snd (observe_qc qc d)) = sfd_epoch d"
  "last_voted_round (snd (observe_qc qc d)) = last_voted_round d"
  "one_chain_round (snd (observe_qc qc d)) = max (one_chain_round d) (bi_round (certified_block qc))"
  by (auto simp: observe_qc_def Let_def)

lemma proposal_checks:
  "hoare (holds lossy d eso) (verify_proposal cc now vp) (\<lambda>vd s. holds lossy d eso s \<and>
     (\<exists>es. eso = Some es \<and> QuorumCert_verify cc (blk_quorum_cert (vp_block vp)) (es_verifier es) = Ok ()) \<and>
     blk_epoch (vp_block vp) = sfd_epoch d \<and> verify_well_formed now (vp_block vp) = Ok () \<and>
     gen_vote_data cc vp = Ok vd) (holds lossy d eso)"
  unfolding verify_proposal_def Let_def
  apply (rule holds_bind_safety_data, rule hoare_bind_lift)
    apply (rule hoare_bind_reads [where C = "\<lambda>_. \<exists>es. eso = Some es \<and>
      QuorumCert_verify cc (blk_quorum_cert (vp_block vp)) (es_verifier es) = Ok ()"])
      apply (rule epoch_checks, assumption, simp)
     apply (rule hoare_bind_reads [where C = "\<lambda>_. True"], simp, rule hoare_bind_lift, rule hoare_lift)
  by (auto simp: map_err_Ok_iff verify_epoch_def split: if_splits)

lemma new_vote_handler:
  assumes inv: "hist_inv cc env lossy H d" and ep: "epoch_ok lossy d (Some es)"
    and env: "env (Some es) (OpVote now vp tco)" and epoch: "blk_epoch (vp_block vp) = sfd_epoch d"
    and qc: "QuorumCert_verify cc (blk_quorum_cert (vp_block vp)) (es_verifier es) = Ok ()"
    and wf: "verify_well_formed now (vp_block vp) = Ok ()" and vd: "gen_vote_data cc vp = Ok vd"
    and tc: "pred_option (\<lambda>tc. TwoChainTimeoutCertificate_verify cc tc (es_verifier es) = Ok ()) tco"
  shows "hoare (holds lossy d (Some es)) (sign_new_vote cc (vp_block vp) vd tco d)
    (\<lambda>v. sr_inv cc env lossy (H @ [Voted v])) (sr_inv cc env lossy H)"
proof -
  let ?b = "vp_block vp"
  let ?d = "snd (observe_qc (blk_quorum_cert ?b) (d\<lparr>last_voted_round := blk_round ?b\<rparr>))"
  have E: "sr_inv cc env lossy H s" if "holds lossy d (Some es) s" for s by (rule sr_invI [OF that inv ep])
  have set: "hoare (holds lossy d (Some es)) (bind_ex (on_storage (set_safety_data (?d\<lparr>last_vote := Some v\<rparr>))) (\<lambda>_. lift_ex (Ok v)))
      (\<lambda>v. sr_inv cc env lossy (H @ [Voted v])) (sr_inv cc env lossy H)"
    if new: "last_voted_round d < blk_round ?b" and safe: "safe_to_vote ?b tco = Ok ()"
      and li: "construct_ledger_info_2chain ?b (hash_vote_data cc vd) = Ok li"
      and v: "v = new_with_signature vd (signer_author sn) li sg" for v li sn sg
  proof -
    note b = gen_vote_data_parent [OF vd]
    have j: "justified cc env lossy v"
      unfolding justified_def vote_checks_def
      by (intro exI [of _ es] exI [of _ now] exI [of _ vp] exI [of _ tco])
        (use env ep qc wf vd tc safe li v epoch b in \<open>auto simp: epoch_ok_def new_with_signature_def\<close>)
    note h = hist_inv_new_vote [OF inv _ _ j, of "?d\<lparr>last_vote := Some v\<rparr>"]
    have "hist_inv cc env lossy H (?d\<lparr>last_vote := Some v\<rparr>)"
      "hist_inv cc env lossy (H @ [Voted v]) (?d\<lparr>last_vote := Some v\<rparr>)"
      by (rule h; use b epoch new v in \<open>simp add: new_with_signature_def\<close>)+
    moreover have "epoch_ok lossy (?d\<lparr>last_vote := Some v\<rparr>) (Some es)" using ep by (simp add: epoch_ok_def)
    ultimately have I: "sr_inv cc env lossy H s" "sr_inv cc env lossy (H @ [Voted v]) s"
      if "holds lossy (?d\<lparr>last_vote := Some v\<rparr>) (Some es) s" for s
      using sr_invI [OF that] by blast+
    have "hoare (holds lossy d (Some es)) (on_storage (set_safety_data (?d\<lparr>last_vote := Some v\<rparr>)))
        (\<lambda>_. holds lossy (?d\<lparr>last_vote := Some v\<rparr>) (Some es)) (sr_inv cc env lossy H)"
      by (rule hoare_conseq [OF holds_set_safety_data]) (use E I in auto)
    then show ?thesis by (rule hoare_bind) (rule hoare_lift, use I in auto)
  qed
  show ?thesis
    unfolding sign_new_vote_def verify_and_update_last_vote_round_def Let_def
    apply (rule hoare_bind_lift, rule hoare_bind_lift, rule hoare_bind_reads [where C = "\<lambda>_. True"], simp)
       apply (rule hoare_bind_lift, rule hoare_bind_reads [where C = "\<lambda>_. True"], simp)
    subgoal for sd u sn li sg using set [OF _ _ _ refl, of li sn sg] by (auto simp: not_le split: if_splits)
    by (rule E, assumption)+
qed

lemma vote_handler:
  assumes inv: "hist_inv cc env lossy H d" and ep: "epoch_ok lossy d eso" and env: "env eso (OpVote now vp tco)"
  shows "hoare (holds lossy d eso) (guarded_construct_and_sign_vote_two_chain cc now vp tco)
    (\<lambda>v. sr_inv cc env lossy (H @ [Voted v])) (sr_inv cc env lossy H)"
proof -
  have E: "sr_inv cc env lossy H s" if "holds lossy d eso s" for s by (rule sr_invI [OF that inv ep])
  have old: "sr_inv cc env lossy (H @ [Voted v]) s" if "holds lossy d eso s" "last_vote d = Some v" for s v
    using sr_invI [OF that(1) hist_inv_old_vote [OF inv that(2)] ep] .
  let ?C = "\<lambda>vd. (\<exists>es. eso = Some es \<and> QuorumCert_verify cc (blk_quorum_cert (vp_block vp)) (es_verifier es) = Ok ()) \<and>
     blk_epoch (vp_block vp) = sfd_epoch d \<and> verify_well_formed now (vp_block vp) = Ok () \<and> gen_vote_data cc vp = Ok vd"
  let ?T = "pred_option (\<lambda>tc. \<exists>es. eso = Some es \<and> TwoChainTimeoutCertificate_verify cc tc (es_verifier es) = Ok ()) tco"
  have body: "hoare (holds lossy d eso) (if (case last_vote d of
        Some vote \<Rightarrow> v_round vote = blk_round (vp_block vp) | None \<Rightarrow> False)
      then lift_ex (Ok (the (last_vote d))) else sign_new_vote cc (vp_block vp) vd tco d)
      (\<lambda>v. sr_inv cc env lossy (H @ [Voted v])) (sr_inv cc env lossy H)" if C: "?C vd" and T: ?T for vd
  proof (rule hoare_if)
    from C obtain es where es: "eso = Some es"
      "QuorumCert_verify cc (blk_quorum_cert (vp_block vp)) (es_verifier es) = Ok ()" by blast
    then have "pred_option (\<lambda>tc. TwoChainTimeoutCertificate_verify cc tc (es_verifier es) = Ok ()) tco"
      using T by (simp add: option.pred_inject)
    with C es show "hoare (holds lossy d eso) (sign_new_vote cc (vp_block vp) vd tco d)
        (\<lambda>v. sr_inv cc env lossy (H @ [Voted v])) (sr_inv cc env lossy H)"
      using new_vote_handler [OF inv ep [unfolded es(1)] env [unfolded es(1)]] by blast
  qed (rule hoare_lift, use old E in \<open>auto split: option.splits\<close>)
  have "hoare (holds lossy d eso) (verify_proposal cc now vp) (\<lambda>vd s. holds lossy d eso s \<and> ?C vd) (sr_inv cc env lossy H)"
    by (rule hoare_conseq [OF proposal_checks]) (use E in auto)
  then show ?thesis
    unfolding guarded_construct_and_sign_vote_two_chain_def
    apply (intro hoare_bind_reads [where C = "\<lambda>_. True"], simp)
     apply (rule hoare_bind_pure [where C = ?C], assumption)
     apply (rule hoare_bind_reads [where C = "\<lambda>_. ?T"], rule epoch_checks(2), assumption, simp)
      apply (rule holds_bind_safety_data)
       apply (rule body; assumption)
    by (rule E, assumption)+
qed

lemma holds_keep_safety_data [hoare_intro]:
  "hoare (holds lossy d eso) (on_storage pss_safety_data) (\<lambda>_. holds lossy d eso) (holds lossy d eso)"
  by (rule hoare_conseq [OF holds_safety_data]) auto

lemma consensus_state_handler:
  "hoare (holds lossy d eso) (guarded_consensus_state tracing) (\<lambda>_. holds lossy d eso) (holds lossy d eso)"
  unfolding guarded_consensus_state_def by (intro hoare_intro hoare_if)

lemma sign_proposal_handler:
  "hoare (holds lossy d eso) (guarded_sign_proposal cc bd) (\<lambda>_. holds lossy d eso) (holds lossy d eso)"
  unfolding guarded_sign_proposal_def by (intro hoare_intro)

lemma sign_commit_vote_handler:
  "hoare (holds lossy d eso) (guarded_sign_commit_vote cc lis li) (\<lambda>_. holds lossy d eso) (holds lossy d eso)"
  unfolding guarded_sign_commit_vote_def Let_def by (intro hoare_intro)

lemma reconcile_key_handler:
  "hoare (holds lossy d eso) (\<lambda>s. case reconcile_key cc author es s of
       (Err error, s') \<Rightarrow> (Err error, s'\<lparr>sr_signer := None\<rparr>) | res \<Rightarrow> res)
     (\<lambda>_. holds lossy d eso) (holds lossy d eso)"
proof -
  have k: "hoare (holds lossy d eso) (on_storage (consensus_key_for_version (cc_bls cc) pk)) (\<lambda>_. holds lossy d eso) (holds lossy d eso)"
    for pk unfolding consensus_key_for_version_def on_storage_bind on_storage_lift by (intro hoare_intro holds_get)
  have signer: "holds lossy d eso (s\<lparr>sr_signer := x\<rparr>) = holds lossy d eso s" for s x by (simp add: holds_def)
  have "holds lossy d eso s'" if "holds lossy d eso s" "reconcile_key cc author es s = (r, s')" for s r s'
  proof (cases "get_public_key (es_verifier es) author")
    case (Some pk)
    obtain q s1 where q: "on_storage (consensus_key_for_version (cc_bls cc) pk) s = (q, s1)"
      by (cases "on_storage (consensus_key_for_version (cc_bls cc) pk) s")
    have "holds lossy d eso s1"
      using hoareD [OF k that(1), of pk _ s1] hoare_failD [OF k that(1) q] q by (cases q) auto
    then show ?thesis
      using that q Some unfolding reconcile_key_def
      by (cases q) (auto simp: signer split: if_splits sr_error.splits)
  qed (use that in \<open>simp add: reconcile_key_def\<close>)
  then show ?thesis
    by (intro hoareI) (auto simp: signer split: prod.splits result.splits)
qed

lemma enter_epoch_handler:
  assumes inv: "hist_inv cc env lossy H d" and epoch: "sfd_epoch d = es_epoch es"
  shows "hoare (holds lossy d eso) (bind_ex (\<lambda>s. (Ok (), s\<lparr>sr_epoch_state := Some es\<rparr>))
      (\<lambda>_. bind_ex (on_storage pss_author) (\<lambda>author s. case reconcile_key cc author es s of
        (Err error, s') \<Rightarrow> (Err error, s'\<lparr>sr_signer := None\<rparr>) | res \<Rightarrow> res)))
    (\<lambda>_. sr_inv cc env lossy H) (sr_inv cc env lossy H)"
proof (rule hoare_bind)
  have I: "sr_inv cc env lossy H s" if "holds lossy d (Some es) s" for s
    by (rule sr_invI [OF that inv]) (use epoch in \<open>simp add: epoch_ok_def\<close>)
  show "hoare (holds lossy d eso) (\<lambda>s. (Ok (), s\<lparr>sr_epoch_state := Some es\<rparr>))
      (\<lambda>_. holds lossy d (Some es)) (sr_inv cc env lossy H)"
    by (auto simp: hoare_def holds_def)
  show "hoare (holds lossy d (Some es)) (bind_ex (on_storage pss_author) (\<lambda>author s. case reconcile_key cc author es s of
      (Err error, s') \<Rightarrow> (Err error, s'\<lparr>sr_signer := None\<rparr>) | res \<Rightarrow> res))
      (\<lambda>_. sr_inv cc env lossy H) (sr_inv cc env lossy H)"
    by (rule hoare_conseq [OF hoare_keep(1) [OF holds_author reconcile_key_handler]]) (use I in auto)
qed

lemma initialize_handler:
  assumes inv: "hist_inv cc env lossy H d" and ep: "epoch_ok lossy d eso"
  shows "hoare (holds lossy d eso) (guarded_initialize cc wh pr) (\<lambda>_. sr_inv cc env lossy H) (sr_inv cc env lossy H)"
proof -
  have E: "sr_inv cc env lossy H s" if "holds lossy d eso s" for s by (rule sr_invI [OF that inv ep])
  let ?new = "\<lambda>es. SafetyData_new (es_epoch es) 0 0 0 None"
  let ?R = "\<lambda>es s. \<exists>d' :: safety_data. holds lossy d' eso s \<and> hist_inv cc env lossy H d' \<and> sfd_epoch d' = es_epoch es"
  have set: "hoare (holds lossy d eso) (on_storage (set_safety_data (?new es))) (\<lambda>_. ?R es) (sr_inv cc env lossy H)"
    if "sfd_epoch d < es_epoch es" for es
  proof -
    note * = hist_inv_new_epoch [OF inv that]
    have "sr_inv cc env lossy H s" if "holds lossy (?new es) eso s" lossy for s
      by (rule sr_invI [OF that(1) *]) (use that in \<open>simp add: epoch_ok_def\<close>)
    then show ?thesis
      by (intro hoare_conseq [OF holds_set_safety_data]) (use E * in \<open>auto simp: SafetyData_new_def\<close>)
  qed
  have epoch: "hoare (holds lossy d eso) (if sfd_epoch d > es_epoch es
       then lift_ex (Err (WaypointOutOfDate a b (sfd_epoch d) (es_epoch es)))
       else if sfd_epoch d < es_epoch es then on_storage (set_safety_data (?new es)) else lift_ex (Ok ()))
      (\<lambda>_. ?R es) (sr_inv cc env lossy H)" for es a b
    by (intro hoare_if set) (auto intro!: hoare_lift E exI [of _ d] inv)
  have rest: "hoare (?R es) (bind_ex (\<lambda>s. (Ok (), s\<lparr>sr_epoch_state := Some es\<rparr>)) (\<lambda>_. bind_ex (on_storage pss_author) (\<lambda>author s.
      case reconcile_key cc author es s of (Err error, s') \<Rightarrow> (Err error, s'\<lparr>sr_signer := None\<rparr>) | res \<Rightarrow> res)))
      (\<lambda>_. sr_inv cc env lossy H) (sr_inv cc env lossy H)" for es
    by (rule hoare_ex, rule hoare_pure) (rule enter_epoch_handler; simp)
  have keep: "hoare (holds lossy d eso) m (\<lambda>_. holds lossy d eso) (sr_inv cc env lossy H)"
    if "hoare (holds lossy d eso) m (\<lambda>_. holds lossy d eso) (holds lossy d eso)" for m :: "'a sr"
    by (rule hoare_conseq [OF that]) (use E in auto)
  show ?thesis
    unfolding guarded_initialize_def Let_def
    apply (rule hoare_bind, rule keep, rule holds_waypoint)
    apply (rule hoare_bind_lift, rule hoare_bind_lift, rule hoare_bind_lift)
       apply (rule hoare_bind, rule keep, rule hoare_if [OF holds_set_waypoint hoare_keep(3)])
       apply (rule holds_bind_safety_data, rule hoare_bind, rule epoch, rule rest)
    by (rule E, assumption)+
qed

subsection \<open>Runs\<close>

lemma emit_cases:
  assumes "hoare (holds lossy d eso) m (\<lambda>x. sr_inv cc env lossy (H @ [f x])) (sr_inv cc env lossy H)"
    and "holds lossy d eso s" "emit f (m s) = (evs, s')"
  shows "sr_inv cc env lossy (H @ evs) s'"
proof -
  obtain r s1 where r: "m s = (r, s1)" by (cases "m s")
  then show ?thesis
    using hoareD [OF assms(1,2)] hoare_failD [OF assms(1,2) r] assms(3) by (cases r) (auto simp: emit_def)
qed

lemma keep_other:
  assumes "hoare (holds lossy d eso) m (\<lambda>_. holds lossy d eso) (holds lossy d eso)"
    and "hist_inv cc env lossy H d" "epoch_ok lossy d eso" "\<And>x v. f x \<noteq> Voted v" "\<And>x t. f x \<noteq> TimedOut t"
  shows "hoare (holds lossy d eso) m (\<lambda>x. sr_inv cc env lossy (H @ [f x])) (sr_inv cc env lossy H)"
proof -
  have "sr_inv cc env lossy (H @ [f x]) s" "sr_inv cc env lossy H s" if "holds lossy d eso s" for x s
    using assms by (auto intro!: sr_invI [OF that] hist_inv_other)
  then show ?thesis by (intro hoare_conseq [OF assms(1)])
qed

lemma hoare_snd: "hoare P m (\<lambda>_. Q) Q \<Longrightarrow> P s \<Longrightarrow> Q (snd (m s))"
  by (cases "m s"; cases "fst (m s)") (auto dest: hoareD hoare_failD)

lemma sr_exec_inv:
  assumes "sr_inv cc env lossy H s" "env (sr_epoch_state s) op" "sr_exec cc wh op s = (evs, s')"
    and restart: "\<And>outcomes b. op = OpRestart outcomes b \<Longrightarrow> lossy \<or> (\<forall>e. Some (e, True) \<notin> set outcomes)"
  shows "sr_inv cc env lossy (H @ evs) s'"
proof -
  obtain d eso where h: "holds lossy d eso s" and inv: "hist_inv cc env lossy H d" and ep: "epoch_ok lossy d eso"
    using assms(1) unfolding sr_inv_def epoch_ok_def by blast
  have eso: "sr_epoch_state s = eso" using h by (simp add: holds_def)
  show ?thesis
  proof (cases op)
    case (OpConsensusState b)
    have "holds lossy d eso (snd (guarded_consensus_state b s))"
      by (rule hoare_snd [OF consensus_state_handler h])
    then show ?thesis using assms(3) OpConsensusState sr_invI [OF _ inv ep] by auto
  next
    case (OpInitialize pr)
    then show ?thesis using assms(3) hoare_snd [OF initialize_handler [OF inv ep] h] by auto
  next
    case (OpSignProposal bd)
    then show ?thesis
      using emit_cases [OF keep_other [OF sign_proposal_handler inv ep, where f = "\<lambda>_. Proposed bd"] h] assms(3) by auto
  next
    case (OpSignTimeout t tc)
    then show ?thesis using emit_cases [where f = "\<lambda>_. TimedOut t", OF timeout_handler [OF inv ep] h] assms(3) by auto
  next
    case (OpVote now vp tc)
    then show ?thesis using emit_cases [where f = Voted, OF vote_handler [where env = env, OF inv ep] h] assms(2,3) eso by auto
  next
    case (OpSignCommitVote lis li)
    then show ?thesis
      using emit_cases [OF keep_other [OF sign_commit_vote_handler inv ep, where f = "\<lambda>_. CommitSigned lis li"] h] assms(3) by auto
  next
    case (OpRestart outcomes b)
    have "holds lossy d None s'"
      using h assms(3) OpRestart restart
      by (auto simp: holds_def SafetyRules_new_def PersistentSafetyStorage_new_def acked_def)
    then show ?thesis using sr_invI [OF _ inv] OpRestart assms(3) by (auto simp: epoch_ok_def)
  qed
qed

text \<open>What was checked, and under which epoch state, before a commit vote was signed.\<close>

lemma commit_signed_checks:
  assumes "sr_trace cc wh env s0 H s" "CommitSigned lis li \<in> set H"
  shows "\<exists>es. env (Some es) (OpSignCommitVote lis li) \<and> is_ordered_only (commit_info (lis_ledger_info lis)) \<and>
    match_ordered_only (commit_info (lis_ledger_info lis)) (commit_info li)"
  using assms
proof induction
  case (step H s op evs s')
  show ?case
  proof (cases "CommitSigned lis li \<in> set H")
    case False
    then have "CommitSigned lis li \<in> set evs" using step.prems by simp
    then obtain sg where op: "op = OpSignCommitVote lis li" and sg: "guarded_sign_commit_vote cc lis li s = (Ok sg, s')"
      using step.hyps(3) by (cases op) (auto simp: emit_def split: prod.splits result.splits)
    then obtain es where "sr_epoch_state s = Some es" "is_ordered_only (commit_info (lis_ledger_info lis))"
      "match_ordered_only (commit_info (lis_ledger_info lis)) (commit_info li)"
      by (auto simp: guarded_sign_commit_vote_def Let_def bind_ex_Ok reads_def lift_ex_def epoch_state_of_def bind_res_Ok_iff
        ok_or_Ok_iff split: if_splits)
    then show ?thesis using step.hyps(2) op by auto
  qed (use step.IH in blast)
qed simp

text \<open>A validator starts with fresh safety data and nothing cached.\<close>

definition sr_fresh :: "bool \<Rightarrow> safety_rules \<Rightarrow> bool" where
  "sr_fresh lossy s \<longleftrightarrow> (\<exists>e. holds lossy (SafetyData_new e 0 0 0 None) None s)"

lemma sr_trace_inv:
  assumes "sr_trace cc wh env s0 H s" "sr_fresh lossy s0"
    and "\<And>eso outcomes b. env eso (OpRestart outcomes b) \<Longrightarrow> lossy \<or> (\<forall>e. Some (e, True) \<notin> set outcomes)"
  shows "sr_inv cc env lossy H s"
  using assms(1)
proof induction
  case start
  then show ?case
    using assms(2) unfolding sr_fresh_def
    by (auto intro!: sr_invI simp: hist_inv_def safe_history_def SafetyData_new_def epoch_ok_def)
next
  case (step H s op evs s')
  then show ?case using sr_exec_inv assms(3) by blast
qed

end
