(* ===== verification/Voting_Safety.thy ===== *)
theory Voting_Safety
  imports Safety_Runs
begin

text \<open>
  Properties of the safety rules of one validator over all their runs, and of the storage under
  them. The examples follow one validator, alone in its epoch, through a start, votes in rounds 1
  to 3, a commit vote for round 1 and a timeout; its signature scheme accepts only what it signs
  in that run.
\<close>

section \<open>A run of a single validator\<close>

definition ideal_bls :: "(u8 \<Rightarrow> 'm \<Rightarrow> bool) \<Rightarrow> 'm bls12381" where
  "ideal_bls signs = \<lparr>
     bls_verify = (\<lambda>pk m s. pk \<noteq> [] \<and> list_all (\<lambda>k. signs k m) pk),
     bls_verify_aggregate = (\<lambda>s ms pks. length ms = length pks \<and>
        list_all (\<lambda>(pk, m). pk \<noteq> [] \<and> list_all (\<lambda>k. signs k m) pk) (zip pks ms)),
     bls_aggregate_sigs = (\<lambda>ss. if ss = [] then None else Some []),
     bls_aggregate_keys = (\<lambda>ks. if ks = [] then None else Some (concat ks)),
     bls_sign = (\<lambda>sk m. Some []),
     bls_public_key = (\<lambda>sk. sk)\<rparr>"

definition solo_verifier :: validator_verifier where
  "solo_verifier = build_index [\<lparr>vci_address = 5, vci_public_key = [7], vci_voting_power = 1\<rparr>] 1 1"

definition solo_info :: "round_t \<Rightarrow> block_info" where
  "solo_info r = \<lparr>bi_epoch = 1, bi_round = r, bi_id = ucast r + 1000,
     bi_executed_state_id = ACCUMULATOR_PLACEHOLDER_HASH, bi_version = 0, bi_timestamp_usecs = 0,
     bi_next_epoch_state = None\<rparr>"

definition solo_vote_data :: "round_t \<Rightarrow> vote_data" where
  "solo_vote_data r = \<lparr>vd_proposed = solo_info r, vd_parent = solo_info (if r = 0 then 0 else r - 1)\<rparr>"

definition solo_ledger_info :: "round_t \<Rightarrow> ledger_info" where
  "solo_ledger_info r = \<lparr>commit_info = vd_parent (solo_vote_data r), consensus_data_hash = ucast r + 1\<rparr>"

definition solo_commit :: ledger_info where
  "solo_commit = \<lparr>commit_info = (solo_info 1)\<lparr>bi_executed_state_id := 55, bi_version := 9\<rparr>,
     consensus_data_hash = consensus_data_hash (solo_ledger_info 2)\<rparr>"

definition solo_crypto :: consensus_crypto where
  "solo_crypto = \<lparr>
     cc_bls = ideal_bls (\<lambda>k m. k = 7 \<and> (m = SignLedgerInfo solo_commit \<or> (\<exists>r \<in> {1, 2, 3}. m = SignLedgerInfo (solo_ledger_info r)))),
     hash_vote_data = (\<lambda>vd. let r = bi_round (vd_proposed vd)
        in if vd = solo_vote_data r \<and> r \<in> {0, 1, 2, 3} then ucast r + 1 else 0),
     hash_block_data = (\<lambda>bd. ucast (bd_round bd) + 1000), hash_ledger_info = consensus_data_hash,
     hash_accumulator_node = (\<lambda>a b. 3 * a + 5 * b)\<rparr>"

definition solo_qc :: "round_t \<Rightarrow> quorum_cert" where
  "solo_qc r = \<lparr>qc_vote_data = solo_vote_data r,
     qc_signed_ledger_info = LedgerInfoWithSignatures_new (solo_ledger_info r)
       \<lparr>validator_bitmask = \<lparr>inner = [if r = 0 then 0 else 0x80]\<rparr>, agg_sig = (if r = 0 then None else Some [])\<rparr>\<rparr>"

definition solo_proposal :: "round_t \<Rightarrow> vote_proposal" where
  "solo_proposal r = \<lparr>vp_accumulator_extension_proof = undefined,
     vp_block = Block_new_nil solo_crypto r (solo_qc (r - 1)) [], vp_next_epoch_state = None,
     vp_decoupled_execution = True\<rparr>"

definition solo_vote :: "round_t \<Rightarrow> vote" where
  "solo_vote r = new_with_signature (solo_vote_data r) 5 (solo_ledger_info r) []"

definition solo_data :: "round_t \<Rightarrow> safety_data" where
  "solo_data r = SafetyData_new 1 r (if r < 2 then 0 else r - 2) (if r = 0 then 0 else r - 1)
     (if r = 0 then None else Some (solo_vote r))"

definition solo_epoch_state :: epoch_state where
  "solo_epoch_state = \<lparr>es_epoch = 1, es_verifier = solo_verifier\<rparr>"

definition solo_genesis :: ledger_info where
  "solo_genesis = \<lparr>commit_info = (solo_info 0)\<lparr>bi_epoch := 0, bi_next_epoch_state := Some solo_epoch_state\<rparr>,
     consensus_data_hash = 0\<rparr>"

definition solo_proof :: epoch_change_proof where
  "solo_proof = \<lparr>ecp_ledger_info_with_sigs =
     [LedgerInfoWithSignatures_new solo_genesis AggregateSignature_empty], ecp_more = False\<rparr>"

definition solo_storage :: "round_t \<Rightarrow> storage" where
  "solo_storage r = \<lparr>st_data = [OWNER_ACCOUNT \<mapsto> StoredAuthor 5, CONSENSUS_KEY \<mapsto> StoredKey [7],
     WAYPOINT \<mapsto> StoredWaypoint (Waypoint_new_any (\<lambda>_. 0) solo_genesis),
     SAFETY_DATA \<mapsto> StoredSafetyData (solo_data r)], st_outcomes = []\<rparr>"

definition solo_start :: safety_rules where
  "solo_start = SafetyRules_new \<lparr>enable_cached_safety_data = True, cached_safety_data = Some (solo_data 0),
     internal_store = solo_storage 0\<rparr>"

definition solo_state :: "round_t \<Rightarrow> safety_rules" where
  "solo_state r = \<lparr>sr_storage = \<lparr>enable_cached_safety_data = True, cached_safety_data = Some (solo_data r),
       internal_store = solo_storage r\<rparr>,
     sr_signer = Some \<lparr>signer_author = 5, signer_private_key = [7]\<rparr>, sr_epoch_state = Some solo_epoch_state\<rparr>"

lemma solo_verifier_wf: "vv_wf solo_verifier"
proof -
  have "sum_voting_power (validator_infos solo_verifier) = (Ok 1 :: (u128, unit) result)"
    by (simp add: sum_voting_power_def solo_verifier_def build_index_def checked_add_def or_panic_def)
  moreover have "mul_chk 1 2 = (Ok 2 :: (u128, unit) result)" "add_chk 0 1 = (Ok 1 :: (u128, unit) result)"
    by (simp_all add: res_iff)
  moreover have "(2 :: u128) div 3 = 0" by simp
  ultimately show ?thesis
    by (simp add: vv_wf_def ValidatorVerifier_new_def) (simp add: solo_verifier_def build_index_def)
qed

lemma solo_verifier_simps [simp]:
  "validators solo_verifier = {5}" "verifier_len solo_verifier = 1" "power_of solo_verifier 5 = 1"
  "total_voting_power solo_verifier = 1" "quorum_voting_power solo_verifier = 1" "get_public_key solo_verifier 5 = Some [7]"
  "get_ordered_account_addresses solo_verifier = [5]"
  by (simp_all add: validators_def verifier_len_def power_of_def get_voting_power_def get_public_key_def
    get_ordered_account_addresses_def solo_verifier_def build_index_def)

lemma solo_qc_verifies:
  assumes "r \<in> {0, 1, 2, 3}"
  shows "QuorumCert_verify solo_crypto (solo_qc r) solo_verifier = Ok ()"
proof (cases "r = 0")
  case True
  have "get_num_voters \<lparr>validator_bitmask = \<lparr>inner = [0]\<rparr>, agg_sig = None\<rparr> = 0" by code_simp
  with True show ?thesis
    by (simp add: QuorumCert_verify_Ok solo_qc_def solo_crypto_def solo_ledger_info_def solo_vote_data_def solo_info_def
      lis_get_num_voters_def)
next
  case False
  have "check_num_of_voters 1 \<lparr>inner = [0x80]\<rparr> = Ok ()"
    "collect_signers solo_verifier (iter_ones \<lparr>inner = [0x80]\<rparr>)
      = Ok [\<lparr>vci_address = 5, vci_public_key = [7], vci_voting_power = 1\<rparr>]"
    by code_simp+
  moreover have "check_voting_power solo_verifier [5] = Ok ()"
    by (rule check_voting_power_OkI [OF solo_verifier_wf]) simp_all
  ultimately have "verify_signatures (bls_ledger_info solo_crypto) (qc_signed_ledger_info (solo_qc r)) solo_verifier = Ok ()"
    using assms False
    by (auto simp: verify_signatures_def verify_multi_signatures_def solo_qc_def solo_crypto_def ideal_bls_def ensure_def)
  moreover have "VoteData_verify (solo_vote_data r) = Ok ()"
    using assms False by (auto simp: VoteData_verify_Ok solo_vote_data_def solo_info_def)
  ultimately show ?thesis using assms False
    by (auto simp: QuorumCert_verify_Ok solo_qc_def solo_crypto_def solo_ledger_info_def solo_vote_data_def solo_info_def)
qed

lemma solo_proposal_checks:
  assumes "r \<in> {1, 2, 3}"
  shows "blk_round (vp_block (solo_proposal r)) = r" "blk_epoch (vp_block (solo_proposal r)) = 1"
    and "blk_quorum_cert (vp_block (solo_proposal r)) = solo_qc (r - 1)"
    and "validate_signature solo_crypto (vp_block (solo_proposal r)) solo_verifier = Ok ()"
    and "verify_well_formed now (vp_block (solo_proposal r)) = Ok ()"
    and "gen_vote_data solo_crypto (solo_proposal r) = Ok (solo_vote_data r)"
proof -
  have r: "r = 1 \<or> r = 2 \<or> r = 3" using assms by simp
  show "blk_round (vp_block (solo_proposal r)) = r" "blk_epoch (vp_block (solo_proposal r)) = 1"
    "blk_quorum_cert (vp_block (solo_proposal r)) = solo_qc (r - 1)"
    by (simp_all add: solo_proposal_def Block_new_nil_def BlockData_new_nil_def block_of_data_def solo_qc_def
      solo_vote_data_def solo_info_def)
  show "validate_signature solo_crypto (vp_block (solo_proposal r)) solo_verifier = Ok ()"
    using solo_qc_verifies [of "r - 1"] r
    by (auto simp: validate_signature_def solo_proposal_def Block_new_nil_def BlockData_new_nil_def block_of_data_def)
  have "verify_failed_authors r True (r - 1) [] = Ok ()"
    using r by (auto simp: verify_failed_authors_Ok check_failed_authors_Ok)
  then show "verify_well_formed now (vp_block (solo_proposal r)) = Ok ()"
    using r by (auto simp: verify_well_formed_def Let_def solo_proposal_def Block_new_nil_def BlockData_new_nil_def
      block_of_data_def solo_qc_def solo_vote_data_def solo_info_def solo_ledger_info_def bd_is_nil_block_def
      bd_is_genesis_block_def failed_authors_def BlockData_payload_def qc_ends_epoch_def ends_epoch_def
      has_reconfiguration_def)
  show "gen_vote_data solo_crypto (solo_proposal r) = Ok (solo_vote_data r)"
    using r by (auto simp: gen_vote_data_def vote_data_ordering_only_def gen_block_info_def solo_proposal_def
      Block_new_nil_def BlockData_new_nil_def block_of_data_def solo_qc_def solo_vote_data_def solo_info_def
      solo_crypto_def)
qed

lemma solo_simps [simp]:
  "pss_safety_data (sr_storage (solo_state r)) = (Ok (solo_data r), sr_storage (solo_state r))"
  "sr_epoch_state (solo_state r) = Some solo_epoch_state" "es_verifier solo_epoch_state = solo_verifier"
  "es_epoch solo_epoch_state = 1" "sr_signer (solo_state r) = Some \<lparr>signer_author = 5, signer_private_key = [7]\<rparr>"
  "sfd_epoch (solo_data r) = 1" "last_voted_round (solo_data r) = r"
  "bi_round (vd_proposed (solo_vote_data r)) = r" "bi_epoch (vd_proposed (solo_vote_data r)) = 1"
  "v_vote_data (solo_vote r) = solo_vote_data r" "v_ledger_info (solo_vote r) = solo_ledger_info r"
  "qc_vote_data (solo_qc r) = solo_vote_data r" "bi_round (solo_info r) = r"
  by (simp_all add: pss_safety_data_def solo_state_def solo_epoch_state_def solo_data_def SafetyData_new_def
    solo_vote_data_def solo_info_def solo_vote_def new_with_signature_def solo_qc_def)

lemma solo_signs [simp]: "ValidatorSigner_sign (bls_on emb (cc_bls solo_crypto)) sn m = Some []"
  by (simp add: ValidatorSigner_sign_def solo_crypto_def ideal_bls_def)

lemma solo_data_write: "set_safety_data (solo_data r) (sr_storage (solo_state q)) = (Ok (), sr_storage (solo_state r))"
  by (simp add: set_safety_data_def solo_state_def kv_set_def next_outcome_def solo_storage_def)

lemma solo_state_write:
  "on_storage (set_safety_data (solo_data r)) (solo_state q) = (Ok (), solo_state r)"
  unfolding on_storage_def solo_data_write by (simp add: solo_state_def)

lemma solo_votes:
  assumes "r \<in> {1, 2, 3}"
  shows "sr_exec solo_crypto (\<lambda>_. 0) (OpVote 0 (solo_proposal r) None) (solo_state (r - 1))
    = ([Voted (solo_vote r)], solo_state r)"
proof -
  have r: "r = 1 \<or> r = 2 \<or> r = 3" using assms by simp
  then have lt: "r - 1 < r" by auto
  note c = solo_proposal_checks [OF assms]
  have old: "\<not> (case last_vote (solo_data (r - 1)) of
      Some vote \<Rightarrow> bi_round (vd_proposed (v_vote_data vote)) = blk_round (vp_block (solo_proposal r)) | None \<Rightarrow> False)"
    unfolding c(1) using r by (auto simp: solo_data_def SafetyData_new_def)
  have qc: "QuorumCert_verify solo_crypto (solo_qc (r - 1)) solo_verifier = Ok ()"
    using r by (intro solo_qc_verifies) auto
  have h: "hash_vote_data solo_crypto (solo_vote_data r) = ucast r + 1"
    using r by (auto simp: solo_crypto_def solo_vote_data_def solo_info_def)
  have vp: "verify_proposal solo_crypto 0 (solo_proposal r) (solo_state (r - 1)) = (Ok (solo_vote_data r), solo_state (r - 1))"
    using c qc by (simp add: verify_proposal_def Let_def bind_ex_def on_storage_def verify_epoch_def
      verify_qc_def epoch_state_of_def)
  have li: "construct_ledger_info_2chain (vp_block (solo_proposal r)) (ucast r + 1) = Ok (solo_ledger_info r)"
    using c(1,3) r by (auto simp: construct_ledger_info_2chain_def next_round_def checked_add_def solo_ledger_info_def
      solo_vote_data_def)
  have safe: "safe_to_vote (vp_block (solo_proposal r)) None = Ok ()"
    using c(1,3) r by (auto simp: safe_to_vote_def Let_def next_round_def checked_add_def)
  have data: "snd (observe_qc (solo_qc (r - 1)) (solo_data (r - 1)\<lparr>last_voted_round := r\<rparr>))\<lparr>last_vote := Some (solo_vote r)\<rparr>
      = solo_data r"
    using r by (auto simp: observe_qc_def solo_data_def SafetyData_new_def solo_vote_data_def solo_info_def Let_def)
  have "sign_new_vote solo_crypto (vp_block (solo_proposal r)) (solo_vote_data r) None (solo_data (r - 1)) (solo_state (r - 1))
      = (Ok (solo_vote r), solo_state r)"
    using c(1,3) lt h li safe data
    by (simp add: sign_new_vote_def Let_def bind_ex_def verify_and_update_last_vote_round_def signer_def sr_sign_def
      solo_state_write solo_vote_def)
  then show ?thesis
    using c(1,3) old vp by (simp add: guarded_construct_and_sign_vote_two_chain_def bind_ex_def on_storage_def signer_def
      verify_tc_option_def emit_def)
qed

lemma storage_keys:
  "WAYPOINT \<noteq> SAFETY_DATA" "OWNER_ACCOUNT \<noteq> SAFETY_DATA" "CONSENSUS_KEY \<noteq> SAFETY_DATA"
  "OWNER_ACCOUNT \<noteq> WAYPOINT" "CONSENSUS_KEY \<noteq> WAYPOINT" "OWNER_ACCOUNT \<noteq> CONSENSUS_KEY"
  by (simp_all add: WAYPOINT_def SAFETY_DATA_def OWNER_ACCOUNT_def CONSENSUS_KEY_def)

lemma solo_starts:
  "sr_exec solo_crypto (\<lambda>_. 0) (OpInitialize solo_proof) solo_start = ([], solo_state 0)"
proof -
  have sd: "solo_data 0 = SafetyData_new 1 0 0 0 None" by (simp add: solo_data_def)
  have li_next: "bi_next_epoch_state (commit_info solo_genesis) = Some solo_epoch_state"
    and ends: "ends_epoch solo_genesis"
    by (simp_all add: solo_genesis_def ends_epoch_def)
  have pk: "bls_public_key (cc_bls solo_crypto) [7] = [7]" by (simp add: solo_crypto_def ideal_bls_def)
  have p: "EpochChangeProof_verify (bls_ledger_info solo_crypto) solo_proof
      (Waypoint_verifier (\<lambda>_. 0) (Waypoint_new_any (\<lambda>_. 0) solo_genesis))
      = Ok (LedgerInfoWithSignatures_new solo_genesis AggregateSignature_empty)"
    by (simp add: EpochChangeProof_verify_def solo_proof_def Waypoint_verifier_def Waypoint_verify_def
      Waypoint_new_any_def ensure_def solo_genesis_def ends_epoch_def)
  show ?thesis
    by (simp add: storage_keys guarded_initialize_def bind_ex_def on_storage_def pss_waypoint_def on_store_def kv_get_def
      next_outcome_def solo_start_def SafetyRules_new_def PersistentSafetyStorage_new_def solo_storage_def p Let_def
      li_next new_epoch_boundary_def ensure_def ends pss_safety_data_def sd pss_author_def reconcile_key_def
      consensus_key_for_version_def solo_state_def pk) (simp add: SafetyData_new_def)
qed

definition solo_timeout :: two_chain_timeout where
  "solo_timeout = \<lparr>to_epoch = 1, to_round = 3, to_quorum_cert = solo_qc 2\<rparr>"

lemma solo_times_out:
  "sr_exec solo_crypto (\<lambda>_. 0) (OpSignTimeout solo_timeout None) (solo_state 3) = ([TimedOut solo_timeout], solo_state 3)"
proof -
  have t: "TwoChainTimeout_verify solo_crypto solo_timeout solo_verifier = Ok ()"
    using solo_qc_verifies [of 2] by (simp add: TwoChainTimeout_verify_Ok solo_timeout_def hqc_round_def)
  have "safe_to_timeout solo_timeout None (solo_data 3) = Ok ()"
    by (simp add: safe_to_timeout_def Let_def next_round_def checked_add_def solo_timeout_def hqc_round_def solo_data_def SafetyData_new_def)
  with t show ?thesis
    by (simp add: guarded_sign_timeout_with_qc_def bind_ex_def on_storage_def signer_def verify_epoch_def epoch_state_of_def
      verify_tc_option_def sr_sign_def emit_def) (simp add: solo_timeout_def)
qed

lemma solo_trace_vote:
  assumes "sr_trace solo_crypto (\<lambda>_. 0) env s0 H (solo_state (r - 1))" "r \<in> {1, 2, 3}"
    and "env (Some solo_epoch_state) (OpVote 0 (solo_proposal r) None)"
  shows "sr_trace solo_crypto (\<lambda>_. 0) env s0 (H @ [Voted (solo_vote r)]) (solo_state r)"
  by (rule sr_trace.step [OF assms(1) _ solo_votes [OF assms(2)]]) (simp add: assms(3))

lemma solo_history:
  assumes "env None (OpInitialize solo_proof)"
    and "\<And>r. env (Some solo_epoch_state) (OpVote 0 (solo_proposal r) None)"
  shows "sr_trace solo_crypto (\<lambda>_. 0) env solo_start [Voted (solo_vote 1), Voted (solo_vote 2), Voted (solo_vote 3)] (solo_state 3)"
proof -
  have "env (sr_epoch_state solo_start) (OpInitialize solo_proof)"
    using assms(1) by (simp add: solo_start_def SafetyRules_new_def)
  from sr_trace.step [where env = env and ?s0.0 = solo_start, OF sr_trace.start this solo_starts]
  have 0: "sr_trace solo_crypto (\<lambda>_. 0) env solo_start [] (solo_state 0)" by simp
  note vote = solo_trace_vote [where env = env and ?s0.0 = solo_start, OF _ _ assms(2)]
  have 1: "sr_trace solo_crypto (\<lambda>_. 0) env solo_start [Voted (solo_vote 1)] (solo_state 1)"
    using vote [of "[]" 1] 0 by simp
  have 2: "sr_trace solo_crypto (\<lambda>_. 0) env solo_start [Voted (solo_vote 1), Voted (solo_vote 2)] (solo_state 2)"
    using vote [of "[Voted (solo_vote 1)]" 2] 1 by simp
  show ?thesis using vote [of "[Voted (solo_vote 1), Voted (solo_vote 2)]" 3] 2 by simp
qed

lemma solo_initialized:
  "(PersistentSafetyStorage_initialize \<lparr>st_data = Map.empty, st_outcomes = []\<rparr> 5 [7]
     (Waypoint_new_any (\<lambda>_. 0) solo_genesis) True :: (persistent_safety_storage, unit) result)
   = Ok (sr_storage solo_start)"
  by (simp add: PersistentSafetyStorage_initialize_def initialize_keys_and_accounts_def kv_set_def next_outcome_def
      Let_def bind_ex_def set_safety_data_def set_waypoint_def on_store_def solo_start_def SafetyRules_new_def
      solo_data_def solo_storage_def storage_keys storage_keys [symmetric] fun_eq_iff)

section \<open>Lemmas\<close>

lemma initialized_fresh:
  assumes "PersistentSafetyStorage_initialize st author key w enable = Ok p"
  shows "sr_fresh True (SafetyRules_new p)"
proof -
  obtain st' q where q: "set_safety_data (SafetyData_new 1 0 0 0 None)
      \<lparr>enable_cached_safety_data = enable, cached_safety_data = Some (SafetyData_new 1 0 0 0 None), internal_store = st'\<rparr>
      = (Ok (), q)" "set_waypoint w q = (Ok (), p)"
    using assms by (auto simp: PersistentSafetyStorage_initialize_def Let_def bind_ex_def
      split: prod.splits result.splits)
  have "st_data (internal_store q) SAFETY_DATA = Some (StoredSafetyData (SafetyData_new 1 0 0 0 None))"
    "cached_safety_data q = Some (SafetyData_new 1 0 0 0 None)"
    using q(1) kv.put_Ok [of SAFETY_DATA "StoredSafetyData (SafetyData_new 1 0 0 0 None)" st']
    by (auto simp: set_safety_data_def split: prod.splits result.splits)
  moreover have "st_data (internal_store p) SAFETY_DATA = st_data (internal_store q) SAFETY_DATA"
    "cached_safety_data p = cached_safety_data q"
    using q(2) kv.put_other [of SAFETY_DATA WAYPOINT "StoredWaypoint w" "internal_store q"]
    by (auto simp: set_waypoint_def on_store_def storage_keys storage_keys [symmetric] split: prod.splits)
  ultimately show ?thesis
    by (auto simp: sr_fresh_def holds_def acked_def SafetyRules_new_def)
qed

lemma validate_signature_qc: "validate_signature cc b v = Ok () \<Longrightarrow> QuorumCert_verify cc (blk_quorum_cert b) v = Ok ()"
  by (auto simp: validate_signature_def bind_res_Ok_iff split: block_type.splits)

lemma safe_to_vote_ledger_info: "safe_to_vote b tco = Ok () \<Longrightarrow> \<exists>li. construct_ledger_info_2chain b h = Ok li"
  by (auto simp: safe_to_vote_def construct_ledger_info_2chain_def Let_def bind_res_Ok_iff)

lemma construct_ledger_info_hash:
  "construct_ledger_info_2chain b h = Ok li \<Longrightarrow> consensus_data_hash li = h"
  by (auto simp: construct_ledger_info_2chain_def bind_res_Ok_iff)

lemma uncached_read:
  assumes "\<not> enable_cached_safety_data (sr_storage s)"
    and "st_data (internal_store (sr_storage s)) SAFETY_DATA = Some (StoredSafetyData d)"
  shows "on_storage pss_safety_data s \<noteq> (Ok d', s')"
proof
  assume "on_storage pss_safety_data s = (Ok d', s')"
  then obtain r st where "kv_get decode_result SAFETY_DATA (internal_store (sr_storage s)) = (Ok r, st)"
    using assms(1) by (auto simp: on_storage_def pss_safety_data_def bind_ex_Ok on_store_def from_storage_Ok
      split: prod.splits)
  then show False using kv_get_Ok [of decode_result SAFETY_DATA "internal_store (sr_storage s)" r] assms(2) by simp
qed

lemma emit_Nil: "(\<And>x s'. res \<noteq> (Ok x, s')) \<Longrightarrow> fst (emit f res) = []"
  by (auto simp: emit_def split: prod.splits result.splits)

section \<open>Properties\<close>

text \<open>
  C2. Whatever calls a validator's safety rules receive, however often they restart, and however
  the storage fails, including by writes that take effect and report an error, they sign at most
  one vote in every round of an epoch; and they never sign a timeout, at or above the round of a
  vote, that reports a highest certified round below the parent of that vote.
\<close>

theorem votes_are_safe:
  assumes "PersistentSafetyStorage_initialize st author key w enable = Ok p"
    and "sr_trace cc wh (\<lambda>_ _. True) (SafetyRules_new p) H s"
    and "Voted v \<in> set H"
  shows "(Voted v' \<in> set H \<and> v_epoch v' = v_epoch v \<and> v_round v' = v_round v \<longrightarrow> v' = v) \<and>
    (TimedOut t \<in> set H \<and> to_epoch t = v_epoch v \<and> v_round v \<le> to_round t \<longrightarrow> v_parent_round v \<le> hqc_round t)"
proof -
  have "sr_inv cc (\<lambda>_ _. True) True H s"
    using sr_trace_inv [OF assms(2) initialized_fresh [OF assms(1)]] by simp
  then have "safe_history cc (\<lambda>_ _. True) True H" unfolding sr_inv_def hist_inv_def by blast
  with assms(3) show ?thesis unfolding safe_history_def by metis
qed

theorem votes_are_safe_witness:
  "v_parent_round (solo_vote 3) \<le> hqc_round solo_timeout"
proof -
  have "sr_trace solo_crypto (\<lambda>_. 0) (\<lambda>_ _. True) (SafetyRules_new (sr_storage solo_start))
      ([Voted (solo_vote 1), Voted (solo_vote 2), Voted (solo_vote 3)] @ [TimedOut solo_timeout]) (solo_state 3)"
    using sr_trace.step [where env = "\<lambda>_ _. True" and ?s0.0 = solo_start, OF solo_history _ solo_times_out]
    by (simp add: solo_start_def SafetyRules_new_def)
  from votes_are_safe [OF solo_initialized this, of "solo_vote 3" _ solo_timeout] show ?thesis
    by (simp add: solo_timeout_def)
qed

text \<open>
  C3. The safety rules vote when they may: with a healthy storage, a signer registered in the
  epoch and a well-formed, certified proposal of the epoch above the last voted round that is safe
  to vote for, a vote is returned. The vote is stored before it is handed out, together with its
  round, and every other validator of the epoch accepts it.
\<close>

theorem vote_granted:
  assumes "sr_signer s = Some sn" "sr_epoch_state s = Some es" "bls_signs (cc_bls cc)"
    and "get_public_key (es_verifier es) (signer_author sn) = Some (ValidatorSigner_public_key (cc_bls cc) sn)"
    and "\<And>li. ValidatorSigner_sign (bls_ledger_info cc) sn li \<noteq> None"
    and "sr_storage s = \<lparr>enable_cached_safety_data = True, cached_safety_data = Some d, internal_store = st\<rparr>"
    and "st_outcomes st = []" "blk_epoch (vp_block vp) = sfd_epoch d" "last_voted_round d < blk_round (vp_block vp)"
    and "pred_option (\<lambda>lv. v_round lv \<le> last_voted_round d) (last_vote d)"
    and "validate_signature cc (vp_block vp) (es_verifier es) = Ok ()"
    and "verify_well_formed now (vp_block vp) = Ok ()" "gen_vote_data cc vp = Ok vd" "VoteData_verify vd = Ok ()"
    and "pred_option (\<lambda>tc. TwoChainTimeoutCertificate_verify cc tc (es_verifier es) = Ok ()) tco"
    and "safe_to_vote (vp_block vp) tco = Ok ()"
  shows "\<exists>v s' d'. guarded_construct_and_sign_vote_two_chain cc now vp tco s = (Ok v, s') \<and> v_vote_data v = vd \<and>
    Vote_verify cc v (es_verifier es) = Ok () \<and>
    st_data (internal_store (sr_storage s')) SAFETY_DATA = Some (StoredSafetyData d') \<and>
    last_vote d' = Some v \<and> last_voted_round d' = blk_round (vp_block vp)"
proof -
  let ?b = "vp_block vp" and ?s = "\<lambda>d. s\<lparr>sr_storage := \<lparr>enable_cached_safety_data = True, cached_safety_data = Some d,
      internal_store = st\<lparr>st_data := (st_data st)(SAFETY_DATA \<mapsto> StoredSafetyData d)\<rparr>\<rparr>\<rparr>"
  have read: "on_storage pss_safety_data s = (Ok d, s)"
    using assms(6) by (simp add: on_storage_def pss_safety_data_def)
  have stored: "on_storage (set_safety_data d') s = (Ok (), ?s d')" for d'
    using assms(6,7) by (simp add: on_storage_def set_safety_data_def kv_set_def next_outcome_def)
  have vp: "verify_proposal cc now vp s = (Ok vd, s)"
    using assms(2,8,11-13) validate_signature_qc [OF assms(11)]
    by (simp add: verify_proposal_def Let_def bind_ex_def read verify_epoch_def verify_qc_def epoch_state_of_def)
  have tc: "verify_tc_option cc tco s = Ok ()"
    using assms(2,15) by (cases tco) (simp_all add: verify_tc_option_def verify_tc_def epoch_state_of_def)
  obtain li where li: "construct_ledger_info_2chain ?b (hash_vote_data cc vd) = Ok li"
    using safe_to_vote_ledger_info [OF assms(16)] by blast
  obtain sg where sg: "ValidatorSigner_sign (bls_ledger_info cc) sn li = Some sg" using assms(5) by blast
  define v where "v = new_with_signature vd (signer_author sn) li sg"
  define d' where "d' = snd (observe_qc (blk_quorum_cert ?b) (d\<lparr>last_voted_round := blk_round ?b\<rparr>))\<lparr>last_vote := Some v\<rparr>"
  have "sign_new_vote cc ?b vd tco d s = (Ok v, ?s d')"
    using assms(1,9,16) li sg
    by (simp add: sign_new_vote_def Let_def bind_ex_def verify_and_update_last_vote_round_def signer_def sr_sign_def
      stored d'_def v_def)
  moreover have "\<not> (case last_vote d of Some vote \<Rightarrow> v_round vote = blk_round ?b | None \<Rightarrow> False)"
    using assms(9,10) by (cases "last_vote d") auto
  ultimately have "guarded_construct_and_sign_vote_two_chain cc now vp tco s = (Ok v, ?s d')"
    using assms(1) tc by (simp add: guarded_construct_and_sign_vote_two_chain_def bind_ex_def vp read signer_def)
  moreover have "Vote_verify cc v (es_verifier es) = Ok ()"
    using construct_ledger_info_hash [OF li] assms(14) signer_verifies [OF bls_signs_on [OF assms(3)] _ sg] assms(4)
    by (simp add: Vote_verify_Ok v_def new_with_signature_def ValidatorSigner_public_key_def)
  moreover have "last_vote d' = Some v" "last_voted_round d' = blk_round ?b" "v_vote_data v = vd"
    by (simp_all add: d'_def observe_qc_def Let_def v_def new_with_signature_def)
  ultimately show ?thesis by (intro exI [of _ v] exI [of _ "?s d'"] exI [of _ d']) simp
qed

definition sample_safety_rules :: safety_rules where
  "sample_safety_rules = \<lparr>sr_storage = \<lparr>enable_cached_safety_data = True,
       cached_safety_data = Some (SafetyData_new 1 7 0 4 None), internal_store = \<lparr>st_data = Map.empty, st_outcomes = []\<rparr>\<rparr>,
     sr_signer = Some \<lparr>signer_author = 2, signer_private_key = [2]\<rparr>, sr_epoch_state = Some (sample_epoch_state 1)\<rparr>"

definition sample_proposal :: vote_proposal where
  "sample_proposal = \<lparr>vp_accumulator_extension_proof = undefined, vp_block = sample_nil_block 9 8 [],
     vp_next_epoch_state = None, vp_decoupled_execution = True\<rparr>"

theorem vote_granted_witness:
  "\<exists>v s'. guarded_construct_and_sign_vote_two_chain sample_crypto 0 sample_proposal None sample_safety_rules = (Ok v, s') \<and>
     Vote_verify sample_crypto v sample_verifier = Ok ()"
proof -
  let ?sn = "\<lparr>signer_author = 2, signer_private_key = [2]\<rparr>" and ?d = "SafetyData_new 1 7 0 4 None"
  let ?st = "\<lparr>st_data = Map.empty, st_outcomes = []\<rparr>" and ?vd = "vote_data_ordering_only sample_proposal"
  have b: "vp_block sample_proposal = sample_nil_block 9 8 []" by (simp add: sample_proposal_def)
  have key: "get_public_key (es_verifier (sample_epoch_state 1)) (signer_author ?sn)
      = Some (ValidatorSigner_public_key (cc_bls sample_crypto) ?sn)"
    using sample_signer_key by simp
  have vd: "gen_vote_data sample_crypto sample_proposal = Ok ?vd" by (simp add: gen_vote_data_def sample_proposal_def)
  have "VoteData_verify ?vd = Ok ()"
    using sample_nil_block_simps [of 9 8 "[]"]
    by (simp add: VoteData_verify_Ok vote_data_ordering_only_def b gen_block_info_def sample_block_at_def)
  moreover have "safe_to_vote (vp_block sample_proposal) None = Ok ()"
    using sample_nil_block_simps [of 9 8 "[]"]
    by (simp add: safe_to_vote_def Let_def next_round_def checked_add_def b sample_block_at_def)
  ultimately show ?thesis
    using vote_granted [where s = sample_safety_rules and sn = ?sn and es = "sample_epoch_state 1" and d = ?d and st = ?st
        and now = 0 and tco = None, OF _ _ sample_crypto_signs key _ _ _ _ _ _ _ _ vd]
      sample_nil_block_validates [of 8 9 "[]"] sample_nil_block_well_formed [of 8 9] sample_nil_block_simps [of 9 8 "[]"]
    by (auto simp: sample_safety_rules_def b SafetyData_new_def ValidatorSigner_sign_def sample_crypto_def linear_bls_def)
qed

text \<open>
  C39. With the cache of the safety data disabled the safety rules cannot be used: every read of the
  stored safety data fails, so no vote, timeout or proposal is ever signed.
\<close>

theorem uncached_never_signs:
  assumes "\<not> enable_cached_safety_data (sr_storage s)"
    and "st_data (internal_store (sr_storage s)) SAFETY_DATA = Some (StoredSafetyData d)"
  shows "fst (sr_exec cc wh (OpVote now vp tco) s) = [] \<and> fst (sr_exec cc wh (OpSignTimeout t tco) s) = [] \<and>
    fst (sr_exec cc wh (OpSignProposal bd) s) = []"
proof -
  note never = uncached_read [OF assms]
  have "guarded_construct_and_sign_vote_two_chain cc now vp tco s \<noteq> (Ok v, s')" for v s'
    by (auto simp: guarded_construct_and_sign_vote_two_chain_def verify_proposal_def Let_def bind_ex_Ok never)
  moreover have "guarded_sign_timeout_with_qc cc t tco s \<noteq> (Ok sg, s')" for sg s'
    by (auto simp: guarded_sign_timeout_with_qc_def bind_ex_Ok never)
  moreover have "guarded_sign_proposal cc bd s \<noteq> (Ok sg, s')" for sg s'
    by (auto simp: guarded_sign_proposal_def bind_ex_Ok never)
  ultimately show ?thesis by (simp add: emit_Nil)
qed

theorem uncached_never_signs_witness:
  "fst (sr_exec solo_crypto (\<lambda>_. 0) (OpVote 0 (solo_proposal 1) None)
     ((solo_state 0)\<lparr>sr_storage := (sr_storage (solo_state 0))\<lparr>enable_cached_safety_data := False\<rparr>\<rparr>)) = [] \<and>
   fst (sr_exec solo_crypto (\<lambda>_. 0) (OpVote 0 (solo_proposal 1) None) (solo_state 0)) = [Voted (solo_vote 1)]"
proof -
  let ?s = "(solo_state 0)\<lparr>sr_storage := (sr_storage (solo_state 0))\<lparr>enable_cached_safety_data := False\<rparr>\<rparr>"
  have "\<not> enable_cached_safety_data (sr_storage ?s)"
    "st_data (internal_store (sr_storage ?s)) SAFETY_DATA = Some (StoredSafetyData (solo_data 0))"
    by (simp_all add: solo_state_def solo_storage_def)
  from uncached_never_signs [OF this] solo_votes [of 1] show ?thesis by simp
qed

text \<open>
  C38. Safety data that were written are not lost. After a write that succeeded, and any calls of
  the storage and restarts that follow, with either setting of the cache and any storage accesses
  failing, a read that succeeds returns the data of the last write that succeeded or of a later
  write that failed; so if nothing was written after, it returns the data written. With the cache
  enabled a read does succeed if the cache is filled or the next access of the storage does
  not fail.
\<close>

theorem safety_data_durable:
  fixes bls :: "'m bls12381" and calls p d p'
  assumes "set_safety_data d p = (Ok (), p')"
  defines "q \<equiv> fold (storage_exec bls) calls p'" and "D \<equiv> written calls bls p' {d}"
  shows "(fst (pss_safety_data q) = Ok x \<longrightarrow> x \<in> D) \<and>
    ((\<forall>d'. CallSetSafetyData d' \<notin> set calls) \<longrightarrow> D = {d}) \<and>
    (enable_cached_safety_data q \<and> (cached_safety_data q \<noteq> None \<or> fst (next_outcome (internal_store q)) = None) \<longrightarrow>
      (\<exists>x \<in> D. fst (pss_safety_data q) = Ok x))"
proof -
  have "stored_in {d} p'" using set_safety_data_cases [of d p] assms(1) by (auto simp: stored_in_def)
  then have "stored_in D q" unfolding D_def q_def by (rule storage_calls_stored)
  from pss_safety_data_reads(2,3) [OF this] show ?thesis
    using written_same [of calls bls p' "{d}"] unfolding D_def by blast
qed

theorem safety_data_durable_witness:
  "fst (pss_safety_data (fold (storage_exec (cc_bls solo_crypto))
     [CallRestart [Some (PermissionDenied, False)] True, CallSafetyData, CallSetWaypoint \<lparr>wp_version = 3, wp_value = 0\<rparr>,
      CallRestart [] False, CallSafetyData, CallRestart [None] True]
     (sr_storage (solo_state 2)))) = Ok (solo_data 2)"
proof -
  define calls where "calls = [CallRestart [Some (PermissionDenied, False)] True, CallSafetyData,
      CallSetWaypoint \<lparr>wp_version = 3, wp_value = 0\<rparr>, CallRestart [] False, CallSafetyData, CallRestart [None] True]"
  let ?q = "fold (storage_exec (cc_bls solo_crypto)) calls (sr_storage (solo_state 2))"
  have "enable_cached_safety_data ?q \<and> fst (next_outcome (internal_store ?q)) = None"
    by (simp add: calls_def PersistentSafetyStorage_new_def next_outcome_def)
  moreover have "\<forall>d. CallSetSafetyData d \<notin> set calls" by (simp add: calls_def)
  ultimately show ?thesis unfolding calls_def [symmetric]
    using safety_data_durable [OF solo_data_write [of 2 1], of "cc_bls solo_crypto" calls "solo_data 2"] by auto
qed

end
