(* ===== verification/Agreement.thy ===== *)
theory Agreement
  imports Voting_Safety
begin

text \<open>
  Agreement of the two-chain protocol: the composition of quorum certificates, timeout
  certificates and the safety rules of every validator. The interface \<open>certified_chain\<close> holds
  the four laws from which agreement follows; they are proved of the runs of the model, in which
  all but a set of validators with at most a third of the voting power run the safety rules.
\<close>

section \<open>The abstract argument\<close>

locale certified_chain =
  fixes sys :: "'s \<Rightarrow> bool"
    and cert :: "'s \<Rightarrow> 'b \<Rightarrow> 'b \<Rightarrow> bool"
    and rnd :: "'b \<Rightarrow> nat"
  assumes parent_lower: "sys S \<Longrightarrow> cert S b p \<Longrightarrow> rnd p < rnd b"
    and parent_certified: "sys S \<Longrightarrow> cert S b p \<Longrightarrow> rnd p = 0 \<or> (\<exists>q. cert S p q)"
    and one_per_round: "sys S \<Longrightarrow> cert S b p \<Longrightarrow> cert S b' p' \<Longrightarrow> rnd b = rnd b' \<Longrightarrow> b = b' \<and> p = p'"
    and locked: "sys S \<Longrightarrow> cert S b1 b0 \<Longrightarrow> rnd b1 = Suc (rnd b0) \<Longrightarrow> cert S b p \<Longrightarrow> rnd b1 < rnd b \<Longrightarrow> rnd b0 \<le> rnd p"
begin

lemma locked_ancestor:
  assumes "sys S" "cert S b1 b0" "rnd b1 = Suc (rnd b0)" "0 < rnd b0"
  shows "cert S b p \<Longrightarrow> rnd b1 \<le> rnd b \<Longrightarrow> (cert S)\<^sup>*\<^sup>* b b0"
proof (induction "rnd b" arbitrary: b p rule: less_induct)
  case less
  show ?case
  proof (cases "rnd b1 = rnd b")
    case True
    with one_per_round [OF assms(1,2) less.prems(1)] assms(2) show ?thesis by auto
  next
    case False
    then have le: "rnd b0 \<le> rnd p" using locked [OF assms(1-3) less.prems(1)] less.prems(2) by simp
    then obtain q where q: "cert S p q"
      using parent_certified [OF assms(1) less.prems(1)] assms(4) by auto
    obtain q0 where q0: "cert S b0 q0" using parent_certified [OF assms(1,2)] assms(4) by auto
    have "(cert S)\<^sup>*\<^sup>* p b0"
    proof (cases "rnd p = rnd b0")
      case True
      with one_per_round [OF assms(1) q q0] show ?thesis by simp
    next
      case False
      with le assms(3) have "rnd b1 \<le> rnd p" by simp
      with less.hyps [OF parent_lower [OF assms(1) less.prems(1)] q] show ?thesis by simp
    qed
    then show ?thesis using less.prems(1) by (simp add: converse_rtranclp_into_rtranclp)
  qed
qed

lemma agreement:
  assumes "sys S" "cert S b1 b0" "rnd b1 = Suc (rnd b0)" "0 < rnd b0"
    and "cert S c1 c0" "rnd b0 \<le> rnd c0"
  shows "(cert S)\<^sup>*\<^sup>* c0 b0"
proof -
  obtain q q' where q: "cert S c0 q" "cert S b0 q'"
    using parent_certified [OF assms(1,5)] parent_certified [OF assms(1,2)] assms(4,6) by auto
  show ?thesis
  proof (cases "rnd c0 = rnd b0")
    case True
    with one_per_round [OF assms(1) q] show ?thesis by simp
  next
    case False
    with locked_ancestor [OF assms(1-4) q(1)] assms(3,6) show ?thesis by simp
  qed
qed

end

section \<open>Runs of the protocol\<close>

text \<open>
  A run in one epoch: its validators, those that are faulty, the certificates that anybody has put
  together in it, and what the safety rules of the validators have signed, in the order of time.
\<close>

record protocol_run =
  run_crypto :: consensus_crypto
  run_wh :: waypoint_hasher
  run_verifier :: validator_verifier
  run_epoch :: u64
  run_faulty :: "author set"
  run_certs :: "quorum_cert set"
  run_history :: "(author \<times> sr_event) list"

definition local_history :: "protocol_run \<Rightarrow> author \<Rightarrow> sr_event list" where
  "local_history S a = map snd (filter (\<lambda>x. fst x = a) (run_history S))"

text \<open>The ledger info that is signed once blocks are executed: the data hash is kept.\<close>

definition generate_commit_ledger_info :: "block_info \<Rightarrow> ledger_info_with_signatures \<Rightarrow> ledger_info" where
  "generate_commit_ledger_info info ordered_proof =
     \<lparr>commit_info = info, consensus_data_hash = consensus_data_hash (lis_ledger_info ordered_proof)\<rparr>"

text \<open>
  \<open>honest_env\<close> is what the safety rules rely on and do not check. Their epoch state for the
  epoch is the one of the run. The timeout certificate passed with a proposal is of the epoch of
  the proposal (\<open>SyncInfo::verify\<close> checks it). A commit vote is asked for a verified
  certificate of the current epoch and the ledger info made from it, as the buffer manager does
  (\<open>generate_commit_ledger_info\<close>). No write of the storage that failed took effect.
\<close>

definition honest_env :: "protocol_run \<Rightarrow> epoch_state option \<Rightarrow> sr_op \<Rightarrow> bool" where
  "honest_env S eso op \<longleftrightarrow>
     pred_option (\<lambda>es. es_epoch es = run_epoch S \<longrightarrow> es_verifier es = run_verifier S) eso \<and>
     (case op of
        OpVote now vp tc \<Rightarrow> blk_quorum_cert (vp_block vp) \<in> run_certs S \<and>
          pred_option (\<lambda>tc. tc_epoch tc = blk_epoch (vp_block vp)) tc
      | OpSignCommitVote lis li \<Rightarrow> pred_option (\<lambda>es. \<exists>qc \<in> run_certs S. \<exists>info.
          qc_signed_ledger_info qc = lis \<and> QuorumCert_verify (run_crypto S) qc (es_verifier es) = Ok () \<and>
          bi_epoch (certified_block qc) = es_epoch es \<and> li = generate_commit_ledger_info info lis) eso
      | OpRestart outcomes b \<Rightarrow> \<forall>x \<in> set outcomes. pred_option (\<lambda>(e, applied). \<not> applied) x
      | _ \<Rightarrow> True)"

fun signs :: "sr_event \<Rightarrow> ledger_info \<Rightarrow> bool" where
  "signs (Voted vt) li \<longleftrightarrow> v_ledger_info vt = li"
| "signs (CommitSigned lis li') li \<longleftrightarrow> li' = li"
| "signs _ li \<longleftrightarrow> False"

definition signed_before :: "protocol_run \<Rightarrow> nat \<Rightarrow> author \<Rightarrow> ledger_info \<Rightarrow> bool" where
  "signed_before S n a li \<longleftrightarrow> (\<exists>j < n. j < length (run_history S) \<and> fst (run_history S ! j) = a \<and> signs (snd (run_history S ! j)) li)"

text \<open>
  A signature of a validator that is not faulty was made by its safety rules; one on a certificate
  that a commit vote was asked for was made before that vote.
\<close>

definition unforgeable :: "protocol_run \<Rightarrow> bool" where
  "unforgeable S \<longleftrightarrow>
     (\<forall>qc \<in> run_certs S. \<forall>a. QuorumCert_verify (run_crypto S) qc (run_verifier S) = Ok () \<longrightarrow>
        bi_round (certified_block qc) \<noteq> 0 \<longrightarrow> a \<in> qc_voters (run_verifier S) qc \<longrightarrow> a \<notin> run_faulty S \<longrightarrow>
        signed_before S (length (run_history S)) a (lis_ledger_info (qc_signed_ledger_info qc)) \<and>
        (\<forall>i < length (run_history S). \<forall>b li. run_history S ! i = (b, CommitSigned (qc_signed_ledger_info qc) li) \<longrightarrow>
           b \<in> validators (run_verifier S) - run_faulty S \<longrightarrow>
           signed_before S i a (lis_ledger_info (qc_signed_ledger_info qc)))) \<and>
     (\<forall>tc a r. TwoChainTimeoutCertificate_verify (run_crypto S) tc (run_verifier S) = Ok () \<longrightarrow>
        (a, r) \<in> set (get_voters_and_rounds (tc_signatures_with_rounds tc) (get_ordered_account_addresses (run_verifier S))) \<longrightarrow>
        a \<notin> run_faulty S \<longrightarrow>
        (\<exists>t. (a, TimedOut t) \<in> set (run_history S) \<and>
           signing_format t = \<lparr>tsr_epoch = tc_epoch tc, tsr_round = tc_round tc, tsr_hqc_round = r\<rparr>))"

text \<open>The hash of vote data has no collisions among the certificates and the votes of the run.\<close>

definition vote_hash_injective :: "protocol_run \<Rightarrow> bool" where
  "vote_hash_injective S \<longleftrightarrow> inj_on (hash_vote_data (run_crypto S))
     (qc_vote_data ` run_certs S \<union> {v_vote_data vt | vt a. (a, Voted vt) \<in> set (run_history S)})"

definition run_ok :: "protocol_run \<Rightarrow> bool" where
  "run_ok S \<longleftrightarrow> vv_wf (run_verifier S) \<and> verifier_len (run_verifier S) < 2 ^ 16 \<and>
     3 * sum (power_of (run_verifier S)) (run_faulty S \<inter> validators (run_verifier S))
       \<le> unat (total_voting_power (run_verifier S)) \<and>
     bls_aggregate_lengths (cc_bls (run_crypto S)) \<and> unforgeable S \<and> vote_hash_injective S \<and>
     (\<forall>a. a \<in> validators (run_verifier S) - run_faulty S \<longrightarrow>
        (\<exists>s0 s. sr_fresh False s0 \<and> sr_trace (run_crypto S) (run_wh S) (honest_env S) s0 (local_history S a) s))"

text \<open>
  A certificate of the epoch: one of the run that verifies; the certificate of the genesis block,
  of round 0, is accepted without signatures and not counted. \<open>certified S b p\<close>: some
  certificate of the epoch certifies \<open>b\<close> with parent \<open>p\<close>.
\<close>

definition epoch_cert :: "protocol_run \<Rightarrow> quorum_cert \<Rightarrow> bool" where
  "epoch_cert S qc \<longleftrightarrow> qc \<in> run_certs S \<and> QuorumCert_verify (run_crypto S) qc (run_verifier S) = Ok () \<and>
     bi_epoch (certified_block qc) = run_epoch S \<and> bi_round (certified_block qc) \<noteq> 0"

definition certified :: "protocol_run \<Rightarrow> block_info \<Rightarrow> block_info \<Rightarrow> bool" where
  "certified S b p \<longleftrightarrow> (\<exists>qc. epoch_cert S qc \<and> certified_block qc = b \<and> parent_block qc = p)"

section \<open>Signatures and votes\<close>

lemma local_history_iff: "e \<in> set (local_history S a) \<longleftrightarrow> (a, e) \<in> set (run_history S)"
  by (force simp: local_history_def)

lemma run_okD:
  assumes "run_ok S"
  shows "vv_wf (run_verifier S)" "verifier_len (run_verifier S) < 2 ^ 16" "unforgeable S" "vote_hash_injective S"
    and "bls_aggregate_lengths (cc_bls (run_crypto S))"
    and "3 * sum (power_of (run_verifier S)) (run_faulty S \<inter> validators (run_verifier S))
       \<le> unat (total_voting_power (run_verifier S))"
  using assms unfolding run_ok_def by blast+

lemma honest_history:
  assumes "run_ok S" "a \<in> validators (run_verifier S)" "a \<notin> run_faulty S"
  shows "safe_history (run_crypto S) (honest_env S) False (local_history S a)"
    and "(a, CommitSigned lis li) \<in> set (run_history S) \<Longrightarrow> \<exists>es. honest_env S (Some es) (OpSignCommitVote lis li) \<and>
      is_ordered_only (commit_info (lis_ledger_info lis)) \<and> match_ordered_only (commit_info (lis_ledger_info lis)) (commit_info li)"
proof -
  from assms obtain s0 s where "sr_fresh False s0"
    and t: "sr_trace (run_crypto S) (run_wh S) (honest_env S) s0 (local_history S a) s"
    unfolding run_ok_def by blast
  moreover have "\<forall>x \<in> set outcomes. pred_option (\<lambda>(e, applied). \<not> applied) x \<Longrightarrow> \<forall>e. Some (e, True) \<notin> set outcomes"
    for outcomes :: "(storage_error \<times> bool) option list" by fastforce
  ultimately have "sr_inv (run_crypto S) (honest_env S) False (local_history S a) s"
    by (intro sr_trace_inv) (auto simp: honest_env_def)
  then show "safe_history (run_crypto S) (honest_env S) False (local_history S a)"
    by (auto simp: sr_inv_def hist_inv_def)
  show "\<exists>es. honest_env S (Some es) (OpSignCommitVote lis li) \<and> is_ordered_only (commit_info (lis_ledger_info lis)) \<and>
      match_ordered_only (commit_info (lis_ledger_info lis)) (commit_info li)"
    if "(a, CommitSigned lis li) \<in> set (run_history S)"
    using commit_signed_checks [OF t] that by (simp add: local_history_iff)
qed

text \<open>A vote of a validator that is not faulty for the vote data of a certificate.\<close>

definition honest_vote :: "protocol_run \<Rightarrow> quorum_cert \<Rightarrow> author \<Rightarrow> vote \<Rightarrow> bool" where
  "honest_vote S qc a vt \<longleftrightarrow> a \<in> validators (run_verifier S) \<and> a \<notin> run_faulty S \<and>
     (a, Voted vt) \<in> set (run_history S) \<and> v_vote_data vt = qc_vote_data qc"

lemma honest_vote_justified:
  assumes "run_ok S" "a \<in> validators (run_verifier S)" "a \<notin> run_faulty S" "(a, Voted vt) \<in> set (run_history S)"
  shows "justified (run_crypto S) (honest_env S) False vt"
    and "consensus_data_hash (v_ledger_info vt) = hash_vote_data (run_crypto S) (v_vote_data vt)"
proof -
  show "justified (run_crypto S) (honest_env S) False vt"
    using honest_history(1) [OF assms(1-3)] assms(4) unfolding safe_history_def by (simp add: local_history_iff)
  then show "consensus_data_hash (v_ledger_info vt) = hash_vote_data (run_crypto S) (v_vote_data vt)"
    using construct_ledger_info_hash by (auto simp: justified_def vote_checks_def)
qed

text \<open>A vote on a ledger info with the data hash of a certificate is a vote for its vote data.\<close>

lemma hash_honest_vote:
  assumes "run_ok S" "epoch_cert S qc" "a \<in> validators (run_verifier S)" "a \<notin> run_faulty S" "(a, Voted vt) \<in> set (run_history S)"
    and "consensus_data_hash (v_ledger_info vt) = hash_vote_data (run_crypto S) (qc_vote_data qc)"
  shows "honest_vote S qc a vt"
proof -
  have "hash_vote_data (run_crypto S) (v_vote_data vt) = hash_vote_data (run_crypto S) (qc_vote_data qc)"
    using honest_vote_justified(2) [OF assms(1,3-5)] assms(6) by simp
  then have "v_vote_data vt = qc_vote_data qc"
    by (rule inj_onD [OF run_okD(4) [OF assms(1), unfolded vote_hash_injective_def]])
      (use assms(2,5) in \<open>auto simp: epoch_cert_def\<close>)
  then show ?thesis using assms(3-5) by (simp add: honest_vote_def)
qed

text \<open>A commit vote with the data hash of a certificate was asked for a certificate of the same vote data.\<close>

lemma commit_vote_cert:
  assumes S: "run_ok S" and qc: "epoch_cert S qc" and a: "a \<in> validators (run_verifier S)" "a \<notin> run_faulty S"
    and c: "(a, CommitSigned lis li) \<in> set (run_history S)"
    and h: "consensus_data_hash li = hash_vote_data (run_crypto S) (qc_vote_data qc)"
  shows "\<exists>qc'. epoch_cert S qc' \<and> qc_signed_ledger_info qc' = lis \<and> qc_vote_data qc' = qc_vote_data qc \<and>
    consensus_data_hash (lis_ledger_info lis) = consensus_data_hash li \<and>
    is_ordered_only (commit_info (lis_ledger_info lis)) \<and> match_ordered_only (commit_info (lis_ledger_info lis)) (commit_info li)"
proof -
  from honest_history(2) [OF S a c] obtain es where env: "honest_env S (Some es) (OpSignCommitVote lis li)"
    and m: "is_ordered_only (commit_info (lis_ledger_info lis))" "match_ordered_only (commit_info (lis_ledger_info lis)) (commit_info li)"
    by blast
  have es: "es_epoch es = run_epoch S \<longrightarrow> es_verifier es = run_verifier S" using env by (simp add: honest_env_def)
  from env obtain qc' info where qc': "qc' \<in> run_certs S" "qc_signed_ledger_info qc' = lis"
    "QuorumCert_verify (run_crypto S) qc' (es_verifier es) = Ok ()" "bi_epoch (certified_block qc') = es_epoch es"
    and "li = generate_commit_ledger_info info lis" by (auto simp: honest_env_def)
  then have hash: "consensus_data_hash (lis_ledger_info lis) = consensus_data_hash li" by (simp add: generate_commit_ledger_info_def)
  have "hash_vote_data (run_crypto S) (qc_vote_data qc') = hash_vote_data (run_crypto S) (qc_vote_data qc)"
    using qc'(2,3) hash h by (simp add: QuorumCert_verify_Ok)
  then have vd: "qc_vote_data qc' = qc_vote_data qc"
    by (rule inj_onD [OF run_okD(4) [OF S, unfolded vote_hash_injective_def]]) (use qc qc'(1) in \<open>auto simp: epoch_cert_def\<close>)
  then have "epoch_cert S qc'" using qc qc' es by (simp add: epoch_cert_def)
  with vd qc' hash m show ?thesis by blast
qed

lemma cert_quorum:
  assumes "run_ok S" "epoch_cert S qc"
  shows "qc_voters (run_verifier S) qc \<subseteq> validators (run_verifier S)"
    and "unat (quorum_voting_power (run_verifier S)) \<le> sum (power_of (run_verifier S)) (qc_voters (run_verifier S) qc)"
  using qc_quorum [OF run_okD(1,2) [OF assms(1)]] assms(2) by (auto simp: epoch_cert_def)

lemma quorums_meet:
  assumes S: "run_ok S" and "P \<subseteq> validators (run_verifier S)" "Q \<subseteq> validators (run_verifier S)"
    and "unat (quorum_voting_power (run_verifier S)) \<le> sum (power_of (run_verifier S)) P"
    and "unat (quorum_voting_power (run_verifier S)) \<le> sum (power_of (run_verifier S)) Q"
  shows "\<exists>a. a \<in> P \<and> a \<in> Q \<and> a \<notin> run_faulty S"
  using vq.overlap_outside [OF run_okD(1) [OF S] assms(2-5)] run_okD(6) [OF S]
  by (auto simp: total_power_sum [OF run_okD(1) [OF S]])

text \<open>
  Signatures rest on votes: whatever ledger info with the data hash of a certificate a validator
  that is not faulty has signed, one of them has voted for the certificate's vote data on a
  ledger info that commits the same block.
\<close>

lemma signature_rests_on_vote:
  assumes S: "run_ok S" and qc: "epoch_cert S qc"
  shows "i < length (run_history S) \<Longrightarrow> run_history S ! i = (a, e) \<Longrightarrow> a \<in> validators (run_verifier S) \<Longrightarrow>
    a \<notin> run_faulty S \<Longrightarrow> signs e li \<Longrightarrow> consensus_data_hash li = hash_vote_data (run_crypto S) (qc_vote_data qc) \<Longrightarrow>
    \<exists>b vt. honest_vote S qc b vt \<and> match_ordered_only (commit_info (v_ledger_info vt)) (commit_info li)"
proof (induction i arbitrary: a e li rule: less_induct)
  case (less i)
  have mem: "(a, e) \<in> set (run_history S)" using less.prems(1,2) by (metis nth_mem)
  from less.prems(5) consider vt where "e = Voted vt" "v_ledger_info vt = li" | lis where "e = CommitSigned lis li"
    by (cases e) auto
  then show ?case
  proof cases
    case 1
    then have "honest_vote S qc a vt" using hash_honest_vote [OF S qc less.prems(3,4)] mem less.prems(6) by simp
    then show ?thesis using 1 by (intro exI [of _ a] exI [of _ vt]) (simp add: match_ordered_only_def)
  next
    case 2
    let ?old = "lis_ledger_info lis"
    from commit_vote_cert [OF S qc less.prems(3,4) _ less.prems(6), of lis] mem 2 obtain qc' where
      qc': "epoch_cert S qc'" "qc_signed_ledger_info qc' = lis" "consensus_data_hash ?old = consensus_data_hash li"
      and m: "is_ordered_only (commit_info ?old)" "match_ordered_only (commit_info ?old) (commit_info li)" by blast
    from quorums_meet [OF S cert_quorum(1) [OF S qc'(1)] cert_quorum(1) [OF S qc'(1)] cert_quorum(2) [OF S qc'(1)] cert_quorum(2) [OF S qc'(1)]]
    obtain b where b: "b \<in> qc_voters (run_verifier S) qc'" "b \<notin> run_faulty S" by blast
    with run_okD(3) [OF S] qc' less.prems(1-4) 2 have "signed_before S i b ?old"
      unfolding unforgeable_def epoch_cert_def by blast
    then obtain j e' where j: "j < i" "j < length (run_history S)" "run_history S ! j = (b, e')" "signs e' ?old"
      unfolding signed_before_def by (metis prod.collapse)
    moreover have "b \<in> validators (run_verifier S)" using cert_quorum(1) [OF S qc'(1)] b(1) by blast
    ultimately obtain c vt where c: "honest_vote S qc c vt" "match_ordered_only (commit_info (v_ledger_info vt)) (commit_info ?old)"
      using less.IH [OF j(1-3) _ b(2) j(4)] qc'(3) less.prems(6) by auto
    then have "match_ordered_only (commit_info (v_ledger_info vt)) (commit_info li)"
      using m by (auto simp: match_ordered_only_def is_ordered_only_def has_reconfiguration_def)
    with c(1) show ?thesis by blast
  qed
qed

text \<open>
  Behind every certificate is a quorum of votes for its vote data: its own signatures, or those of
  the certificate for which the first commit vote was signed.
\<close>

definition quorum_voted :: "protocol_run \<Rightarrow> quorum_cert \<Rightarrow> author set \<Rightarrow> bool" where
  "quorum_voted S qc Q \<longleftrightarrow> Q \<subseteq> validators (run_verifier S) \<and>
     unat (quorum_voting_power (run_verifier S)) \<le> sum (power_of (run_verifier S)) Q \<and>
     (\<forall>a \<in> Q - run_faulty S. \<exists>vt. honest_vote S qc a vt)"

definition commit_at :: "protocol_run \<Rightarrow> quorum_cert \<Rightarrow> nat \<Rightarrow> bool" where
  "commit_at S qc i \<longleftrightarrow> i < length (run_history S) \<and> (\<exists>a lis li. run_history S ! i = (a, CommitSigned lis li) \<and>
     a \<in> validators (run_verifier S) - run_faulty S \<and> consensus_data_hash li = hash_vote_data (run_crypto S) (qc_vote_data qc))"

lemma signed_without_commit:
  assumes S: "run_ok S" and qc: "epoch_cert S qc" and a: "a \<in> validators (run_verifier S)" "a \<notin> run_faulty S"
    and sg: "signed_before S n a li" and h: "consensus_data_hash li = hash_vote_data (run_crypto S) (qc_vote_data qc)"
    and none: "\<And>j. j < n \<Longrightarrow> \<not> commit_at S qc j"
  shows "\<exists>vt. honest_vote S qc a vt"
proof -
  from sg obtain j e where j: "j < n" "j < length (run_history S)" "run_history S ! j = (a, e)" "signs e li"
    unfolding signed_before_def by (metis prod.collapse)
  then have mem: "(a, e) \<in> set (run_history S)" by (metis nth_mem)
  from j none [OF j(1)] a h obtain vt where "e = Voted vt" "v_ledger_info vt = li"
    by (cases e) (auto simp: commit_at_def)
  then show ?thesis using hash_honest_vote [OF S qc a] mem h by auto
qed

lemma cert_quorum_voted:
  assumes S: "run_ok S" and qc: "epoch_cert S qc"
  shows "\<exists>Q. quorum_voted S qc Q"
proof (cases "\<exists>i. commit_at S qc i")
  case False
  have "\<exists>vt. honest_vote S qc a vt" if a: "a \<in> qc_voters (run_verifier S) qc" "a \<notin> run_faulty S" for a
  proof (rule signed_without_commit [OF S qc _ a(2)])
    show "a \<in> validators (run_verifier S)" using cert_quorum(1) [OF S qc] a(1) by blast
    show "signed_before S (length (run_history S)) a (lis_ledger_info (qc_signed_ledger_info qc))"
      using run_okD(3) [OF S] qc a unfolding unforgeable_def epoch_cert_def by blast
    show "consensus_data_hash (lis_ledger_info (qc_signed_ledger_info qc)) = hash_vote_data (run_crypto S) (qc_vote_data qc)"
      using qc by (simp add: epoch_cert_def QuorumCert_verify_Ok)
  qed (use False in blast)
  then show ?thesis using cert_quorum [OF S qc] by (auto simp: quorum_voted_def)
next
  case True
  define i where "i = (LEAST i. commit_at S qc i)"
  have i: "commit_at S qc i" and least: "\<And>j. j < i \<Longrightarrow> \<not> commit_at S qc j"
    using True not_less_Least unfolding i_def by (auto intro: LeastI_ex)
  from i obtain b lis li where b: "i < length (run_history S)" "run_history S ! i = (b, CommitSigned lis li)"
    "b \<in> validators (run_verifier S)" "b \<notin> run_faulty S" "consensus_data_hash li = hash_vote_data (run_crypto S) (qc_vote_data qc)"
    unfolding commit_at_def by blast
  then have "(b, CommitSigned lis li) \<in> set (run_history S)" by (metis nth_mem)
  from commit_vote_cert [OF S qc b(3,4) this b(5)] obtain qc' where qc': "epoch_cert S qc'" "qc_signed_ledger_info qc' = lis"
    "consensus_data_hash (lis_ledger_info lis) = consensus_data_hash li" by blast
  have "\<exists>vt. honest_vote S qc a vt" if a: "a \<in> qc_voters (run_verifier S) qc'" "a \<notin> run_faulty S" for a
  proof (rule signed_without_commit [OF S qc _ a(2) _ _ least])
    show "a \<in> validators (run_verifier S)" using cert_quorum(1) [OF S qc'(1)] a(1) by blast
    show "signed_before S i a (lis_ledger_info lis)"
      using run_okD(3) [OF S] qc' b a unfolding unforgeable_def epoch_cert_def by blast
  qed (use qc'(3) b(5) in simp_all)
  then show ?thesis using cert_quorum [OF S qc'(1)] by (auto simp: quorum_voted_def)
qed

lemma common_honest_voter:
  assumes "run_ok S" "epoch_cert S qc" "epoch_cert S qc'"
  shows "\<exists>a vt vt'. honest_vote S qc a vt \<and> honest_vote S qc' a vt'"
proof -
  from assms obtain P Q where "quorum_voted S qc P" "quorum_voted S qc' Q" using cert_quorum_voted by meson
  with quorums_meet [OF assms(1), of P Q] show ?thesis unfolding quorum_voted_def by blast
qed

section \<open>The laws\<close>

lemma honest_vote_checks:
  assumes "run_ok S" "honest_vote S qc a vt" "bi_epoch (certified_block qc) = run_epoch S"
  shows "\<exists>es now vp tc. es_verifier es = run_verifier S \<and> vote_checks (run_crypto S) es now vp tc vt \<and>
    blk_quorum_cert (vp_block vp) \<in> run_certs S \<and> pred_option (\<lambda>tc. tc_epoch tc = run_epoch S) tc"
proof -
  have "justified (run_crypto S) (honest_env S) False vt"
    using honest_vote_justified(1) [OF assms(1)] assms(2) unfolding honest_vote_def by blast
  then obtain es now vp tc where e: "honest_env S (Some es) (OpVote now vp tc)"
    "es_epoch es = v_epoch vt" and c: "vote_checks (run_crypto S) es now vp tc vt"
    by (auto simp: justified_def)
  have "v_epoch vt = run_epoch S" using assms(2,3) by (simp add: honest_vote_def)
  moreover have "blk_epoch (vp_block vp) = v_epoch vt"
    using c gen_vote_data_parent [of "run_crypto S" vp "v_vote_data vt"] by (simp add: vote_checks_def)
  ultimately show ?thesis using e c by (auto simp: honest_env_def)
qed

lemma honest_vote_parent:
  assumes "run_ok S" "honest_vote S qc a vt" "bi_epoch (certified_block qc) = run_epoch S"
  shows "\<exists>pqc \<in> run_certs S. QuorumCert_verify (run_crypto S) pqc (run_verifier S) = Ok () \<and> certified_block pqc = parent_block qc"
proof -
  from honest_vote_checks [OF assms] obtain es now vp tc
    where "es_verifier es = run_verifier S" "vote_checks (run_crypto S) es now vp tc vt"
    "blk_quorum_cert (vp_block vp) \<in> run_certs S" by blast
  moreover have "v_vote_data vt = qc_vote_data qc" using assms(2) by (simp add: honest_vote_def)
  ultimately show ?thesis
    using gen_vote_data_parent [of "run_crypto S" vp "v_vote_data vt"]
    by (intro bexI [of _ "blk_quorum_cert (vp_block vp)"]) (simp_all add: vote_checks_def)
qed

lemma next_round_Ok [res_iff]: "next_round r = Ok r' \<longleftrightarrow> unat r' = unat r + 1"
  by (auto simp: next_round_def res_iff checked_add_Some)

lemma safe_to_vote_Ok:
  "safe_to_vote b tco = Ok () \<longleftrightarrow>
     unat (blk_round b) = unat (bi_round (certified_block (blk_quorum_cert b))) + 1 \<or>
     unat (bi_round (certified_block (blk_quorum_cert b))) + 1 < 2 ^ 64 \<and>
     unat (blk_round b) = unat (tc_round_or_0 tco) + 1 \<and>
     tc_hqc_round_or_0 tco \<le> bi_round (certified_block (blk_quorum_cert b))"
proof -
  have nr: "next_round r = (if unat r + 1 < 2 ^ 64 then Ok (r + 1) else Err (IncorrectRound r))" for r :: round_t
    by (simp add: next_round_def checked_add_def)
  have eq: "unat r' = unat r + 1 \<longleftrightarrow> unat r + 1 < 2 ^ 64 \<and> r' = r + 1" for r r' :: round_t
    using unat_below [of r'] by (auto simp: word_unat_eq_iff unat_add_no_wrap)
  show ?thesis unfolding safe_to_vote_def Let_def nr eq by auto
qed

lemma certified_lower: "certified S b p \<Longrightarrow> unat (bi_round p) < unat (bi_round b) \<and> bi_epoch p = run_epoch S"
  by (auto simp: certified_def epoch_cert_def QuorumCert_verify_Ok VoteData_verify_Ok word_less_nat_alt)

lemma certified_parent:
  assumes "run_ok S" "certified S b p"
  shows "unat (bi_round p) = 0 \<or> (\<exists>q. certified S p q)"
proof -
  from assms(2) obtain qc where qc: "epoch_cert S qc" "parent_block qc = p"
    unfolding certified_def by blast
  from common_honest_voter [OF assms(1) qc(1) qc(1)] obtain a vt where "honest_vote S qc a vt" by blast
  from honest_vote_parent [OF assms(1) this] obtain pqc where "pqc \<in> run_certs S"
    "QuorumCert_verify (run_crypto S) pqc (run_verifier S) = Ok ()" "certified_block pqc = p"
    using qc by (auto simp: epoch_cert_def)
  moreover have "bi_epoch p = run_epoch S" using certified_lower [OF assms(2)] by simp
  ultimately show ?thesis unfolding certified_def epoch_cert_def by (metis unat_eq_zero)
qed

lemma certified_unique:
  assumes "run_ok S" "certified S b p" "certified S b' p'" "unat (bi_round b) = unat (bi_round b')"
  shows "b = b' \<and> p = p'"
proof -
  from assms(2,3) obtain qc qc' where qc: "epoch_cert S qc" "certified_block qc = b" "parent_block qc = p"
    and qc': "epoch_cert S qc'" "certified_block qc' = b'" "parent_block qc' = p'"
    unfolding certified_def by blast
  from common_honest_voter [OF assms(1) qc(1) qc'(1)] obtain a vt vt'
    where v: "honest_vote S qc a vt" "honest_vote S qc' a vt'" by blast
  then have "safe_history (run_crypto S) (honest_env S) False (local_history S a)"
    using honest_history(1) [OF assms(1)] unfolding honest_vote_def by blast
  moreover have "v_epoch vt = v_epoch vt'" "v_round vt = v_round vt'"
    using v qc qc' assms(4) by (auto simp: honest_vote_def epoch_cert_def word_unat_eq_iff)
  ultimately have "vt = vt'" using v unfolding safe_history_def honest_vote_def local_history_iff by blast
  then have "qc_vote_data qc = qc_vote_data qc'" using v by (simp add: honest_vote_def)
  then show ?thesis using qc(2,3) qc'(2,3) by simp
qed

text \<open>
  A timeout certificate of a round at or above a certified block carries the round of a
  certificate at least as high as the block's parent.
\<close>

lemma timeout_cert_covers:
  assumes S: "run_ok S" and qc: "epoch_cert S qc"
    and tc: "TwoChainTimeoutCertificate_verify (run_crypto S) tc (run_verifier S) = Ok ()" "tc_epoch tc = run_epoch S"
    and le: "bi_round (certified_block qc) \<le> tc_round tc"
  shows "bi_round (parent_block qc) \<le> highest_hqc_round tc"
proof -
  let ?v = "run_verifier S"
  let ?listed = "get_voters_and_rounds (tc_signatures_with_rounds tc) (get_ordered_account_addresses ?v)"
  note ok = run_okD [OF S]
  note listed = tc_listed_rounds [OF ok(5,2) tc(1)]
  from cert_quorum_voted [OF S qc] obtain Q where Q: "quorum_voted S qc Q" by blast
  then obtain a where a: "a \<in> Q" "a \<in> set (tc_voters ?v tc)" "a \<notin> run_faulty S"
    using quorums_meet [OF S _ tc_quorum(1) [OF ok(1,2) tc(1)] _ tc_quorum(3) [OF ok(1,2) tc(1)]]
    unfolding quorum_voted_def by blast
  from a(2) obtain r where r: "(a, r) \<in> set ?listed" unfolding listed(1) [symmetric] by auto
  then have rle: "r \<le> highest_hqc_round tc" using listed(2) by blast
  from ok(3) tc(1) r a(3) obtain t where t: "(a, TimedOut t) \<in> set (run_history S)"
    "signing_format t = \<lparr>tsr_epoch = tc_epoch tc, tsr_round = tc_round tc, tsr_hqc_round = r\<rparr>"
    unfolding unforgeable_def by blast
  from Q a obtain vt where vt: "honest_vote S qc a vt" unfolding quorum_voted_def by blast
  then have "safe_history (run_crypto S) (honest_env S) False (local_history S a)"
    using honest_history(1) [OF S] unfolding honest_vote_def by blast
  moreover have "v_epoch vt = to_epoch t" "v_round vt \<le> to_round t"
    using vt t(2) qc tc(2) le by (auto simp: honest_vote_def epoch_cert_def signing_format_def)
  ultimately have "v_parent_round vt \<le> hqc_round t"
    using vt t(1) unfolding safe_history_def honest_vote_def local_history_iff by blast
  then show ?thesis using vt t(2) rle by (auto simp: honest_vote_def signing_format_def)
qed

lemma certified_locked:
  assumes S: "run_ok S" and 1: "certified S b1 b0" and direct: "unat (bi_round b1) = Suc (unat (bi_round b0))"
    and 2: "certified S b p" and above: "unat (bi_round b1) < unat (bi_round b)"
  shows "unat (bi_round b0) \<le> unat (bi_round p)"
proof -
  from 1 2 obtain qc1 qc where qc1: "epoch_cert S qc1" "certified_block qc1 = b1" "parent_block qc1 = b0"
    and qc: "epoch_cert S qc" "certified_block qc = b" "parent_block qc = p"
    unfolding certified_def by blast
  from common_honest_voter [OF S qc(1) qc(1)] obtain a vt where vt: "honest_vote S qc a vt" by blast
  from honest_vote_checks [OF S vt] qc(1) obtain es now vp tco where es: "es_verifier es = run_verifier S"
    and c: "vote_checks (run_crypto S) es now vp tco vt" and e: "pred_option (\<lambda>tc. tc_epoch tc = run_epoch S) tco"
    unfolding epoch_cert_def by blast
  have blk: "blk_round (vp_block vp) = bi_round b" "certified_block (blk_quorum_cert (vp_block vp)) = p"
    using c gen_vote_data_parent [of "run_crypto S" vp "v_vote_data vt"] vt qc(2,3)
    by (auto simp: vote_checks_def honest_vote_def)
  have "safe_to_vote (vp_block vp) tco = Ok ()" using c by (simp add: vote_checks_def)
  then consider "unat (bi_round b) = unat (bi_round p) + 1"
    | "unat (bi_round b) = unat (tc_round_or_0 tco) + 1" "tc_hqc_round_or_0 tco \<le> bi_round p"
    unfolding safe_to_vote_Ok blk by blast
  then show ?thesis
  proof cases
    case 1
    then show ?thesis using direct above by simp
  next
    case 2
    then obtain tc where tc: "tco = Some tc"
      using above direct by (cases tco) (auto simp: tc_round_or_0_def)
    have "TwoChainTimeoutCertificate_verify (run_crypto S) tc (run_verifier S) = Ok ()"
      using c es tc by (simp add: vote_checks_def)
    moreover have "bi_round (certified_block qc1) \<le> tc_round tc"
      using 2(1) above tc qc1(2) by (simp add: tc_round_or_0_def word_le_nat_alt)
    ultimately have "bi_round b0 \<le> highest_hqc_round tc"
      using timeout_cert_covers [OF S qc1(1)] e tc qc1(3) by simp
    then show ?thesis using 2(2) tc by (simp add: tc_hqc_round_or_0_def word_le_nat_alt)
  qed
qed

interpretation chain: certified_chain run_ok certified "\<lambda>b. unat (bi_round b)"
proof
  show "unat (bi_round p) < unat (bi_round b)" if "run_ok S" "certified S b p" for S b p
    using certified_lower [OF that(2)] by simp
qed (fact certified_parent certified_unique certified_locked)+

lemma construct_ledger_info_commit:
  assumes "construct_ledger_info_2chain b h = Ok li" "commit_info li \<noteq> BlockInfo_empty"
  shows "commit_info li = certified_block (blk_quorum_cert b)"
    and "unat (blk_round b) = unat (bi_round (certified_block (blk_quorum_cert b))) + 1"
proof -
  from assms(1) obtain n where n: "next_round (bi_round (certified_block (blk_quorum_cert b))) = Ok n"
    "li = \<lparr>commit_info = (if n = blk_round b then certified_block (blk_quorum_cert b) else BlockInfo_empty),
         consensus_data_hash = h\<rparr>"
    unfolding construct_ledger_info_2chain_def bind_res_Ok_iff by auto
  with assms(2) have "n = blk_round b" by (simp split: if_splits)
  with n show "commit_info li = certified_block (blk_quorum_cert b)"
    and "unat (blk_round b) = unat (bi_round (certified_block (blk_quorum_cert b))) + 1"
    by (auto simp: next_round_Ok)
qed

text \<open>
  A certificate that commits something, before or after execution, commits the parent of its
  block, one round below.
\<close>

lemma commit_is_parent:
  assumes S: "run_ok S" and qc: "epoch_cert S qc" and commit: "0 < bi_round (qc_commit_info qc)"
  shows "certified S (certified_block qc) (parent_block qc)"
    and "unat (bi_round (certified_block qc)) = Suc (unat (bi_round (parent_block qc)))"
    and "match_ordered_only (parent_block qc) (qc_commit_info qc)"
proof -
  from quorums_meet [OF S cert_quorum(1) [OF S qc] cert_quorum(1) [OF S qc] cert_quorum(2) [OF S qc] cert_quorum(2) [OF S qc]]
  obtain a where a: "a \<in> qc_voters (run_verifier S) qc" "a \<notin> run_faulty S" by blast
  with run_okD(3) [OF S] qc have "signed_before S (length (run_history S)) a (lis_ledger_info (qc_signed_ledger_info qc))"
    unfolding unforgeable_def epoch_cert_def by blast
  then obtain i e where i: "i < length (run_history S)" "run_history S ! i = (a, e)" "signs e (lis_ledger_info (qc_signed_ledger_info qc))"
    unfolding signed_before_def by (metis prod.collapse)
  moreover have "a \<in> validators (run_verifier S)" using cert_quorum(1) [OF S qc] a(1) by blast
  moreover have "consensus_data_hash (lis_ledger_info (qc_signed_ledger_info qc)) = hash_vote_data (run_crypto S) (qc_vote_data qc)"
    using qc by (simp add: epoch_cert_def QuorumCert_verify_Ok)
  ultimately obtain b vt where vt: "honest_vote S qc b vt"
    and m: "match_ordered_only (commit_info (v_ledger_info vt)) (qc_commit_info qc)"
    using signature_rests_on_vote [OF S qc i(1,2) _ a(2) i(3)] by (auto simp: qc_commit_info_def)
  from honest_vote_checks [OF S vt] qc obtain es now vp tco
    where c: "vote_checks (run_crypto S) es now vp tco vt" unfolding epoch_cert_def by blast
  have blk: "blk_round (vp_block vp) = bi_round (certified_block qc)"
    "certified_block (blk_quorum_cert (vp_block vp)) = parent_block qc"
    using c gen_vote_data_parent [of "run_crypto S" vp "v_vote_data vt"] vt
    by (auto simp: vote_checks_def honest_vote_def)
  have li: "construct_ledger_info_2chain (vp_block vp) (hash_vote_data (run_crypto S) (v_vote_data vt)) = Ok (v_ledger_info vt)"
    using c by (simp add: vote_checks_def)
  have "commit_info (v_ledger_info vt) \<noteq> BlockInfo_empty"
    using m commit by (auto simp: match_ordered_only_def BlockInfo_empty_def)
  from construct_ledger_info_commit [OF li this] have p: "commit_info (v_ledger_info vt) = parent_block qc"
    "unat (bi_round (certified_block qc)) = unat (bi_round (parent_block qc)) + 1" unfolding blk by simp_all
  then show "unat (bi_round (certified_block qc)) = Suc (unat (bi_round (parent_block qc)))"
    and "match_ordered_only (parent_block qc) (qc_commit_info qc)" using m by simp_all
  show "certified S (certified_block qc) (parent_block qc)" using qc by (auto simp: certified_def)
qed

lemma certified_star_round:
  "(certified S)\<^sup>*\<^sup>* b c \<Longrightarrow> b = c \<or> unat (bi_round c) < unat (bi_round b)"
  by (induction rule: rtranclp_induct) (auto dest!: certified_lower)

section \<open>The run of a single validator\<close>

text \<open>
  The validator votes in rounds 1 and 2, signs the commit vote for the block of round 1 once it is
  executed, and votes in round 3. The certificate of round 2 exists twice: as it was formed from the
  votes, and merged with the commit vote.
\<close>

definition solo_merged :: quorum_cert where
  "solo_merged = (solo_qc 2)\<lparr>qc_signed_ledger_info := LedgerInfoWithSignatures_new solo_commit
     (lis_signatures (qc_signed_ledger_info (solo_qc 2)))\<rparr>"

definition solo_run :: protocol_run where
  "solo_run = \<lparr>run_crypto = solo_crypto, run_wh = (\<lambda>_. 0), run_verifier = solo_verifier, run_epoch = 1,
     run_faulty = {}, run_certs = {solo_qc 0, solo_qc 1, solo_qc 2, solo_merged, solo_qc 3},
     run_history = [(5, Voted (solo_vote 1)), (5, Voted (solo_vote 2)),
       (5, CommitSigned (qc_signed_ledger_info (solo_qc 2)) solo_commit), (5, Voted (solo_vote 3))]\<rparr>"

lemma solo_run_simps [simp]:
  "run_crypto solo_run = solo_crypto" "run_verifier solo_run = solo_verifier" "run_epoch solo_run = 1"
  "run_faulty solo_run = {}" "run_wh solo_run = (\<lambda>_. 0)"
  "run_certs solo_run = {solo_qc 0, solo_qc 1, solo_qc 2, solo_merged, solo_qc 3}"
  "run_history solo_run = [(5, Voted (solo_vote 1)), (5, Voted (solo_vote 2)),
     (5, CommitSigned (qc_signed_ledger_info (solo_qc 2)) solo_commit), (5, Voted (solo_vote 3))]"
  by (simp_all add: solo_run_def)

lemma solo_merged_simps [simp]:
  "qc_vote_data solo_merged = solo_vote_data 2" "lis_ledger_info (qc_signed_ledger_info solo_merged) = solo_commit"
  "lis_ledger_info (qc_signed_ledger_info (solo_qc r)) = solo_ledger_info r"
  "lis_signatures (qc_signed_ledger_info solo_merged) = lis_signatures (qc_signed_ledger_info (solo_qc 2))"
  by (simp_all add: solo_merged_def solo_qc_def)

lemma solo_signatures:
  assumes "li = solo_commit \<or> li \<in> solo_ledger_info ` {1, 2, 3}"
  shows "verify_signatures (bls_ledger_info solo_crypto)
    (LedgerInfoWithSignatures_new li (lis_signatures (qc_signed_ledger_info (solo_qc 2)))) solo_verifier = Ok ()"
proof -
  have "check_num_of_voters 1 \<lparr>inner = [0x80]\<rparr> = Ok ()"
    "collect_signers solo_verifier (iter_ones \<lparr>inner = [0x80]\<rparr>)
      = Ok [\<lparr>vci_address = 5, vci_public_key = [7], vci_voting_power = 1\<rparr>]"
    by code_simp+
  moreover have "check_voting_power solo_verifier [5] = Ok ()"
    by (rule check_voting_power_OkI [OF solo_verifier_wf]) simp_all
  ultimately show ?thesis using assms
    by (auto simp: verify_signatures_def verify_multi_signatures_def solo_qc_def solo_crypto_def ideal_bls_def ensure_def)
qed

lemma solo_merged_verifies: "QuorumCert_verify solo_crypto solo_merged solo_verifier = Ok ()"
proof -
  have "QuorumCert_verify solo_crypto (solo_qc 2) solo_verifier = Ok ()" by (rule solo_qc_verifies) simp
  then show ?thesis
    using solo_signatures [of solo_commit] by (simp add: QuorumCert_verify_Ok solo_merged_def solo_commit_def)
qed

lemma solo_commits:
  "sr_exec solo_crypto (\<lambda>_. 0) (OpSignCommitVote (qc_signed_ledger_info (solo_qc 2)) solo_commit) (solo_state 2)
     = ([CommitSigned (qc_signed_ledger_info (solo_qc 2)) solo_commit], solo_state 2)"
proof -
  have "is_ordered_only (solo_info 1)" by (simp add: is_ordered_only_def solo_info_def BlockInfo_empty_def)
  moreover have "match_ordered_only (solo_info 1) (commit_info solo_commit)"
    by (simp add: match_ordered_only_def solo_commit_def)
  moreover have "verify_signatures (bls_ledger_info solo_crypto) (qc_signed_ledger_info (solo_qc 2)) solo_verifier = Ok ()"
    using solo_signatures [of "solo_ledger_info 2"] by (simp add: solo_qc_def)
  ultimately show ?thesis
    by (simp add: guarded_sign_commit_vote_def bind_ex_def Let_def signer_def reads_def lift_ex_def epoch_state_of_def
      sr_sign_def emit_def solo_ledger_info_def solo_vote_data_def)
qed

lemma solo_no_timeout_cert: "TwoChainTimeoutCertificate_verify solo_crypto tc solo_verifier \<noteq> Ok ()"
proof
  assume "TwoChainTimeoutCertificate_verify solo_crypto tc solo_verifier = Ok ()"
  then obtain ms sig where "verify_aggregate_signatures (bls_timeout solo_crypto) solo_verifier ms sig = Ok ()"
    by (auto simp: TwoChainTimeoutCertificate_verify_def bind_res_Ok_iff map_err_Ok_iff)
  then obtain signers :: "validator_consensus_info list" and asig where s: "check_voting_power solo_verifier (map vci_address signers) = Ok ()"
    "bls_verify_aggregate (cc_bls solo_crypto) asig (map SignTimeout ms) (map vci_public_key signers)"
    by (auto simp: verify_aggregate_signatures_def bind_res_Ok_iff ensure_Ok_iff)
  have "signers \<noteq> []" using s(1) by (auto simp: check_voting_power_def)
  then obtain x xs y ys where "signers = x # xs" "ms = y # ys"
    using s(2) by (cases signers; cases ms) (auto simp: solo_crypto_def ideal_bls_def)
  then show False using s(2) by (cases "vci_public_key x") (auto simp: solo_crypto_def ideal_bls_def)
qed

lemma solo_env:
  "r \<in> {1, 2, 3} \<Longrightarrow> honest_env solo_run (Some solo_epoch_state) (OpVote 0 (solo_proposal r) None)"
  "honest_env solo_run (Some solo_epoch_state) (OpSignCommitVote (qc_signed_ledger_info (solo_qc 2)) solo_commit)"
  "honest_env solo_run None (OpInitialize solo_proof)"
proof -
  show "honest_env solo_run (Some solo_epoch_state) (OpVote 0 (solo_proposal r) None)" if "r \<in> {1, 2, 3}"
    using that solo_proposal_checks(3) [OF that] by (auto simp: honest_env_def)
  have "solo_commit = generate_commit_ledger_info (commit_info solo_commit) (qc_signed_ledger_info (solo_qc 2))"
    by (simp add: generate_commit_ledger_info_def solo_commit_def)
  then show "honest_env solo_run (Some solo_epoch_state) (OpSignCommitVote (qc_signed_ledger_info (solo_qc 2)) solo_commit)"
    using solo_qc_verifies [of 2] unfolding honest_env_def by (auto intro!: bexI [of _ "solo_qc 2"])
qed (simp add: honest_env_def)

lemma solo_run_history:
  "sr_trace solo_crypto (\<lambda>_. 0) (honest_env solo_run) solo_start (local_history solo_run 5) (solo_state 3)"
proof -
  let ?env = "honest_env solo_run" and ?c = "CommitSigned (qc_signed_ledger_info (solo_qc 2)) solo_commit"
  have "?env (sr_epoch_state solo_start) (OpInitialize solo_proof)"
    using solo_env(3) by (simp add: solo_start_def SafetyRules_new_def)
  from sr_trace.step [where env = ?env and ?s0.0 = solo_start, OF sr_trace.start this solo_starts]
  have 0: "sr_trace solo_crypto (\<lambda>_. 0) ?env solo_start [] (solo_state 0)" by simp
  note vote = solo_trace_vote [where env = ?env and ?s0.0 = solo_start, OF _ _ solo_env(1)]
  have 1: "sr_trace solo_crypto (\<lambda>_. 0) ?env solo_start [Voted (solo_vote 1)] (solo_state 1)"
    using vote [of "[]" 1] 0 by simp
  have 2: "sr_trace solo_crypto (\<lambda>_. 0) ?env solo_start [Voted (solo_vote 1), Voted (solo_vote 2)] (solo_state 2)"
    using vote [of "[Voted (solo_vote 1)]" 2] 1 by simp
  have "?env (sr_epoch_state (solo_state 2)) (OpSignCommitVote (qc_signed_ledger_info (solo_qc 2)) solo_commit)"
    using solo_env(2) by simp
  from sr_trace.step [where env = ?env and ?s0.0 = solo_start, OF 2 this solo_commits]
  have "sr_trace solo_crypto (\<lambda>_. 0) ?env solo_start [Voted (solo_vote 1), Voted (solo_vote 2), ?c] (solo_state 2)" by simp
  from vote [of "[Voted (solo_vote 1), Voted (solo_vote 2), ?c]" 3] this show ?thesis by (simp add: local_history_def)
qed

lemma solo_unforgeable: "unforgeable solo_run"
proof -
  let ?n = "length (run_history solo_run)"
  have sg: "signed_before solo_run n 5 (solo_ledger_info 1)" if "0 < n" for n
    unfolding signed_before_def by (rule exI [of _ 0]) (use that in simp)
  have sg2: "signed_before solo_run n 5 (solo_ledger_info 2)" if "1 < n" for n
    unfolding signed_before_def by (rule exI [of _ 1]) (use that in simp)
  have sg3: "signed_before solo_run 4 5 solo_commit" "signed_before solo_run 4 5 (solo_ledger_info 3)"
    unfolding signed_before_def by (rule exI [of _ 2], simp) (rule exI [of _ 3], simp)
  have voters: "qc_voters solo_verifier qc \<subseteq> {5}" if "QuorumCert_verify solo_crypto qc solo_verifier = Ok ()" "bi_round (certified_block qc) \<noteq> 0" for qc
    using qc_quorum(1) [OF solo_verifier_wf _ that] by simp
  have n: "?n = 4" by simp
  have lis: "qc_signed_ledger_info qc = qc_signed_ledger_info (solo_qc 2) \<Longrightarrow> lis_ledger_info (qc_signed_ledger_info qc) = solo_ledger_info 2" for qc
    by simp
  show ?thesis
    unfolding unforgeable_def
  proof (intro conjI ballI allI impI)
    fix qc a assume qc: "qc \<in> run_certs solo_run" "QuorumCert_verify (run_crypto solo_run) qc (run_verifier solo_run) = Ok ()"
      "bi_round (certified_block qc) \<noteq> 0" and "a \<in> qc_voters (run_verifier solo_run) qc"
    then have a: "a = 5" using voters by auto
    have "lis_ledger_info (qc_signed_ledger_info qc) \<in> {solo_ledger_info 1, solo_ledger_info 2, solo_commit, solo_ledger_info 3}"
      using qc(1,3) by auto
    then show "signed_before solo_run ?n a (lis_ledger_info (qc_signed_ledger_info qc))"
      using a sg [of 4] sg2 [of 4] sg3 by (auto simp only: n insert_iff empty_iff zero_less_numeral one_less_numeral_iff semiring_norm)
    fix i b li assume i: "i < ?n" "run_history solo_run ! i = (b, CommitSigned (qc_signed_ledger_info qc) li)"
    from i(1) have "i = 0 \<or> i = 1 \<or> i = 2 \<or> i = 3" unfolding n by linarith
    with i(2) have "i = 2" "qc_signed_ledger_info qc = qc_signed_ledger_info (solo_qc 2)" by auto
    then show "signed_before solo_run i a (lis_ledger_info (qc_signed_ledger_info qc))"
      using a sg2 [of 2] lis by simp
  qed (use solo_no_timeout_cert in simp)
qed

lemma solo_run_ok: "run_ok solo_run"
proof -
  have "vote_hash_injective solo_run"
    unfolding vote_hash_injective_def by (auto simp: inj_on_def solo_crypto_def)
  moreover have "bls_aggregate_lengths (cc_bls solo_crypto)"
    by (simp add: bls_aggregate_lengths_def solo_crypto_def ideal_bls_def)
  moreover have "sr_fresh False solo_start"
    by (auto simp: sr_fresh_def holds_def acked_def solo_start_def SafetyRules_new_def solo_storage_def solo_data_def)
  ultimately show ?thesis
    using solo_verifier_wf solo_unforgeable solo_run_history unfolding run_ok_def by auto
qed

section \<open>Properties\<close>

text \<open>
  C1. Agreement. In a run with at most a third of the voting power faulty, take two verified
  certificates of the epoch that commit something, formed from votes or merged with the commit
  votes signed after execution. Each commits, up to the results of execution, the parent of its
  block, and the parent of the higher one extends the parent of the lower one in the chain of
  certified blocks; so commits at the same round are of the same block. The validators that are not
  faulty make any calls of their safety rules and restart at any time; what they rely on is
  \<open>honest_env\<close>: the run's validators for the epoch, timeout certificates of the epoch of the
  proposal, commit votes asked for verified certificates of their epoch with the data hash
  kept, and no failed write of the storage taking effect. Their signatures are not forged and the hash of
  vote data has no collision in the run.
\<close>

theorem commits_agree:
  assumes "run_ok S" "epoch_cert S qc1" "epoch_cert S qc2"
    and "0 < bi_round (qc_commit_info qc1)" "bi_round (qc_commit_info qc1) \<le> bi_round (qc_commit_info qc2)"
  shows "(certified S)\<^sup>*\<^sup>* (parent_block qc2) (parent_block qc1) \<and>
    match_ordered_only (parent_block qc1) (qc_commit_info qc1) \<and> match_ordered_only (parent_block qc2) (qc_commit_info qc2) \<and>
    (bi_round (qc_commit_info qc1) = bi_round (qc_commit_info qc2) \<longrightarrow> bi_id (qc_commit_info qc1) = bi_id (qc_commit_info qc2))"
proof -
  have pos: "0 < bi_round (qc_commit_info qc2)" using assms(4,5) by (rule less_le_trans)
  note c1 = commit_is_parent [OF assms(1,2,4)] and c2 = commit_is_parent [OF assms(1,3) pos]
  have r: "bi_round (parent_block qc1) = bi_round (qc_commit_info qc1)" "bi_round (parent_block qc2) = bi_round (qc_commit_info qc2)"
    "bi_id (parent_block qc1) = bi_id (qc_commit_info qc1)" "bi_id (parent_block qc2) = bi_id (qc_commit_info qc2)"
    using c1(3) c2(3) by (simp_all only: match_ordered_only_def)
  have "(certified S)\<^sup>*\<^sup>* (parent_block qc2) (parent_block qc1)"
    by (rule chain.agreement [OF assms(1) c1(1,2) _ c2(1)])
      (use assms(4,5) in \<open>simp_all only: r [symmetric] word_less_nat_alt word_le_nat_alt unat_0\<close>)
  moreover from certified_star_round [OF this]
  have "bi_round (qc_commit_info qc1) = bi_round (qc_commit_info qc2) \<longrightarrow> bi_id (qc_commit_info qc1) = bi_id (qc_commit_info qc2)"
    unfolding r [symmetric] by auto
  ultimately show ?thesis using c1(3) c2(3) by blast
qed

theorem commits_agree_witness:
  "(certified solo_run)\<^sup>*\<^sup>* (solo_info 2) (solo_info 1) \<and> match_ordered_only (solo_info 1) (qc_commit_info solo_merged) \<and>
   solo_info 1 \<noteq> qc_commit_info solo_merged"
proof -
  have "epoch_cert solo_run solo_merged" "epoch_cert solo_run (solo_qc 3)"
    using solo_merged_verifies solo_qc_verifies [of 3] by (simp_all add: epoch_cert_def)
  moreover have "parent_block (solo_qc 3) = solo_info 2" "parent_block solo_merged = solo_info 1"
    "bi_round (qc_commit_info solo_merged) = 1" "bi_round (qc_commit_info (solo_qc 3)) = 2"
    by (simp_all add: solo_vote_data_def solo_commit_def solo_ledger_info_def)
  moreover have "solo_info 1 \<noteq> qc_commit_info solo_merged" by (simp add: solo_commit_def solo_info_def)
  ultimately show ?thesis
    using commits_agree [OF solo_run_ok, of solo_merged "solo_qc 3"] by auto
qed

end
