(* ===== verification/Pending_Votes.thy ===== *)
theory Pending_Votes
  imports Consensus_Msgs Exec
begin

text \<open>
  The collection of votes of one round (\<open>consensus/src/pending_votes.rs\<close>): it accepts one vote
  per author, groups the votes by the digest of their ledger info, and forms a quorum certificate
  or a timeout certificate as soon as a quorum of signatures is there.

  The hash maps are finite maps kept in key order; their iteration order is not observed, except
  by \<open>drain_votes\<close>, whose result the callers use as a set. \<open>insert_vote\<close> returns no error; the
  error type of its result is \<open>unit\<close>, and only its panics matter.
\<close>

section \<open>Definitions\<close>

datatype vote_reception_result =
    VoteAdded u128
  | DuplicateVote
  | EquivocateVote
  | NewQuorumCertificate quorum_cert
  | New2ChainTimeoutCertificate two_chain_timeout_certificate
  | ErrorAddingVote verify_error
  | ErrorAggregatingSignature verify_error
  | ErrorAggregatingTimeoutCertificate verify_error
  | UnexpectedRound u64 u64
  | EchoTimeout u128

record pending_votes =
  li_digest_to_votes :: "(hash_value, ledger_info_with_partial_signatures) btree_map"
  maybe_partial_2chain_tc :: "two_chain_timeout_with_partial_signatures option"
  author_to_vote :: "(author, vote \<times> hash_value) btree_map"
  echo_timeout :: bool

definition PendingVotes_new :: pending_votes where
  "PendingVotes_new = \<lparr>li_digest_to_votes = [], maybe_partial_2chain_tc = None, author_to_vote = [], echo_timeout = False\<rparr>"

text \<open>
  The fourth and fifth step of \<open>insert_vote\<close>: \<open>voting_power\<close> is that of the votes for the
  ledger info.
\<close>

definition insert_timeout ::
  "consensus_crypto \<Rightarrow> vote \<Rightarrow> validator_verifier \<Rightarrow> u128 \<Rightarrow> (pending_votes, vote_reception_result, unit) exec" where
  "insert_timeout cc vote v voting_power pv =
     (case v_two_chain_timeout vote of
        None \<Rightarrow> (Ok (VoteAdded voting_power), pv)
      | Some (timeout, sg) \<Rightarrow>
          (let partial_tc = ttp_add (case maybe_partial_2chain_tc pv of
                 None \<Rightarrow> TwoChainTimeoutWithPartialSignatures_new timeout | Some tc \<Rightarrow> tc) (v_author vote) timeout sg;
               pv = pv\<lparr>maybe_partial_2chain_tc := Some partial_tc\<rparr>
           in case check_voting_power v (ttp_signers partial_tc) of
                Ok _ \<Rightarrow>
                  (case ttp_aggregate_signatures cc partial_tc v of
                     Ok tc \<Rightarrow> (Ok (New2ChainTimeoutCertificate tc), pv)
                   | Err e \<Rightarrow> (Ok (ErrorAggregatingTimeoutCertificate e), pv)
                   | Panic \<Rightarrow> (Panic, pv))
              | Err (TooLittleVotingPower tc_voting_power _) \<Rightarrow>
                  if \<not> echo_timeout pv then
                    (case bind_res (sub_chk (total_voting_power v) (quorum_voting_power v)) (\<lambda>d. add_chk d 1) of
                       Ok f_plus_one \<Rightarrow>
                         if tc_voting_power \<ge> f_plus_one
                         then (Ok (EchoTimeout tc_voting_power), pv\<lparr>echo_timeout := True\<rparr>)
                         else (Ok (VoteAdded voting_power), pv)
                     | Err e \<Rightarrow> (Err e, pv)
                     | Panic \<Rightarrow> (Panic, pv))
                  else (Ok (VoteAdded voting_power), pv)
              | Err e \<Rightarrow> (Ok (ErrorAddingVote e), pv)
              | Panic \<Rightarrow> (Panic, pv)))"

text \<open>The second step stores the vote, and the start of the third adds its signature.\<close>

definition store_vote :: "consensus_crypto \<Rightarrow> vote \<Rightarrow> pending_votes \<Rightarrow> ledger_info_with_partial_signatures \<times> pending_votes" where
  "store_vote cc vote pv =
     (let li_digest = hash_ledger_info cc (v_ledger_info vote);
          li_with_sig = lips_add_signature
            (case map_of (li_digest_to_votes pv) li_digest of
               Some li \<Rightarrow> li
             | None \<Rightarrow> \<lparr>lips_ledger_info = v_ledger_info vote, lips_partial_sigs = PartialSignatures_empty\<rparr>)
            (v_author vote) (v_signature vote)
      in (li_with_sig, pv\<lparr>author_to_vote := bt_insert (v_author vote) (vote, li_digest) (author_to_vote pv),
                          li_digest_to_votes := bt_insert li_digest li_with_sig (li_digest_to_votes pv)\<rparr>))"

definition add_vote ::
  "consensus_crypto \<Rightarrow> vote \<Rightarrow> validator_verifier \<Rightarrow> (pending_votes, vote_reception_result, unit) exec" where
  "add_vote cc vote v pv =
     (let (li_with_sig, pv) = store_vote cc vote pv
      in case check_voting_power v (bt_keys (ps_signatures (lips_partial_sigs li_with_sig))) of
           Ok _ \<Rightarrow>
             (case lips_aggregate_signatures (bls_ledger_info cc) li_with_sig v of
                Ok lis \<Rightarrow> (Ok (NewQuorumCertificate \<lparr>qc_vote_data = v_vote_data vote, qc_signed_ledger_info = lis\<rparr>), pv)
              | Err e \<Rightarrow> (Ok (ErrorAggregatingSignature e), pv)
              | Panic \<Rightarrow> (Panic, pv))
         | Err (TooLittleVotingPower voting_power _) \<Rightarrow> insert_timeout cc vote v voting_power pv
         | Err e \<Rightarrow> (Ok (ErrorAddingVote e), pv)
         | Panic \<Rightarrow> (Panic, pv))"

definition insert_vote ::
  "consensus_crypto \<Rightarrow> vote \<Rightarrow> validator_verifier \<Rightarrow> (pending_votes, vote_reception_result, unit) exec" where
  "insert_vote cc vote v pv =
     (case map_of (author_to_vote pv) (v_author vote) of
        Some (previously_seen_vote, previous_li_digest) \<Rightarrow>
          if hash_ledger_info cc (v_ledger_info vote) = previous_li_digest
          then if \<not> (is_timeout vote \<and> \<not> is_timeout previously_seen_vote)
               then (Ok DuplicateVote, pv) else add_vote cc vote v pv
          else (Ok EquivocateVote, pv)
      | None \<Rightarrow> add_vote cc vote v pv)"

definition drain_votes ::
  "pending_votes \<Rightarrow> ((hash_value \<times> ledger_info_with_partial_signatures) list \<times>
     two_chain_timeout_with_partial_signatures option) \<times> pending_votes" where
  "drain_votes pv = ((li_digest_to_votes pv, maybe_partial_2chain_tc pv),
     pv\<lparr>li_digest_to_votes := [], maybe_partial_2chain_tc := None\<rparr>)"

text \<open>The votes of a round in the order of their arrival, with what was answered to each.\<close>

fun insert_votes ::
  "consensus_crypto \<Rightarrow> validator_verifier \<Rightarrow> vote list \<Rightarrow> pending_votes \<Rightarrow>
   (vote_reception_result, unit) result list \<times> pending_votes" where
  "insert_votes cc v [] pv = ([], pv)"
| "insert_votes cc v (vote # votes) pv =
     (case insert_vote cc vote v pv of (r, pv') \<Rightarrow>
        case insert_votes cc v votes pv' of (rs, pv'') \<Rightarrow> (r # rs, pv''))"

section \<open>Invariant\<close>

text \<open>
  The votes the collection is given: verified, and of its epoch and round. Their ledger infos are
  in a set \<open>L\<close> on which the hash has no collisions.
\<close>

definition round_vote ::
  "consensus_crypto \<Rightarrow> validator_verifier \<Rightarrow> u64 \<Rightarrow> round_t \<Rightarrow> ledger_info set \<Rightarrow> vote \<Rightarrow> bool" where
  "round_vote cc v e r L vt \<longleftrightarrow> Vote_verify cc vt v = Ok () \<and> v_epoch vt = e \<and>
     bi_round (vd_proposed (v_vote_data vt)) = r \<and> v_ledger_info vt \<in> L"

definition first_vote :: "vote list \<Rightarrow> author \<Rightarrow> vote option" where
  "first_vote votes a = find (\<lambda>vt. v_author vt = a) votes"

definition timeouts_valid ::
  "consensus_crypto \<Rightarrow> validator_verifier \<Rightarrow> u64 \<Rightarrow> round_t \<Rightarrow> (author \<times> two_chain_timeout \<times> signature) list \<Rightarrow> bool" where
  "timeouts_valid cc v e r ts \<longleftrightarrow> (\<forall>(a, t, s) \<in> set ts. to_epoch t = e \<and> to_round t = r \<and>
     TwoChainTimeout_verify cc t v = Ok () \<and> ValidatorVerifier_verify (bls_timeout cc) v a (signing_format t) s = Ok ())"

definition lips_inv ::
  "consensus_crypto \<Rightarrow> validator_verifier \<Rightarrow> author set \<Rightarrow> ledger_info_with_partial_signatures \<Rightarrow> bool" where
  "lips_inv cc v A lips \<longleftrightarrow> bt_sorted (ps_signatures (lips_partial_sigs lips)) \<and>
     set (bt_keys (ps_signatures (lips_partial_sigs lips))) = A \<and>
     (\<forall>(a, s) \<in> set (ps_signatures (lips_partial_sigs lips)).
        ValidatorVerifier_verify (bls_ledger_info cc) v a (lips_ledger_info lips) s = Ok ())"

text \<open>
  The invariant relates the collection to the votes it was given: it keeps for every author the
  digest of its first vote, and for every digest the signatures of exactly those authors.
\<close>

definition pv_voters :: "pending_votes \<Rightarrow> hash_value \<Rightarrow> author set" where
  "pv_voters pv d = {a. \<exists>vt. map_of (author_to_vote pv) a = Some (vt, d)}"

definition pv_inv ::
  "consensus_crypto \<Rightarrow> validator_verifier \<Rightarrow> u64 \<Rightarrow> round_t \<Rightarrow> ledger_info set \<Rightarrow> vote list \<Rightarrow> pending_votes \<Rightarrow> bool" where
  "pv_inv cc v e r L votes pv \<longleftrightarrow> bt_sorted (li_digest_to_votes pv) \<and> bt_sorted (author_to_vote pv) \<and>
     (\<forall>a. map_option snd (map_of (author_to_vote pv) a)
        = map_option (\<lambda>vt. hash_ledger_info cc (v_ledger_info vt)) (first_vote votes a)) \<and>
     (\<forall>d lips. map_of (li_digest_to_votes pv) d = Some lips \<longrightarrow>
        d = hash_ledger_info cc (lips_ledger_info lips) \<and> lips_ledger_info lips \<in> L \<and> lips_inv cc v (pv_voters pv d) lips) \<and>
     (\<forall>d. pv_voters pv d \<noteq> {} \<longrightarrow> map_of (li_digest_to_votes pv) d \<noteq> None) \<and>
     (\<forall>ttp. maybe_partial_2chain_tc pv = Some ttp \<longrightarrow> (\<exists>ts. ttp_holds ts ttp \<and> timeouts_valid cc v e r ts \<and>
        (\<forall>a \<in> fst ` set ts. \<exists>vt d. map_of (author_to_vote pv) a = Some (vt, d) \<and> is_timeout vt)))"

text \<open>What \<open>insert_vote\<close> may answer to such votes: certificates that verify, and no errors.\<close>

fun answer_ok ::
  "consensus_crypto \<Rightarrow> validator_verifier \<Rightarrow> u64 \<Rightarrow> round_t \<Rightarrow> vote \<Rightarrow> (vote_reception_result, unit) result \<Rightarrow> bool" where
  "answer_ok cc v e r vt (Ok (NewQuorumCertificate qc)) \<longleftrightarrow>
     QuorumCert_verify cc qc v = Ok () \<and> qc_vote_data qc = v_vote_data vt \<and>
     lis_ledger_info (qc_signed_ledger_info qc) = v_ledger_info vt"
| "answer_ok cc v e r vt (Ok (New2ChainTimeoutCertificate tc)) \<longleftrightarrow>
     TwoChainTimeoutCertificate_verify cc tc v = Ok () \<and> tc_epoch tc = e \<and> tc_round tc = r"
| "answer_ok cc v e r vt (Ok (VoteAdded _)) \<longleftrightarrow> True"
| "answer_ok cc v e r vt (Ok (EchoTimeout _)) \<longleftrightarrow> True"
| "answer_ok cc v e r vt (Ok DuplicateVote) \<longleftrightarrow> True"
| "answer_ok cc v e r vt (Ok EquivocateVote) \<longleftrightarrow> True"
| "answer_ok cc v e r vt _ \<longleftrightarrow> False"

section \<open>Lemmas\<close>

lemma first_vote_append:
  "first_vote (votes @ [vt]) a = (case first_vote votes a of
     Some x \<Rightarrow> Some x | None \<Rightarrow> if v_author vt = a then Some vt else None)"
  by (induction votes) (auto simp: first_vote_def)

lemma pv_inv_digest:
  "pv_inv cc v e r L votes pv \<Longrightarrow> map_option snd (map_of (author_to_vote pv) a)
     = map_option (\<lambda>vt. hash_ledger_info cc (v_ledger_info vt)) (first_vote votes a)"
  by (simp add: pv_inv_def)

lemma round_voteD:
  assumes "vv_wf v" "round_vote cc v e r L vt"
  shows "v_author vt \<in> validators v" "VoteData_verify (v_vote_data vt) = Ok ()"
    and "consensus_data_hash (v_ledger_info vt) = hash_vote_data cc (v_vote_data vt)"
    and "ValidatorVerifier_verify (bls_ledger_info cc) v (v_author vt) (v_ledger_info vt) (v_signature vt) = Ok ()"
    and "v_ledger_info vt \<in> L"
    and "v_two_chain_timeout vt = Some (t, s) \<Longrightarrow> timeouts_valid cc v e r [(v_author vt, t, s)]"
  using assms verified_known(1) [OF assms(1)]
  by (auto simp: round_vote_def Vote_verify_Ok timeouts_valid_def simp del: v_epoch_def) (simp_all add: v_epoch_def)

text \<open>With a quorum of valid signatures on a ledger info, its certificate is formed and verifies.\<close>

lemma lips_power:
  assumes "vv_wf v" "lips_inv cc v A lips" "A \<noteq> {}"
  shows "A \<subseteq> validators v"
    and "check_voting_power v (bt_keys (ps_signatures (lips_partial_sigs lips)))
      = (if 2 * unat (total_voting_power v) < 3 * sum (power_of v) A then Ok ()
         else Err (TooLittleVotingPower (of_nat (sum (power_of v) A)) (quorum_voting_power v)))"
proof -
  have inv: "bt_sorted (ps_signatures (lips_partial_sigs lips))" "set (bt_keys (ps_signatures (lips_partial_sigs lips))) = A"
    using assms(2) by (simp_all add: lips_inv_def)
  show sub: "A \<subseteq> validators v"
    using assms(2) verified_known(1) [OF assms(1)] unfolding lips_inv_def by fastforce
  show "check_voting_power v (bt_keys (ps_signatures (lips_partial_sigs lips)))
      = (if 2 * unat (total_voting_power v) < 3 * sum (power_of v) A then Ok ()
         else Err (TooLittleVotingPower (of_nat (sum (power_of v) A)) (quorum_voting_power v)))"
    using check_voting_power_known [OF assms(1) bt_sorted_distinct [OF inv(1)]] sub unfolding inv(2) by simp
qed

lemma lips_certifies:
  assumes bls: "bls_aggregates (cc_bls cc)" and wf: "vv_wf v" and len: "verifier_len v < 2 ^ 16"
    and inv: "lips_inv cc v A lips" "A \<noteq> {}" and q: "2 * unat (total_voting_power v) < 3 * sum (power_of v) A"
  shows "\<exists>lis. lips_aggregate_signatures (bls_ledger_info cc) lips v = Ok lis \<and> lis_ledger_info lis = lips_ledger_info lips \<and>
    set (get_voters lis (get_ordered_account_addresses v)) = A \<and> verify_signatures (bls_ledger_info cc) lis v = Ok ()"
proof -
  let ?ps = "lips_partial_sigs lips"
  have "bt_sorted (ps_signatures ?ps)" "ps_signatures ?ps \<noteq> []"
    "\<forall>(a, s) \<in> set (ps_signatures ?ps). ValidatorVerifier_verify (bls_ledger_info cc) v a (lips_ledger_info lips) s = Ok ()"
    using inv by (auto simp: lips_inv_def)
  from aggregate_shares [OF bls_aggregates_on [OF bls] wf len this] obtain agg
    where "aggregate_signatures (bls_ledger_info cc) v ?ps = Ok agg"
      "set (get_voter_addresses agg (get_ordered_account_addresses v)) = A"
      "verify_multi_signatures (bls_ledger_info cc) v (lips_ledger_info lips) agg = Ok ()"
    using inv(1) q lips_power(2) [OF wf inv] by (auto simp: lips_inv_def)
  then show ?thesis
    by (simp add: lips_aggregate_signatures_def get_voters_def verify_signatures_def)
qed

subsection \<open>Storing a vote\<close>

text \<open>When a vote is stored: its author has not voted, or now adds a timeout to the same vote.\<close>

definition may_store :: "consensus_crypto \<Rightarrow> pending_votes \<Rightarrow> vote \<Rightarrow> bool" where
  "may_store cc pv vt \<longleftrightarrow> (\<forall>x d. map_of (author_to_vote pv) (v_author vt) = Some (x, d) \<longrightarrow>
     d = hash_ledger_info cc (v_ledger_info vt) \<and> is_timeout vt \<and> \<not> is_timeout x)"

lemma insert_vote_cases:
  "insert_vote cc vt v pv = add_vote cc vt v pv \<and> may_store cc pv vt \<or>
   insert_vote cc vt v pv \<in> {(Ok DuplicateVote, pv), (Ok EquivocateVote, pv)} \<and> v_author vt \<in> set (bt_keys (author_to_vote pv))"
proof (cases "map_of (author_to_vote pv) (v_author vt)")
  case (Some p)
  then have "v_author vt \<in> set (bt_keys (author_to_vote pv))" 
    using map_of_eq_None_iff [of "author_to_vote pv" "v_author vt"] by auto
  with Some show ?thesis by (cases p) (auto simp: insert_vote_def may_store_def)
qed (simp add: insert_vote_def may_store_def)

lemma pv_voters_store:
  assumes "bt_sorted (author_to_vote pv)" "may_store cc pv vt"
  shows "pv_voters (snd (store_vote cc vt pv)) d
    = (if d = hash_ledger_info cc (v_ledger_info vt) then insert (v_author vt) (pv_voters pv d) else pv_voters pv d)"
  using assms by (auto simp: pv_voters_def store_vote_def Let_def bt_get_insert may_store_def split: if_splits)

lemma store_vote_lips:
  assumes inv: "pv_inv cc v e r L votes pv" and inj: "inj_on (hash_ledger_info cc) L" and wf: "vv_wf v"
    and vt: "round_vote cc v e r L vt"
  shows "lips_ledger_info (fst (store_vote cc vt pv)) = v_ledger_info vt"
    and "lips_inv cc v (insert (v_author vt) (pv_voters pv (hash_ledger_info cc (v_ledger_info vt)))) (fst (store_vote cc vt pv))"
proof -
  let ?d = "hash_ledger_info cc (v_ledger_info vt)"
  define lips where "lips = (case map_of (li_digest_to_votes pv) ?d of Some li \<Rightarrow> li
    | None \<Rightarrow> \<lparr>lips_ledger_info = v_ledger_info vt, lips_partial_sigs = PartialSignatures_empty\<rparr>)"
  note vt = round_voteD [OF wf vt]
  have lips: "lips_ledger_info lips = v_ledger_info vt \<and> lips_inv cc v (pv_voters pv ?d) lips"
  proof (cases "map_of (li_digest_to_votes pv) ?d")
    case None
    then have "pv_voters pv ?d = {}" using inv unfolding pv_inv_def by blast
    with None show ?thesis by (simp add: lips_def lips_inv_def PartialSignatures_empty_def)
  next
    case (Some li)
    then have "?d = hash_ledger_info cc (lips_ledger_info li) \<and> lips_ledger_info li \<in> L \<and> lips_inv cc v (pv_voters pv ?d) li"
      using inv unfolding pv_inv_def by blast
    with inj_onD [OF inj _ vt(5)] Some show ?thesis by (auto simp: lips_def)
  qed
  have eq: "fst (store_vote cc vt pv) = lips_add_signature lips (v_author vt) (v_signature vt)"
    by (simp add: store_vote_def Let_def lips_def)
  show "lips_ledger_info (fst (store_vote cc vt pv)) = v_ledger_info vt"
    using lips by (simp add: eq lips_add_signature_def)
  let ?m = "ps_signatures (lips_partial_sigs lips)" and ?m' = "bt_or_insert (v_author vt) (v_signature vt) (ps_signatures (lips_partial_sigs lips))"
  have m: "bt_sorted ?m" "set (bt_keys ?m) = pv_voters pv ?d"
    "\<forall>(a, s) \<in> set ?m. ValidatorVerifier_verify (bls_ledger_info cc) v a (v_ledger_info vt) s = Ok ()"
    using lips by (auto simp: lips_inv_def)
  have "set ?m' \<subseteq> insert (v_author vt, v_signature vt) (set ?m)"
    by (auto simp: bt_or_insert_def set_bt_insert_fresh map_of_eq_None_iff split: option.splits)
  then have "\<forall>(a, s) \<in> set ?m'. ValidatorVerifier_verify (bls_ledger_info cc) v a (v_ledger_info vt) s = Ok ()"
    using m(3) vt(4) by fast
  moreover have "set (bt_keys ?m') = insert (v_author vt) (pv_voters pv ?d)"
    unfolding bt.keys_or_insert [OF m(1)] m(2) by simp
  ultimately show "lips_inv cc v (insert (v_author vt) (pv_voters pv ?d)) (fst (store_vote cc vt pv))"
    using lips bt.invar_or_insert [OF m(1)] unfolding eq lips_inv_def
    by (simp add: lips_add_signature_def PartialSignatures_add_def)
qed

lemma stored_not_timed_out:
  assumes "pv_inv cc v e r L votes pv" "may_store cc pv vt" "maybe_partial_2chain_tc pv = Some ttp"
  shows "\<exists>ts. ttp_holds ts ttp \<and> timeouts_valid cc v e r ts \<and> v_author vt \<notin> fst ` set ts \<and>
    (\<forall>a \<in> fst ` set ts. \<exists>x d. map_of (author_to_vote (snd (store_vote cc vt pv))) a = Some (x, d) \<and> is_timeout x)"
proof -
  from assms(1,3) obtain ts where ts: "ttp_holds ts ttp" "timeouts_valid cc v e r ts"
    "\<forall>a \<in> fst ` set ts. \<exists>vt d. map_of (author_to_vote pv) a = Some (vt, d) \<and> is_timeout vt"
    unfolding pv_inv_def by blast
  moreover have new: "v_author vt \<notin> fst ` set ts" using ts(3) assms(2) unfolding may_store_def by blast
  moreover have "map_of (author_to_vote (snd (store_vote cc vt pv))) a = map_of (author_to_vote pv) a"
    if "a \<in> fst ` set ts" for a
  proof -
    have "a \<noteq> v_author vt" using that new by blast
    then show ?thesis by (simp add: store_vote_def Let_def bt_get_insert)
  qed
  ultimately show ?thesis by metis
qed

lemma store_vote_inv:
  assumes inv: "pv_inv cc v e r L votes pv" and inj: "inj_on (hash_ledger_info cc) L" and wf: "vv_wf v"
    and vt: "round_vote cc v e r L vt" and new: "may_store cc pv vt"
  shows "pv_inv cc v e r L (votes @ [vt]) (snd (store_vote cc vt pv))"
proof -
  let ?pv = "snd (store_vote cc vt pv)" and ?d = "hash_ledger_info cc (v_ledger_info vt)"
  note lips = store_vote_lips [OF inv inj wf vt]
  have sorted: "bt_sorted (li_digest_to_votes pv)" "bt_sorted (author_to_vote pv)"
    using inv unfolding pv_inv_def by blast+
  note voters = pv_voters_store [OF sorted(2) new]
  have maps: "map_of (author_to_vote ?pv) = (map_of (author_to_vote pv))(v_author vt \<mapsto> (vt, ?d))"
    "map_of (li_digest_to_votes ?pv) = (map_of (li_digest_to_votes pv))(?d \<mapsto> fst (store_vote cc vt pv))"
    "maybe_partial_2chain_tc ?pv = maybe_partial_2chain_tc pv"
    by (simp_all add: store_vote_def Let_def bt_get_insert)
  have "bt_sorted (li_digest_to_votes ?pv)" "bt_sorted (author_to_vote ?pv)"
    using sorted by (simp_all add: store_vote_def Let_def bt_insert_sorted)
  moreover have "map_option snd (map_of (author_to_vote ?pv) a)
      = map_option (\<lambda>vt. hash_ledger_info cc (v_ledger_info vt)) (first_vote (votes @ [vt]) a)" for a
  proof -
    show ?thesis using pv_inv_digest [OF inv, of a] new
      by (cases "first_vote votes a") (auto simp: maps first_vote_append may_store_def)
  qed
  moreover have "d = hash_ledger_info cc (lips_ledger_info li) \<and> lips_ledger_info li \<in> L \<and> lips_inv cc v (pv_voters ?pv d) li"
    if "map_of (li_digest_to_votes ?pv) d = Some li" for d li
  proof (cases "d = ?d")
    case True
    then show ?thesis using that lips voters [of d] round_voteD(5) [OF wf vt] by (simp add: maps)
  next
    case False
    then show ?thesis using that inv voters [of d] unfolding pv_inv_def by (simp add: maps)
  qed
  moreover have "map_of (li_digest_to_votes ?pv) d \<noteq> None" if "pv_voters ?pv d \<noteq> {}" for d
    using that inv voters [of d] unfolding pv_inv_def by (auto simp: maps split: if_splits)
  moreover have "\<exists>ts. ttp_holds ts ttp \<and> timeouts_valid cc v e r ts \<and>
      (\<forall>a \<in> fst ` set ts. \<exists>vt d. map_of (author_to_vote ?pv) a = Some (vt, d) \<and> is_timeout vt)"
    if "maybe_partial_2chain_tc ?pv = Some ttp" for ttp
    using stored_not_timed_out [OF inv new] that unfolding maps(3) by blast
  ultimately show ?thesis unfolding pv_inv_def by blast
qed

subsection \<open>Timeouts and answers\<close>

lemma ttp_holds_new: "ttp_holds [(a, t, s)] (ttp_add (TwoChainTimeoutWithPartialSignatures_new t) a t s)"
  using ttp_holds_collect [of "[(a, t, s)]"] by (simp add: collect_timeouts_def)

lemma ttp_power:
  assumes "vv_wf v" "ttp_holds ts ttp" "timeouts_valid cc v e r ts"
  shows "check_voting_power v (ttp_signers ttp) = Ok () \<or>
    (\<exists>p q. check_voting_power v (ttp_signers ttp) = Err (TooLittleVotingPower p q))"
proof -
  have "distinct (ttp_signers ttp)"
    using assms(2) by (simp add: ttp_holds_def ttp_inv_def ttp_signers_def bt_sorted_distinct)
  moreover have "set (ttp_signers ttp) \<subseteq> validators v"
    using assms(3) verified_known(1) [OF assms(1)] unfolding ttp_holds_signers [OF assms(2)] timeouts_valid_def by fastforce
  ultimately show ?thesis using check_voting_power_known [OF assms(1), of "ttp_signers ttp"] by simp
qed

lemma f_plus_one_defined:
  assumes "vv_wf v" "0 < unat (total_voting_power v)"
  shows "\<exists>f. bind_res (sub_chk (total_voting_power v) (quorum_voting_power v)) (\<lambda>d. add_chk d 1) = (Ok f :: (u128, 'e) result)"
proof -
  let ?t = "total_voting_power v" and ?q = "quorum_voting_power v"
  have q: "unat ?q = 2 * unat ?t div 3 + 1" by (rule vv_wf_build(3) [OF assms(1)])
  with assms(2) have le: "?q \<le> ?t" "0 < unat ?q" by (auto simp: word_le_nat_alt)
  have d: "sub_chk ?t ?q = (Ok (?t - ?q) :: (u128, 'e) result)"
    using le by (simp add: sub_chk_Ok_iff unat_sub word_le_nat_alt)
  have "unat (?t - ?q) + 1 < 2 ^ 128"
    using le unat_below [of ?t] by (simp add: unat_sub)
  then have "add_chk (?t - ?q) 1 = (Ok (?t - ?q + 1) :: (u128, 'e) result)"
    by (intro add_chk_defined) simp
  with d show ?thesis by simp
qed

lemma pv_inv_timeouts:
  assumes "pv_inv cc v e r L votes pv"
    and "ttp_holds ts ttp" "timeouts_valid cc v e r ts"
    and "\<forall>a \<in> fst ` set ts. \<exists>x d. map_of (author_to_vote pv) a = Some (x, d) \<and> is_timeout x"
  shows "pv_inv cc v e r L votes (pv\<lparr>maybe_partial_2chain_tc := Some ttp, echo_timeout := b\<rparr>)"
    and "pv_inv cc v e r L votes (pv\<lparr>maybe_partial_2chain_tc := Some ttp\<rparr>)"
  using assms unfolding pv_inv_def pv_voters_def by (auto simp: pv_voters_def)

lemma insert_timeout_answer:
  assumes bls: "bls_aggregate_multi (cc_bls cc)" and wf: "vv_wf v" and len: "verifier_len v < 2 ^ 16"
    and pos: "0 < unat (total_voting_power v)"
    and inv: "pv_inv cc v e r L votes pv" and vt: "round_vote cc v e r L vt"
    and author: "\<exists>d. map_of (author_to_vote pv) (v_author vt) = Some (vt, d)"
    and old: "\<And>ttp. maybe_partial_2chain_tc pv = Some ttp \<Longrightarrow> \<exists>ts. ttp_holds ts ttp \<and> timeouts_valid cc v e r ts \<and>
      v_author vt \<notin> fst ` set ts \<and>
      (\<forall>a \<in> fst ` set ts. \<exists>x d. map_of (author_to_vote pv) a = Some (x, d) \<and> is_timeout x)"
    and res: "insert_timeout cc vt v p pv = (res, pv')"
  shows "answer_ok cc v e r vt res \<and> (\<forall>qc. res \<noteq> Ok (NewQuorumCertificate qc)) \<and> pv_inv cc v e r L votes pv'"
proof (cases "v_two_chain_timeout vt")
  case None
  with res inv show ?thesis by (auto simp: insert_timeout_def)
next
  case (Some x)
  obtain t s where x: "x = (t, s)" by (cases x)
  let ?add = "ttp_add (case maybe_partial_2chain_tc pv of None \<Rightarrow> TwoChainTimeoutWithPartialSignatures_new t | Some tc \<Rightarrow> tc)
    (v_author vt) t s"
  have valid: "timeouts_valid cc v e r [(v_author vt, t, s)]" using round_voteD(6) [OF wf vt] Some x by simp
  have to: "\<exists>x d. map_of (author_to_vote pv) (v_author vt) = Some (x, d) \<and> is_timeout x"
    using author Some by (auto simp: is_timeout_def)
  obtain ts where ts: "ttp_holds ts ?add" "timeouts_valid cc v e r ts"
    "\<forall>a \<in> fst ` set ts. \<exists>x d. map_of (author_to_vote pv) a = Some (x, d) \<and> is_timeout x"
  proof (cases "maybe_partial_2chain_tc pv")
    case None
    with that [of "[(v_author vt, t, s)]"] ttp_holds_new valid to show ?thesis by simp
  next
    case (Some ttp)
    from old [OF this] obtain ts where ts: "ttp_holds ts ttp" "timeouts_valid cc v e r ts" "v_author vt \<notin> fst ` set ts"
      "\<forall>a \<in> fst ` set ts. \<exists>x d. map_of (author_to_vote pv) a = Some (x, d) \<and> is_timeout x" by blast
    with ttp_holds_add [OF ts(1,3), of t s] valid to that [of "ts @ [(v_author vt, t, s)]"] Some show ?thesis
      by (simp add: timeouts_valid_def)
  qed
  obtain f where f: "bind_res (sub_chk (total_voting_power v) (quorum_voting_power v)) (\<lambda>d. add_chk d 1) = (Ok f :: (u128, unit) result)"
    using f_plus_one_defined [OF wf pos] by blast
  note inv' = pv_inv_timeouts [OF inv ts]
  consider "check_voting_power v (ttp_signers ?add) = Ok ()"
    | q n where "check_voting_power v (ttp_signers ?add) = Err (TooLittleVotingPower n q)"
    using ttp_power [OF wf ts(1,2)] by blast
  then show ?thesis
  proof cases
    case 1
    with ttp_holds_certificate [OF bls wf len ts(1)] ts(2) obtain tc where "ttp_aggregate_signatures cc ?add v = Ok tc"
      "TwoChainTimeoutCertificate_verify cc tc v = Ok ()" "tc_epoch tc = e" "tc_round tc = r"
      unfolding timeouts_valid_def by blast
    with 1 res Some x inv' show ?thesis by (auto simp: insert_timeout_def Let_def)
  next
    case 2
    with res Some x f inv' show ?thesis by (auto simp: insert_timeout_def Let_def split: if_splits)
  qed
qed

lemma add_vote_answer:
  assumes bls: "bls_aggregates (cc_bls cc)" "bls_aggregate_multi (cc_bls cc)"
    and wf: "vv_wf v" and len: "verifier_len v < 2 ^ 16" and pos: "0 < unat (total_voting_power v)"
    and inj: "inj_on (hash_ledger_info cc) L" and inv: "pv_inv cc v e r L votes pv"
    and vt: "round_vote cc v e r L vt" and new: "may_store cc pv vt"
    and res: "add_vote cc vt v pv = (res, pv')"
  defines "A \<equiv> insert (v_author vt) (pv_voters pv (hash_ledger_info cc (v_ledger_info vt)))"
  shows "answer_ok cc v e r vt res" "pv_inv cc v e r L (votes @ [vt]) pv'"
    and "2 * unat (total_voting_power v) < 3 * sum (power_of v) A \<Longrightarrow>
      \<exists>qc. res = Ok (NewQuorumCertificate qc) \<and> qc_voters v qc = A"
    and "\<not> 2 * unat (total_voting_power v) < 3 * sum (power_of v) A \<Longrightarrow> res \<noteq> Ok (NewQuorumCertificate qc)"
proof -
  obtain lips pv1 where st: "store_vote cc vt pv = (lips, pv1)" by (cases "store_vote cc vt pv")
  have lips: "lips_ledger_info lips = v_ledger_info vt" "lips_inv cc v A lips"
    using store_vote_lips [OF inv inj wf vt] st by (simp_all add: A_def)
  have inv1: "pv_inv cc v e r L (votes @ [vt]) pv1" using store_vote_inv [OF inv inj wf vt new] st by simp
  have ne: "A \<noteq> {}" by (simp add: A_def)
  note power = lips_power(2) [OF wf lips(2) ne]
  have d: "VoteData_verify (v_vote_data vt) = Ok ()"
    "consensus_data_hash (v_ledger_info vt) = hash_vote_data cc (v_vote_data vt)"
    using round_voteD(2,3) [OF wf vt] .
  have all: "answer_ok cc v e r vt res \<and> pv_inv cc v e r L (votes @ [vt]) pv' \<and>
    (if 2 * unat (total_voting_power v) < 3 * sum (power_of v) A
     then \<exists>qc. res = Ok (NewQuorumCertificate qc) \<and> qc_voters v qc = A else \<forall>qc. res \<noteq> Ok (NewQuorumCertificate qc))"
  proof (cases "2 * unat (total_voting_power v) < 3 * sum (power_of v) A")
    case True
    from lips_certifies [OF bls(1) wf len lips(2) ne True] obtain lis
      where lis: "lips_aggregate_signatures (bls_ledger_info cc) lips v = Ok lis" "lis_ledger_info lis = lips_ledger_info lips"
        "set (get_voters lis (get_ordered_account_addresses v)) = A" "verify_signatures (bls_ledger_info cc) lis v = Ok ()"
      by blast
    moreover have "bi_round (vd_proposed (v_vote_data vt)) \<noteq> 0" using d(1) by (auto simp: VoteData_verify_Ok)
    ultimately show ?thesis
      using res power True st inv1 lips(1) d
      by (auto simp: add_vote_def Let_def QuorumCert_verify_Ok qc_voters_def)
  next
    case False
    then have t: "insert_timeout cc vt v (of_nat (sum (power_of v) A)) pv1 = (res, pv')"
      using res power st by (simp add: add_vote_def)
    have a: "\<exists>d. map_of (author_to_vote pv1) (v_author vt) = Some (vt, d)"
      "maybe_partial_2chain_tc pv1 = maybe_partial_2chain_tc pv"
      using st by (auto simp: store_vote_def Let_def bt_get_insert)
    have "\<exists>ts. ttp_holds ts ttp \<and> timeouts_valid cc v e r ts \<and> v_author vt \<notin> fst ` set ts \<and>
        (\<forall>a \<in> fst ` set ts. \<exists>x d. map_of (author_to_vote pv1) a = Some (x, d) \<and> is_timeout x)"
      if "maybe_partial_2chain_tc pv1 = Some ttp" for ttp
      using stored_not_timed_out [OF inv new] st a(2) that by simp
    from insert_timeout_answer [OF bls(2) wf len pos inv1 vt a(1) this t] False show ?thesis by simp
  qed
  show "answer_ok cc v e r vt res" "pv_inv cc v e r L (votes @ [vt]) pv'" using all by blast+
  show "\<exists>qc. res = Ok (NewQuorumCertificate qc) \<and> qc_voters v qc = A"
    if "2 * unat (total_voting_power v) < 3 * sum (power_of v) A" using all that by simp
  show "res \<noteq> Ok (NewQuorumCertificate qc)"
    if "\<not> 2 * unat (total_voting_power v) < 3 * sum (power_of v) A" using all that by simp
qed

lemma pv_inv_seen:
  assumes "pv_inv cc v e r L votes pv" "v_author vt \<in> set (bt_keys (author_to_vote pv))"
  shows "pv_inv cc v e r L (votes @ [vt]) pv"
proof -
  have "map_of (author_to_vote pv) (v_author vt) \<noteq> None" using assms(2) by (simp add: map_of_eq_None_iff)
  then obtain x where "first_vote votes (v_author vt) = Some x" 
    using pv_inv_digest [OF assms(1), of "v_author vt"] by (cases "first_vote votes (v_author vt)") auto
  then have "first_vote (votes @ [vt]) = first_vote votes"
    by (auto simp: fun_eq_iff first_vote_append split: option.splits)
  with assms(1) show ?thesis unfolding pv_inv_def by simp
qed

lemma insert_votes_answers:
  assumes bls: "bls_aggregates (cc_bls cc)" "bls_aggregate_multi (cc_bls cc)"
    and wf: "vv_wf v" and len: "verifier_len v < 2 ^ 16" and pos: "0 < unat (total_voting_power v)"
    and inj: "inj_on (hash_ledger_info cc) L"
    and "pv_inv cc v e r L old pv" "\<forall>vt \<in> set votes. round_vote cc v e r L vt"
    and "insert_votes cc v votes pv = (rs, pv')"
  shows "list_all2 (answer_ok cc v e r) votes rs \<and> pv_inv cc v e r L (old @ votes) pv'"
  using assms(7-9)
proof (induction votes arbitrary: old pv rs)
  case Nil
  then show ?case by simp
next
  case (Cons vt votes)
  obtain res pv1 where res: "insert_vote cc vt v pv = (res, pv1)" by (cases "insert_vote cc vt v pv")
  obtain rs' where rs: "insert_votes cc v votes pv1 = (rs', pv')" "rs = res # rs'"
    using Cons.prems(3) res by (auto split: prod.splits)
  have vt: "round_vote cc v e r L vt" using Cons.prems(2) by simp
  have "answer_ok cc v e r vt res \<and> pv_inv cc v e r L (old @ [vt]) pv1"
    using insert_vote_cases [of cc vt v pv]
  proof (elim disjE conjE)
    assume add: "insert_vote cc vt v pv = add_vote cc vt v pv" and new: "may_store cc pv vt"
    from add_vote_answer(1,2) [OF bls wf len pos inj Cons.prems(1) vt new res [unfolded add]]
    show ?thesis ..
  next
    assume "insert_vote cc vt v pv \<in> {(Ok DuplicateVote, pv), (Ok EquivocateVote, pv)}"
      "v_author vt \<in> set (bt_keys (author_to_vote pv))"
    then show ?thesis using pv_inv_seen [OF Cons.prems(1)] res by auto
  qed
  with Cons.IH [of "old @ [vt]" pv1 rs'] Cons.prems(2) rs show ?case by simp
qed

lemma pv_inv_new: "pv_inv cc v e r L [] PendingVotes_new"
  by (simp add: pv_inv_def PendingVotes_new_def first_vote_def pv_voters_def)

lemma first_vote_set: "first_vote votes a = Some x \<Longrightarrow> x \<in> set votes \<and> v_author x = a"
  by (auto simp: first_vote_def find_Some_iff)

lemma pv_voters_first_votes:
  assumes "pv_inv cc v e r L votes pv" "inj_on (hash_ledger_info cc) L" "\<forall>x \<in> set votes. v_ledger_info x \<in> L" "li \<in> L"
  shows "pv_voters pv (hash_ledger_info cc li) = {a. \<exists>x. first_vote votes a = Some x \<and> v_ledger_info x = li}"
proof -
  have "(\<exists>y. map_of (author_to_vote pv) a = Some (y, hash_ledger_info cc li)) \<longleftrightarrow>
      (\<exists>x. first_vote votes a = Some x \<and> v_ledger_info x = li)" for a
  proof -
    note * = pv_inv_digest [OF assms(1), of a]
    show ?thesis
    proof (cases "first_vote votes a")
      case (Some x)
      then have "v_ledger_info x \<in> L" using first_vote_set assms(3) by blast
      then have "hash_ledger_info cc (v_ledger_info x) = hash_ledger_info cc li \<longleftrightarrow> v_ledger_info x = li"
        by (rule inj_on_eq_iff [OF assms(2) _ assms(4)])
      with Some * show ?thesis by auto
    qed (use * in auto)
  qed
  then show ?thesis by (simp add: pv_voters_def)
qed

lemma first_vote_answer:
  assumes "bls_aggregates (cc_bls cc)" "bls_aggregate_multi (cc_bls cc)"
    and "vv_wf v" "verifier_len v < 2 ^ 16" "0 < unat (total_voting_power v)"
    and "inj_on (hash_ledger_info cc) L" and inv: "pv_inv cc v e r L votes pv"
    and "\<forall>vt \<in> set votes. round_vote cc v e r L vt" "round_vote cc v e r L vt" "first_vote votes (v_author vt) = None"
  defines "A \<equiv> {a. \<exists>x. first_vote (votes @ [vt]) a = Some x \<and> v_ledger_info x = v_ledger_info vt}"
  shows "if 2 * unat (total_voting_power v) < 3 * sum (power_of v) A
    then \<exists>qc. fst (insert_vote cc vt v pv) = Ok (NewQuorumCertificate qc) \<and> QuorumCert_verify cc qc v = Ok () \<and>
      certified_block qc = vd_proposed (v_vote_data vt) \<and> qc_voters v qc = A
    else \<forall>qc. fst (insert_vote cc vt v pv) \<noteq> Ok (NewQuorumCertificate qc)"
proof -
  have none: "map_of (author_to_vote pv) (v_author vt) = None"
    using pv_inv_digest [OF inv, of "v_author vt"] assms(10) by simp
  then have new: "may_store cc pv vt" and add: "insert_vote cc vt v pv = add_vote cc vt v pv"
    by (simp_all add: may_store_def insert_vote_def)
  have "v_ledger_info vt \<in> L" "\<forall>x \<in> set votes. v_ledger_info x \<in> L" using assms(8,9) by (auto simp: round_vote_def)
  note voters = pv_voters_first_votes [OF inv assms(6) this(2,1)]
  have A: "A = insert (v_author vt) (pv_voters pv (hash_ledger_info cc (v_ledger_info vt)))"
    unfolding voters A_def using assms(10) by (auto simp: first_vote_append split: option.splits)
  obtain res pv' where res: "add_vote cc vt v pv = (res, pv')" by (cases "add_vote cc vt v pv")
  note answer = add_vote_answer [OF assms(1-6) inv assms(9) new res, folded A]
  show ?thesis using answer(1,3,4) add res by auto
qed

section \<open>Examples\<close>

definition sample_ledger_info :: ledger_info where
  "sample_ledger_info = \<lparr>commit_info = sample_block_at 8, consensus_data_hash = 1009\<rparr>"

definition sample_vote :: "author \<Rightarrow> vote" where
  "sample_vote a = new_with_signature \<lparr>vd_proposed = sample_block_at 9, vd_parent = sample_block_at 8\<rparr> a
     sample_ledger_info [ucast a]"

lemma sample_vote_round:
  assumes "a \<in> {1, 2, 3, 4}"
  shows "round_vote sample_crypto sample_verifier 1 9 {sample_ledger_info} (sample_vote a)"
proof -
  have "ValidatorVerifier_verify (bls_ledger_info sample_crypto) sample_verifier a sample_ledger_info [ucast a] = Ok ()"
    using assms by (auto simp: ValidatorVerifier_verify_def get_public_key_def sample_verifier_index sample_crypto_def)
      (auto simp: sample_verifier_def build_index_def ensure_def)
  then show ?thesis
    by (simp add: round_vote_def Vote_verify_Ok sample_vote_def new_with_signature_def VoteData_verify_Ok sample_block_at_def)
      (simp add: sample_ledger_info_def sample_crypto_def)
qed

lemma sample_crypto_laws:
  "bls_aggregates (cc_bls sample_crypto)" "bls_aggregate_multi (cc_bls sample_crypto)"
  by (simp_all add: sample_crypto_def linear_bls_aggregates linear_bls_aggregate_multi)

section \<open>Properties\<close>

text \<open>
  C4. Whatever verified votes of a round arrive, in whatever order and however often, the
  collection answers each without panicking and without an error; every quorum certificate it
  forms verifies and certifies the block of the last vote, and every timeout certificate it forms
  verifies and is of the round.
\<close>

theorem round_votes_certify:
  assumes "bls_aggregates (cc_bls cc)" "bls_aggregate_multi (cc_bls cc)"
    and "vv_wf v" "verifier_len v < 2 ^ 16" "0 < unat (total_voting_power v)"
    and "inj_on (hash_ledger_info cc) L" "\<forall>vt \<in> set votes. round_vote cc v e r L vt"
  shows "list_all2 (answer_ok cc v e r) votes (fst (insert_votes cc v votes PendingVotes_new))"
  using insert_votes_answers [OF assms(1-6) pv_inv_new assms(7)]
  by (cases "insert_votes cc v votes PendingVotes_new") auto

theorem round_votes_certify_witness:
  "list_all2 (answer_ok sample_crypto sample_verifier 1 9) [sample_vote 1, sample_vote 2, sample_vote 1]
     (fst (insert_votes sample_crypto sample_verifier [sample_vote 1, sample_vote 2, sample_vote 1] PendingVotes_new))"
  by (rule round_votes_certify [OF sample_crypto_laws sample_verifier_wf, where L = "{sample_ledger_info}"])
    (auto simp: sample_vote_round)

text \<open>
  C5. A certificate is formed as soon as, and only when, there is a quorum: when the first vote of
  an author arrives, the answer is a certificate exactly if the authors whose first vote was for
  the same ledger info now hold more than two thirds of the power, and these are its voters.
\<close>

theorem quorum_forms_certificate:
  assumes "bls_aggregates (cc_bls cc)" "bls_aggregate_multi (cc_bls cc)"
    and "vv_wf v" "verifier_len v < 2 ^ 16" "0 < unat (total_voting_power v)"
    and "inj_on (hash_ledger_info cc) L" "\<forall>vt \<in> set votes. round_vote cc v e r L vt"
    and "round_vote cc v e r L vt" "first_vote votes (v_author vt) = None"
  defines "pv \<equiv> snd (insert_votes cc v votes PendingVotes_new)"
    and "A \<equiv> {a. \<exists>x. first_vote (votes @ [vt]) a = Some x \<and> v_ledger_info x = v_ledger_info vt}"
  shows "if 2 * unat (total_voting_power v) < 3 * sum (power_of v) A
    then \<exists>qc. fst (insert_vote cc vt v pv) = Ok (NewQuorumCertificate qc) \<and> QuorumCert_verify cc qc v = Ok () \<and>
      certified_block qc = vd_proposed (v_vote_data vt) \<and> qc_voters v qc = A
    else \<forall>qc. fst (insert_vote cc vt v pv) \<noteq> Ok (NewQuorumCertificate qc)"
proof -
  have "pv_inv cc v e r L votes pv"
    using insert_votes_answers [OF assms(1-6) pv_inv_new assms(7)] unfolding pv_def
    by (cases "insert_votes cc v votes PendingVotes_new") auto
  from first_vote_answer [OF assms(1-6) this assms(7-9)] show ?thesis unfolding A_def .
qed

theorem quorum_forms_certificate_witness:
  "\<exists>qc. fst (insert_vote sample_crypto (sample_vote 3) sample_verifier
       (snd (insert_votes sample_crypto sample_verifier [sample_vote 1, sample_vote 2] PendingVotes_new)))
       = Ok (NewQuorumCertificate qc) \<and> QuorumCert_verify sample_crypto qc sample_verifier = Ok ()"
proof -
  let ?votes = "[sample_vote 1, sample_vote 2]"
  have "{a. \<exists>x. first_vote (?votes @ [sample_vote 3]) a = Some x \<and> v_ledger_info x = v_ledger_info (sample_vote 3)} = {1, 2, 3}"
    by (auto simp: first_vote_def sample_vote_def new_with_signature_def split: if_splits)
  moreover have "first_vote ?votes (v_author (sample_vote 3)) = None"
    by (simp add: first_vote_def sample_vote_def new_with_signature_def)
  ultimately show ?thesis
    using quorum_forms_certificate [OF sample_crypto_laws sample_verifier_wf, of "{sample_ledger_info}" ?votes 1 9 "sample_vote 3"]
    by (auto simp: sample_vote_round)
qed

end
