(* ===== verification/Round_State.thy ===== *)
theory Round_State
  imports Pending_Votes
begin

text \<open>
  The pacemaker (\<open>consensus/src/liveness/round_state.rs\<close>): it holds the current round and its
  votes, moves to a later round when certificates arrive, and sets the local timeout of a round.

  The round interval is the trait object \<open>RoundTimeInterval\<close>, here the function \<open>rti\<close> from
  the index of the round to a duration; \<open>now\<close> is the time the call reads from the time service.
  Durations are natural numbers of nanoseconds, and arithmetic beyond the largest
  \<open>std::time::Duration\<close> panics. The task that sends the local timeout is kept as the duration
  and the round it was scheduled with; scheduling a new one aborts the old.
\<close>

section \<open>Definitions\<close>

datatype new_round_reason = QCReady | Timeout

record new_round_event =
  nre_round :: round_t
  nre_reason :: new_round_reason
  nre_timeout :: nat
  nre_prev_round_votes :: "(hash_value \<times> ledger_info_with_partial_signatures) list"
  nre_prev_round_timeout_votes :: "two_chain_timeout_with_partial_signatures option"

definition DURATION_MAX :: nat where
  "DURATION_MAX = 2 ^ 64 * 10 ^ 9 - 1"

definition dur_chk :: "nat \<Rightarrow> (nat, 'e) result" where
  "dur_chk d = (if d \<le> DURATION_MAX then Ok d else Panic)"

record round_state =
  highest_committed_round :: round_t
  current_round :: round_t
  current_round_deadline :: nat
  rs_pending_votes :: pending_votes
  vote_sent :: "vote option"
  timeout_task :: "(nat \<times> round_t) option"

type_synonym 'a rs_exec = "(round_state, 'a, unit) exec"

definition RoundState_new :: "nat \<Rightarrow> round_state" where
  "RoundState_new now = \<lparr>highest_committed_round = 0, current_round = 0, current_round_deadline = now,
     rs_pending_votes = PendingVotes_new, vote_sent = None, timeout_task = None\<rparr>"

definition is_vote_timeout :: "round_state \<Rightarrow> bool" where
  "is_vote_timeout rs = (case vote_sent rs of None \<Rightarrow> False | Some v \<Rightarrow> is_timeout v)"

definition round_index :: "round_state \<Rightarrow> (u64, 'e) result" where
  "round_index rs =
     (if highest_committed_round rs = 0 then sub_chk (current_round rs) 1
      else bind_res (add_chk (highest_committed_round rs) 3) (\<lambda>b.
        if current_round rs < b then Ok 0
        else bind_res (sub_chk (current_round rs) (highest_committed_round rs)) (\<lambda>d. sub_chk d 3)))"

definition setup_deadline :: "(u64 \<Rightarrow> nat) \<Rightarrow> nat \<Rightarrow> nat \<Rightarrow> nat rs_exec" where
  "setup_deadline rti now multiplier =
     bind_ex (reads round_index) (\<lambda>index.
     bind_ex (lift_ex (dur_chk (rti index * multiplier))) (\<lambda>timeout.
     bind_ex (lift_ex (dur_chk (now + timeout))) (\<lambda>deadline rs.
     (Ok timeout, rs\<lparr>current_round_deadline := deadline\<rparr>))))"

definition setup_timeout :: "(u64 \<Rightarrow> nat) \<Rightarrow> nat \<Rightarrow> nat \<Rightarrow> nat rs_exec" where
  "setup_timeout rti now multiplier =
     bind_ex (setup_deadline rti now multiplier) (\<lambda>timeout rs.
     (Ok timeout, rs\<lparr>timeout_task := Some (timeout, current_round rs)\<rparr>))"

definition setup_leader_timeout :: "(u64 \<Rightarrow> nat) \<Rightarrow> nat \<Rightarrow> unit rs_exec" where
  "setup_leader_timeout rti now = bind_ex (setup_timeout rti now 2) (\<lambda>_. lift_ex (Ok ()))"

definition process_local_timeout :: "(u64 \<Rightarrow> nat) \<Rightarrow> nat \<Rightarrow> round_t \<Rightarrow> bool rs_exec" where
  "process_local_timeout rti now round rs =
     (if round \<noteq> current_round rs then (Ok False, rs)
      else bind_ex (setup_timeout rti now 1) (\<lambda>_. lift_ex (Ok True)) rs)"

definition observe_ordered_round :: "sync_info \<Rightarrow> round_state \<Rightarrow> round_state" where
  "observe_ordered_round si rs =
     (if highest_ordered_round si > highest_committed_round rs
      then rs\<lparr>highest_committed_round := highest_ordered_round si\<rparr> else rs)"

definition start_round :: "(u64 \<Rightarrow> nat) \<Rightarrow> nat \<Rightarrow> sync_info \<Rightarrow> round_t \<Rightarrow> new_round_event option rs_exec" where
  "start_round rti now si new_round rs =
     (let ((prev_round_votes, prev_round_timeout_votes), _) = drain_votes (rs_pending_votes rs) in
      bind_ex (setup_timeout rti now 1) (\<lambda>timeout.
      bind_ex (lift_ex (add_chk (highest_certified_round si) 1)) (\<lambda>next.
      lift_ex (Ok (Some \<lparr>nre_round = new_round, nre_reason = (if next = new_round then QCReady else Timeout),
        nre_timeout = timeout, nre_prev_round_votes = prev_round_votes,
        nre_prev_round_timeout_votes = prev_round_timeout_votes\<rparr>))))
      (rs\<lparr>current_round := new_round, rs_pending_votes := PendingVotes_new, vote_sent := None\<rparr>))"

definition process_certificates :: "(u64 \<Rightarrow> nat) \<Rightarrow> nat \<Rightarrow> sync_info \<Rightarrow> new_round_event option rs_exec" where
  "process_certificates rti now si rs =
     bind_ex (lift_ex (add_chk (highest_round si) 1)) (\<lambda>new_round rs.
       if new_round > current_round rs then start_round rti now si new_round rs else (Ok None, rs))
     (observe_ordered_round si rs)"

definition rs_insert_vote :: "consensus_crypto \<Rightarrow> vote \<Rightarrow> validator_verifier \<Rightarrow> vote_reception_result rs_exec" where
  "rs_insert_vote cc vote v rs =
     (let round = bi_round (vd_proposed (v_vote_data vote)) in
      if round = current_round rs
      then (case insert_vote cc vote v (rs_pending_votes rs) of (r, pv) \<Rightarrow> (r, rs\<lparr>rs_pending_votes := pv\<rparr>))
      else (Ok (UnexpectedRound round (current_round rs)), rs))"

definition record_vote :: "vote \<Rightarrow> round_state \<Rightarrow> round_state" where
  "record_vote vote rs =
     (if bi_round (vd_proposed (v_vote_data vote)) = current_round rs then rs\<lparr>vote_sent := Some vote\<rparr> else rs)"

subsection \<open>Runs\<close>

text \<open>A run: the calls with the times at which they are made, up to the first panic.\<close>

datatype rs_op =
    ProcessCertificates sync_info
  | ProcessLocalTimeout round_t
  | InsertVote vote
  | RecordVote vote
  | SetupLeaderTimeout

datatype rs_output =
    NewRound new_round_event
  | VoteReceived vote vote_reception_result
  | Quiet

primrec rs_exec ::
  "consensus_crypto \<Rightarrow> validator_verifier \<Rightarrow> (u64 \<Rightarrow> nat) \<Rightarrow> nat \<Rightarrow> rs_op \<Rightarrow> rs_output rs_exec" where
  "rs_exec cc v rti now (ProcessCertificates si) = bind_ex (process_certificates rti now si)
     (\<lambda>ev. lift_ex (Ok (case ev of None \<Rightarrow> Quiet | Some x \<Rightarrow> NewRound x)))"
| "rs_exec cc v rti now (ProcessLocalTimeout r) = bind_ex (process_local_timeout rti now r) (\<lambda>_. lift_ex (Ok Quiet))"
| "rs_exec cc v rti now (InsertVote vt) = bind_ex (rs_insert_vote cc vt v) (\<lambda>r. lift_ex (Ok (VoteReceived vt r)))"
| "rs_exec cc v rti now (RecordVote vt) = (\<lambda>rs. (Ok Quiet, record_vote vt rs))"
| "rs_exec cc v rti now SetupLeaderTimeout = bind_ex (setup_leader_timeout rti now) (\<lambda>_. lift_ex (Ok Quiet))"

fun rs_run ::
  "consensus_crypto \<Rightarrow> validator_verifier \<Rightarrow> (u64 \<Rightarrow> nat) \<Rightarrow> (nat \<times> rs_op) list \<Rightarrow> round_state \<Rightarrow>
   rs_output list \<times> round_state" where
  "rs_run cc v rti [] rs = ([], rs)"
| "rs_run cc v rti ((now, op) # ops) rs =
     (case rs_exec cc v rti now op rs of
        (Ok x, rs') \<Rightarrow> (case rs_run cc v rti ops rs' of (xs, rs'') \<Rightarrow> (x # xs, rs''))
      | (_, rs') \<Rightarrow> ([], rs'))"

primrec output_rounds :: "rs_output list \<Rightarrow> round_t list" where
  "output_rounds [] = []"
| "output_rounds (x # xs) = (case x of NewRound ev \<Rightarrow> nre_round ev # output_rounds xs | _ \<Rightarrow> output_rounds xs)"

section \<open>Lemmas\<close>

lemma setup_timeout_state:
  assumes "setup_timeout rti now m rs = (res, rs')"
  shows "\<exists>d task. rs' = rs\<lparr>current_round_deadline := d, timeout_task := task\<rparr> \<and>
    (task = timeout_task rs \<or> (\<exists>n. task = Some (n, current_round rs))) \<and>
    (\<forall>n. res = Ok n \<longrightarrow> task = Some (n, current_round rs))"
proof -
  have "(\<exists>d n. rs' = rs\<lparr>current_round_deadline := d, timeout_task := Some (n, current_round rs)\<rparr> \<and>
      (\<forall>k. res = Ok k \<longrightarrow> k = n)) \<or> rs' = rs \<and> (\<forall>n. res \<noteq> Ok n)"
    using assms by (auto simp: setup_timeout_def setup_deadline_def bind_ex_def split: prod.splits result.splits)
  then show ?thesis
  proof
    assume "rs' = rs \<and> (\<forall>n. res \<noteq> Ok n)"
    then show ?thesis
      by (intro exI [of _ "current_round_deadline rs"] exI [of _ "timeout_task rs"]) simp
  qed blast
qed

lemma observe_ordered_round_simps [simp]:
  "current_round (observe_ordered_round si rs) = current_round rs"
  "rs_pending_votes (observe_ordered_round si rs) = rs_pending_votes rs"
  "vote_sent (observe_ordered_round si rs) = vote_sent rs"
  "timeout_task (observe_ordered_round si rs) = timeout_task rs"
  by (simp_all add: observe_ordered_round_def)

text \<open>What a call that returns keeps: the timeout task is that of the current round, and a change of the round resets the votes.\<close>

definition task_ok :: "round_state \<Rightarrow> bool" where
  "task_ok rs \<longleftrightarrow> pred_option (\<lambda>(_, r). r = current_round rs) (timeout_task rs)"

definition rs_step_ok :: "round_state \<Rightarrow> round_state \<Rightarrow> bool" where
  "rs_step_ok rs rs' \<longleftrightarrow> (task_ok rs \<longrightarrow> task_ok rs') \<and>
     (current_round rs' = current_round rs \<and> rs_pending_votes rs' = rs_pending_votes rs \<and> vote_sent rs' = vote_sent rs \<or>
      current_round rs < current_round rs' \<and> rs_pending_votes rs' = PendingVotes_new \<and> vote_sent rs' = None)"

lemma setup_timeout_step:
  assumes "setup_timeout rti now m rs = (Ok n, rs')"
  shows "rs_step_ok rs rs' \<and> current_round rs' = current_round rs \<and> timeout_task rs' = Some (n, current_round rs')"
  using setup_timeout_state [OF assms] by (auto simp: rs_step_ok_def task_ok_def)

lemma process_certificates_step:
  assumes "process_certificates rti now si rs = (Ok res, rs')"
  shows "rs_step_ok rs rs' \<and> (case res of None \<Rightarrow> current_round rs' = current_round rs
    | Some ev \<Rightarrow> current_round rs < nre_round ev \<and> nre_round ev = current_round rs')"
proof -
  let ?rs = "observe_ordered_round si rs"
  from assms obtain n where n: "add_chk (highest_round si) 1 = (Ok n :: (u64, unit) result)"
    by (auto simp: process_certificates_def bind_ex_Ok)
  show ?thesis
  proof (cases "n > current_round rs")
    case True
    let ?rs1 = "?rs\<lparr>current_round := n, rs_pending_votes := PendingVotes_new, vote_sent := None\<rparr>"
    from assms n True obtain t ev where st: "setup_timeout rti now 1 ?rs1 = (Ok t, rs')" "res = Some ev" "nre_round ev = n"
      by (auto simp: process_certificates_def start_round_def drain_votes_def bind_ex_Ok)
    with setup_timeout_state [OF st(1)] True show ?thesis by (auto simp: rs_step_ok_def task_ok_def)
  next
    case False
    then show ?thesis using assms n by (auto simp: process_certificates_def bind_ex_def rs_step_ok_def task_ok_def)
  qed
qed

lemma rs_exec_rounds:
  assumes "rs_exec cc v rti now op rs = (Ok x, rs')"
  shows "(task_ok rs \<longrightarrow> task_ok rs') \<and> current_round rs \<le> current_round rs' \<and>
    (\<forall>ev. x = NewRound ev \<longrightarrow> current_round rs < nre_round ev \<and> nre_round ev = current_round rs')"
proof (cases op)
  case (ProcessCertificates si)
  with assms obtain res where "process_certificates rti now si rs = (Ok res, rs')"
    "x = (case res of None \<Rightarrow> Quiet | Some ev \<Rightarrow> NewRound ev)" by (auto simp: bind_ex_Ok)
  with process_certificates_step show ?thesis by (cases res) (fastforce simp: rs_step_ok_def)+
next
  case (ProcessLocalTimeout r)
  with assms setup_timeout_step [of rti now 1 rs] show ?thesis
    by (auto simp: bind_ex_Ok process_local_timeout_def rs_step_ok_def split: if_splits)
next
  case (InsertVote vt)
  with assms show ?thesis
    by (auto simp: bind_ex_Ok rs_insert_vote_def Let_def task_ok_def split: prod.splits if_splits)
next
  case (RecordVote vt)
  with assms show ?thesis by (auto simp: record_vote_def task_ok_def)
next
  case SetupLeaderTimeout
  with assms setup_timeout_step [of rti now 2 rs] show ?thesis
    by (auto simp: bind_ex_Ok setup_leader_timeout_def rs_step_ok_def)
qed

text \<open>
  The invariant of a round state: the votes it holds are of its current round, as is the vote it
  sent and the timeout it waits for.
\<close>

definition rs_inv ::
  "consensus_crypto \<Rightarrow> validator_verifier \<Rightarrow> u64 \<Rightarrow> ledger_info set \<Rightarrow> round_state \<Rightarrow> bool" where
  "rs_inv cc v e L rs \<longleftrightarrow> (\<exists>votes. pv_inv cc v e (current_round rs) L votes (rs_pending_votes rs)) \<and> task_ok rs \<and>
     pred_option (\<lambda>vt. bi_round (vd_proposed (v_vote_data vt)) = current_round rs) (vote_sent rs)"

fun output_ok :: "consensus_crypto \<Rightarrow> validator_verifier \<Rightarrow> u64 \<Rightarrow> rs_output \<Rightarrow> bool" where
  "output_ok cc v e (VoteReceived vt (UnexpectedRound r c)) \<longleftrightarrow> r = bi_round (vd_proposed (v_vote_data vt)) \<and> r \<noteq> c"
| "output_ok cc v e (VoteReceived vt res) \<longleftrightarrow>
     answer_ok cc v e (bi_round (vd_proposed (v_vote_data vt))) vt (Ok res)"
| "output_ok cc v e _ \<longleftrightarrow> True"

lemma rs_step_inv: "rs_inv cc v e L rs \<Longrightarrow> rs_step_ok rs rs' \<Longrightarrow> rs_inv cc v e L rs'"
  by (auto simp: rs_inv_def rs_step_ok_def) (blast intro: pv_inv_new)

text \<open>The votes that reach a round state are verified votes of the epoch.\<close>

definition op_ok :: "consensus_crypto \<Rightarrow> validator_verifier \<Rightarrow> u64 \<Rightarrow> ledger_info set \<Rightarrow> rs_op \<Rightarrow> bool" where
  "op_ok cc v e L op \<longleftrightarrow> (case op of
     InsertVote vt \<Rightarrow> Vote_verify cc vt v = Ok () \<and> v_epoch vt = e \<and> v_ledger_info vt \<in> L | _ \<Rightarrow> True)"

lemma answer_ok_output:
  "answer_ok cc v e (bi_round (vd_proposed (v_vote_data vt))) vt (Ok res) \<Longrightarrow> output_ok cc v e (VoteReceived vt res)"
  by (cases res) auto

lemma rs_exec_inv:
  assumes bls: "bls_aggregates (cc_bls cc)" "bls_aggregate_multi (cc_bls cc)"
    and wf: "vv_wf v" "verifier_len v < 2 ^ 16" "0 < unat (total_voting_power v)"
    and inj: "inj_on (hash_ledger_info cc) L"
    and inv: "rs_inv cc v e L rs" and op: "op_ok cc v e L op" and res: "rs_exec cc v rti now op rs = (Ok x, rs')"
  shows "rs_inv cc v e L rs' \<and> output_ok cc v e x"
proof (cases op)
  case (ProcessCertificates si)
  with res obtain r where "process_certificates rti now si rs = (Ok r, rs')"
    "x = (case r of None \<Rightarrow> Quiet | Some ev \<Rightarrow> NewRound ev)" by (auto simp: bind_ex_Ok)
  with process_certificates_step rs_step_inv [OF inv] show ?thesis by (cases r) auto
next
  case (ProcessLocalTimeout r)
  with res setup_timeout_step [of rti now 1 rs] rs_step_inv [OF inv] inv show ?thesis
    by (auto simp: bind_ex_Ok process_local_timeout_def split: if_splits)
next
  case (InsertVote vt)
  show ?thesis
  proof (cases "bi_round (vd_proposed (v_vote_data vt)) = current_round rs")
    case True
    with res InsertVote obtain r pv where iv: "insert_vote cc vt v (rs_pending_votes rs) = (Ok r, pv)"
      "rs' = rs\<lparr>rs_pending_votes := pv\<rparr>" "x = VoteReceived vt r"
      by (auto simp: bind_ex_Ok rs_insert_vote_def Let_def split: prod.splits)
    from inv obtain votes where pv: "pv_inv cc v e (current_round rs) L votes (rs_pending_votes rs)"
      unfolding rs_inv_def by blast
    have "round_vote cc v e (current_round rs) L vt"
      using op True InsertVote by (simp add: op_ok_def round_vote_def)
    then have "answer_ok cc v e (current_round rs) vt (Ok r) \<and> pv_inv cc v e (current_round rs) L (votes @ [vt]) pv"
      using insert_votes_answers [OF bls wf inj pv, of "[vt]" "[Ok r]" pv] iv(1) by simp
    with inv iv True answer_ok_output [of cc v e vt r] show ?thesis by (auto simp: rs_inv_def task_ok_def)
  next
    case False
    with res InsertVote inv show ?thesis by (auto simp: bind_ex_Ok rs_insert_vote_def)
  qed
next
  case (RecordVote vt)
  with res inv show ?thesis by (auto simp: record_vote_def rs_inv_def task_ok_def)
next
  case SetupLeaderTimeout
  with res setup_timeout_step [of rti now 2 rs] rs_step_inv [OF inv] show ?thesis
    by (auto simp: bind_ex_Ok setup_leader_timeout_def)
qed

lemma insert_votes_append:
  "insert_votes cc v (xs @ ys) pv = (case insert_votes cc v xs pv of (rs, pv') \<Rightarrow>
     case insert_votes cc v ys pv' of (rs', pv'') \<Rightarrow> (rs @ rs', pv''))"
  by (induction xs arbitrary: pv) (simp_all split: prod.splits)

lemma answers_ok:
  assumes "list_all2 (answer_ok cc v e r) votes rs"
  shows "\<exists>answers. rs = map Ok answers"
  using assms
proof (induction rule: list_all2_induct)
  case (Cons vt votes res rs)
  then obtain x answers where "res = Ok x" "rs = map Ok answers" by (cases res) auto
  then show ?case by (metis list.simps(9))
qed simp

text \<open>Votes of the current round that are answered without an error are the run of the collection of votes.\<close>

lemma rs_run_votes:
  assumes "\<forall>vt \<in> set votes. bi_round (vd_proposed (v_vote_data vt)) = current_round rs"
    and "insert_votes cc v votes (rs_pending_votes rs) = (map Ok answers, pv)"
  shows "rs_run cc v rti (map (\<lambda>vt. (now, InsertVote vt)) votes) rs
    = (map2 VoteReceived votes answers, rs\<lparr>rs_pending_votes := pv\<rparr>)"
  using assms
proof (induction votes arbitrary: rs answers)
  case (Cons vt votes)
  from Cons.prems(2) obtain r pv1 as where *: "answers = r # as" "insert_vote cc vt v (rs_pending_votes rs) = (Ok r, pv1)"
    "insert_votes cc v votes pv1 = (map Ok as, pv)"
    by (cases answers) (auto split: prod.splits)
  with Cons.IH [of "rs\<lparr>rs_pending_votes := pv1\<rparr>" as] Cons.prems(1) show ?case
    by (simp add: rs_insert_vote_def bind_ex_def)
qed simp

lemma round_index_cong:
  assumes "current_round rs = current_round rs'" "highest_committed_round rs = highest_committed_round rs'"
  shows "round_index rs = round_index rs'"
  unfolding round_index_def assms ..

lemma round_index_eq:
  "round_index rs = (if highest_committed_round rs = 0 then
      if current_round rs = 0 then Panic else Ok (current_round rs - 1)
    else if 2 ^ 64 \<le> unat (highest_committed_round rs) + 3 then Panic
    else if unat (current_round rs) < unat (highest_committed_round rs) + 3 then Ok 0
    else (Ok (current_round rs - highest_committed_round rs - 3) :: (u64, 'e) result))"
proof -
  let ?c = "current_round rs" and ?h = "highest_committed_round rs"
  have one: "1 \<le> ?c \<longleftrightarrow> ?c \<noteq> 0" by (simp add: word_le_nat_alt Suc_le_eq unat_gt_0)
  have add: "?c < ?h + 3 \<longleftrightarrow> unat ?c < unat ?h + 3" if "unat ?h + 3 < 2 ^ 64"
    using that unat_add_no_wrap [of ?h 3] by (simp add: word_less_nat_alt)
  have sub: "?h \<le> ?c" "3 \<le> ?c - ?h" if "unat ?h + 3 \<le> unat ?c"
    using that by (simp_all add: word_le_nat_alt unat_sub)
  show ?thesis
    using add sub by (auto simp: round_index_def sub_chk_if add_chk_if one not_less not_le)
qed

section \<open>Properties\<close>

text \<open>
  C7. The rounds a pacemaker announces strictly increase, whatever calls it receives in whatever
  order: this is what the consumers of its events rely on.
\<close>

theorem rounds_increase:
  "sorted_wrt (<) (current_round rs # output_rounds (fst (rs_run cc v rti ops rs)))"
proof (induction ops arbitrary: rs)
  case (Cons x ops)
  obtain now op where x: "x = (now, op)" by (cases x)
  obtain r rs1 where e: "rs_exec cc v rti now op rs = (r, rs1)" by (cases "rs_exec cc v rti now op rs")
  show ?case
  proof (cases r)
    case (Ok out)
    with e have step: "current_round rs \<le> current_round rs1"
      "\<And>ev. out = NewRound ev \<Longrightarrow> current_round rs < nre_round ev \<and> nre_round ev = current_round rs1"
      using rs_exec_rounds by blast+
    have run: "fst (rs_run cc v rti (x # ops) rs) = out # fst (rs_run cc v rti ops rs1)"
      using e Ok x by (simp split: prod.splits)
    show ?thesis
    proof (cases out)
      case (NewRound ev)
      with Cons.IH [of rs1] step show ?thesis unfolding run by (auto intro: order.strict_trans)
    qed (use Cons.IH [of rs1] step(1) in \<open>auto simp: run intro: order.strict_trans1\<close>)
  qed (use e x in simp_all)
qed simp

text \<open>
  C6. Every certificate a pacemaker forms from the votes it receives verifies and certifies the
  block, or times out the round, of the vote that completed it: votes for other rounds than its
  current one are refused, and votes of an earlier round are never mixed into a later one.
\<close>

theorem round_state_certifies:
  assumes "bls_aggregates (cc_bls cc)" "bls_aggregate_multi (cc_bls cc)"
    and "vv_wf v" "verifier_len v < 2 ^ 16" "0 < unat (total_voting_power v)"
    and "inj_on (hash_ledger_info cc) L" "\<forall>(now, op) \<in> set ops. op_ok cc v e L op"
  shows "\<forall>out \<in> set (fst (rs_run cc v rti ops (RoundState_new start))). output_ok cc v e out"
proof -
  have "rs_inv cc v e L rs \<Longrightarrow> \<forall>(now, op) \<in> set ops. op_ok cc v e L op \<Longrightarrow>
      \<forall>out \<in> set (fst (rs_run cc v rti ops rs)). output_ok cc v e out" for rs
  proof (induction ops arbitrary: rs)
    case (Cons x ops)
    obtain now op where x: "x = (now, op)" by (cases x)
    obtain r rs1 where e: "rs_exec cc v rti now op rs = (r, rs1)" by (cases "rs_exec cc v rti now op rs")
    show ?case
    proof (cases r)
      case (Ok out)
      with Cons.prems e x have "rs_inv cc v e L rs1 \<and> output_ok cc v e out"
        using rs_exec_inv [OF assms(1-6) Cons.prems(1)] by auto
      with Cons.IH [of rs1] Cons.prems(2) e Ok x show ?thesis by (auto split: prod.splits)
    qed (use e x in simp_all)
  qed simp
  moreover have "rs_inv cc v e L (RoundState_new start)"
    by (auto simp: rs_inv_def RoundState_new_def task_ok_def intro: exI [of _ "[]"] pv_inv_new)
  ultimately show ?thesis using assms(7) by blast
qed

text \<open>
  C8. A certificate moves the pacemaker on: when the certificates of a sync info reach the current
  round, and neither the round nor the clock overflows, the round after them starts with no votes
  and a deadline of its interval; the event names the cause, and hands over the votes of the round
  that ended. With older certificates nothing changes but the committed round.
\<close>

theorem certificates_advance_round:
  fixes rs si
  defines "rs1 \<equiv> observe_ordered_round si rs"
  assumes "unat (highest_round si) + 1 < 2 ^ 64" "unat (highest_ordered_round si) + 3 < 2 ^ 64"
    and "unat (highest_committed_round rs) + 3 < 2 ^ 64" "\<And>i. now + rti i \<le> DURATION_MAX"
  shows "if current_round rs \<le> highest_round si
    then \<exists>i ev rs'. process_certificates rti now si rs = (Ok (Some ev), rs') \<and>
      nre_round ev = highest_round si + 1 \<and> current_round rs' = highest_round si + 1 \<and>
      nre_reason ev = (if highest_certified_round si = highest_round si then QCReady else Timeout) \<and>
      nre_prev_round_votes ev = li_digest_to_votes (rs_pending_votes rs) \<and> rs_pending_votes rs' = PendingVotes_new \<and>
      round_index rs' = (Ok i :: (u64, unit) result) \<and> current_round_deadline rs' = now + rti i \<and>
      timeout_task rs' = Some (rti i, highest_round si + 1)
    else process_certificates rti now si rs = (Ok None, rs1)"
proof -
  let ?n = "highest_round si + 1"
  have n: "unat ?n = unat (highest_round si) + 1" using assms(2) by (simp add: unat_add_no_wrap)
  have add: "add_chk (highest_round si) 1 = (Ok ?n :: (u64, unit) result)" using assms(2) by (simp add: add_chk_if)
  show ?thesis
  proof (cases "current_round rs \<le> highest_round si")
    case False
    then have "\<not> ?n > current_round rs" using n by (simp add: word_less_nat_alt word_le_nat_alt)
    then show ?thesis using False add by (simp add: process_certificates_def rs1_def bind_ex_def)
  next
    case True
    then have gt: "?n > current_round rs" using n by (simp add: word_less_nat_alt word_le_nat_alt)
    let ?rs2 = "rs1\<lparr>current_round := ?n, rs_pending_votes := PendingVotes_new, vote_sent := None\<rparr>"
    have "\<not> 2 ^ 64 \<le> unat (highest_committed_round rs1) + 3"
      using assms(3,4) by (simp add: rs1_def observe_ordered_round_def)
    moreover have "?n \<noteq> 0" using n by (metis Suc_eq_plus1 nat.distinct(1) unat_0)
    ultimately have "\<exists>i. round_index ?rs2 = (Ok i :: (u64, unit) result)" by (auto simp: round_index_eq)
    then obtain i where i: "round_index ?rs2 = (Ok i :: (u64, unit) result)" by blast
    have "now + rti i \<le> DURATION_MAX" by (rule assms(5))
    with i have st: "setup_timeout rti now 1 ?rs2
        = (Ok (rti i), ?rs2\<lparr>current_round_deadline := now + rti i, timeout_task := Some (rti i, ?n)\<rparr>)"
      by (simp add: setup_timeout_def setup_deadline_def bind_ex_def dur_chk_def)
    have "unat (highest_certified_round si) + 1 < 2 ^ 64"
      using assms(2) by (simp add: highest_round_def word_le_nat_alt max_def split: if_splits)
    then have "add_chk (highest_certified_round si) 1 = (Ok (highest_certified_round si + 1) :: (u64, unit) result)"
      by (simp add: add_chk_if)
    with st add gt True have "\<exists>ev. process_certificates rti now si rs
        = (Ok (Some ev), ?rs2\<lparr>current_round_deadline := now + rti i, timeout_task := Some (rti i, ?n)\<rparr>) \<and>
        nre_round ev = ?n \<and> nre_reason ev = (if highest_certified_round si = highest_round si then QCReady else Timeout) \<and>
        nre_prev_round_votes ev = li_digest_to_votes (rs_pending_votes rs)"
      by (simp add: process_certificates_def rs1_def [symmetric] bind_ex_def start_round_def drain_votes_def)
        (simp add: rs1_def)
    moreover have "round_index (?rs2\<lparr>current_round_deadline := d, timeout_task := t\<rparr>) = (round_index ?rs2 :: (u64, unit) result)"
      for d t by (rule round_index_cong) simp_all
    ultimately show ?thesis using True i by auto
  qed
qed

definition sample_sync_info :: sync_info where
  "sample_sync_info = SyncInfo_new (sample_qc (sample_block_at 8) (sample_block_at 7) (sample_block_at 7))
     (sample_qc (sample_block_at 8) (sample_block_at 7) (sample_block_at 7)) None"

lemma sample_sync_info_rounds:
  "highest_round sample_sync_info = 8" "highest_ordered_round sample_sync_info = 7" "highest_certified_round sample_sync_info = 8"
  by (simp_all add: sample_sync_info_def SyncInfo_new_def SyncInfo_new_decoupled_def highest_round_def highest_ordered_round_def
    highest_ordered_cert_def highest_certified_round_def highest_timeout_round_def sample_qc_def sample_block_at_def)

theorem certificates_advance_round_witness:
  "\<exists>ev rs'. process_certificates (\<lambda>_. 1000) 5 sample_sync_info (RoundState_new 0) = (Ok (Some ev), rs') \<and> nre_round ev = 9"
proof -
  have "now + (1000 :: nat) \<le> DURATION_MAX" if "now = 5" for now using that by (simp add: DURATION_MAX_def)
  with certificates_advance_round [of sample_sync_info "RoundState_new 0" 5 "\<lambda>_. 1000"] show ?thesis
    by (auto simp: sample_sync_info_rounds RoundState_new_def)
qed

lemma sample_start:
  "\<exists>ev rs. rs_exec sample_crypto sample_verifier (\<lambda>_. 1000) 5 (ProcessCertificates sample_sync_info) (RoundState_new 0)
     = (Ok (NewRound ev), rs) \<and> current_round rs = 9 \<and> rs_pending_votes rs = PendingVotes_new"
  by (simp add: process_certificates_def start_round_def drain_votes_def setup_timeout_def setup_deadline_def bind_ex_def
      round_index_eq dur_chk_def DURATION_MAX_def observe_ordered_round_def RoundState_new_def add_chk_if
      sample_sync_info_rounds)

theorem round_state_certifies_witness:
  "\<exists>qc. VoteReceived (sample_vote 3) (NewQuorumCertificate qc) \<in>
     set (fst (rs_run sample_crypto sample_verifier (\<lambda>_. 1000)
       ((5, ProcessCertificates sample_sync_info) # map (\<lambda>a. (6, InsertVote (sample_vote a))) [1, 2, 3]) (RoundState_new 0))) \<and>
     QuorumCert_verify sample_crypto qc sample_verifier = Ok ()"
proof -
  let ?votes = "[sample_vote 1, sample_vote 2]" and ?vt = "sample_vote 3" and ?L = "{sample_ledger_info}"
  let ?ops = "(5, ProcessCertificates sample_sync_info) # map (\<lambda>vt. (6, InsertVote vt)) (?votes @ [?vt])"
  let ?outs = "fst (rs_run sample_crypto sample_verifier (\<lambda>_. 1000) ?ops (RoundState_new 0))"
  have rv: "\<forall>vt \<in> set (?votes @ [?vt]). round_vote sample_crypto sample_verifier 1 9 ?L vt" by (simp add: sample_vote_round)
  obtain rs pv where iv: "insert_votes sample_crypto sample_verifier ?votes PendingVotes_new = (rs, pv)" by fastforce
  have "verifier_len sample_verifier < 2 ^ 16" "0 < unat (total_voting_power sample_verifier)"
    "inj_on (hash_ledger_info sample_crypto) ?L" by simp_all
  note laws = sample_crypto_laws sample_verifier_wf this
  have inv: "list_all2 (answer_ok sample_crypto sample_verifier 1 9) ?votes rs"
    "pv_inv sample_crypto sample_verifier 1 9 ?L ?votes pv"
    using insert_votes_answers [OF laws pv_inv_new _ iv] rv by auto
  have "{a. \<exists>x. first_vote (?votes @ [?vt]) a = Some x \<and> v_ledger_info x = v_ledger_info ?vt} = {1, 2, 3}"
    "first_vote ?votes (v_author ?vt) = None"
    by (auto simp: first_vote_def sample_vote_def new_with_signature_def split: if_splits)
  then obtain qc where qc: "fst (insert_vote sample_crypto ?vt sample_verifier pv) = Ok (NewQuorumCertificate qc)"
    using first_vote_answer [OF laws inv(2), of ?vt] rv by auto
  obtain answers where rs: "rs = map Ok answers" using answers_ok [OF inv(1)] by blast
  obtain pv' where "insert_vote sample_crypto ?vt sample_verifier pv = (Ok (NewQuorumCertificate qc), pv')"
    using qc by (cases "insert_vote sample_crypto ?vt sample_verifier pv") simp
  with iv rs have all: "insert_votes sample_crypto sample_verifier (?votes @ [?vt]) PendingVotes_new
      = (map Ok (answers @ [NewQuorumCertificate qc]), pv')" unfolding insert_votes_append by simp
  obtain ev rs1 where "rs_exec sample_crypto sample_verifier (\<lambda>_. 1000) 5 (ProcessCertificates sample_sync_info)
      (RoundState_new 0) = (Ok (NewRound ev), rs1)" and rs1: "current_round rs1 = 9" "rs_pending_votes rs1 = PendingVotes_new"
    using sample_start by blast
  moreover have "\<forall>vt \<in> set (?votes @ [?vt]). bi_round (vd_proposed (v_vote_data vt)) = current_round rs1"
    using rv rs1 by (simp add: round_vote_def)
  note rs_run_votes [OF this all [folded rs1(2)], of "\<lambda>_. 1000" 6]
  moreover have "length answers = 2" using inv(1) rs by (simp add: list_all2_conv_all_nth)
  ultimately have "VoteReceived ?vt (NewQuorumCertificate qc) \<in> set ?outs"
    by (auto simp: length_Suc_conv numeral_2_eq_2)
  moreover have "\<forall>out \<in> set ?outs. output_ok sample_crypto sample_verifier 1 out"
    by (rule round_state_certifies [OF laws]) (use rv in \<open>auto simp: op_ok_def round_vote_def\<close>)
  ultimately show ?thesis by fastforce
qed

text \<open>
  The index from which the interval of a round is computed is the distance of the round from
  the third round after the last committed one, and 0 within it; it is computed without a panic
  except in round 0 before any commit, and for committed rounds at the end of the range.
\<close>

theorem round_index_value:
  "(\<forall>i. round_index rs = (Ok i :: (u64, unit) result) \<longrightarrow>
      unat i = unat (current_round rs) - (if highest_committed_round rs = 0 then 1 else unat (highest_committed_round rs) + 3)) \<and>
   (round_index rs = (Panic :: (u64, unit) result) \<longleftrightarrow>
      highest_committed_round rs = 0 \<and> current_round rs = 0 \<or>
      2 ^ 64 \<le> unat (highest_committed_round rs) + 3)"
proof -
  let ?c = "current_round rs" and ?h = "highest_committed_round rs"
  have "unat (?c - ?h - 3) = unat ?c - (unat ?h + 3)" if "unat ?h + 3 \<le> unat ?c"
  proof -
    have "?h \<le> ?c" "3 \<le> ?c - ?h" using that by (simp_all add: word_le_nat_alt unat_sub)
    then show ?thesis by (simp add: unat_sub)
  qed
  moreover have "unat (?c - 1) = unat ?c - 1" if "?c \<noteq> 0" using that by (rule unat_minus_one)
  ultimately show ?thesis by (auto simp: round_index_eq not_less)
qed

theorem round_index_value_witness:
  "round_index ((RoundState_new 0)\<lparr>current_round := 10, highest_committed_round := 3\<rparr>) = (Ok 4 :: (u64, unit) result) \<and>
   round_index (RoundState_new 0) = (Panic :: (u64, unit) result)"
proof -
  have "\<exists>i. round_index ((RoundState_new 0)\<lparr>current_round := 10, highest_committed_round := 3\<rparr>) = (Ok i :: (u64, unit) result)"
    by (simp add: round_index_eq RoundState_new_def)
  then obtain i where i: "round_index ((RoundState_new 0)\<lparr>current_round := 10, highest_committed_round := 3\<rparr>)
      = (Ok i :: (u64, unit) result)" by blast
  with round_index_value [of "(RoundState_new 0)\<lparr>current_round := 10, highest_committed_round := 3\<rparr>"]
  have "unat i = 4" by simp
  then have "i = 4" by (simp add: word_unat_eq_iff)
  with i round_index_value [of "RoundState_new 0"] show ?thesis by (simp add: RoundState_new_def)
qed

end
