(* ===== verification/Message_Queues.thy ===== *)
theory Message_Queues
  imports Exec "HOL-Library.Multiset" "HOL-Library.Sublist"
begin

text \<open>
  The bounded queues of messages per key behind the network and consensus channels
  (\<open>crates/arx-channel/src/message_queues.rs\<close>): messages are kept in one queue per key, the keys
  with messages are served in turn, a full queue drops its newest message (\<open>FIFO\<close>) or its oldest
  (\<open>LIFO\<close>, \<open>KLAST\<close>), and queues that became empty are collected from time to time.

  The hash map of the queues is a map from keys, a \<open>VecDeque\<close> is the list of its elements from
  front to back. The counter of pops keeps its width, with the checked addition. The optional
  Prometheus counters are left out.
\<close>

section \<open>Definitions\<close>

datatype queue_style = FIFO | LIFO | KLAST

record ('k, 't) per_key_queue =
  queue_style :: queue_style
  per_key_queue :: "'k \<rightharpoonup> 't list"
  round_robin_queue :: "'k list"
  max_queue_size :: nat
  num_popped_since_gc :: u32

definition POPS_PER_GC :: u32 where
  "POPS_PER_GC = 50"

definition PerKeyQueue_new :: "queue_style \<Rightarrow> nat \<Rightarrow> ('k, 't) per_key_queue" where
  "PerKeyQueue_new style max_size = \<lparr>queue_style = style, per_key_queue = Map.empty, round_robin_queue = [],
     max_queue_size = max_size, num_popped_since_gc = 0\<rparr>"

fun pop_front :: "'t list \<Rightarrow> 't option \<times> 't list" where
  "pop_front [] = (None, [])"
| "pop_front (m # ms) = (Some m, ms)"

definition pop_back :: "'t list \<Rightarrow> 't option \<times> 't list" where
  "pop_back ms = (if ms = [] then (None, []) else (Some (last ms), butlast ms))"

definition pop_from_key_queue ::
  "'k \<Rightarrow> ('k, 't) per_key_queue \<Rightarrow> ('t option \<times> bool) \<times> ('k, 't) per_key_queue" where
  "pop_from_key_queue key q = (case per_key_queue q key of
     Some ms \<Rightarrow>
       let (retval, ms') = (case queue_style q of LIFO \<Rightarrow> pop_back ms | _ \<Rightarrow> pop_front ms)
       in ((retval, ms' = []), q\<lparr>per_key_queue := (per_key_queue q)(key \<mapsto> ms')\<rparr>)
   | None \<Rightarrow> ((None, True), q))"

definition push_full :: "queue_style \<Rightarrow> 't \<Rightarrow> 't list \<Rightarrow> 't option \<times> 't list" where
  "push_full style message ms = (case style of
     FIFO \<Rightarrow> (Some message, ms)
   | _ \<Rightarrow> (let (oldest, ms') = pop_front ms in (oldest, ms' @ [message])))"

definition pkq_push :: "'k \<Rightarrow> 't \<Rightarrow> ('k, 't) per_key_queue \<Rightarrow> 't option \<times> ('k, 't) per_key_queue" where
  "pkq_push key message q =
     (let ms = (case per_key_queue q key of Some ms \<Rightarrow> ms | None \<Rightarrow> []);
          rr = (if ms = [] then round_robin_queue q @ [key] else round_robin_queue q);
          (dropped, ms') = (if length ms \<ge> max_queue_size q then push_full (queue_style q) message ms
                            else (None, ms @ [message]))
      in (dropped, q\<lparr>per_key_queue := (per_key_queue q)(key \<mapsto> ms'), round_robin_queue := rr\<rparr>))"

definition remove_empty_queues :: "('k, 't) per_key_queue \<Rightarrow> ('k, 't) per_key_queue" where
  "remove_empty_queues q = q\<lparr>per_key_queue := (\<lambda>k. if per_key_queue q k = Some [] then None else per_key_queue q k)\<rparr>"

definition count_pop :: "(('k, 't) per_key_queue, unit, unit) exec" where
  "count_pop = bind_ex (reads (\<lambda>q. add_chk (num_popped_since_gc q) 1)) (\<lambda>n q.
     if n \<ge> POPS_PER_GC then (Ok (), remove_empty_queues (q\<lparr>num_popped_since_gc := 0\<rparr>))
     else (Ok (), q\<lparr>num_popped_since_gc := n\<rparr>))"

definition pkq_pop :: "(('k, 't) per_key_queue, 't option, unit) exec" where
  "pkq_pop q = (case round_robin_queue q of
     [] \<Rightarrow> (Ok None, q)
   | key # rr \<Rightarrow>
       let ((message, is_q_empty), q1) = pop_from_key_queue key (q\<lparr>round_robin_queue := rr\<rparr>);
           q2 = (if \<not> is_q_empty then q1\<lparr>round_robin_queue := round_robin_queue q1 @ [key]\<rparr> else q1)
       in case message of
            None \<Rightarrow> (Ok None, q2)
          | Some m \<Rightarrow> bind_ex count_pop (\<lambda>_. lift_ex (Ok (Some m))) q2)"

definition pkq_clear :: "('k, 't) per_key_queue \<Rightarrow> ('k, 't) per_key_queue" where
  "pkq_clear q = q\<lparr>per_key_queue := Map.empty, round_robin_queue := []\<rparr>"

subsection \<open>Runs\<close>

datatype ('k, 't) q_op = QPush 'k 't | QPop | QClear

datatype 't q_out = Pushed (pushed_dropped: "'t option") | Popped (popped_message: "'t option") | Cleared

primrec pkq_exec :: "('k, 't) q_op \<Rightarrow> (('k, 't) per_key_queue, 't q_out, unit) exec" where
  "pkq_exec (QPush k m) = (\<lambda>q. case pkq_push k m q of (d, q') \<Rightarrow> (Ok (Pushed d), q'))"
| "pkq_exec QPop = bind_ex pkq_pop (\<lambda>m. lift_ex (Ok (Popped m)))"
| "pkq_exec QClear = (\<lambda>q. (Ok Cleared, pkq_clear q))"

primrec pkq_run :: "('k, 't) q_op list \<Rightarrow> (('k, 't) per_key_queue, 't q_out list, unit) exec" where
  "pkq_run [] = lift_ex (Ok [])"
| "pkq_run (op # ops) = bind_ex (pkq_exec op) (\<lambda>out. bind_ex (pkq_run ops) (\<lambda>outs. lift_ex (Ok (out # outs))))"

text \<open>What a run was given, under one key and in all, and what it delivered and dropped.\<close>

fun pushed_at :: "'k \<Rightarrow> ('k, 't) q_op list \<Rightarrow> 't list" where
  "pushed_at k [] = []"
| "pushed_at k (QPush k' m # ops) = (if k' = k then m # pushed_at k ops else pushed_at k ops)"
| "pushed_at k (_ # ops) = pushed_at k ops"

fun all_pushed :: "('k, 't) q_op list \<Rightarrow> 't list" where
  "all_pushed [] = []"
| "all_pushed (QPush k m # ops) = m # all_pushed ops"
| "all_pushed (_ # ops) = all_pushed ops"

fun delivered :: "'t q_out list \<Rightarrow> 't list" where
  "delivered [] = []"
| "delivered (Popped (Some m) # outs) = m # delivered outs"
| "delivered (_ # outs) = delivered outs"

fun dropped :: "'t q_out list \<Rightarrow> 't list" where
  "dropped [] = []"
| "dropped (Pushed (Some m) # outs) = m # dropped outs"
| "dropped (_ # outs) = dropped outs"

section \<open>Invariant\<close>

text \<open>
  The messages waiting under a key, and the invariant: the keys in turn are, without repetition,
  those with messages waiting; no queue is longer than the bound; a collection is due before the
  counter reaches its limit.
\<close>

definition waiting :: "('k, 't) per_key_queue \<Rightarrow> 'k \<Rightarrow> 't list" where
  "waiting q k = (case per_key_queue q k of Some ms \<Rightarrow> ms | None \<Rightarrow> [])"

definition pkq_inv :: "('k, 't) per_key_queue \<Rightarrow> bool" where
  "pkq_inv q \<longleftrightarrow> distinct (round_robin_queue q) \<and> set (round_robin_queue q) = {k. waiting q k \<noteq> []} \<and>
     0 < max_queue_size q \<and> (\<forall>k. length (waiting q k) \<le> max_queue_size q) \<and> num_popped_since_gc q < POPS_PER_GC"

text \<open>
  The abstract queue: only the messages waiting under each key, and the order in which the keys
  are served. It says nothing of empty queues and their collection.
\<close>

type_synonym ('k, 't) turns = "('k \<Rightarrow> 't list) \<times> 'k list"

definition turns_of :: "('k, 't) per_key_queue \<Rightarrow> ('k, 't) turns" where
  "turns_of q = (waiting q, round_robin_queue q)"

definition turns_push :: "queue_style \<Rightarrow> nat \<Rightarrow> 'k \<Rightarrow> 't \<Rightarrow> ('k, 't) turns \<Rightarrow> 't option \<times> ('k, 't) turns" where
  "turns_push style max_size k m = (\<lambda>(w, rr).
     if length (w k) < max_size then (None, w(k := w k @ [m]), if w k = [] then rr @ [k] else rr)
     else if style = FIFO then (Some m, w, rr)
     else (Some (hd (w k)), w(k := tl (w k) @ [m]), rr))"

definition turns_pop :: "queue_style \<Rightarrow> ('k, 't) turns \<Rightarrow> ('k \<times> 't) option \<times> ('k, 't) turns" where
  "turns_pop style = (\<lambda>(w, rr). case rr of [] \<Rightarrow> (None, w, rr) | k # ks \<Rightarrow>
     let m = (if style = LIFO then last (w k) else hd (w k));
         ms = (if style = LIFO then butlast (w k) else tl (w k))
     in (Some (k, m), w(k := ms), if ms = [] then ks else ks @ [k]))"

fun turns_exec :: "queue_style \<Rightarrow> nat \<Rightarrow> ('k, 't) q_op \<Rightarrow> ('k, 't) turns \<Rightarrow> 't q_out \<times> ('k, 't) turns" where
  "turns_exec style n (QPush k m) t = (case turns_push style n k m t of (d, t') \<Rightarrow> (Pushed d, t'))"
| "turns_exec style n QPop t = (case turns_pop style t of (m, t') \<Rightarrow> (Popped (map_option snd m), t'))"
| "turns_exec style n QClear t = (Cleared, (\<lambda>_. [], []))"

fun turns_run :: "queue_style \<Rightarrow> nat \<Rightarrow> ('k, 't) q_op list \<Rightarrow> ('k, 't) turns \<Rightarrow> 't q_out list \<times> ('k, 't) turns" where
  "turns_run style n [] t = ([], t)"
| "turns_run style n (op # ops) t = (case turns_exec style n op t of (out, t1) \<Rightarrow>
     case turns_run style n ops t1 of (outs, t2) \<Rightarrow> (out # outs, t2))"

fun turns_inv :: "nat \<Rightarrow> ('k, 't) turns \<Rightarrow> bool" where
  "turns_inv n (w, rr) \<longleftrightarrow> distinct rr \<and> set rr = {k. w k \<noteq> []} \<and> 0 < n \<and> (\<forall>k. length (w k) \<le> n)"

section \<open>Lemmas\<close>

lemma waiting_simps [simp]:
  "waiting (q\<lparr>round_robin_queue := rr\<rparr>) = waiting q"
  "waiting (q\<lparr>num_popped_since_gc := n\<rparr>) = waiting q"
  "waiting (q\<lparr>per_key_queue := (per_key_queue q)(k \<mapsto> ms)\<rparr>) = (waiting q)(k := ms)"
  "waiting (PerKeyQueue_new style max_size) = (\<lambda>_. [])"
  "waiting (pkq_clear q) = (\<lambda>_. [])"
  by (auto simp: waiting_def PerKeyQueue_new_def pkq_clear_def fun_eq_iff)

lemma remove_empty_queues_waiting [simp]: "waiting (remove_empty_queues q) = waiting q"
  by (auto simp: waiting_def remove_empty_queues_def fun_eq_iff split: option.splits)

lemma remove_empty_queues_simps [simp]:
  "round_robin_queue (remove_empty_queues q) = round_robin_queue q"
  "max_queue_size (remove_empty_queues q) = max_queue_size q"
  "queue_style (remove_empty_queues q) = queue_style q"
  "num_popped_since_gc (remove_empty_queues q) = num_popped_since_gc q"
  by (simp_all add: remove_empty_queues_def)

lemma count_pop_inv:
  assumes "num_popped_since_gc q < POPS_PER_GC"
  shows "\<exists>q'. count_pop q = (Ok (), q') \<and> waiting q' = waiting q \<and> round_robin_queue q' = round_robin_queue q \<and>
    max_queue_size q' = max_queue_size q \<and> queue_style q' = queue_style q \<and> num_popped_since_gc q' < POPS_PER_GC"
proof -
  have "unat (num_popped_since_gc q) + 1 < 2 ^ 32"
    using assms by (simp add: POPS_PER_GC_def word_less_nat_alt)
  then have "add_chk (num_popped_since_gc q) 1 = (Ok (num_popped_since_gc q + 1) :: (u32, unit) result)"
    by (simp add: add_chk_if)
  then show ?thesis by (auto simp: count_pop_def bind_ex_def POPS_PER_GC_def not_le)
qed

text \<open>One push, and one pop, are the operations of the abstract queue.\<close>

lemma pkq_push_turns:
  assumes "pkq_inv q" "pkq_push k m q = (d, q')"
  shows "(d, turns_of q') = turns_push (queue_style q) (max_queue_size q) k m (turns_of q)"
    "queue_style q' = queue_style q" "max_queue_size q' = max_queue_size q" "num_popped_since_gc q' = num_popped_since_gc q"
proof -
  have "waiting q k \<noteq> []" if "max_queue_size q \<le> length (waiting q k)" using that assms(1) by (auto simp: pkq_inv_def)
  then show "(d, turns_of q') = turns_push (queue_style q) (max_queue_size q) k m (turns_of q)"
    using assms(2) unfolding pkq_push_def waiting_def [symmetric]
    by (cases "waiting q k"; cases "queue_style q")
      (auto simp: turns_of_def turns_push_def push_full_def Let_def fun_eq_iff split: if_splits)
qed (use assms(2) in \<open>auto simp: pkq_push_def Let_def split: prod.splits\<close>)

lemma pkq_pop_turns:
  assumes "pkq_inv q"
  shows "\<exists>q'. pkq_pop q = (Ok (map_option snd (fst (turns_pop (queue_style q) (turns_of q)))), q') \<and>
    turns_of q' = snd (turns_pop (queue_style q) (turns_of q)) \<and> queue_style q' = queue_style q \<and>
    max_queue_size q' = max_queue_size q \<and> num_popped_since_gc q' < POPS_PER_GC"
proof (cases "round_robin_queue q")
  case Nil
  with assms show ?thesis by (simp add: pkq_pop_def turns_pop_def turns_of_def pkq_inv_def)
next
  case (Cons k ks)
  with assms have "waiting q k \<noteq> []" and n: "num_popped_since_gc q < POPS_PER_GC" by (auto simp: pkq_inv_def)
  then obtain x ms where ms: "per_key_queue q k = Some (x # ms)" "waiting q k = x # ms"
    by (cases "waiting q k") (auto simp: waiting_def split: option.splits)
  let ?ms = "if queue_style q = LIFO then butlast (x # ms) else ms"
  let ?q = "q\<lparr>round_robin_queue := if ?ms = [] then ks else ks @ [k], per_key_queue := (per_key_queue q)(k \<mapsto> ?ms)\<rparr>"
  have w: "waiting ?q = (waiting q)(k := ?ms)" by (simp add: waiting_def fun_eq_iff)
  obtain q' where q': "count_pop ?q = (Ok (), q')" "waiting q' = waiting ?q" "round_robin_queue q' = round_robin_queue ?q"
    "max_queue_size q' = max_queue_size ?q" "queue_style q' = queue_style ?q" "num_popped_since_gc q' < POPS_PER_GC"
    using count_pop_inv [of ?q] n by auto
  have "pkq_pop q = bind_ex count_pop (\<lambda>_. lift_ex (Ok (Some (if queue_style q = LIFO then last (x # ms) else x)))) ?q"
    using Cons ms by (cases q; cases "queue_style q") (auto simp: pkq_pop_def pop_from_key_queue_def pop_back_def)
  then show ?thesis using q' w Cons ms by (auto simp: turns_pop_def turns_of_def Let_def bind_ex_def)
qed

lemma pkq_inv_turns:
  "pkq_inv q \<longleftrightarrow> turns_inv (max_queue_size q) (turns_of q) \<and> num_popped_since_gc q < POPS_PER_GC"
  by (auto simp: pkq_inv_def turns_of_def)

lemma turns_exec_inv:
  assumes "turns_inv n t"
  shows "turns_inv n (snd (turns_exec style n op t))"
proof (cases op)
  case (QPush k m)
  obtain w rr where t: "t = (w, rr)" by (cases t)
  with assms have "w k \<noteq> []" if "n \<le> length (w k)" using that by auto
  with assms QPush t show ?thesis by (auto simp: turns_push_def)
next
  case QPop
  obtain w rr where t: "t = (w, rr)" by (cases t)
  show ?thesis
  proof (cases rr)
    case (Cons k ks)
    let ?ms = "if style = LIFO then butlast (w k) else tl (w k)"
    have "length ?ms \<le> length (w k)" by simp
    with assms have "length ?ms \<le> n" unfolding t by (meson le_trans turns_inv.simps)
    moreover have "k \<notin> set ks" "w k \<noteq> []" "\<forall>k'. k' \<in> set ks \<longleftrightarrow> w k' \<noteq> [] \<and> k' \<noteq> k" using assms t Cons by auto
    ultimately show ?thesis using assms QPop t Cons by (auto simp: turns_pop_def Let_def split: if_splits)
  qed (use assms QPop t in \<open>auto simp: turns_pop_def\<close>)
qed (use assms in \<open>cases t; auto\<close>)

text \<open>The simulation: a call on a well-formed queue returns, and does what the abstract queue does.\<close>

lemma pkq_exec_turns:
  assumes "pkq_inv q"
  shows "\<exists>q'. pkq_exec op q = (Ok (fst (turns_exec (queue_style q) (max_queue_size q) op (turns_of q))), q') \<and>
    turns_of q' = snd (turns_exec (queue_style q) (max_queue_size q) op (turns_of q)) \<and> pkq_inv q' \<and>
    queue_style q' = queue_style q \<and> max_queue_size q' = max_queue_size q"
proof -
  let ?t = "turns_exec (queue_style q) (max_queue_size q) op (turns_of q)"
  have "\<exists>q'. pkq_exec op q = (Ok (fst ?t), q') \<and> turns_of q' = snd ?t \<and> queue_style q' = queue_style q \<and>
      max_queue_size q' = max_queue_size q \<and> num_popped_since_gc q' < POPS_PER_GC"
  proof (cases op)
    case (QPush k m)
    obtain d q' where p: "pkq_push k m q = (d, q')" by (cases "pkq_push k m q")
    from pkq_push_turns [OF assms p] assms QPush p show ?thesis
      by (auto simp: pkq_inv_def split: prod.splits)
  next
    case QPop
    with pkq_pop_turns [OF assms] show ?thesis by (auto simp: bind_ex_def split: prod.splits)
  next
    case QClear
    with assms show ?thesis by (auto simp: pkq_clear_def turns_of_def waiting_def pkq_inv_def fun_eq_iff)
  qed
  moreover have "turns_inv (max_queue_size q) (snd ?t)" using assms turns_exec_inv pkq_inv_turns by blast
  ultimately show ?thesis by (auto simp: pkq_inv_turns)
qed

lemma pkq_run_turns:
  assumes "pkq_inv q"
  shows "\<exists>q'. pkq_run ops q = (Ok (fst (turns_run (queue_style q) (max_queue_size q) ops (turns_of q))), q') \<and>
    turns_of q' = snd (turns_run (queue_style q) (max_queue_size q) ops (turns_of q)) \<and> pkq_inv q' \<and>
    queue_style q' = queue_style q \<and> max_queue_size q' = max_queue_size q"
  using assms
proof (induction ops arbitrary: q)
  case (Cons op ops)
  let ?t = "turns_exec (queue_style q) (max_queue_size q) op (turns_of q)"
  from pkq_exec_turns [OF Cons.prems] obtain q1 where q1: "pkq_exec op q = (Ok (fst ?t), q1)" "turns_of q1 = snd ?t"
    "pkq_inv q1" "queue_style q1 = queue_style q" "max_queue_size q1 = max_queue_size q" by blast
  from Cons.IH [OF q1(3)] q1 show ?case by (auto simp: bind_ex_def split: prod.splits)
qed simp

lemma pkq_inv_new: "0 < n \<Longrightarrow> pkq_inv (PerKeyQueue_new style n)"
  by (simp add: pkq_inv_def) (simp add: PerKeyQueue_new_def POPS_PER_GC_def)

subsection \<open>What the abstract queue delivers\<close>

fun turns_pending :: "('k, 't) turns \<Rightarrow> 't multiset" where
  "turns_pending (w, rr) = mset (concat (map w rr))"

lemma pending_update:
  assumes "distinct rr" "k \<in> set rr"
  shows "mset (concat (map (w(k := ms)) rr)) + mset (w k) = mset (concat (map w rr)) + mset ms"
proof -
  obtain xs ys where rr: "rr = xs @ k # ys" using assms(2) by (auto dest: split_list)
  with assms(1) have "concat (map (w(k := ms)) xs) = concat (map w xs)" "concat (map (w(k := ms)) ys) = concat (map w ys)"
    by (auto simp: map_fun_upd)
  then show ?thesis by (simp add: rr)
qed

lemma mset_ends:
  assumes "xs \<noteq> []"
  shows "mset xs = add_mset (last xs) (mset (butlast xs))" "mset xs = add_mset (hd xs) (mset (tl xs))"
  by (cases xs rule: rev_cases; use assms in simp) (cases xs; use assms in simp)

lemma turns_exec_conserves:
  assumes "turns_inv n t" "turns_exec style n op t = (out, t')" "op \<noteq> QClear"
  shows "mset (all_pushed [op]) + turns_pending t = mset (delivered [out]) + mset (dropped [out]) + turns_pending t'"
proof -
  obtain w rr where t: "t = (w, rr)" by (cases t)
  have upd: "w k \<noteq> [] \<Longrightarrow> mset (concat (map (w(k := ms)) rr)) + mset (w k) = mset (concat (map w rr)) + mset ms" for k ms
    using assms(1) pending_update t by fastforce
  show ?thesis
  proof (cases op)
    case (QPush k m)
    show ?thesis
    proof (cases "w k")
      case Nil
      then have "map (w(k := [m])) rr = map w rr" using assms(1) t by auto
      with Nil assms t QPush show ?thesis by (auto simp: turns_push_def split: if_splits)
    next
      case (Cons x xs)
      with upd [of k "w k @ [m]"] upd [of k "xs @ [m]"] assms t QPush show ?thesis
        by (auto simp: turns_push_def split: if_splits)
    qed
  next
    case QPop
    show ?thesis
    proof (cases rr)
      case (Cons k ks)
      let ?m = "if style = LIFO then last (w k) else hd (w k)" and ?ms = "if style = LIFO then butlast (w k) else tl (w k)"
      have ne: "w k \<noteq> []" using assms(1) t Cons by auto
      have split: "mset (w k) = add_mset ?m (mset ?ms)"
        using mset_ends [OF ne] by simp
      have "out = Popped (Some ?m)" "turns_pending t' = mset (concat (map (w(k := ?ms)) rr))"
        using assms(2) t QPop Cons by (auto simp: turns_pop_def Let_def)
      with upd [OF ne, of ?ms] split QPop t show ?thesis by simp
    qed (use assms(2) t QPop in \<open>auto simp: turns_pop_def\<close>)
  qed (use assms in simp)
qed

lemma run_cons_simps:
  "all_pushed (op # ops) = all_pushed [op] @ all_pushed ops" "pushed_at k (op # ops) = pushed_at k [op] @ pushed_at k ops"
  by (cases op; simp)+

lemma outs_cons_simps:
  "delivered (out # outs) = delivered [out] @ delivered outs" "dropped (out # outs) = dropped [out] @ dropped outs"
proof -
  have "delivered (out # outs) = delivered [out] @ delivered outs \<and> dropped (out # outs) = dropped [out] @ dropped outs"
  proof (cases out)
    case (Pushed d)
    then show ?thesis by (cases d) simp_all
  next
    case (Popped m)
    then show ?thesis by (cases m) simp_all
  qed simp
  then show "delivered (out # outs) = delivered [out] @ delivered outs" "dropped (out # outs) = dropped [out] @ dropped outs"
    by simp_all
qed

lemma turns_run_conserves:
  assumes "turns_inv n t" "turns_run style n ops t = (outs, t')" "QClear \<notin> set ops"
  shows "mset (all_pushed ops) + turns_pending t = mset (delivered outs) + mset (dropped outs) + turns_pending t'"
  using assms
proof (induction ops arbitrary: t outs)
  case (Cons op ops)
  from Cons.prems(2) obtain out t1 outs1 where step: "turns_exec style n op t = (out, t1)"
    "turns_run style n ops t1 = (outs1, t')" "outs = out # outs1" by (auto split: prod.splits)
  have "turns_inv n t1" using turns_exec_inv [OF Cons.prems(1), of style op] step(1) by simp
  with Cons.IH [OF _ step(2)] Cons.prems(3) have "mset (all_pushed ops) + turns_pending t1
      = mset (delivered outs1) + mset (dropped outs1) + turns_pending t'" by simp
  moreover have "mset (all_pushed [op]) + turns_pending t
      = mset (delivered [out]) + mset (dropped [out]) + turns_pending t1"
    using turns_exec_conserves [OF Cons.prems(1) step(1)] Cons.prems(3) by auto
  ultimately show ?case
    unfolding step(3) run_cons_simps(1) [of op ops] outs_cons_simps [of out outs1] mset_append
    by (metis (no_types, lifting) add.assoc add.commute)
qed simp

text \<open>The messages of a key are known by a function \<open>key_of\<close>, such as the sender a message names.\<close>

definition keyed_op :: "('t \<Rightarrow> 'k) \<Rightarrow> ('k, 't) q_op \<Rightarrow> bool" where
  "keyed_op key_of op \<longleftrightarrow> (case op of QPush k m \<Rightarrow> key_of m = k | _ \<Rightarrow> True)"

fun keyed_turns :: "('t \<Rightarrow> 'k) \<Rightarrow> ('k, 't) turns \<Rightarrow> bool" where
  "keyed_turns key_of (w, rr) \<longleftrightarrow> (\<forall>k. \<forall>m \<in> set (w k). key_of m = k)"

lemma turns_exec_order:
  assumes "turns_inv n t" "keyed_turns key_of t" "keyed_op key_of op" "turns_exec style n op t = (out, t')" "style \<noteq> LIFO"
  shows "keyed_turns key_of t' \<and> subseq ([m \<leftarrow> delivered [out]. key_of m = k] @ fst t' k) (fst t k @ pushed_at k [op])"
proof -
  obtain w rr where t: "t = (w, rr)" by (cases t)
  show ?thesis
  proof (cases op)
    case (QPush k' m)
    then have "key_of m = k'" using assms(3) by (simp add: keyed_op_def)
    moreover have "subseq (tl xs @ [m]) (xs @ [m])" for xs by (cases xs) auto
    moreover have "w k' \<noteq> []" if "n \<le> length (w k')" using that assms(1) t by auto
    moreover have "x \<in> set (w j)" if "x \<in> set (tl (w j))" for x j using that by (cases "w j") auto
    ultimately show ?thesis using assms t QPush
      by (auto simp: turns_push_def split: if_splits)
  next
    case QPop
    show ?thesis
    proof (cases rr)
      case (Cons k' ks)
      then obtain x xs where "w k' = x # xs" using assms(1) t by (cases "w k'") auto
      with Cons assms t QPop show ?thesis by (auto simp: turns_pop_def Let_def)
    qed (use assms t QPop in \<open>auto simp: turns_pop_def\<close>)
  qed (use assms t in auto)
qed

lemma turns_run_order:
  assumes "turns_inv n t" "keyed_turns key_of t" "\<forall>op \<in> set ops. keyed_op key_of op"
    and "turns_run style n ops t = (outs, t')" "style \<noteq> LIFO"
  shows "subseq ([m \<leftarrow> delivered outs. key_of m = k] @ fst t' k) (fst t k @ pushed_at k ops)"
  using assms
proof (induction ops arbitrary: t outs)
  case (Cons op ops)
  from Cons.prems(4) obtain out t1 outs1 where step: "turns_exec style n op t = (out, t1)"
    "turns_run style n ops t1 = (outs1, t')" "outs = out # outs1" by (auto split: prod.splits)
  have "turns_inv n t1" using turns_exec_inv [OF Cons.prems(1), of style op] step(1) by simp
  moreover have one: "keyed_turns key_of t1"
    "subseq ([m \<leftarrow> delivered [out]. key_of m = k] @ fst t1 k) (fst t k @ pushed_at k [op])"
    using turns_exec_order [OF Cons.prems(1,2) _ step(1) assms(5)] Cons.prems(3) by auto
  ultimately have "subseq ([m \<leftarrow> delivered outs1. key_of m = k] @ fst t' k) (fst t1 k @ pushed_at k ops)"
    using Cons.IH [OF _ _ _ step(2)] Cons.prems(3,5) by simp
  then have "subseq ([m \<leftarrow> delivered [out]. key_of m = k] @ [m \<leftarrow> delivered outs1. key_of m = k] @ fst t' k)
      (([m \<leftarrow> delivered [out]. key_of m = k] @ fst t1 k) @ pushed_at k ops)"
    unfolding append.assoc by (rule list_emb_append_mono [OF subseq_order.order_refl])
  also have "subseq \<dots> ((fst t k @ pushed_at k [op]) @ pushed_at k ops)"
    using one(2) by (rule list_emb_append_mono) simp
  finally show ?case unfolding step(3) run_cons_simps(2) [of k op ops] outs_cons_simps(1) [of out outs1] by simp
qed simp

definition num_pops :: "('k, 't) q_op list \<Rightarrow> nat" where
  "num_pops ops = length (filter (\<lambda>op. op = QPop) ops)"

lemma num_pops_simps [simp]:
  "num_pops [] = 0" "num_pops (QPop # ops) = Suc (num_pops ops)" "num_pops (QPush k m # ops) = num_pops ops"
  by (simp_all add: num_pops_def)

text \<open>Before a key comes to its turn, pushes only add to its queue and to the end of the turns.\<close>

lemma turns_run_turn:
  assumes "turns_inv n t" "turns_run style n ops t = (outs, t')" "QClear \<notin> set ops" "num_pops ops < length (snd t)"
  shows "(\<exists>ks. snd t' = drop (num_pops ops) (snd t) @ ks) \<and>
    (style = FIFO \<longrightarrow> prefix (fst t (snd t ! num_pops ops)) (fst t' (snd t ! num_pops ops)))"
  using assms
proof (induction ops arbitrary: t outs)
  case (Cons op ops)
  obtain w rr where t: "t = (w, rr)" by (cases t)
  from Cons.prems(2) obtain out w1 rr1 outs1 where step: "turns_exec style n op t = (out, (w1, rr1))"
    "turns_run style n ops (w1, rr1) = (outs1, t')" "outs = out # outs1" by (auto split: prod.splits)
  have inv: "turns_inv n (w1, rr1)" using turns_exec_inv [OF Cons.prems(1), of style op] step(1) by simp
  show ?case
  proof (cases op)
    case (QPush k m)
    with step(1) t have rr1: "\<exists>ks. rr1 = rr @ ks" and w1: "style = FIFO \<longrightarrow> prefix (w j) (w1 j)" for j
      by (auto simp: turns_push_def split: if_splits)
    with Cons.IH [OF inv step(2)] Cons.prems(3,4) QPush t show ?thesis
      by (auto simp: nth_append intro: prefix_order.trans [OF w1 [rule_format]])
  next
    case QPop
    then obtain k ks where rr: "rr = k # ks" using Cons.prems(4) t by (cases rr) auto
    with step(1) t QPop have rr1: "\<exists>ys. rr1 = ks @ ys" and w1: "j \<noteq> k \<Longrightarrow> w1 j = w j" for j
      by (auto simp: turns_pop_def Let_def split: if_splits)
    moreover have "ks ! num_pops ops \<noteq> k" using Cons.prems(1,4) t rr QPop by (auto simp: in_set_conv_nth)
    ultimately show ?thesis using Cons.IH [OF inv step(2)] Cons.prems(3,4) t rr QPop by (auto simp: nth_append)
  qed (use Cons.prems in auto)
qed simp

lemma turns_run_length: "length (fst (turns_run style n ops t)) = length ops"
  by (induction ops arbitrary: t) (simp_all add: case_prod_beta)

lemma pkq_run_new:
  assumes "0 < n"
  shows "\<exists>q. pkq_run ops (PerKeyQueue_new style n) = (Ok (fst (turns_run style n ops (\<lambda>_. [], []))), q) \<and>
    turns_of q = snd (turns_run style n ops (\<lambda>_. [], [])) \<and> pkq_inv q"
proof -
  have new: "turns_of (PerKeyQueue_new style n) = (\<lambda>_. [], [])" "queue_style (PerKeyQueue_new style n) = style"
    "max_queue_size (PerKeyQueue_new style n) = n"
    by (simp_all add: turns_of_def) (simp_all add: PerKeyQueue_new_def)
  from pkq_run_turns [OF pkq_inv_new [OF assms], where ops = ops and style1 = style] show ?thesis
    unfolding new by blast
qed

section \<open>Examples\<close>

text \<open>Two keys, a bound of two messages: the third message of key 1 is the one that is dropped.\<close>

definition sample_q_ops :: "(nat, nat \<times> nat) q_op list" where
  "sample_q_ops = [QPush 1 (1, 10), QPush 1 (1, 11), QPush 2 (2, 20), QPush 1 (1, 12), QPop]"

lemma sample_q_run:
  "\<exists>q. pkq_run sample_q_ops (PerKeyQueue_new FIFO 2)
     = (Ok [Pushed None, Pushed None, Pushed None, Pushed (Some (1, 12)), Popped (Some (1, 10))], q) \<and>
     waiting q 1 = [(1, 11)] \<and> round_robin_queue q = [2, 1] \<and> pkq_inv q \<and> queue_style q = FIFO"
proof -
  have "turns_run FIFO 2 sample_q_ops (\<lambda>_. [], [])
      = ([Pushed None, Pushed None, Pushed None, Pushed (Some (1, 12)), Popped (Some (1, 10))],
         (\<lambda>_. [])(1 := [(1, 11)], 2 := [(2, 20)]), [2, 1])"
    by (simp add: sample_q_ops_def turns_push_def turns_pop_def fun_eq_iff)
  with pkq_run_turns [OF pkq_inv_new [of 2 FIFO], of sample_q_ops] show ?thesis
    by (auto simp: turns_of_def) (auto simp: PerKeyQueue_new_def)
qed

lemma sample_q_ops_length: "length sample_q_ops = 5" "QClear \<notin> set sample_q_ops"
  by (simp_all add: sample_q_ops_def)

section \<open>Properties\<close>

text \<open>
  C12. Whatever is pushed, popped and cleared, in whatever order, a queue stays well-formed and no call
  panics: the keys in turn are, each once, the keys with messages waiting, no key ever has more
  messages than the bound, and the counter of pops stays below the limit of the collection.
\<close>

theorem queue_well_formed:
  assumes "0 < max_size"
  shows "\<exists>outs q. pkq_run ops (PerKeyQueue_new style max_size) = (Ok outs, q) \<and> length outs = length ops \<and> pkq_inv q"
  using pkq_run_new [OF assms, of ops style] turns_run_length [of style max_size ops "(\<lambda>_. [], [])"] by metis

theorem queue_well_formed_witness:
  "\<exists>outs q. pkq_run sample_q_ops (PerKeyQueue_new FIFO 2) = (Ok outs, q) \<and> length outs = 5 \<and> pkq_inv q"
  using queue_well_formed [of 2 sample_q_ops FIFO] by (simp add: sample_q_ops_length)

text \<open>
  C13. A queue neither loses, duplicates nor makes up messages: as long as it is not cleared, what was
  pushed is what was delivered, what was returned as dropped and what still waits. Except in
  \<open>LIFO\<close> style, the messages of a key come out in the order in which they were pushed, and those
  that wait follow in that order.
\<close>

theorem queue_delivers:
  assumes "0 < max_size" "pkq_run ops (PerKeyQueue_new style max_size) = (Ok outs, q)"
  shows "(QClear \<notin> set ops \<longrightarrow> mset (all_pushed ops) =
      mset (delivered outs) + mset (dropped outs) + mset (concat (map (waiting q) (round_robin_queue q)))) \<and>
    (style \<noteq> LIFO \<and> (\<forall>op \<in> set ops. keyed_op key_of op) \<longrightarrow>
      subseq ([m \<leftarrow> delivered outs. key_of m = k] @ waiting q k) (pushed_at k ops))"
proof -
  let ?t = "(\<lambda>_. [], [])"
  have run: "turns_run style max_size ops ?t = (outs, turns_of q)"
    using pkq_run_new [OF assms(1), of ops style] assms(2) by (metis (no_types) Pair_inject prod.collapse result.inject(1))
  have inv: "turns_inv max_size ?t" using assms(1) by simp
  show ?thesis using turns_run_conserves [OF inv run] turns_run_order [OF inv _ _ run, of key_of k]
    by (auto simp: turns_of_def)
qed

theorem queue_delivers_witness:
  "\<exists>outs q. pkq_run sample_q_ops (PerKeyQueue_new FIFO 2) = (Ok outs, q) \<and>
     mset (all_pushed sample_q_ops) = mset (delivered outs) + mset (dropped outs) + mset (concat (map (waiting q) [2, 1])) \<and>
     delivered outs = [(1, 10)] \<and> subseq ([(1, 10)] @ [(1, 11)]) (pushed_at 1 sample_q_ops)"
proof -
  obtain q where q: "pkq_run sample_q_ops (PerKeyQueue_new FIFO 2)
     = (Ok [Pushed None, Pushed None, Pushed None, Pushed (Some (1, 12)), Popped (Some (1, 10))], q)"
    "waiting q 1 = [(1, 11)]" "round_robin_queue q = [2, 1]" using sample_q_run by blast
  have "\<forall>op \<in> set sample_q_ops. keyed_op fst op" by (simp add: sample_q_ops_def keyed_op_def)
  with queue_delivers [OF _ q(1), of fst 1] q show ?thesis by (simp add: sample_q_ops_length)
qed

text \<open>
  C14. The keys are served in turn: a key at position \<open>i\<close> of the turns is served by the
  \<open>i + 1\<close>-th pop from now on, whatever is pushed before it; a full queue of a busy key cannot
  delay it. In \<open>FIFO\<close> style this pop delivers the message that was the key's oldest to begin with.
\<close>

theorem round_robin_fair:
  assumes "pkq_inv q" "i < length (round_robin_queue q)" "num_pops ops = i" "QClear \<notin> set ops"
  shows "\<exists>outs q' m. pkq_run ops q = (Ok outs, q') \<and> fst (pkq_pop q') = Ok (Some m) \<and>
    (let k = round_robin_queue q ! i in m \<in> set (waiting q' k) \<and>
      m = (case queue_style q of FIFO \<Rightarrow> hd (waiting q k) | LIFO \<Rightarrow> last (waiting q' k) | KLAST \<Rightarrow> hd (waiting q' k)))"
proof -
  let ?k = "round_robin_queue q ! i"
  from pkq_run_turns [OF assms(1), of ops] obtain outs q' where q': "pkq_run ops q = (Ok outs, q')" "pkq_inv q'"
    "turns_run (queue_style q) (max_queue_size q) ops (turns_of q) = (outs, turns_of q')" "queue_style q' = queue_style q"
    by (metis prod.collapse)
  have "turns_inv (max_queue_size q) (turns_of q)" using assms(1) by (simp add: pkq_inv_turns)
  from turns_run_turn [OF this q'(3) assms(4)] assms(2,3) obtain ks where
    rr: "round_robin_queue q' = drop i (round_robin_queue q) @ ks"
    and pre: "queue_style q = FIFO \<longrightarrow> prefix (waiting q ?k) (waiting q' ?k)" by (auto simp: turns_of_def)
  obtain ks' where k: "round_robin_queue q' = ?k # ks'" using rr assms(2) by (simp add: Cons_nth_drop_Suc [symmetric])
  then have ne: "waiting q' ?k \<noteq> []" "waiting q ?k \<noteq> []" using q'(2) assms(1,2) nth_mem by (fastforce simp: pkq_inv_def)+
  have "hd (waiting q' ?k) = hd (waiting q ?k)" if "queue_style q = FIFO" using pre that ne(2) by (auto simp: prefix_def)
  moreover have "fst (pkq_pop q') = Ok (Some (if queue_style q = LIFO then last (waiting q' ?k) else hd (waiting q' ?k)))"
    using pkq_pop_turns [OF q'(2)] q'(4) k by (auto simp: turns_pop_def turns_of_def Let_def)
  ultimately show ?thesis using q'(1) ne(1) hd_in_set [OF ne(1)]
    by (cases "queue_style q") (auto simp: Let_def)
qed

theorem round_robin_fair_witness:
  "\<exists>outs q outs' q'. pkq_run sample_q_ops (PerKeyQueue_new FIFO 2) = (Ok outs, q) \<and>
     pkq_run [QPush 2 (2, 21), QPop, QPush 3 (3, 30)] q = (Ok outs', q') \<and> fst (pkq_pop q') = Ok (Some (1, 11))"
proof -
  obtain outs q where q: "pkq_run sample_q_ops (PerKeyQueue_new FIFO 2) = (Ok outs, q)"
    "waiting q 1 = [(1, 11)]" "round_robin_queue q = [2, 1]" "pkq_inv q" "queue_style q = FIFO" using sample_q_run by blast
  from round_robin_fair [OF q(4), of 1 "[QPush 2 (2, 21), QPop, QPush 3 (3, 30)]"] q show ?thesis
    by (auto simp: Let_def simp del: pkq_run.simps)
qed

end
