(* ===== verification/Channel.thy ===== *)
theory Channel
  imports Message_Queues
begin

text \<open>
  The channel between the tasks of a node (\<open>crates/arx-channel/src/arx_channel.rs\<close>): senders push
  into a queue per key, one receiver polls it as a stream, and a sender may ask to be told whether
  its message was delivered or dropped.

  Each call holds the lock of the shared state from beginning to end and is one step. What it does
  outside the state is returned as a list of effects: a status sent over a one-shot channel, and a
  waker that is woken. One-shot channels and wakers are values of arbitrary types.
\<close>

section \<open>Definitions\<close>

record ('k, 'm, 'c, 'w) shared_state =
  internal_queue :: "('k, 'm \<times> 'c option) per_key_queue"
  waker :: "'w option"
  num_senders :: u64
  receiver_dropped :: bool
  stream_terminated :: bool

datatype 'm element_status = Dequeued | Dropped 'm

datatype ('m, 'c, 'w) effect = Notify 'c "'m element_status" | Wake 'w

datatype 'm poll = Ready "'m option" | Pending

datatype channel_error = ChannelClosed

type_synonym ('k, 'm, 'c, 'w, 'a) channel_call =
  "('k, 'm, 'c, 'w) shared_state \<Rightarrow>
   ('a, channel_error) result \<times> ('m, 'c, 'w) effect list \<times> ('k, 'm, 'c, 'w) shared_state"

definition wake :: "'w option \<Rightarrow> ('m, 'c, 'w) effect list" where
  "wake w = (case w of Some x \<Rightarrow> [Wake x] | None \<Rightarrow> [])"

definition notify_dropped :: "('m \<times> 'c option) option \<Rightarrow> ('m, 'c, 'w) effect list" where
  "notify_dropped d = (case d of Some (v, Some c) \<Rightarrow> [Notify c (Dropped v)] | _ \<Rightarrow> [])"

definition push_with_feedback :: "'k \<Rightarrow> 'm \<Rightarrow> 'c option \<Rightarrow> ('k, 'm, 'c, 'w, unit) channel_call" where
  "push_with_feedback key message status_ch s =
     (if receiver_dropped s then (Err ChannelClosed, [], s)
      else let (dropped, q) = pkq_push key (message, status_ch) (internal_queue s)
           in (Ok (), notify_dropped dropped @ wake (waker s), s\<lparr>internal_queue := q, waker := None\<rparr>))"

definition Sender_push :: "'k \<Rightarrow> 'm \<Rightarrow> ('k, 'm, 'c, 'w, unit) channel_call" where
  "Sender_push key message = push_with_feedback key message None"

definition Sender_clone :: "('k, 'm, 'c, 'w, unit) channel_call" where
  "Sender_clone s = (case add_chk (num_senders s) 1 of
     Ok n \<Rightarrow> (Ok (), [], s\<lparr>num_senders := n\<rparr>)
   | Err e \<Rightarrow> (Err e, [], s)
   | Panic \<Rightarrow> (Panic, [], s))"

definition Sender_drop :: "('k, 'm, 'c, 'w, unit) channel_call" where
  "Sender_drop s = (case sub_chk (num_senders s) 1 of
     Ok n \<Rightarrow>
       if n = 0 then (Ok (), wake (waker s), s\<lparr>num_senders := n, waker := None\<rparr>)
       else (Ok (), [], s\<lparr>num_senders := n\<rparr>)
   | Err e \<Rightarrow> (Err e, [], s)
   | Panic \<Rightarrow> (Panic, [], s))"

definition Receiver_clear :: "('k, 'm, 'c, 'w, unit) channel_call" where
  "Receiver_clear s = (Ok (), [], s\<lparr>internal_queue := pkq_clear (internal_queue s)\<rparr>)"

definition Receiver_drop :: "('k, 'm, 'c, 'w, unit) channel_call" where
  "Receiver_drop s = (Ok (), [], s\<lparr>receiver_dropped := True\<rparr>)"

definition poll_next :: "'w \<Rightarrow> ('k, 'm, 'c, 'w, 'm poll) channel_call" where
  "poll_next w s = (case pkq_pop (internal_queue s) of
     (Ok (Some (val, status_ch)), q) \<Rightarrow>
       (Ok (Ready (Some val)), (case status_ch of Some c \<Rightarrow> [Notify c Dequeued] | None \<Rightarrow> []), s\<lparr>internal_queue := q\<rparr>)
   | (Ok None, q) \<Rightarrow>
       if num_senders s = 0 then (Ok (Ready None), [], s\<lparr>internal_queue := q, stream_terminated := True\<rparr>)
       else (Ok Pending, [], s\<lparr>internal_queue := q, waker := Some w\<rparr>)
   | (_, q) \<Rightarrow> (Panic, [], s\<lparr>internal_queue := q\<rparr>))"

definition is_terminated :: "('k, 'm, 'c, 'w) shared_state \<Rightarrow> bool" where
  "is_terminated s = stream_terminated s"

definition channel_new :: "queue_style \<Rightarrow> u64 \<Rightarrow> (('k, 'm, 'c, 'w) shared_state, unit) result" where
  "channel_new style max_queue_size_per_key =
     (if max_queue_size_per_key = 0 then Panic
      else Ok \<lparr>internal_queue = PerKeyQueue_new style (unat max_queue_size_per_key), waker = None, num_senders = 1,
             receiver_dropped = False, stream_terminated = False\<rparr>)"

record channel_config =
  cfg_queue_style :: queue_style
  max_capacity :: u64

definition Config_new :: "u64 \<Rightarrow> channel_config" where
  "Config_new capacity = \<lparr>cfg_queue_style = FIFO, max_capacity = capacity\<rparr>"

definition Config_queue_style :: "queue_style \<Rightarrow> channel_config \<Rightarrow> channel_config" where
  "Config_queue_style style cfg = cfg\<lparr>cfg_queue_style := style\<rparr>"

definition Config_build :: "channel_config \<Rightarrow> (('k, 'm, 'c, 'w) shared_state, unit) result" where
  "Config_build cfg = channel_new (cfg_queue_style cfg) (max_capacity cfg)"

subsection \<open>Interleavings\<close>

text \<open>
  The calls of the holders of a sender and of the receiver, in any interleaving. A call needs its
  handle: the number of senders counts the handles that exist, and a dropped receiver is gone.
  An execution goes on until a call panics.
\<close>

datatype ('k, 'm, 'c, 'w) ch_op =
    SPush 'k 'm "'c option"
  | SClone
  | SDrop
  | RPoll 'w
  | RClear
  | RDrop

primrec enabled :: "('k, 'm, 'c, 'w) ch_op \<Rightarrow> ('k, 'm, 'c, 'w) shared_state \<Rightarrow> bool" where
  "enabled (SPush k m c) s \<longleftrightarrow> num_senders s \<noteq> 0"
| "enabled SClone s \<longleftrightarrow> num_senders s \<noteq> 0"
| "enabled SDrop s \<longleftrightarrow> num_senders s \<noteq> 0"
| "enabled (RPoll w) s \<longleftrightarrow> \<not> receiver_dropped s"
| "enabled RClear s \<longleftrightarrow> \<not> receiver_dropped s"
| "enabled RDrop s \<longleftrightarrow> \<not> receiver_dropped s"

datatype ('k, 'm, 'c, 'w) ch_event = Event
  (ev_op: "('k, 'm, 'c, 'w) ch_op") (ev_result: "('m poll option, channel_error) result")
  (ev_effects: "('m, 'c, 'w) effect list")

definition no_poll :: "('a, channel_error) result \<times> 'b \<Rightarrow> ('m poll option, channel_error) result \<times> 'b" where
  "no_poll = (\<lambda>(r, x). (bind_res r (\<lambda>_. Ok None), x))"

primrec ch_exec :: "('k, 'm, 'c, 'w) ch_op \<Rightarrow> ('k, 'm, 'c, 'w, 'm poll option) channel_call" where
  "ch_exec (SPush k m c) s = no_poll (push_with_feedback k m c s)"
| "ch_exec SClone s = no_poll (Sender_clone s)"
| "ch_exec SDrop s = no_poll (Sender_drop s)"
| "ch_exec (RPoll w) s = (case poll_next w s of (r, x) \<Rightarrow> (bind_res r (\<lambda>p. Ok (Some p)), x))"
| "ch_exec RClear s = no_poll (Receiver_clear s)"
| "ch_exec RDrop s = no_poll (Receiver_drop s)"

inductive ch_run ::
  "('k, 'm, 'c, 'w) shared_state \<Rightarrow> ('k, 'm, 'c, 'w) ch_event list \<Rightarrow> ('k, 'm, 'c, 'w) shared_state \<Rightarrow> bool" where
  ch_start: "ch_run s [] s"
| ch_step: "ch_run s es s1 \<Longrightarrow> enabled op s1 \<Longrightarrow> ch_exec op s1 = (r, effs, s2) \<Longrightarrow> r \<noteq> Panic \<Longrightarrow>
    ch_run s (es @ [Event op r effs]) s2"

inductive_cases ch_run_emptyE: "ch_run s [] s'"
inductive_cases ch_run_snocE: "ch_run s (es @ [e]) s'"

section \<open>Invariant\<close>

text \<open>
  A receiver that waits to be woken has nothing to receive, and there is a sender to wake it; once
  the stream has ended, nothing can be sent any more.
\<close>

definition ch_inv :: "('k, 'm, 'c, 'w) shared_state \<Rightarrow> bool" where
  "ch_inv s \<longleftrightarrow> pkq_inv (internal_queue s) \<and>
     (waker s \<noteq> None \<longrightarrow> round_robin_queue (internal_queue s) = [] \<and> num_senders s \<noteq> 0) \<and>
     (stream_terminated s \<longrightarrow> round_robin_queue (internal_queue s) = [] \<and> num_senders s = 0)"

section \<open>Lemmas\<close>

lemma pkq_push_inv: "pkq_inv q \<Longrightarrow> pkq_push k m q = (d, q') \<Longrightarrow> pkq_inv q'"
  using pkq_exec_turns [of q "QPush k m"] by auto

lemma pkq_clear_inv: "pkq_inv q \<Longrightarrow> pkq_inv (pkq_clear q) \<and> round_robin_queue (pkq_clear q) = []"
  using pkq_exec_turns [of q QClear] by (auto simp: pkq_clear_def)

lemma pkq_pop_inv:
  assumes "pkq_inv q"
  shows "(\<exists>m q'. pkq_pop q = (Ok (Some m), q') \<and> pkq_inv q' \<and> round_robin_queue q \<noteq> []) \<or>
    pkq_pop q = (Ok None, q) \<and> round_robin_queue q = []"
proof (cases "round_robin_queue q")
  case (Cons k ks)
  then show ?thesis using pkq_pop_turns [OF assms] pkq_exec_turns [OF assms, of QPop]
    by (auto simp: turns_pop_def turns_of_def Let_def bind_ex_def split: prod.splits)
qed (simp add: pkq_pop_def)

lemma ch_exec_inv:
  assumes inv: "ch_inv s" and "enabled op s" "ch_exec op s = (r, effs, s')"
  shows "ch_inv s'"
proof (cases op)
  case (SPush k m c)
  with assms pkq_push_inv show ?thesis
    by (fastforce simp: ch_inv_def no_poll_def push_with_feedback_def split: if_splits prod.splits)
next
  case (RPoll w)
  with pkq_pop_inv [of "internal_queue s"] assms show ?thesis
    by (auto simp: ch_inv_def poll_next_def split: if_splits prod.splits)
next
  case SClone
  have "n \<noteq> 0" if "unat (num_senders s) + 1 = unat n" for n :: u64 using that by auto
  with SClone assms show ?thesis
    by (auto simp: ch_inv_def no_poll_def Sender_clone_def add_chk_Ok_iff split: result.splits)
next
  case RClear
  with assms pkq_clear_inv [of "internal_queue s"] show ?thesis by (auto simp: ch_inv_def no_poll_def Receiver_clear_def)
qed (use assms in \<open>auto simp: ch_inv_def no_poll_def Sender_drop_def Receiver_drop_def split: result.splits if_splits\<close>)

lemma ch_run_inv: "ch_run s es s' \<Longrightarrow> ch_inv s \<Longrightarrow> ch_inv s'"
  by (induction rule: ch_run.induct) (auto intro: ch_exec_inv)

lemma channel_new_inv: "channel_new style n = Ok s \<Longrightarrow> ch_inv s"
  by (auto simp: channel_new_def ch_inv_def PerKeyQueue_new_def unat_gt_0 split: if_splits
      intro!: pkq_inv_new [unfolded PerKeyQueue_new_def])

lemma ch_exec_waiting:
  assumes "enabled op s" "ch_exec op s = (r, effs, s')" "waker s = Some w" "\<forall>x. op \<noteq> RPoll x" "Wake w \<notin> set effs"
  shows "waker s' = Some w"
  using assms by (cases op) (auto simp: no_poll_def push_with_feedback_def Sender_clone_def Sender_drop_def wake_def
    Receiver_clear_def Receiver_drop_def split: if_splits prod.splits result.splits)

lemma ch_run_waiting:
  assumes "ch_run s es s'" "waker s = Some w"
    and "\<forall>e \<in> set es. (\<forall>x. ev_op e \<noteq> RPoll x) \<and> Wake w \<notin> set (ev_effects e)"
  shows "waker s' = Some w"
  using assms by (induction rule: ch_run.induct) (auto dest: ch_exec_waiting)

lemma ch_run_terminated: "ch_run s es s' \<Longrightarrow> stream_terminated s \<Longrightarrow> stream_terminated s'"
proof (induction rule: ch_run.induct)
  case (ch_step s es s1 op r effs s2)
  then show ?case by (cases op) (auto simp: no_poll_def push_with_feedback_def Sender_clone_def Sender_drop_def
    Receiver_clear_def Receiver_drop_def poll_next_def split: if_splits prod.splits result.splits option.splits)
qed

lemma ch_run_append:
  assumes "ch_run s (es @ es') s'"
  shows "\<exists>s1. ch_run s es s1 \<and> ch_run s1 es' s'"
  using assms
proof (induction es' arbitrary: s' rule: rev_induct)
  case (snoc e es')
  from snoc.prems have "ch_run s ((es @ es') @ [e]) s'" by simp
  then obtain op r effs s1 where *: "ch_run s (es @ es') s1" "enabled op s1" "ch_exec op s1 = (r, effs, s')" "r \<noteq> Panic"
    "e = Event op r effs" by (elim ch_run_snocE) blast
  then show ?case using snoc.IH by (blast intro: ch_step)
qed (auto intro: ch_start)

section \<open>Properties\<close>

text \<open>
  C15. A receiver never sleeps through a message. Whatever calls the holders of the senders and the
  receiver interleave: if the last poll returned \<open>Pending\<close> and the waker it left was not woken
  since, then no message is waiting and some sender is still alive. And once a poll has ended the
  stream, every later poll ends it again, so that reporting the stream as terminated is safe.
\<close>

theorem receiver_woken:
  assumes "channel_new style n = Ok s0"
    and "ch_run s0 (es @ [Event (RPoll w) (Ok (Some p)) effs] @ es') s"
  shows "(p = Pending \<and> (\<forall>e \<in> set es'. (\<forall>x. ev_op e \<noteq> RPoll x) \<and> Wake w \<notin> set (ev_effects e)) \<longrightarrow>
      (\<forall>k. waiting (internal_queue s) k = []) \<and> num_senders s \<noteq> 0) \<and>
    (p = Ready None \<longrightarrow> is_terminated s \<and> fst (poll_next x s) = Ok (Ready None))"
proof -
  have inv: "ch_inv s" using ch_run_inv [OF assms(2) channel_new_inv [OF assms(1)]] .
  obtain s1 where s1: "ch_run s0 (es @ [Event (RPoll w) (Ok (Some p)) effs]) s1" "ch_run s1 es' s"
    using ch_run_append [of s0 "es @ [Event (RPoll w) (Ok (Some p)) effs]" es'] assms(2) by auto
  then obtain s2 where s2: "ch_exec (RPoll w) s2 = (Ok (Some p), effs, s1)" by (elim ch_run_snocE) auto
  have empty: "\<forall>k. waiting (internal_queue s) k = []" if "round_robin_queue (internal_queue s) = []"
    using inv that by (auto simp: ch_inv_def pkq_inv_def)
  have "waker s1 = Some w" if "p = Pending"
    using s2 that by (auto simp: poll_next_def split: prod.splits result.splits option.splits if_splits)
  then have "waker s = Some w" if "p = Pending"
      "\<forall>e \<in> set es'. (\<forall>x. ev_op e \<noteq> RPoll x) \<and> Wake w \<notin> set (ev_effects e)"
    using ch_run_waiting [OF s1(2)] that by blast
  moreover have "stream_terminated s1" if "p = Ready None"
    using s2 that by (auto simp: poll_next_def split: prod.splits result.splits option.splits if_splits)
  then have "stream_terminated s" if "p = Ready None"
    using ch_run_terminated [OF s1(2)] that by blast
  ultimately show ?thesis
    using inv empty by (auto simp: ch_inv_def is_terminated_def poll_next_def pkq_pop_def)
qed

theorem receiver_woken_witness:
  "\<exists>(s0 :: (nat, nat, nat, nat) shared_state) s s'. channel_new FIFO 2 = Ok s0 \<and>
     ch_run s0 [Event (RPoll 7) (Ok (Some Pending)) [], Event SClone (Ok None) []] s \<and>
     (\<forall>k. waiting (internal_queue s) k = []) \<and> num_senders s \<noteq> 0 \<and>
     ch_run s0 [Event SDrop (Ok None) [], Event (RPoll 7) (Ok (Some (Ready None))) []] s' \<and>
     fst (poll_next 8 s') = Ok (Ready None)"
proof -
  define s0 :: "(nat, nat, nat, nat) shared_state" where "s0 = \<lparr>internal_queue = PerKeyQueue_new FIFO 2, waker = None,
    num_senders = 1, receiver_dropped = False, stream_terminated = False\<rparr>"
  have new: "channel_new FIFO 2 = Ok s0" by (simp add: channel_new_def s0_def)
  have pop: "pkq_pop (PerKeyQueue_new FIFO 2 :: (nat, nat \<times> nat option) per_key_queue) = (Ok None, PerKeyQueue_new FIFO 2)"
    by (simp add: pkq_pop_def PerKeyQueue_new_def)
  have "ch_run s0 ([] @ [Event (RPoll 7) (Ok (Some Pending)) []]) (s0\<lparr>waker := Some 7\<rparr>)"
    by (rule ch_step [OF ch_start]) (simp_all add: s0_def poll_next_def pop)
  then have run: "ch_run s0 (([] @ [Event (RPoll 7) (Ok (Some Pending)) []]) @ [Event SClone (Ok None) []])
      (s0\<lparr>waker := Some 7, num_senders := 2\<rparr>)"
    by (rule ch_step) (simp_all add: s0_def no_poll_def Sender_clone_def add_chk_if)
  have "ch_run s0 ([] @ [Event SDrop (Ok None) []]) (s0\<lparr>num_senders := 0\<rparr>)"
    by (rule ch_step [OF ch_start]) (simp_all add: s0_def no_poll_def Sender_drop_def sub_chk_if wake_def)
  then have run': "ch_run s0 (([] @ [Event SDrop (Ok None) []]) @ [Event (RPoll 7) (Ok (Some (Ready None))) []])
      (s0\<lparr>num_senders := 0, stream_terminated := True\<rparr>)"
    by (rule ch_step) (simp_all add: s0_def poll_next_def pop)
  let ?s = "s0\<lparr>waker := Some 7, num_senders := 2\<rparr>" and ?s' = "s0\<lparr>num_senders := 0, stream_terminated := True\<rparr>"
  have "(\<forall>k. waiting (internal_queue ?s) k = []) \<and> num_senders ?s \<noteq> 0"
    using receiver_woken [OF new, of "[]" 7 Pending "[]" "[Event SClone (Ok None) []]" ?s] run by simp
  moreover have "fst (poll_next 8 ?s') = Ok (Ready None)"
    using receiver_woken [OF new, of "[Event SDrop (Ok None) []]" 7 "Ready None" "[]" "[]" ?s' 8] run' by simp
  ultimately show ?thesis using new run run' by (metis append_Cons append_Nil)
qed

end
