(* ===== verification/Position.thy ===== *)
theory Position
  imports Accumulator Exec
begin

text \<open>
  Positions of nodes in the accumulator's tree (\<open>types/src/proof/position/mod.rs\<close>). A position is
  the number of a node in the in-order traversal of the tree with \<open>2 ^ 63\<close> leaves, and the code
  moves between nodes by bit manipulation on it. The reference is the tree itself: a node is given by its
  level and its index in the level (\<open>node_at\<close>).

  Levels are \<open>u32\<close> in the code and natural numbers here: they are at most 64. A shift by 64 or more
  panics, as the checked addition and subtraction do; the assertions of the code are panics too.
\<close>

section \<open>Definitions\<close>

type_synonym position = u64

datatype node_direction = LeftDir | RightDir

datatype position_error = InvalidNodeIndex

definition shl_chk :: "u64 \<Rightarrow> nat \<Rightarrow> (u64, 'e) result" where
  "shl_chk x n = (if n < 64 then Ok (push_bit n x) else Panic)"

definition shr_chk :: "u64 \<Rightarrow> nat \<Rightarrow> (u64, 'e) result" where
  "shr_chk x n = (if n < 64 then Ok (drop_bit n x) else Panic)"

definition assert_that :: "bool \<Rightarrow> (unit, 'e) result" where
  "assert_that b = (if b then Ok () else Panic)"

subsection \<open>Bit manipulation\<close>

definition smear_ones_for_u64 :: "u64 \<Rightarrow> u64" where
  "smear_ones_for_u64 v =
     (let n = v; n = n OR drop_bit 1 n; n = n OR drop_bit 2 n; n = n OR drop_bit 4 n;
          n = n OR drop_bit 8 n; n = n OR drop_bit 16 n; n = n OR drop_bit 32 n in n)"

definition turn_off_right_most_n_bits :: "u64 \<Rightarrow> nat \<Rightarrow> (u64, 'e) result" where
  "turn_off_right_most_n_bits v n = bind_res (shr_chk v n) (\<lambda>w. shl_chk w n)"

definition isolate_rightmost_zero_bit :: "u64 \<Rightarrow> u64" where
  "isolate_rightmost_zero_bit v = NOT v AND (v + 1)"

definition u64_leading_zeros :: "u64 \<Rightarrow> nat" where
  "u64_leading_zeros n = length (takeWhile (\<lambda>i. \<not> bit n i) (rev [0..<64]))"

subsection \<open>Nodes\<close>

definition level :: "position \<Rightarrow> nat" where
  "level p = u64_trailing_zeros (NOT p)"

definition is_leaf :: "position \<Rightarrow> bool" where
  "is_leaf p \<longleftrightarrow> p AND 1 = 0"

definition from_level_and_pos :: "nat \<Rightarrow> u64 \<Rightarrow> (position, 'e) result" where
  "from_level_and_pos lvl pos =
     bind_res (assert_that (lvl < 64)) (\<lambda>_.
     bind_res (shl_chk 1 lvl) (\<lambda>b.
     bind_res (assert_that (b > 0)) (\<lambda>_.
     bind_res (sub_chk b 1) (\<lambda>level_one_bits.
     bind_res (if lvl = 63 then Ok 0 else shl_chk pos (lvl + 1)) (\<lambda>shifted_pos.
     Ok (shifted_pos OR level_one_bits))))))"

definition position_invariant :: "position \<Rightarrow> bool" where
  "position_invariant p \<longleftrightarrow> p < - 1 - 1"

definition parent :: "position \<Rightarrow> (position, 'e) result" where
  "parent p = bind_res (assert_that (position_invariant p)) (\<lambda>_.
     Ok ((p OR isolate_rightmost_zero_bit p) AND NOT (push_bit 1 (isolate_rightmost_zero_bit p))))"

definition child :: "position \<Rightarrow> node_direction \<Rightarrow> (position, 'e) result" where
  "child p dir =
     bind_res (assert_that (\<not> is_leaf p)) (\<lambda>_.
     bind_res (assert_that (position_invariant p)) (\<lambda>_.
     let direction_bit = (case dir of LeftDir \<Rightarrow> 0 | RightDir \<Rightarrow> isolate_rightmost_zero_bit p)
     in Ok ((p OR direction_bit) AND NOT (drop_bit 1 (isolate_rightmost_zero_bit p)))))"

definition left_child :: "position \<Rightarrow> (position, 'e) result" where
  "left_child p = bind_res (assert_that (\<not> is_leaf p)) (\<lambda>_. child p LeftDir)"

definition right_child :: "position \<Rightarrow> (position, 'e) result" where
  "right_child p = bind_res (assert_that (\<not> is_leaf p)) (\<lambda>_. child p RightDir)"

definition is_left_child :: "position \<Rightarrow> (bool, 'e) result" where
  "is_left_child p = bind_res (assert_that (position_invariant p)) (\<lambda>_.
     Ok (p AND push_bit 1 (isolate_rightmost_zero_bit p) = 0))"

definition is_right_child :: "position \<Rightarrow> (bool, 'e) result" where
  "is_right_child p = bind_res (is_left_child p) (\<lambda>b. Ok (\<not> b))"

definition from_leaf_index :: "u64 \<Rightarrow> (position, 'e) result" where
  "from_leaf_index leaf_index = from_level_and_pos 0 leaf_index"

definition sibling :: "position \<Rightarrow> (position, 'e) result" where
  "sibling p = bind_res (assert_that (position_invariant p)) (\<lambda>_.
     Ok (p XOR push_bit 1 (isolate_rightmost_zero_bit p)))"

definition root_from_leaf_index :: "u64 \<Rightarrow> (position, 'e) result" where
  "root_from_leaf_index leaf_index = bind_res (from_leaf_index leaf_index) (\<lambda>leaf.
     Ok (drop_bit 1 (smear_ones_for_u64 leaf)))"

definition root_from_leaf_count :: "u64 \<Rightarrow> (position, 'e) result" where
  "root_from_leaf_count leaf_count = bind_res (assert_that (leaf_count > 0)) (\<lambda>_.
     bind_res (sub_chk leaf_count 1) root_from_leaf_index)"

definition root_level_from_leaf_count :: "u64 \<Rightarrow> (nat, 'e) result" where
  "root_level_from_leaf_count leaf_count = bind_res (assert_that (leaf_count > 0)) (\<lambda>_.
     bind_res (sub_chk leaf_count 1) (\<lambda>index. Ok (MAX_ACCUMULATOR_PROOF_DEPTH + 1 - u64_leading_zeros index)))"

definition right_most_child :: "position \<Rightarrow> (position, 'e) result" where
  "right_most_child p = bind_res (shl_chk 1 (level p)) (\<lambda>b. bind_res (add_chk p b) (\<lambda>s. sub_chk s 1))"

definition left_most_child :: "position \<Rightarrow> (position, 'e) result" where
  "left_most_child p = turn_off_right_most_n_bits p (level p)"

definition is_freezable :: "position \<Rightarrow> u64 \<Rightarrow> (bool, 'e) result" where
  "is_freezable p leaf_index = bind_res (from_leaf_index leaf_index) (\<lambda>leaf.
     bind_res (right_most_child p) (\<lambda>r. Ok (r \<le> leaf)))"

definition is_placeholder :: "position \<Rightarrow> u64 \<Rightarrow> (bool, 'e) result" where
  "is_placeholder p leaf_index = bind_res (from_leaf_index leaf_index) (\<lambda>leaf.
     if p \<le> leaf then Ok False
     else bind_res (left_most_child p) (\<lambda>l. if l \<le> leaf then Ok False else Ok True))"

subsection \<open>Iterators\<close>

definition AncestorSiblingIterator_next :: "(position, position option, unit) exec" where
  "AncestorSiblingIterator_next =
     bind_ex (reads sibling) (\<lambda>current_sibling_position.
     bind_ex (reads parent) (\<lambda>up _. (Ok (Some current_sibling_position), up)))"

definition AncestorIterator_next :: "(position, position option, unit) exec" where
  "AncestorIterator_next p = bind_ex (reads parent) (\<lambda>up _. (Ok (Some p), up)) p"

record frozen_subtree_iterator =
  fsi_bitmap :: u64
  seen_leaves :: u64

definition FrozenSubTreeIterator_new :: "u64 \<Rightarrow> frozen_subtree_iterator" where
  "FrozenSubTreeIterator_new n = \<lparr>fsi_bitmap = n, seen_leaves = 0\<rparr>"

definition FrozenSubTreeIterator_next :: "(frozen_subtree_iterator, position option, unit) exec" where
  "FrozenSubTreeIterator_next it =
     (if \<not> seen_leaves it < - 1 - fsi_bitmap it then (Panic, it)
      else if fsi_bitmap it = 0 then (Ok None, it)
      else let root_offset = drop_bit 1 (smear_ones_for_u64 (fsi_bitmap it)) in
        bind_ex (lift_ex (assert_that (root_offset < fsi_bitmap it))) (\<lambda>_.
        bind_ex (lift_ex (add_chk root_offset 1)) (\<lambda>n.
        bind_ex (reads (\<lambda>it. from_leaf_index (seen_leaves it))) (\<lambda>leftmost_leaf.
        bind_ex (lift_ex (add_chk leftmost_leaf root_offset)) (\<lambda>root it.
        bind_ex (reads (\<lambda>it. add_chk (seen_leaves it) n)) (\<lambda>seen it.
          (Ok (Some root), it\<lparr>seen_leaves := seen\<rparr>))
        (it\<lparr>fsi_bitmap := fsi_bitmap it AND NOT n\<rparr>))))) it)"

record frozen_subtree_sibling_iterator =
  current_num_leaves :: u64
  remaining_new_leaves :: u64

definition FrozenSubtreeSiblingIterator_new :: "u64 \<Rightarrow> u64 \<Rightarrow> (frozen_subtree_sibling_iterator, unit) result" where
  "FrozenSubtreeSiblingIterator_new current new_num_leaves =
     bind_res (assert_that (new_num_leaves \<le> MAX_ACCUMULATOR_LEAVES)) (\<lambda>_.
     bind_res (assert_that (current \<le> new_num_leaves)) (\<lambda>_.
     bind_res (sub_chk new_num_leaves current) (\<lambda>n.
     Ok \<lparr>current_num_leaves = current, remaining_new_leaves = n\<rparr>)))"

definition next_new_leaf_batch :: "frozen_subtree_sibling_iterator \<Rightarrow> (u64, unit) result" where
  "next_new_leaf_batch it =
     (let zeros = u64_leading_zeros (remaining_new_leaves it) in
      bind_res (assert_that (zeros \<le> MAX_ACCUMULATOR_PROOF_DEPTH)) (\<lambda>_.
      shl_chk 1 (MAX_ACCUMULATOR_PROOF_DEPTH - zeros)))"

definition next_subtree_leaves :: "frozen_subtree_sibling_iterator \<Rightarrow> (u64, unit) result" where
  "next_subtree_leaves it =
     (if current_num_leaves it > 0 then
        bind_res (shl_chk 1 (u64_trailing_zeros (current_num_leaves it))) (\<lambda>rightmost_frozen_subtree_leaves.
        if remaining_new_leaves it \<ge> rightmost_frozen_subtree_leaves then Ok rightmost_frozen_subtree_leaves
        else next_new_leaf_batch it)
      else next_new_leaf_batch it)"

definition FrozenSubtreeSiblingIterator_next :: "(frozen_subtree_sibling_iterator, position option, unit) exec" where
  "FrozenSubtreeSiblingIterator_next it =
     (if remaining_new_leaves it = 0 then (Ok None, it)
      else bind_ex (reads next_subtree_leaves) (\<lambda>n it.
        let first_leaf_index = current_num_leaves it in
        bind_ex (lift_ex (bind_res (add_chk first_leaf_index n) (\<lambda>s. sub_chk s 1))) (\<lambda>last_leaf_index.
        bind_ex (\<lambda>it. case add_chk (current_num_leaves it) n of
            Ok c \<Rightarrow> (Ok (), it\<lparr>current_num_leaves := c\<rparr>) | Err e \<Rightarrow> (Err e, it) | Panic \<Rightarrow> (Panic, it)) (\<lambda>_.
        bind_ex (\<lambda>it. case sub_chk (remaining_new_leaves it) n of
            Ok r \<Rightarrow> (Ok (), it\<lparr>remaining_new_leaves := r\<rparr>) | Err e \<Rightarrow> (Err e, it) | Panic \<Rightarrow> (Panic, it)) (\<lambda>_.
        bind_ex (lift_ex (add_chk first_leaf_index last_leaf_index)) (\<lambda>p. lift_ex (Ok (Some p)))))) it) it)"

text \<open>Running an iterator to its end. Whether it has one is to be proved: not to end is \<open>None\<close>.\<close>

partial_function (option) collect ::
  "('s, position option, unit) exec \<Rightarrow> 's \<Rightarrow> (position list, unit) result option" where
  "collect f s = (case f s of
     (Ok None, s') \<Rightarrow> Some (Ok [])
   | (Ok (Some p), s') \<Rightarrow> Option.bind (collect f s') (\<lambda>r. Some (bind_res r (\<lambda>ps. Ok (p # ps))))
   | (_, s') \<Rightarrow> Some Panic)"

subsection \<open>Post-order numbers\<close>

definition children_of_node :: "u64 \<Rightarrow> (u64, 'e) result" where
  "children_of_node node = sub_chk (push_bit 1 (isolate_rightmost_zero_bit node)) 2"

definition nodes_to_left_of :: "u64 \<Rightarrow> (u64, 'e) result" where
  "nodes_to_left_of node =
     bind_res (sub_chk (isolate_rightmost_zero_bit node) 1) (\<lambda>ones_up_to_level.
     let unset_level_zeros = node XOR ones_up_to_level
     in sub_chk unset_level_zeros (of_nat (u64_count_ones unset_level_zeros)))"

definition inorder_to_postorder :: "u64 \<Rightarrow> (u64, 'e) result" where
  "inorder_to_postorder node =
     bind_res (children_of_node node) (\<lambda>children.
     bind_res (nodes_to_left_of node) (\<lambda>left_nodes. add_chk children left_nodes))"

fun postorder_loop :: "nat \<Rightarrow> u64 \<Rightarrow> u64 \<Rightarrow> u64 \<Rightarrow> u64 \<times> u64" where
  "postorder_loop 0 node bitmap full_binary_size = (node, bitmap)"
| "postorder_loop (Suc i) node bitmap full_binary_size =
     (if node \<ge> full_binary_size
      then postorder_loop i (node - full_binary_size) (bitmap OR push_bit i 1) (drop_bit 1 full_binary_size)
      else postorder_loop i node bitmap (drop_bit 1 full_binary_size))"

definition postorder_to_inorder :: "u64 \<Rightarrow> (u64, 'e) result" where
  "postorder_to_inorder index =
     (let (node, bitmap) = postorder_loop 64 index 0 (- 1);
          lvl = unat (ucast node :: u32)
      in bind_res (shr_chk bitmap lvl) (\<lambda>pos. from_level_and_pos lvl pos))"

definition from_postorder_index :: "u64 \<Rightarrow> (position, position_error) result" where
  "from_postorder_index index =
     bind_res (ensure (index < - 1) InvalidNodeIndex) (\<lambda>_. postorder_to_inorder index)"

definition to_postorder_index :: "position \<Rightarrow> (u64, 'e) result" where
  "to_postorder_index p = inorder_to_postorder p"

section \<open>The tree\<close>

text \<open>
  The node of level \<open>l\<close> and index \<open>p\<close>, by its in-order number; the leaves below a position; and
  the nodes of a tree of height \<open>h\<close> in post-order.
\<close>

definition node_at :: "nat \<Rightarrow> nat \<Rightarrow> u64" where
  "node_at l p = of_nat (p * 2 ^ Suc l + 2 ^ l - 1)"

definition is_node :: "nat \<Rightarrow> nat \<Rightarrow> bool" where
  "is_node l p \<longleftrightarrow> l < 64 \<and> p < 2 ^ (63 - l)"

definition leaves_below :: "position \<Rightarrow> nat list" where
  "leaves_below x =
     (case (left_most_child x :: (position, unit) result, right_most_child x :: (position, unit) result) of
        (Ok a, Ok b) \<Rightarrow> [unat a div 2 ..< Suc (unat b div 2)] | _ \<Rightarrow> [])"

primrec postorder :: "nat \<Rightarrow> nat \<Rightarrow> nat list" where
  "postorder 0 first = [first]"
| "postorder (Suc h) first = postorder h first @ postorder h (first + 2 ^ Suc h) @ [first + 2 ^ Suc h - 1]"

section \<open>Lemmas\<close>

lemma assert_that_simps [simp]: "assert_that True = Ok ()" "assert_that False = Panic"
  by (simp_all add: assert_that_def)

lemma node_at_or: "node_at l p = push_bit (Suc l) (of_nat p) OR mask l"
proof -
  have "p * 2 ^ Suc l + 2 ^ l - 1 = p * 2 ^ Suc l + (2 ^ l - 1)" by simp
  then have "node_at l p = push_bit (Suc l) (of_nat p) + mask l"
    by (simp add: node_at_def push_bit_eq_mult mask_eq_exp_minus_1 of_nat_diff mult.commute del: add_diff_assoc)
  also have "\<dots> = push_bit (Suc l) (of_nat p) OR mask l"
    by (rule disjunctive_add) (auto simp: bit_push_bit_iff bit_mask_iff simp del: push_bit_Suc)
  finally show ?thesis .
qed

lemma bit_node_at: "bit (node_at l p) i \<longleftrightarrow> i < 64 \<and> (i < l \<or> l < i \<and> bit p (i - Suc l))"
  by (auto simp: node_at_or bit_or_iff bit_push_bit_iff bit_mask_iff bit_of_nat_iff simp del: push_bit_Suc)

lemma len64: "LENGTH(64) = 64"
  by simp

lemma unat_node_at:
  assumes "is_node l p"
  shows "unat (node_at l p) = p * 2 ^ Suc l + 2 ^ l - 1" "p * 2 ^ Suc l + 2 ^ Suc l \<le> 2 ^ 64"
proof -
  have "(p + 1) * 2 ^ Suc l \<le> 2 ^ (63 - l) * 2 ^ Suc l" using assms by (intro mult_right_mono) (auto simp: is_node_def)
  also have "\<dots> = 2 ^ 64" using assms by (simp add: is_node_def flip: power_add)
  finally show "p * 2 ^ Suc l + 2 ^ Suc l \<le> 2 ^ 64" by simp
  moreover have "(2 :: nat) ^ l < 2 ^ Suc l" by simp
  ultimately have "p * 2 ^ Suc l + 2 ^ l - 1 < 2 ^ LENGTH(64)" unfolding len64 by linarith
  then show "unat (node_at l p) = p * 2 ^ Suc l + 2 ^ l - 1" unfolding node_at_def by (rule unat_of_nat_below)
qed

lemma bit_power_u64: "bit (2 ^ l :: u64) i \<longleftrightarrow> i = l \<and> i < 64"
  by (auto simp: bit_exp_iff)

lemma shift_power_u64:
  "push_bit 1 (2 ^ l :: u64) = 2 ^ Suc l" "0 < l \<Longrightarrow> l < 64 \<Longrightarrow> drop_bit 1 (2 ^ l :: u64) = 2 ^ (l - 1)"
  by (simp add: push_bit_eq_mult, intro bit_word_eqI, auto simp: bit_drop_bit_eq bit_power_u64)

lemma bit_isolate:
  assumes "l < 64"
  shows "isolate_rightmost_zero_bit (node_at l p) = 2 ^ l"
proof (rule bit_word_eqI)
  fix i assume "i < LENGTH(64)"
  have "node_at l p + 1 = of_nat (p * 2 ^ Suc l + 2 ^ l)"
    unfolding node_at_def using of_nat_Suc [where 'a = "64 word", of "p * 2 ^ Suc l + 2 ^ l - 1"] by (simp add: add.commute)
  also have "\<dots> = push_bit (Suc l) (of_nat p) + 2 ^ l" by (simp add: push_bit_eq_mult mult.commute)
  also have "\<dots> = push_bit (Suc l) (of_nat p) OR 2 ^ l"
    by (rule disjunctive_add) (auto simp: bit_push_bit_iff bit_power_u64 simp del: push_bit_Suc)
  finally show "bit (isolate_rightmost_zero_bit (node_at l p)) i \<longleftrightarrow> bit (2 ^ l :: u64) i"
    using assms \<open>i < _\<close>
    by (auto simp: isolate_rightmost_zero_bit_def bit_and_iff bit_not_iff bit_or_iff bit_node_at bit_push_bit_iff
        bit_power_u64 bit_of_nat_iff simp del: push_bit_Suc)
qed

lemma takeWhile_upt_bit:
  assumes "l \<le> n" "\<And>i. i < l \<Longrightarrow> Q i" "l < n \<Longrightarrow> \<not> Q l"
  shows "length (takeWhile Q [0..<n]) = l"
proof (cases "l < n")
  case True
  then have "[0..<n] = [0..<l] @ l # [Suc l..<n]" by (metis less_imp_le_nat upt_conv_Cons upt_split zero_le)
  then show ?thesis using assms True takeWhile_append2 [of "[0..<l]" Q] by simp
next
  case False
  then have "n = l" using assms(1) by simp
  then show ?thesis using assms(2) by (simp add: takeWhile_eq_all_conv [THEN iffD2])
qed

lemma level_node_at: "l < 64 \<Longrightarrow> level (node_at l p) = l"
  unfolding level_def u64_trailing_zeros_def
  by (rule takeWhile_upt_bit) (auto simp: bit_not_iff bit_node_at)

lemma is_leaf_node_at: "l < 64 \<Longrightarrow> is_leaf (node_at l p) \<longleftrightarrow> l = 0"
  using bit_node_at [of l p 0] and_one_ne_0 [of "node_at l p"] by (auto simp: is_leaf_def bit_0)

lemma position_invariant_unat: "position_invariant x \<longleftrightarrow> unat x < 2 ^ 64 - 2"
  by (simp add: position_invariant_def word_less_nat_alt)

lemma position_invariant_node:
  assumes "is_node l p"
  shows "position_invariant (node_at l p) \<longleftrightarrow> \<not> (l = 0 \<and> p = 2 ^ 63 - 1)"
proof (cases "l = 0")
  case True
  then have "p < 2 ^ 63" "unat (node_at l p) = p * 2" using assms unat_node_at(1) [OF assms] by (simp_all add: is_node_def)
  then show ?thesis using True unfolding position_invariant_unat by auto
next
  case False
  then have "(2 :: nat) \<le> 2 ^ l" by (cases l) simp_all
  then show ?thesis using False unat_node_at [OF assms] unfolding position_invariant_unat power_Suc by linarith
qed

lemma power_u64: "l < 64 \<Longrightarrow> unat (2 ^ l :: u64) = 2 ^ l"
  using unat_of_nat_below [of "2 ^ l", where 'a = 64] power_strict_increasing [of l 64 "2 :: nat"] by simp

lemma from_level_and_pos_node:
  assumes "is_node l p"
  shows "from_level_and_pos l (of_nat p) = Ok (node_at l p)"
proof -
  have "(1 :: u64) \<le> 2 ^ l" "0 < (2 ^ l :: u64)"
    using assms power_u64 [of l] by (simp_all add: is_node_def word_le_nat_alt word_less_nat_alt)
  then show ?thesis using assms
    by (auto simp: from_level_and_pos_def shl_chk_def sub_chk_if node_at_or is_node_def mask_eq_exp_minus_1 simp del: push_bit_Suc)
qed

lemmas bits_of_node = bit_and_iff bit_or_iff bit_xor_iff bit_not_iff bit_node_at bit_power_u64

lemma bit_double:
  "bit (2 * p) k \<longleftrightarrow> 0 < k \<and> bit p (k - 1)" "bit (Suc (2 * p)) k \<longleftrightarrow> k = 0 \<or> bit p (k - 1)"
  "bit (p div 2) k \<longleftrightarrow> bit p (Suc k)" for p :: nat
  by (cases k; simp add: bit_Suc bit_0)+

lemma parent_node:
  assumes "l < 63" "position_invariant (node_at l p)"
  shows "parent (node_at l p) = Ok (node_at (Suc l) (p div 2))"
proof -
  have "(node_at l p OR 2 ^ l) AND NOT (2 ^ Suc l) = node_at (Suc l) (p div 2)"
    using assms(1) by (intro bit_word_eqI) (auto simp: bits_of_node bit_double Suc_diff_Suc simp del: power_Suc)
  then show ?thesis using assms bit_isolate [of l p] shift_power_u64(1) [of l] by (simp add: parent_def del: power_Suc)
qed

lemma child_node:
  assumes "0 < l" "l < 64" "position_invariant (node_at l p)"
  shows "left_child (node_at l p) = Ok (node_at (l - 1) (2 * p))" "right_child (node_at l p) = Ok (node_at (l - 1) (2 * p + 1))"
proof -
  have "node_at l p AND NOT (2 ^ (l - 1)) = node_at (l - 1) (2 * p)"
    using assms(1,2) by (intro bit_word_eqI) (auto simp: bits_of_node bit_double)
  moreover have "(node_at l p OR 2 ^ l) AND NOT (2 ^ (l - 1)) = node_at (l - 1) (Suc (2 * p))"
    using assms(1,2) by (intro bit_word_eqI) (auto simp: bits_of_node bit_double)
  ultimately show "left_child (node_at l p) = Ok (node_at (l - 1) (2 * p))"
      "right_child (node_at l p) = Ok (node_at (l - 1) (2 * p + 1))"
    using assms bit_isolate [of l p] is_leaf_node_at [of l p] shift_power_u64(2) [of l]
    by (simp_all add: left_child_def right_child_def child_def)
qed

lemma sibling_node:
  assumes "l < 63" "position_invariant (node_at l p)"
  shows "sibling (node_at l p) = Ok (node_at l (if even p then p + 1 else p - 1))" "is_left_child (node_at l p) = Ok (even p)"
proof -
  have flip: "bit (if even p then p + 1 else p - 1) k \<longleftrightarrow> (if k = 0 then even p else bit p k)" for k
    by (cases k) (auto simp: bit_0 bit_Suc elim: evenE oddE)
  have "node_at l p XOR 2 ^ Suc l = node_at l (if even p then p + 1 else p - 1)"
    using assms(1) by (intro bit_word_eqI) (auto simp: bits_of_node flip bit_0 simp del: power_Suc)
  moreover have "node_at l p AND 2 ^ Suc l = 0 \<longleftrightarrow> \<not> bit (node_at l p) (Suc l)"
    by (rule and_exp_eq_0_iff_not_bit)
  moreover have "bit (node_at l p) (Suc l) \<longleftrightarrow> odd p" using assms(1) by (simp add: bit_node_at bit_0)
  ultimately show "sibling (node_at l p) = Ok (node_at l (if even p then p + 1 else p - 1))"
      "is_left_child (node_at l p) = Ok (even p)"
    using assms bit_isolate [of l p] shift_power_u64(1) [of l] by (simp_all add: sibling_def is_left_child_def del: power_Suc)
qed

lemma node_leaves:
  assumes "is_node l p"
  shows "p * 2 ^ l + 2 ^ l \<le> 2 ^ 63"
proof -
  have "2 * (p * 2 ^ l + 2 ^ l) \<le> 2 * 2 ^ 63" using unat_node_at(2) [OF assms] by (simp add: algebra_simps)
  then show ?thesis by simp
qed

lemma node_leaf_ends:
  assumes "is_node l p"
  shows "is_node 0 (p * 2 ^ l)" "is_node 0 (p * 2 ^ l + 2 ^ l - 1)"
proof -
  have "0 < (2 :: nat) ^ l" by simp
  then have "p * 2 ^ l < 2 ^ 63" "p * 2 ^ l + 2 ^ l - 1 < 2 ^ 63" using node_leaves [OF assms] by linarith+
  then show "is_node 0 (p * 2 ^ l)" "is_node 0 (p * 2 ^ l + 2 ^ l - 1)" by (simp_all add: is_node_def)
qed

lemma left_most_node:
  assumes "is_node l p"
  shows "left_most_child (node_at l p) = Ok (node_at 0 (p * 2 ^ l))"
proof -
  have l: "l < 64" using assms by (simp add: is_node_def)
  have "p * 2 ^ Suc l + 2 ^ l - 1 = (2 * p) * 2 ^ l + (2 ^ l - 1)" by simp
  also have "\<dots> div 2 ^ l = 2 * p" by (subst div_mult_self3) simp_all
  finally have "unat (drop_bit l (node_at l p)) = 2 * p" by (simp add: drop_bit_eq_div unat_div power_u64 [OF l] unat_node_at(1) [OF assms])
  then have "drop_bit l (node_at l p) = of_nat (2 * p)"
    using unat_of_nat_below [of "2 * p", where 'a = 64] unat_below [of "drop_bit l (node_at l p)"] by (simp add: word_unat_eq_iff)
  then have "push_bit l (drop_bit l (node_at l p)) = of_nat (p * 2 ^ Suc 0 * 2 ^ l)" by (simp add: push_bit_eq_mult)
  then have "push_bit l (drop_bit l (node_at l p)) = node_at 0 (p * 2 ^ l)" by (simp add: node_at_def mult.assoc mult.commute)
  then show ?thesis
    using l by (simp add: left_most_child_def turn_off_right_most_n_bits_def level_node_at shr_chk_def shl_chk_def)
qed

lemma right_most_node:
  assumes "is_node l p"
  shows "right_most_child (node_at l p) = Ok (node_at 0 (p * 2 ^ l + 2 ^ l - 1))"
proof -
  have l: "l < 64" using assms by (simp add: is_node_def)
  note n = unat_node_at [OF assms]
  note r = unat_node_at(1) [OF node_leaf_ends(2) [OF assms]]
  have pos: "(1 :: nat) \<le> 2 ^ l" by simp
  have "unat (node_at l p) + unat (2 ^ l :: u64) < 2 ^ 64" using n pos l unfolding power_u64 [OF l] power_Suc by linarith
  then have "unat (node_at l p + 2 ^ l) = unat (node_at l p) + 2 ^ l"
    using unat_add_no_wrap [of "node_at l p" "2 ^ l"] l by (simp add: power_u64)
  moreover from this have "unat (node_at l p + 2 ^ l) = unat (1 :: u64) + unat (node_at 0 (p * 2 ^ l + 2 ^ l - 1))"
    using n(1) r pos unfolding power_Suc power_0 unat_1 mult.left_commute [of p 2] by linarith
  ultimately show ?thesis using l
    by (auto simp: right_most_child_def level_node_at shl_chk_def res_iff power_u64 intro!: exI [of _ "node_at l p + 2 ^ l"])
qed

lemma leaves_below_node:
  assumes "is_node l p"
  shows "leaves_below (node_at l p) = [p * 2 ^ l ..< p * 2 ^ l + 2 ^ l]"
  using node_leaf_ends [OF assms, THEN unat_node_at(1)]
  by (simp add: leaves_below_def left_most_node [OF assms] right_most_node [OF assms])

text \<open>Every number but the largest is the position of one node.\<close>

lemma node_at_inj:
  assumes "is_node l p" "is_node l' p'" "node_at l p = node_at l' p'"
  shows "l = l' \<and> p = p'"
proof -
  have "l = l'" using level_node_at [of l p] level_node_at [of l' p'] assms by (simp add: is_node_def)
  moreover have "p * 2 ^ Suc l + 2 ^ l - 1 = p' * 2 ^ Suc l' + 2 ^ l' - 1"
    using unat_node_at(1) [OF assms(1)] unat_node_at(1) [OF assms(2)] assms(3) by simp
  moreover have "1 \<le> (2 :: nat) ^ l" by simp
  ultimately have "p * 2 ^ Suc l = p' * 2 ^ Suc l" unfolding \<open>l = l'\<close> by linarith
  with \<open>l = l'\<close> show ?thesis by simp
qed

lemma node_at_surj:
  assumes "x \<noteq> - 1"
  shows "\<exists>l p. is_node l p \<and> x = node_at l p"
proof -
  let ?n = "Suc (unat x)"
  have "x < - 1" using assms by (simp add: word_order.not_eq_extremum)
  then have n: "?n < 2 ^ 64" by (simp add: word_less_nat_alt unsigned_minus_1_eq_mask mask_eq_exp_minus_1)
  define l where "l = u64_trailing_zeros (of_nat ?n)"
  note tz = u64_trailing_zeros_of_nat [OF n nat.distinct(2), folded l_def]
  have "odd (?n div 2 ^ l)" using tz(2) by (simp add: bit_iff_odd)
  then obtain p where p: "?n div 2 ^ l = 2 * p + 1" by (elim oddE)
  have eq: "?n = p * 2 ^ Suc l + 2 ^ l"
    using div_mult_mod_eq [of ?n "2 ^ l"] tz(3) unfolding p by (simp add: algebra_simps)
  have "2 ^ (63 - l) * 2 ^ Suc l = (2 :: nat) ^ 64" using tz(1) by (simp flip: power_add)
  then have "p * 2 ^ Suc l < 2 ^ (63 - l) * 2 ^ Suc l" using n eq by linarith
  then have "is_node l p" using tz(1) by (simp add: is_node_def)
  moreover have "x = node_at l p" using eq unat_node_at(1) [OF \<open>is_node l p\<close>] by (simp add: word_unat_eq_iff)
  ultimately show ?thesis by blast
qed

subsection \<open>Leading bits\<close>

definition smeared :: "nat \<Rightarrow> u64 \<Rightarrow> u64 \<Rightarrow> bool" where
  "smeared k v n \<longleftrightarrow> (\<forall>i. bit n i \<longleftrightarrow> (\<exists>j<k. bit v (i + j)))"

lemma smeared_step:
  assumes "smeared k v n" "m = 2 * k"
  shows "smeared m v (n OR drop_bit k n)"
proof -
  have "(\<exists>j<m. bit v (i + j)) \<longleftrightarrow> (\<exists>j<k. bit v (i + j)) \<or> (\<exists>j<k. bit v (k + i + j))" for i
  proof
    assume "\<exists>j<m. bit v (i + j)"
    then obtain j where j: "j < m" "bit v (i + j)" by blast
    show "(\<exists>j<k. bit v (i + j)) \<or> (\<exists>j<k. bit v (k + i + j))"
    proof (cases "j < k")
      case False
      then have "k + i + (j - k) = i + j" by simp
      with False j assms(2) have "j - k < k \<and> bit v (k + i + (j - k))" by simp
      then show ?thesis by blast
    qed (use j in blast)
  next
    have "k \<le> m" using assms(2) by simp
    assume "(\<exists>j<k. bit v (i + j)) \<or> (\<exists>j<k. bit v (k + i + j))"
    then show "\<exists>j<m. bit v (i + j)"
    proof
      assume "\<exists>j<k. bit v (k + i + j)"
      then obtain j where "j < k" "bit v (i + (k + j))" by (auto simp: ac_simps)
      then show ?thesis using assms(2) by (intro exI [of _ "k + j"]) simp
    qed (use \<open>k \<le> m\<close> less_le_trans in blast)
  qed
  then show ?thesis using assms(1) by (simp add: smeared_def bit_or_iff bit_drop_bit_eq)
qed

lemma bit_smear: "bit (smear_ones_for_u64 v) i \<longleftrightarrow> (\<exists>j. i \<le> j \<and> bit v j)"
proof -
  have "smeared 1 v v" by (simp add: smeared_def)
  then have "smeared 64 v (smear_ones_for_u64 v)" unfolding smear_ones_for_u64_def Let_def
    by (intro smeared_step [of 32 v _ 64] smeared_step [of 16 v _ 32] smeared_step [of 8 v _ 16]
        smeared_step [of 4 v _ 8] smeared_step [of 2 v _ 4] smeared_step [of 1 v _ 2]) simp_all
  then have s: "bit (smear_ones_for_u64 v) i \<longleftrightarrow> (\<exists>j<64. bit v (i + j))" by (simp add: smeared_def)
  show ?thesis
  proof
    assume "\<exists>j. i \<le> j \<and> bit v j"
    then obtain j where "i \<le> j" "bit v j" by blast
    then have "j - i < 64 \<and> bit v (i + (j - i))" using bit_imp_le_length [of v j] by auto
    then show "bit (smear_ones_for_u64 v) i" unfolding s by blast
  qed (auto simp: s intro: exI [of _ "i + _"])
qed

lemma top_bit:
  assumes "2 ^ m \<le> unat v" "unat v < 2 ^ Suc m"
  shows "bit (v :: u64) m" "\<And>j. m < j \<Longrightarrow> \<not> bit v j" "m < 64"
proof -
  have m: "(2 :: nat) ^ m < 2 ^ 64" using assms(1) unat_below [of v] by simp
  then show "m < 64" by (simp only: power_strict_increasing_iff [of "2 :: nat"])
  have "unat v div 2 ^ m = 1" using assms by (simp add: div_nat_eqI)
  then have "bit (unat v) m" by (simp add: bit_iff_odd)
  then show "bit v m" by (simp add: bit_unsigned_iff)
  fix j assume "m < j"
  then have "\<not> bit (unat v) j" by (intro not_bit_above [OF assms(2)]) simp
  then show "\<not> bit v j" using bit_imp_le_length [of v j] by (auto simp: bit_unsigned_iff)
qed

lemma smear_half:
  assumes "2 ^ m \<le> unat v" "unat v < 2 ^ Suc m"
  shows "unat (drop_bit 1 (smear_ones_for_u64 v)) = 2 ^ m - 1"
proof -
  note top = top_bit [OF assms]
  have "drop_bit 1 (smear_ones_for_u64 v) = mask m"
  proof (rule bit_word_eqI)
    fix i assume "i < LENGTH(64)"
    have "(\<exists>j. Suc i \<le> j \<and> bit v j) \<longleftrightarrow> i < m" using top(1,2) by (metis Suc_le_eq leI le_less_trans not_less_eq_eq)
    then show "bit (drop_bit 1 (smear_ones_for_u64 v)) i \<longleftrightarrow> bit (mask m :: u64) i"
      using \<open>i < _\<close> by (simp add: bit_drop_bit_eq bit_smear bit_mask_iff)
  qed
  then show ?thesis using top(3) power_u64 [of m]
    by (simp add: mask_eq_exp_minus_1 unat_minus_one)
qed

lemma leading_zeros:
  assumes "2 ^ m \<le> unat v" "unat v < 2 ^ Suc m"
  shows "u64_leading_zeros v = 63 - m"
proof -
  note top = top_bit [OF assms]
  have "[0..<64] = [0..<m] @ m # [Suc m..<64]" using top(3) by (metis less_imp_le_nat upt_conv_Cons upt_split zero_le)
  then have "rev [0..<64] = rev [Suc m..<64] @ m # rev [0..<m]" by simp
  moreover have "takeWhile (\<lambda>i. \<not> bit v i) (rev [Suc m..<64] @ m # rev [0..<m]) = rev [Suc m..<64]"
    using top(1,2) by (subst takeWhile_append2) auto
  ultimately show ?thesis by (simp add: u64_leading_zeros_def)
qed

lemma ex_top_bit: "0 < n \<Longrightarrow> \<exists>m. 2 ^ m \<le> n \<and> n < 2 ^ Suc m" for n :: nat
  using ex_bit_length [of n] by (metis One_nat_def Suc_pred' less_one neq0_conv power_0)

subsection \<open>Iterators over full subtrees\<close>

text \<open>
  What the two iterators over full subtrees promise: as long as leaves are left, a step yields a
  subtree that begins at the next leaf. From this alone, running such an iterator ends, and the subtrees
  it yields are, in order and without gap or overlap, the leaves it was to go through.
\<close>

locale subtree_iterator =
  fixes step :: "('s, position option, unit) exec"
    and first_leaf :: "'s \<Rightarrow> nat"
    and end_leaf :: "'s \<Rightarrow> nat"
    and invar :: "'s \<Rightarrow> bool"
  assumes bounded: "invar s \<Longrightarrow> first_leaf s \<le> end_leaf s"
    and finished: "invar s \<Longrightarrow> first_leaf s = end_leaf s \<Longrightarrow> fst (step s) = Ok None"
    and advance: "invar s \<Longrightarrow> first_leaf s < end_leaf s \<Longrightarrow> \<exists>x s'. step s = (Ok (Some x), s') \<and> invar s' \<and>
      end_leaf s' = end_leaf s \<and> first_leaf s < first_leaf s' \<and> leaves_below x = [first_leaf s ..< first_leaf s']"
begin

lemma collect_ends:
  "invar s \<Longrightarrow> \<exists>xs. collect step s = Some (Ok xs) \<and> concat (map leaves_below xs) = [first_leaf s ..< end_leaf s]"
proof (induction "end_leaf s - first_leaf s" arbitrary: s rule: less_induct)
  case less
  show ?case
  proof (cases "first_leaf s = end_leaf s")
    case True
    then show ?thesis using finished [OF less.prems] by (cases "step s") (simp add: collect.simps)
  next
    case False
    then have "first_leaf s < end_leaf s" using bounded [OF less.prems] by simp
    from advance [OF less.prems this] obtain x s' where x: "step s = (Ok (Some x), s')" "invar s'" "end_leaf s' = end_leaf s"
      "first_leaf s < first_leaf s'" "leaves_below x = [first_leaf s ..< first_leaf s']" by blast
    have le: "first_leaf s' \<le> end_leaf s'" by (rule bounded [OF x(2)])
    then have "end_leaf s' - first_leaf s' < end_leaf s - first_leaf s" using x(3,4) by simp
    from less.hyps [OF this x(2)] obtain xs where "collect step s' = Some (Ok xs)"
      "concat (map leaves_below xs) = [first_leaf s' ..< end_leaf s']" by blast
    then show ?thesis using x le upt_split [of "first_leaf s" "first_leaf s'" "end_leaf s"]
      by (intro exI [of _ "x # xs"]) (simp add: collect.simps [of step s])
  qed
qed

end

lemma block_node:
  assumes "2 ^ m dvd a" "a + 2 ^ m \<le> 2 ^ 63"
  shows "is_node m (a div 2 ^ m)" "unat (node_at m (a div 2 ^ m)) = 2 * a + 2 ^ m - 1"
    "leaves_below (node_at m (a div 2 ^ m)) = [a ..< a + 2 ^ m]"
proof -
  obtain q where q: "a = 2 ^ m * q" using assms(1) by (rule dvdE)
  have pos: "0 < (2 :: nat) ^ m" by simp
  have "2 ^ m \<le> (2 :: nat) ^ 63" using assms(2) by linarith
  then have m: "m \<le> 63" by (simp only: power_increasing_iff [of "2 :: nat"])
  have "2 ^ (63 - m) * 2 ^ m = (2 :: nat) ^ 63" using m by (simp flip: power_add)
  then have "q * 2 ^ m < 2 ^ (63 - m) * 2 ^ m" using assms(2) pos unfolding q mult.commute [of _ q] by linarith
  then show n: "is_node m (a div 2 ^ m)" using m by (simp add: is_node_def q)
  show "unat (node_at m (a div 2 ^ m)) = 2 * a + 2 ^ m - 1" "leaves_below (node_at m (a div 2 ^ m)) = [a ..< a + 2 ^ m]"
    using unat_node_at(1) [OF n] leaves_below_node [OF n] by (simp_all add: q mult.commute)
qed

text \<open>The iterator over the full subtrees of an accumulator takes the leading bit of the leaves that are left.\<close>

definition fsi_inv :: "frozen_subtree_iterator \<Rightarrow> bool" where
  "fsi_inv it \<longleftrightarrow> unat (seen_leaves it) + unat (fsi_bitmap it) \<le> 2 ^ 63 \<and>
     (\<exists>k. unat (fsi_bitmap it) < 2 ^ k \<and> 2 ^ k dvd unat (seen_leaves it))"

lemma from_leaf_index_eq: "from_leaf_index x = Ok (push_bit 1 x)"
  by (simp add: from_leaf_index_def from_level_and_pos_def shl_chk_def sub_chk_if)

lemma clear_top_bit:
  assumes "2 ^ m \<le> unat v" "unat v < 2 ^ Suc m"
  shows "unat (v AND NOT (2 ^ m) :: u64) = unat v - 2 ^ m"
proof -
  note top = top_bit [OF assms]
  have "v = (v AND NOT (2 ^ m)) OR 2 ^ m" using top(1,3) by (intro bit_word_eqI) (auto simp: bits_of_node)
  also have "\<dots> = (v AND NOT (2 ^ m)) + 2 ^ m"
    by (rule disjunctive_add [symmetric]) (auto simp: bits_of_node)
  finally have "v AND NOT (2 ^ m) = v - 2 ^ m" by (simp add: eq_diff_eq)
  then show ?thesis using assms(1) power_u64 [OF top(3)] by (simp add: unat_sub word_le_nat_alt)
qed

lemma smaller_power_dvd:
  assumes "(2 :: nat) ^ m < 2 ^ k" "2 ^ k dvd (a :: nat)"
  shows "2 ^ m dvd a"
proof -
  have "m < k" using assms(1) by (simp only: power_strict_increasing_iff [of "2 :: nat"])
  then show ?thesis using le_imp_power_dvd [of m k "2 :: nat"] assms(2) dvd_trans by simp
qed

lemma frozen_next:
  assumes inv: "fsi_inv it" and pos: "0 < unat (fsi_bitmap it)"
  shows "\<exists>x it' m. FrozenSubTreeIterator_next it = (Ok (Some x), it') \<and> fsi_inv it' \<and>
    unat (seen_leaves it') = unat (seen_leaves it) + 2 ^ m \<and> unat (fsi_bitmap it') = unat (fsi_bitmap it) - 2 ^ m \<and>
    2 ^ m \<le> unat (fsi_bitmap it) \<and> leaves_below x = [unat (seen_leaves it) ..< unat (seen_leaves it) + 2 ^ m]"
proof -
  let ?b = "fsi_bitmap it" and ?s = "seen_leaves it"
  obtain m where m: "2 ^ m \<le> unat ?b" "unat ?b < 2 ^ Suc m" using ex_top_bit [OF pos] by blast
  obtain k where k: "unat ?b < 2 ^ k" "2 ^ k dvd unat ?s" and le: "unat ?s + unat ?b \<le> 2 ^ 63"
    using inv by (auto simp: fsi_inv_def)
  note top = top_bit [OF m]
  have "(2 :: nat) ^ m < 2 ^ k" using m(1) k(1) by linarith
  from smaller_power_dvd [OF this k(2)] have "2 ^ m dvd unat ?s" .
  note node = block_node [OF this]
  have le': "unat ?s + 2 ^ m \<le> 2 ^ 63" using le m(1) by linarith
  let ?o = "drop_bit 1 (smear_ones_for_u64 ?b)"
  have o: "unat ?o = 2 ^ m - 1" by (rule smear_half [OF m])
  have p2: "unat (2 ^ m :: u64) = 2 ^ m" by (rule power_u64 [OF top(3)])
  have m1: "1 \<le> (2 :: nat) ^ m" by simp
  let ?s' = "?s + 2 ^ m" and ?x = "node_at m (unat ?s div 2 ^ m)"
  have s': "unat ?s' = unat ?s + 2 ^ m" using unat_add_no_wrap [of ?s "2 ^ m"] le' p2 by simp
  have "unat (- 1 - ?b) = 2 ^ 64 - 1 - unat ?b"
    using unat_sub [of ?b "- 1"] by (simp add: unsigned_minus_1_eq_mask mask_eq_exp_minus_1)
  then have guard: "?s < - 1 - ?b" using le by (simp add: word_less_nat_alt)
  have off: "?o < ?b" using o m(1) m1 unfolding word_less_nat_alt by linarith
  have n: "add_chk ?o 1 = (Ok (2 ^ m) :: (u64, unit) result)" using o p2 m1 unfolding add_chk_Ok_iff by simp
  have "unat ?s < 2 ^ 63" using le' m1 by linarith
  then have "unat ?s * unat (2 :: u64) < 2 ^ LENGTH(64)" by simp
  then have "unat (push_bit 1 ?s) = 2 * unat ?s"
    using unat_mult_no_wrap [of ?s 2] by (simp add: push_bit_eq_mult)
  then have x: "add_chk (push_bit 1 ?s) ?o = (Ok ?x :: (u64, unit) result)"
    using o m1 node(2) [OF le'] unfolding add_chk_Ok_iff by simp
  have seen: "add_chk ?s (2 ^ m) = (Ok ?s' :: (u64, unit) result)" using s' p2 unfolding add_chk_Ok_iff by simp
  let ?it = "it\<lparr>fsi_bitmap := ?b AND NOT (2 ^ m), seen_leaves := ?s'\<rparr>"
  have "FrozenSubTreeIterator_next it = (Ok (Some ?x), ?it)"
    using pos guard off n x seen by (auto simp: FrozenSubTreeIterator_next_def Let_def bind_ex_def from_leaf_index_eq)
  moreover have "unat (?b AND NOT (2 ^ m)) = unat ?b - 2 ^ m" by (rule clear_top_bit [OF m])
  moreover from this have "fsi_inv ?it" using s' le m \<open>2 ^ m dvd unat ?s\<close>
    by (auto simp: fsi_inv_def intro!: exI [of _ m])
  ultimately show ?thesis using s' m(1) node(3) [OF le'] by (intro exI [of _ ?x] exI [of _ ?it] exI [of _ m]) simp
qed

interpretation frozen: subtree_iterator FrozenSubTreeIterator_next "\<lambda>it. unat (seen_leaves it)"
  "\<lambda>it. unat (seen_leaves it) + unat (fsi_bitmap it)" fsi_inv
proof
  fix s assume inv: "fsi_inv s"
  show "unat (seen_leaves s) \<le> unat (seen_leaves s) + unat (fsi_bitmap s)" by simp
  show "fst (FrozenSubTreeIterator_next s) = Ok None" if "unat (seen_leaves s) = unat (seen_leaves s) + unat (fsi_bitmap s)"
  proof -
    have "fsi_bitmap s = 0" using that by (simp add: unat_eq_zero)
    moreover have "seen_leaves s < - 1"
      using inv by (simp add: fsi_inv_def word_less_nat_alt unsigned_minus_1_eq_mask mask_eq_exp_minus_1)
    ultimately show ?thesis by (simp add: FrozenSubTreeIterator_next_def)
  qed
  show "\<exists>x s'. FrozenSubTreeIterator_next s = (Ok (Some x), s') \<and> fsi_inv s' \<and>
      unat (seen_leaves s') + unat (fsi_bitmap s') = unat (seen_leaves s) + unat (fsi_bitmap s) \<and>
      unat (seen_leaves s) < unat (seen_leaves s') \<and> leaves_below x = [unat (seen_leaves s) ..< unat (seen_leaves s')]"
    if "unat (seen_leaves s) < unat (seen_leaves s) + unat (fsi_bitmap s)"
    using frozen_next [OF inv] that by fastforce
qed

text \<open>The iterator over the subtrees to append takes the largest subtree that fits the leaves there are and those that are left.\<close>

definition fssi_inv :: "frozen_subtree_sibling_iterator \<Rightarrow> bool" where
  "fssi_inv it \<longleftrightarrow> unat (current_num_leaves it) + unat (remaining_new_leaves it) \<le> 2 ^ 63"

lemma next_new_leaf_batch_eq:
  assumes "2 ^ m \<le> unat (remaining_new_leaves it)" "unat (remaining_new_leaves it) < 2 ^ Suc m"
  shows "next_new_leaf_batch it = Ok (2 ^ m)"
  using top_bit(3) [OF assms]
  by (simp add: next_new_leaf_batch_def leading_zeros [OF assms] MAX_ACCUMULATOR_PROOF_DEPTH_def shl_chk_def)

lemma next_subtree_leaves_eq:
  assumes "0 < unat (remaining_new_leaves it)"
  shows "\<exists>m. next_subtree_leaves it = Ok (2 ^ m) \<and> m < 64 \<and> 2 ^ m \<le> unat (remaining_new_leaves it) \<and>
    2 ^ m dvd unat (current_num_leaves it)"
proof -
  let ?c = "current_num_leaves it" and ?r = "remaining_new_leaves it"
  obtain m where m: "2 ^ m \<le> unat ?r" "unat ?r < 2 ^ Suc m" using ex_top_bit [OF assms] by blast
  note top = top_bit [OF m] and batch = next_new_leaf_batch_eq [OF m]
  show ?thesis
  proof (cases "?c = 0")
    case True
    then show ?thesis using batch m(1) top(3) by (auto simp: next_subtree_leaves_def)
  next
    case False
    define t where "t = u64_trailing_zeros ?c"
    have "unat ?c < 2 ^ 64" "unat ?c \<noteq> 0" using False unat_below [of ?c] by (simp_all add: unat_eq_zero)
    from u64_trailing_zeros_of_nat [OF this] have t: "t < 64" "2 ^ t dvd unat ?c" by (auto simp: t_def mod_eq_0_iff_dvd)
    have p2: "unat (2 ^ t :: u64) = 2 ^ t" by (rule power_u64 [OF t(1)])
    have c: "0 < ?c" using False by (simp add: word_gt_0)
    show ?thesis
    proof (cases "2 ^ t \<le> ?r")
      case True
      then have "next_subtree_leaves it = Ok (2 ^ t)" using c t(1) by (simp add: next_subtree_leaves_def shl_chk_def t_def)
      then show ?thesis using True t p2 by (auto simp: word_le_nat_alt)
    next
      case False
      then have "(2 :: nat) ^ m < 2 ^ t" using m(1) p2 unfolding word_le_nat_alt by linarith
      from smaller_power_dvd [OF this t(2)] show ?thesis
        using False c t(1) batch m(1) top(3) by (auto simp: next_subtree_leaves_def shl_chk_def t_def)
    qed
  qed
qed

lemma sibling_next:
  assumes inv: "fssi_inv it" and pos: "0 < unat (remaining_new_leaves it)"
  shows "\<exists>x it' m. FrozenSubtreeSiblingIterator_next it = (Ok (Some x), it') \<and> fssi_inv it' \<and>
    unat (current_num_leaves it') = unat (current_num_leaves it) + 2 ^ m \<and>
    unat (remaining_new_leaves it') = unat (remaining_new_leaves it) - 2 ^ m \<and> 2 ^ m \<le> unat (remaining_new_leaves it) \<and>
    leaves_below x = [unat (current_num_leaves it) ..< unat (current_num_leaves it) + 2 ^ m]"
proof -
  let ?c = "current_num_leaves it" and ?r = "remaining_new_leaves it"
  obtain m where m: "next_subtree_leaves it = Ok (2 ^ m)" "m < 64" "2 ^ m \<le> unat ?r" "2 ^ m dvd unat ?c"
    using next_subtree_leaves_eq [OF pos] by blast
  have p2: "unat (2 ^ m :: u64) = 2 ^ m" by (rule power_u64 [OF m(2)])
  have le: "unat ?c + 2 ^ m \<le> 2 ^ 63" using inv m(3) by (simp add: fssi_inv_def)
  note node = block_node [OF m(4) le]
  let ?x = "node_at m (unat ?c div 2 ^ m)" and ?c' = "?c + 2 ^ m" and ?r' = "?r - 2 ^ m" and ?l = "?c + 2 ^ m - 1"
  have c': "unat ?c' = unat ?c + 2 ^ m" using unat_add_no_wrap [of ?c "2 ^ m"] le p2 by simp
  have r': "unat ?r' = unat ?r - 2 ^ m" using m(3) p2 by (simp add: unat_sub word_le_nat_alt)
  have m1: "1 \<le> (2 :: nat) ^ m" by simp
  have "(1 :: u64) \<le> ?c'" using c' m1 unfolding word_le_nat_alt unat_1 by linarith
  then have l: "unat ?l = unat ?c + 2 ^ m - 1" using c' by (simp add: unat_sub)
  have "add_chk ?c (2 ^ m) = (Ok ?c' :: (u64, unit) result)" using c' p2 unfolding add_chk_Ok_iff by simp
  moreover have "sub_chk ?c' 1 = (Ok ?l :: (u64, unit) result)" using c' l m1 unfolding sub_chk_Ok_iff by simp
  moreover have "sub_chk ?r (2 ^ m) = (Ok ?r' :: (u64, unit) result)" using r' p2 m(3) unfolding sub_chk_Ok_iff by simp
  moreover have "add_chk ?c ?l = (Ok ?x :: (u64, unit) result)" using l node(2) m1 unfolding add_chk_Ok_iff by simp
  ultimately have "FrozenSubtreeSiblingIterator_next it
      = (Ok (Some ?x), it\<lparr>current_num_leaves := ?c', remaining_new_leaves := ?r'\<rparr>)"
    using pos m(1) by (auto simp: FrozenSubtreeSiblingIterator_next_def Let_def bind_ex_def)
  then show ?thesis using c' r' m(3) node(3) inv
    by (intro exI [of _ ?x] exI [of _ "it\<lparr>current_num_leaves := ?c', remaining_new_leaves := ?r'\<rparr>"] exI [of _ m])
      (simp add: fssi_inv_def)
qed

interpretation siblings: subtree_iterator FrozenSubtreeSiblingIterator_next "\<lambda>it. unat (current_num_leaves it)"
  "\<lambda>it. unat (current_num_leaves it) + unat (remaining_new_leaves it)" fssi_inv
proof
  fix s assume inv: "fssi_inv s"
  show "unat (current_num_leaves s) \<le> unat (current_num_leaves s) + unat (remaining_new_leaves s)" by simp
  show "fst (FrozenSubtreeSiblingIterator_next s) = Ok None"
    if "unat (current_num_leaves s) = unat (current_num_leaves s) + unat (remaining_new_leaves s)"
    using that by (simp add: FrozenSubtreeSiblingIterator_next_def unat_eq_zero)
  show "\<exists>x s'. FrozenSubtreeSiblingIterator_next s = (Ok (Some x), s') \<and> fssi_inv s' \<and>
      unat (current_num_leaves s') + unat (remaining_new_leaves s') = unat (current_num_leaves s) + unat (remaining_new_leaves s) \<and>
      unat (current_num_leaves s) < unat (current_num_leaves s') \<and>
      leaves_below x = [unat (current_num_leaves s) ..< unat (current_num_leaves s')]"
    if "unat (current_num_leaves s) < unat (current_num_leaves s) + unat (remaining_new_leaves s)"
    using sibling_next [OF inv] that by fastforce
qed

subsection \<open>Post-order numbers\<close>

fun ones :: "nat \<Rightarrow> nat" where
  "ones n = (if n = 0 then 0 else n mod 2 + ones (n div 2))"

declare ones.simps [simp del]

lemma ones_0 [simp]: "ones 0 = 0"
  by (simp add: ones.simps)

lemma ones_rec: "ones n = n mod 2 + ones (n div 2)"
  by (cases "n = 0") (simp_all add: ones.simps [of n])

lemma ones_le: "ones n \<le> n"
proof (induction n rule: ones.induct)
  case (1 n)
  show ?case
  proof (cases "n = 0")
    case False
    have "n mod 2 + n div 2 \<le> n" by presburger
    then show ?thesis using 1 [OF False] ones_rec [of n] by simp
  qed simp
qed

lemma finite_bits: "finite {i. bit (n :: nat) i}"
proof (rule finite_subset)
  show "{i. bit n i} \<subseteq> {..<n}" using not_bit_above [of n n] less_exp [of n] by (auto intro: ccontr simp: not_less)
qed simp

lemma ones_card: "ones n = card {i. bit n i}"
proof (induction n rule: ones.induct)
  case (1 n)
  show ?case
  proof (cases "n = 0")
    case False
    have "{i. bit n i} = (if odd n then {0} else {}) \<union> Suc ` {i. bit (n div 2) i}"
    proof (rule set_eqI)
      fix i show "i \<in> {i. bit n i} \<longleftrightarrow> i \<in> (if odd n then {0} else {}) \<union> Suc ` {i. bit (n div 2) i}"
        by (cases i) (auto simp: bit_0 bit_Suc)
    qed
    moreover have "card (Suc ` {i. bit (n div 2) i}) = card {i. bit (n div 2) i}" by (intro card_image) simp
    ultimately show ?thesis using False 1 finite_bits [of "n div 2"] by (auto simp: ones.simps [of n] odd_iff_mod_2_eq_one)
  qed simp
qed

lemma ones_top: "n < 2 ^ k \<Longrightarrow> ones (2 ^ k + n) = Suc (ones n)"
proof (induction k arbitrary: n)
  case 0
  then show ?case using ones_rec [of 1] by simp
next
  case (Suc k)
  then have "ones (2 ^ k + n div 2) = Suc (ones (n div 2))" by simp
  then show ?case using ones_rec [of "2 ^ Suc k + n"] ones_rec [of n] by simp
qed

definition post_index :: "nat \<Rightarrow> nat \<Rightarrow> nat" where
  "post_index l p = 2 ^ Suc l - 2 + (p * 2 ^ Suc l - ones p)"

lemma post_index_0: "post_index l 0 = 2 ^ Suc l - 2"
  by (simp add: post_index_def)

lemma ones_le_block: "ones p \<le> p * 2 ^ Suc l"
  using ones_le [of p] by (rule le_trans) simp

lemma post_index_top:
  assumes "p < 2 ^ k"
  shows "post_index l (2 ^ k + p) = 2 ^ Suc (k + l) - 1 + post_index l p"
proof -
  have "(2 ^ k + p) * 2 ^ Suc l = 2 ^ Suc (k + l) + p * 2 ^ Suc l" by (simp add: algebra_simps power_add)
  moreover have "1 \<le> (2 :: nat) ^ Suc (k + l)" by (rule one_le_power) simp
  ultimately show ?thesis using ones_le_block [of p l] unfolding post_index_def ones_top [OF assms] by linarith
qed

lemma post_index_less:
  assumes "p < 2 ^ k"
  shows "post_index l p < 2 ^ Suc (k + l) - 1"
proof -
  have "(p + 1) * 2 ^ Suc l \<le> 2 ^ k * 2 ^ Suc l" using assms by (intro mult_right_mono) simp_all
  then have "p * 2 ^ Suc l + 2 ^ Suc l \<le> 2 ^ Suc (k + l)" by (simp add: algebra_simps power_add)
  moreover have "2 \<le> (2 :: nat) ^ Suc l" by simp
  ultimately show ?thesis unfolding post_index_def by linarith
qed

lemma postorder_length: "length (postorder h f) = 2 ^ Suc h - 1"
proof (induction h arbitrary: f)
  case (Suc h)
  have "2 \<le> (2 :: nat) ^ Suc h" by simp
  then show ?case using Suc by simp
qed simp

lemma postorder_nth:
  "l \<le> h \<Longrightarrow> p < 2 ^ (h - l) \<Longrightarrow> postorder h f ! post_index l p = f + p * 2 ^ Suc l + 2 ^ l - 1"
proof (induction h arbitrary: f p)
  case 0
  then show ?case by (simp add: post_index_0)
next
  case (Suc h)
  have pos: "2 \<le> (2 :: nat) ^ Suc h" by simp
  show ?case
  proof (cases "l = Suc h")
    case True
    then have "post_index l p = length (postorder h f @ postorder h (f + 2 ^ Suc h)) + 0"
      using Suc.prems pos unfolding length_append postorder_length by (simp add: post_index_0)
    then show ?thesis using True Suc.prems unfolding postorder.simps append_assoc [symmetric] by (simp only: nth_append_length_plus) simp
  next
    case False
    then have l: "l \<le> h" using Suc.prems(1) by simp
    then have e: "Suc (h - l + l) = Suc h" by simp
    show ?thesis
    proof (cases "p < 2 ^ (h - l)")
      case True
      from post_index_less [OF this, of l] have "post_index l p < length (postorder h f)" unfolding postorder_length e .
      then show ?thesis using Suc.IH [OF l True] by (simp add: nth_append)
    next
      case False
      then obtain q where q: "p = 2 ^ (h - l) + q" by (metis le_add_diff_inverse not_less)
      have "2 ^ (Suc h - l) = 2 * (2 :: nat) ^ (h - l)" using l by (simp add: Suc_diff_le)
      then have q': "q < 2 ^ (h - l)" using Suc.prems(2) unfolding q by simp
      have "post_index l p = length (postorder h f) + post_index l q"
        unfolding q post_index_top [OF q'] postorder_length e ..
      moreover have "post_index l q < length (postorder h (f + 2 ^ Suc h))"
        using post_index_less [OF q', of l] unfolding postorder_length e .
      moreover have "2 ^ (h - l) * 2 ^ Suc l = (2 :: nat) ^ Suc h" using l by (simp flip: power_add)
      ultimately show ?thesis using Suc.IH [OF l q', of "f + 2 ^ Suc h"]
        unfolding postorder.simps by (simp add: nth_append q algebra_simps)
    qed
  qed
qed

lemma postorder_set: "set (postorder h f) = {f ..< f + (2 ^ Suc h - 1)} \<and> distinct (postorder h f)"
proof (induction h arbitrary: f)
  case (Suc h)
  have "2 \<le> (2 :: nat) ^ Suc h" by simp
  moreover have "(2 :: nat) ^ Suc (Suc h) = 2 * 2 ^ Suc h" by simp
  ultimately show ?case using Suc.IH [of f] Suc.IH [of "f + 2 ^ Suc h"] unfolding postorder.simps
    by (auto simp del: power_Suc)
qed auto

lemma count_ones_shifted:
  assumes "is_node l p"
  shows "u64_count_ones (push_bit (Suc l) (of_nat p)) = ones p"
proof -
  have "p < 2 ^ (63 - l)" using assms by (simp add: is_node_def)
  then have small: "j + Suc l < 64" if "bit p j" for j
    using not_bit_above [of p "63 - l" j] that assms by (force simp: is_node_def)
  have "{i. bit (push_bit (Suc l) (of_nat p) :: u64) i \<and> i < 64} = (\<lambda>j. j + Suc l) ` {j. bit p j}"
  proof (rule set_eqI)
    fix i show "i \<in> {i. bit (push_bit (Suc l) (of_nat p) :: u64) i \<and> i < 64} \<longleftrightarrow> i \<in> (\<lambda>j. j + Suc l) ` {j. bit p j}"
      using small [of "i - Suc l"] by (auto simp: bit_push_bit_iff bit_of_nat_iff image_iff simp del: push_bit_Suc
          intro!: exI [of _ "i - Suc l"] dest: small)
  qed
  moreover have "card ((\<lambda>j. j + Suc l) ` {j. bit p j}) = card {j. bit p j}" by (intro card_image) (simp add: inj_on_def)
  moreover have "u64_count_ones w = card {i. bit w i \<and> i < 64}" for w
    using distinct_length_filter [of "[0..<64]" "bit w"] by (simp add: u64_count_ones_def Int_def)
  ultimately show ?thesis by (simp add: ones_card)
qed

lemma chk_of_nat:
  "a + b < 2 ^ 64 \<Longrightarrow> add_chk (of_nat a :: u64) (of_nat b) = Ok (of_nat (a + b))"
  "b \<le> a \<Longrightarrow> a < 2 ^ 64 \<Longrightarrow> sub_chk (of_nat a :: u64) (of_nat b) = Ok (of_nat (a - b))"
  using unat_of_nat_below [of a, where 'a = 64] unat_of_nat_below [of b, where 'a = 64]
    unat_of_nat_below [of "a + b", where 'a = 64] unat_of_nat_below [of "a - b", where 'a = 64]
  unfolding add_chk_Ok_iff sub_chk_Ok_iff by simp_all

lemma ones_pos: "0 < p \<Longrightarrow> 0 < ones p"
proof (induction p rule: ones.induct)
  case (1 p)
  then show ?case using ones_rec [of p] by (cases "p div 2 = 0") auto
qed

lemma post_index_bound:
  assumes "is_node l p" "l < 63"
  shows "post_index l p < 2 ^ 64 - 2"
proof (cases "p = 0")
  case True
  have "(2 :: nat) ^ Suc l < 2 ^ 64" using assms(2) by (intro power_strict_increasing) simp_all
  then show ?thesis using True by (simp add: post_index_0)
next
  case False
  then have "1 \<le> ones p" using ones_pos [of p] by simp
  moreover have "2 \<le> (2 :: nat) ^ Suc l" by simp
  ultimately show ?thesis using unat_node_at(2) [OF assms(1)] ones_le_block [of p l] unfolding post_index_def by linarith
qed

lemma to_postorder_node:
  assumes "is_node l p" "l < 63"
  shows "to_postorder_index (node_at l p) = (Ok (of_nat (post_index l p)) :: (u64, 'e) result)"
proof -
  let ?u = "of_nat (p * 2 ^ Suc l) :: u64"
  have l: "l < 64" using assms(2) by simp
  have two: "2 \<le> (2 :: nat) ^ Suc l" by simp
  have p64: "p * 2 ^ Suc l < 2 ^ 64" "2 ^ Suc l < (2 :: nat) ^ 64" "2 ^ l < (2 :: nat) ^ 64" "1 \<le> (2 :: nat) ^ l"
    using unat_node_at(2) [OF assms(1)] two power_strict_increasing [of "Suc l" 64 "2 :: nat"]
      power_strict_increasing [of l 64 "2 :: nat"] assms(2) by (linarith, simp_all del: power_Suc)
  have u: "push_bit (Suc l) (of_nat p) = ?u" by (simp add: push_bit_eq_mult mult.commute)
  have "node_at l p XOR mask l = push_bit (Suc l) (of_nat p)"
    by (intro bit_word_eqI) (auto simp: node_at_or bit_xor_iff bit_or_iff bit_push_bit_iff bit_mask_iff simp del: push_bit_Suc)
  moreover have "of_nat (2 ^ l - 1) = (mask l :: u64)" by (simp add: mask_eq_exp_minus_1 of_nat_diff)
  ultimately have x: "node_at l p XOR of_nat (2 ^ l - 1) = ?u" using u by simp
  have count: "u64_count_ones ?u = ones p" using count_ones_shifted [OF assms(1)] unfolding u .
  have "nodes_to_left_of (node_at l p) = (Ok (of_nat (p * 2 ^ Suc l - ones p)) :: (u64, 'e) result)"
    using chk_of_nat(2) [where 'b = 'e, of 1 "2 ^ l"] chk_of_nat(2) [where 'b = 'e, OF ones_le_block [of p l] p64(1)] p64 x count
    by (simp add: nodes_to_left_of_def bit_isolate [OF l] del: power_Suc)
  moreover have "children_of_node (node_at l p) = (Ok (of_nat (2 ^ Suc l - 2)) :: (u64, 'e) result)"
    using chk_of_nat(2) [where 'b = 'e, OF two p64(2)] unfolding children_of_node_def bit_isolate [OF l] shift_power_u64(1) by (simp del: power_Suc)
  ultimately show ?thesis
    using chk_of_nat(1) [of "2 ^ Suc l - 2" "p * 2 ^ Suc l - ones p", where 'a = 'e] post_index_bound [OF assms]
    by (simp add: to_postorder_index_def inorder_to_postorder_def post_index_def del: power_Suc)
qed

text \<open>The loop back first finds the turns to the right, then counts the level.\<close>

lemma unat_mask_u64:
  assumes "i \<le> 64"
  shows "unat (mask i :: u64) = 2 ^ i - 1"
proof -
  have "unat (mask i :: u64) = mask i"
    using assms by (intro bit_eqI) (auto simp: bit_unsigned_iff bit_mask_iff)
  then show ?thesis by (simp add: mask_eq_exp_minus_1)
qed

lemma drop_mask_u64: "Suc i \<le> 64 \<Longrightarrow> drop_bit 1 (mask (Suc i) :: u64) = mask i"
  by (intro bit_word_eqI) (auto simp: bit_drop_bit_eq bit_mask_iff)

lemma push_bit_top:
  assumes "q < 2 ^ (i - l)" "l \<le> i"
  shows "push_bit l (of_nat (2 ^ (i - l) + q)) = (2 ^ i :: u64) OR push_bit l (of_nat q)"
proof -
  have "(2 :: u64) ^ l * 2 ^ (i - l) = 2 ^ i" using assms(2) by (simp flip: power_add)
  then have "push_bit l (of_nat (2 ^ (i - l) + q)) = (2 ^ i :: u64) + push_bit l (of_nat q)"
    by (simp add: push_bit_eq_mult algebra_simps)
  also have "\<dots> = 2 ^ i OR push_bit l (of_nat q)" using not_bit_above [OF assms(1)]
    by (intro disjunctive_add) (auto simp: bit_push_bit_iff bit_of_nat_iff bit_power_u64)
  finally show ?thesis .
qed

lemma postorder_loop_up:
  assumes "l \<le> i" "i \<le> 64" "p < 2 ^ (i - l)" "post_index l p < 2 ^ 64"
  shows "postorder_loop i (of_nat (post_index l p)) bm (mask i)
    = postorder_loop l (of_nat (2 ^ Suc l - 2)) (bm OR push_bit l (of_nat p)) (mask l)"
  using assms
proof (induction i arbitrary: p bm)
  case (Suc i)
  show ?case
  proof (cases "l = Suc i")
    case False
    then have l: "l \<le> i" "i \<le> 64" "i - l + l = i" using Suc.prems by simp_all
    have pi: "unat (of_nat (post_index l p) :: u64) = post_index l p"
      using unat_of_nat_below [where 'a = 64] Suc.prems(4) by simp
    note ge = word_le_nat_alt [of "mask (Suc i) :: u64" "of_nat (post_index l p)", unfolded pi unat_mask_u64 [OF Suc.prems(2)]]
    show ?thesis
    proof (cases "p < 2 ^ (i - l)")
      case True
      then have "\<not> mask (Suc i) \<le> (of_nat (post_index l p) :: u64)"
        using post_index_less [OF True, of l] unfolding ge l(3) by simp
      then show ?thesis using Suc.IH [OF l(1,2) True Suc.prems(4)] drop_mask_u64 [OF Suc.prems(2)] by simp
    next
      case False
      then obtain q where q: "p = 2 ^ (i - l) + q" by (metis le_add_diff_inverse not_less)
      have "2 ^ (Suc i - l) = 2 * (2 :: nat) ^ (i - l)" using l by (simp add: Suc_diff_le)
      then have q': "q < 2 ^ (i - l)" using Suc.prems(3) unfolding q by simp
      have pq: "post_index l p = 2 ^ Suc i - 1 + post_index l q" unfolding q post_index_top [OF q'] l(3) ..
      then have le: "mask (Suc i) \<le> (of_nat (post_index l p) :: u64)" unfolding ge by simp
      have "(mask (Suc i) :: u64) = of_nat (2 ^ Suc i - 1)" by (simp add: mask_eq_exp_minus_1 of_nat_diff)
      then have "of_nat (post_index l p) - mask (Suc i) = (of_nat (post_index l q) :: u64)"
        unfolding pq by (metis add_diff_cancel_left' of_nat_add)
      moreover have "post_index l q < 2 ^ 64" using Suc.prems(4) pq by linarith
      ultimately show ?thesis using Suc.IH [OF l(1,2) q'] le drop_mask_u64 [OF Suc.prems(2)] push_bit_top [OF q' l(1)]
        by (simp add: q or.assoc)
    qed
  qed (use Suc.prems in \<open>simp add: post_index_0\<close>)
qed (simp add: post_index_0)

lemma loop_down_bound:
  assumes "i \<le> l" "l < 64"
  shows "2 ^ Suc i + (l - i) - 2 < (2 :: nat) ^ 64"
proof (cases "i = l")
  case True
  have "(2 :: nat) ^ Suc l \<le> 2 ^ 64" using assms(2) by (intro power_increasing) simp_all
  then show ?thesis using True by simp
next
  case False
  have "(2 :: nat) ^ Suc i \<le> 2 ^ 63" using assms False by (intro power_increasing) simp_all
  then show ?thesis using assms(2) by simp
qed

lemma postorder_loop_down:
  assumes "i \<le> l" "l < 64"
  shows "postorder_loop i (of_nat (2 ^ Suc i + (l - i) - 2)) bm (mask i) = (of_nat l, bm OR mask i)"
  using assms
proof (induction i arbitrary: bm)
  case (Suc i)
  let ?n = "2 ^ Suc (Suc i) + (l - Suc i) - 2" and ?m = "2 ^ Suc i + (l - i) - 2"
  have two: "2 \<le> (2 :: nat) ^ Suc i" by simp
  have n: "?n = 2 ^ Suc i - 1 + ?m" using two Suc.prems by simp
  have mask: "(mask (Suc i) :: u64) = of_nat (2 ^ Suc i - 1)" by (simp add: mask_eq_exp_minus_1 of_nat_diff)
  have "(of_nat ?n :: u64) - mask (Suc i) = of_nat ?m" unfolding n mask by (metis add_diff_cancel_left' of_nat_add)
  moreover have u: "unat (of_nat ?n :: u64) = ?n"
    using unat_of_nat_below [where 'a = 64] loop_down_bound [OF Suc.prems] by simp
  have i: "Suc i \<le> 64" using Suc.prems by simp
  have "mask (Suc i) \<le> (of_nat ?n :: u64)" unfolding word_le_nat_alt u unat_mask_u64 [OF i] using n by linarith
  moreover have "bm OR 2 ^ i OR mask i = bm OR (mask (Suc i) :: u64)" by (simp add: mask_Suc_exp)
  ultimately show ?case using Suc.IH [of "bm OR 2 ^ i"] Suc.prems drop_mask_u64 [of i]
    by (simp add: or.assoc del: power_Suc)
qed simp

lemma from_postorder_node:
  assumes "is_node l p"
  shows "from_postorder_index (of_nat (post_index l p)) = Ok (node_at l p)"
proof -
  have "(2 :: nat) ^ (63 - l) \<le> 2 ^ (64 - l)" by (intro power_increasing) simp_all
  then have l: "l < 64" "p < 2 ^ (64 - l)" using assms less_le_trans unfolding is_node_def by blast+
  have "post_index l p < 2 ^ Suc (63 - l + l) - 1" using assms by (intro post_index_less) (simp add: is_node_def)
  then have b: "post_index l p < 2 ^ 64 - 1" using l(1) by simp
  then have u: "unat (of_nat (post_index l p) :: u64) = post_index l p" using unat_of_nat_below [where 'a = 64] by simp
  have "(- 1 :: u64) = mask 64" by (intro bit_word_eqI) (simp add: bit_mask_iff)
  then have loop: "postorder_loop 64 (of_nat (post_index l p)) 0 (- 1) = (of_nat l, push_bit l (of_nat p) OR mask l)"
    using postorder_loop_up [of l 64 p 0] postorder_loop_down [of l l] l b by simp
  have "drop_bit l (push_bit l (of_nat p) OR mask l) = (of_nat p :: u64)"
  proof (rule bit_word_eqI)
    fix i assume "i < LENGTH(64)"
    moreover have "i < 63 - l" if "bit p i" using that assms not_bit_above [of p "63 - l" i] unfolding is_node_def by (meson not_le)
    ultimately show "bit (drop_bit l (push_bit l (of_nat p) OR mask l) :: u64) i \<longleftrightarrow> bit (of_nat p :: u64) i"
      by (auto simp: bit_drop_bit_eq bit_or_iff bit_push_bit_iff bit_mask_iff bit_of_nat_iff is_node_def)
  qed
  moreover have "unat (ucast (of_nat l :: u64) :: u32) = l"
    using l(1) unat_of_nat_below [of l, where 'a = 64] by (simp add: unsigned_ucast_eq take_bit_nat_eq_self)
  moreover have "(of_nat (post_index l p) :: u64) < - 1"
    using b u by (simp add: word_less_nat_alt unsigned_minus_1_eq_mask mask_eq_exp_minus_1)
  ultimately show ?thesis using loop l from_level_and_pos_node [OF assms]
    by (simp add: from_postorder_index_def postorder_to_inorder_def shr_chk_def)
qed

lemma takeWhile_always: "takeWhile (\<lambda>x. True) xs = xs"
  by (induction xs) simp_all

lemma root_from_leaf_count_node:
  assumes "0 < n" "n \<le> 2 ^ 63"
  shows "root_from_leaf_count (of_nat n) = Ok (node_at (log2up n) 0)" "root_level_from_leaf_count (of_nat n) = Ok (log2up n)"
proof -
  have "unat (of_nat n :: u64) = n" using assms unat_of_nat_below [of n, where 'a = 64] by simp
  then have pos: "0 < (of_nat n :: u64)" "1 \<le> (of_nat n :: u64)" using assms(1) by (simp_all add: word_less_nat_alt word_le_nat_alt)
  have u: "unat (of_nat (n - 1) :: u64) = n - 1" "unat (push_bit 1 (of_nat (n - 1)) :: u64) = 2 * (n - 1)"
    using unat_of_nat_below [of "n - 1", where 'a = 64] unat_of_nat_below [of "2 * (n - 1)", where 'a = 64] assms
    by (simp_all add: push_bit_eq_mult mult.commute)
  have "drop_bit 1 (smear_ones_for_u64 (push_bit 1 (of_nat (n - 1)))) = node_at (log2up n) 0 \<and>
      64 - u64_leading_zeros (of_nat (n - 1)) = log2up n"
  proof (cases "n = 1")
    case True
    then show ?thesis
      by (simp add: log2up.simps [of "Suc 0"] node_at_def smear_ones_for_u64_def u64_leading_zeros_def takeWhile_always)
  next
    case False
    then obtain m where m: "2 ^ m \<le> n - 1" "n - 1 < 2 ^ Suc m" using ex_top_bit [of "n - 1"] assms(1) by auto
    have "2 ^ Suc m \<le> unat (push_bit 1 (of_nat (n - 1)) :: u64)" "unat (push_bit 1 (of_nat (n - 1)) :: u64) < 2 ^ Suc (Suc m)"
      using m unfolding u by simp_all
    note top = smear_half [OF this] top_bit(3) [OF this]
    have "is_node (Suc m) 0" using top(2) by (simp add: is_node_def)
    from unat_node_at(1) [OF this] top(1)
    have "drop_bit 1 (smear_ones_for_u64 (push_bit 1 (of_nat (n - 1)))) = node_at (Suc m) 0"
      by (simp add: word_unat_eq_iff)
    moreover have "2 ^ m < n" "n \<le> 2 ^ Suc m" using m assms(1) by linarith+
    then have "log2up n = Suc m" by (rule log2up_between)
    moreover have "u64_leading_zeros (of_nat (n - 1)) = 63 - m" using m u(1) by (intro leading_zeros) simp_all
    ultimately show ?thesis using top(2) by simp
  qed
  then show "root_from_leaf_count (of_nat n) = Ok (node_at (log2up n) 0)"
    "root_level_from_leaf_count (of_nat n) = Ok (log2up n)"
    using pos assms(1)
    by (simp_all add: root_from_leaf_count_def root_from_leaf_index_def from_leaf_index_eq root_level_from_leaf_count_def
        MAX_ACCUMULATOR_PROOF_DEPTH_def sub_chk_if of_nat_diff)
qed

section \<open>Properties\<close>

text \<open>
  C34. The bit manipulations move in the tree: a position stands for exactly one node, and its level,
  parent, children, sibling, side, and the leaves from its leftmost to its rightmost are those of this node.
  The parent, the sibling and the side are those below the root, and not of the very last leaf, which
  the code's own invariant excludes.
\<close>

theorem position_navigates:
  "(\<forall>x. x \<noteq> - 1 \<longrightarrow> (\<exists>!(l, p). is_node l p \<and> x = node_at l p)) \<and>
   (is_node l p \<longrightarrow> level (node_at l p) = l \<and> (is_leaf (node_at l p) \<longleftrightarrow> l = 0) \<and>
     from_level_and_pos l (of_nat p) = (Ok (node_at l p) :: (position, unit) result) \<and>
     leaves_below (node_at l p) = [p * 2 ^ l ..< p * 2 ^ l + 2 ^ l] \<and>
     (l < 63 \<and> \<not> (l = 0 \<and> p = 2 ^ 63 - 1) \<longrightarrow>
        parent (node_at l p) = (Ok (node_at (Suc l) (p div 2)) :: (position, unit) result) \<and>
        sibling (node_at l p) = (Ok (node_at l (if even p then p + 1 else p - 1)) :: (position, unit) result) \<and>
        is_left_child (node_at l p) = (Ok (even p) :: (bool, unit) result)) \<and>
     (0 < l \<longrightarrow> left_child (node_at l p) = (Ok (node_at (l - 1) (2 * p)) :: (position, unit) result) \<and>
        right_child (node_at l p) = (Ok (node_at (l - 1) (2 * p + 1)) :: (position, unit) result)))"
proof (intro conjI allI impI)
  fix x :: u64 assume "x \<noteq> - 1"
  then obtain l p where "is_node l p" "x = node_at l p" using node_at_surj by blast
  then show "\<exists>!(l, p). is_node l p \<and> x = node_at l p" by (auto dest: node_at_inj)
next
  assume n: "is_node l p"
  then have l: "l < 64" by (simp add: is_node_def)
  show "level (node_at l p) = l" "is_leaf (node_at l p) \<longleftrightarrow> l = 0" using l by (simp_all add: level_node_at is_leaf_node_at)
  show "from_level_and_pos l (of_nat p) = (Ok (node_at l p) :: (position, unit) result)" by (rule from_level_and_pos_node [OF n])
  show "leaves_below (node_at l p) = [p * 2 ^ l ..< p * 2 ^ l + 2 ^ l]" by (rule leaves_below_node [OF n])
  show "left_child (node_at l p) = (Ok (node_at (l - 1) (2 * p)) :: (position, unit) result)"
    "right_child (node_at l p) = (Ok (node_at (l - 1) (2 * p + 1)) :: (position, unit) result)" if "0 < l"
    using that l child_node [of l p] position_invariant_node [OF n] by simp_all
  assume "l < 63 \<and> \<not> (l = 0 \<and> p = 2 ^ 63 - 1)"
  then have i: "l < 63" "position_invariant (node_at l p)" using position_invariant_node [OF n] by simp_all
  show "parent (node_at l p) = (Ok (node_at (Suc l) (p div 2)) :: (position, unit) result)" by (rule parent_node [OF i])
  show "sibling (node_at l p) = (Ok (node_at l (if even p then p + 1 else p - 1)) :: (position, unit) result)"
    "is_left_child (node_at l p) = (Ok (even p) :: (bool, unit) result)" by (rule sibling_node [OF i])+
qed

theorem position_navigates_witness:
  "level 5 = 1 \<and> parent 5 = (Ok 3 :: (position, unit) result) \<and> sibling 5 = (Ok 1 :: (position, unit) result) \<and>
   left_child 5 = (Ok 4 :: (position, unit) result) \<and> right_child 5 = (Ok 6 :: (position, unit) result) \<and>
   leaves_below 5 = [2, 3]"
proof -
  have "is_node 1 1" "node_at 1 1 = 5" "node_at (Suc 1) 0 = 3" "node_at 1 0 = 1" "node_at 0 2 = 4" "node_at 0 3 = 6"
    "[2 ..< 4] = [2, 3 :: nat]" by (simp_all add: is_node_def node_at_def upt_rec)
  with position_navigates [of 1 1] show ?thesis by simp
qed

text \<open>
  C35. Numbering nodes in post-order is inverse to finding a node by its post-order number, and the
  numbers are those of the post-order traversal of the tree; the number \<open>2 ^ 64 - 1\<close> is refused. The root
  of the largest tree is the exception: it is found by its number, but numbering it overflows.
\<close>

theorem postorder_roundtrip:
  "(\<forall>x. x \<noteq> - 1 \<and> x \<noteq> node_at 63 0 \<longrightarrow> (\<exists>i. to_postorder_index x = (Ok i :: (u64, unit) result) \<and>
      postorder 63 0 ! unat i = unat x \<and> from_postorder_index i = Ok x)) \<and>
   (\<forall>i. i < - 2 \<longrightarrow> (\<exists>x. from_postorder_index i = Ok x \<and> to_postorder_index x = (Ok i :: (u64, unit) result))) \<and>
   from_postorder_index (- 2) = Ok (node_at 63 0) \<and> to_postorder_index (node_at 63 0) = (Panic :: (u64, unit) result) \<and>
   from_postorder_index (- 1) = Err InvalidNodeIndex"
proof (intro conjI allI impI)
  have root: "l < 63" if "is_node l p" "node_at l p \<noteq> node_at 63 0" for l p
    using that by (cases "l = 63") (auto simp: is_node_def)
  have number: "\<exists>i. to_postorder_index x = (Ok i :: (u64, unit) result) \<and>
      postorder 63 0 ! unat i = unat x \<and> from_postorder_index i = Ok x" if x: "x \<noteq> - 1" "x \<noteq> node_at 63 0" for x
  proof -
    obtain l p where n: "is_node l p" "x = node_at l p" using node_at_surj [OF x(1)] by blast
    have "l < 63" using root n x(2) by blast
    note to = to_postorder_node [OF n(1) this, where 'e = unit] post_index_bound [OF n(1) this]
    have "unat (of_nat (post_index l p) :: u64) = post_index l p"
      using unat_of_nat_below [of "post_index l p", where 'a = 64] to(2) by simp
    then show ?thesis using to(1) from_postorder_node [OF n(1)] postorder_nth [of l 63 p 0] n unat_node_at(1) [OF n(1)]
      by (auto simp: is_node_def)
  qed
  then show "\<exists>i. to_postorder_index x = (Ok i :: (u64, unit) result) \<and> postorder 63 0 ! unat i = unat x \<and>
      from_postorder_index i = Ok x" if "x \<noteq> - 1 \<and> x \<noteq> node_at 63 0" for x using that by blast
  show "\<exists>x. from_postorder_index i = Ok x \<and> to_postorder_index x = (Ok i :: (u64, unit) result)" if "i < - 2" for i
  proof -
    note post = postorder_set [of 63 0] and len = postorder_length [of 63 0]
    have i: "unat i < 2 ^ 64 - 2" using that by (simp add: word_less_nat_alt)
    let ?y = "postorder 63 0 ! unat i"
    have "?y \<in> set (postorder 63 0)" using i len by (intro nth_mem) simp
    then have y: "?y < 2 ^ 64 - 1" using post by simp
    define x :: u64 where "x = of_nat ?y"
    have ux: "unat x = ?y" using unat_of_nat_below [of ?y, where 'a = 64] y unfolding x_def by simp
    have at: "j = unat i" if "j < 2 ^ 64 - 1" "postorder 63 0 ! j = unat x" for j
      using nth_eq_iff_index_eq [of "postorder 63 0" j "unat i"] post len that i ux by simp
    have "x \<noteq> - 1" using ux y by (auto simp: unsigned_minus_1_eq_mask mask_eq_exp_minus_1)
    moreover have "x \<noteq> node_at 63 0"
      using at [of "2 ^ 64 - 2"] i postorder_nth [of 63 63 0 0] unat_node_at(1) [of 63 0]
      by (auto simp: post_index_0 is_node_def)
    ultimately obtain j where j: "to_postorder_index x = (Ok j :: (u64, unit) result)" "postorder 63 0 ! unat j = unat x"
      "from_postorder_index j = Ok x" using number by blast
    have "j < - 1" using j(3) by (auto simp: from_postorder_index_def res_iff)
    then have "unat j = unat i" using at [of "unat j"] j(2)
      by (simp add: word_less_nat_alt unsigned_minus_1_eq_mask mask_eq_exp_minus_1)
    then have "j = i" by (simp add: word_unat_eq_iff)
    then show ?thesis using j by blast
  qed
  have "is_node 63 0" by (simp add: is_node_def)
  from from_postorder_node [OF this] have "from_postorder_index 18446744073709551614 = Ok (node_at 63 0)" by (simp add: post_index_0)
  moreover have "(18446744073709551614 :: u64) = - 2" by (simp add: word_unat_eq_iff)
  ultimately show "from_postorder_index (- 2) = Ok (node_at 63 0)" by (simp only:)
  show "to_postorder_index (node_at 63 0) = (Panic :: (u64, unit) result)"
    by (simp add: to_postorder_index_def inorder_to_postorder_def children_of_node_def bit_isolate sub_chk_if)
  show "from_postorder_index (- 1) = Err InvalidNodeIndex" by (simp add: from_postorder_index_def)
qed

theorem postorder_roundtrip_witness:
  "(\<exists>i. to_postorder_index 5 = (Ok i :: (u64, unit) result) \<and> from_postorder_index i = Ok 5) \<and>
   (\<exists>x. from_postorder_index 5 = Ok x \<and> to_postorder_index x = (Ok 5 :: (u64, unit) result))"
proof -
  have "(5 :: u64) \<noteq> - 1 \<and> 5 \<noteq> node_at 63 0" "(5 :: u64) < - 2" by (simp_all add: node_at_def)
  with postorder_roundtrip show ?thesis by blast
qed

text \<open>
  C36. The iterators over full subtrees end, for every size an accumulator can have. The one over the
  frozen subtrees of an accumulator yields subtrees whose leaves are, in order, exactly all its
  leaves; the one for growing an accumulator yields subtrees that hold exactly the new leaves. No
  step panics.
\<close>

theorem frozen_iterators_end:
  assumes "n \<le> MAX_ACCUMULATOR_LEAVES" "c \<le> n"
  shows "(\<exists>xs. collect FrozenSubTreeIterator_next (FrozenSubTreeIterator_new n) = Some (Ok xs) \<and>
      concat (map leaves_below xs) = [0 ..< unat n]) \<and>
    (\<exists>it xs. FrozenSubtreeSiblingIterator_new c n = Ok it \<and> collect FrozenSubtreeSiblingIterator_next it = Some (Ok xs) \<and>
      concat (map leaves_below xs) = [unat c ..< unat n])"
proof -
  have n: "unat n \<le> 2 ^ 63"
    using assms(1) by (simp add: MAX_ACCUMULATOR_LEAVES_def MAX_ACCUMULATOR_PROOF_DEPTH_def word_le_nat_alt)
  let ?it = "\<lparr>current_num_leaves = c, remaining_new_leaves = n - c\<rparr>"
  have it: "FrozenSubtreeSiblingIterator_new c n = Ok ?it"
    using assms by (simp add: FrozenSubtreeSiblingIterator_new_def sub_chk_if)
  have sum: "unat c + unat (n - c) = unat n" using assms(2) by (simp add: unat_sub word_le_nat_alt)
  have "fssi_inv ?it" using n sum by (simp add: fssi_inv_def)
  moreover have "fsi_inv (FrozenSubTreeIterator_new n)"
    using n by (auto simp: fsi_inv_def FrozenSubTreeIterator_new_def intro!: exI [of _ "64 :: nat"])
  ultimately show ?thesis
    using frozen.collect_ends [of "FrozenSubTreeIterator_new n"] siblings.collect_ends [of ?it] it sum
    by (simp add: FrozenSubTreeIterator_new_def)
qed

theorem frozen_iterators_end_witness:
  "(\<exists>xs. collect FrozenSubTreeIterator_next (FrozenSubTreeIterator_new 5) = Some (Ok xs) \<and>
      concat (map leaves_below xs) = [0, 1, 2, 3, 4]) \<and>
   (\<exists>it xs. FrozenSubtreeSiblingIterator_new 3 5 = Ok it \<and> collect FrozenSubtreeSiblingIterator_next it = Some (Ok xs) \<and>
      concat (map leaves_below xs) = [3, 4])"
proof -
  have "(5 :: u64) \<le> MAX_ACCUMULATOR_LEAVES" "[0 ..< 5] = [0, 1, 2, 3, 4 :: nat]" "[3 ..< 5] = [3, 4 :: nat]"
    by (simp_all add: MAX_ACCUMULATOR_LEAVES_def MAX_ACCUMULATOR_PROOF_DEPTH_def upt_rec)
  with frozen_iterators_end [of 5 3] show ?thesis by simp
qed

end
