(* ===== verification/Entry_Loops.thy ===== *)
theory Entry_Loops
  imports Exec
begin

text \<open>
  The loop \<open>for (key, x) in other { match map.entry(key) { ... } }\<close>, by which the change sets of
  the source are squashed: every entry of a second map changes what a first one holds for its key,
  and nothing else. The locale \<open>entry_loop\<close> is what one turn of such a loop promises, and its
  lemma is what the whole loop then does, key by key.
\<close>

primrec entries_loop :: "('x \<Rightarrow> 's \<Rightarrow> ('s, 'e) result) \<Rightarrow> 'x list \<Rightarrow> 's \<Rightarrow> ('s, 'e) result" where
  "entries_loop turn [] s = Ok s"
| "entries_loop turn (x # xs) s = bind_res (turn x s) (entries_loop turn xs)"

lemma bind_res_assoc: "bind_res (bind_res m f) g = bind_res m (\<lambda>x. bind_res (f x) g)"
  by (cases m) simp_all

text \<open>An entry that is set to what it already holds.\<close>

lemma bt_remove_absent: "map_of m k = None \<Longrightarrow> bt_remove k m = m"
  by (induction k m rule: bt_remove.induct) (auto split: if_splits)

lemma bt_insert_same: "bt_sorted m \<Longrightarrow> map_of m k = Some v \<Longrightarrow> bt_insert k v m = m"
  by (induction k v m rule: bt_insert.induct) (fastforce split: if_splits dest: map_of_SomeD)+

locale entry_loop =
  fixes turn :: "'k \<times> 'w \<Rightarrow> 's \<Rightarrow> ('s, 'e) result"
    and view :: "'s \<Rightarrow> 'k \<Rightarrow> 'v"
    and invar :: "'s \<Rightarrow> bool"
    and upd :: "'v \<Rightarrow> 'w \<Rightarrow> ('v, 'e) result"
  assumes turn_Ok: "invar s \<Longrightarrow> upd (view s k) w = Ok v \<Longrightarrow>
      \<exists>s'. turn (k, w) s = Ok s' \<and> invar s' \<and> view s' = (view s)(k := v)"
    and turn_Err: "invar s \<Longrightarrow> upd (view s k) w = Err e \<Longrightarrow> turn (k, w) s = Err e"
    and turn_Panic: "invar s \<Longrightarrow> upd (view s k) w = Panic \<Longrightarrow> turn (k, w) s = Panic"
begin

lemma loop_Ok:
  assumes "distinct (map fst ws)" "invar s" "\<And>k w. (k, w) \<in> set ws \<Longrightarrow> upd (view s k) w = Ok (f k)"
  shows "\<exists>s'. entries_loop turn ws s = Ok s' \<and> invar s' \<and>
    (\<forall>k. view s' k = (if k \<in> fst ` set ws then f k else view s k))"
  using assms
proof (induction ws arbitrary: s)
  case Nil
  then show ?case by simp
next
  case (Cons x ws)
  obtain k w where x: "x = (k, w)" by (cases x)
  from turn_Ok [OF Cons.prems(2), of k w "f k"] Cons.prems(3) x
  obtain t where t: "turn x s = Ok t" "invar t" "view t = (view s)(k := f k)" by auto
  have "upd (view t k') w' = Ok (f k')" if "(k', w') \<in> set ws" for k' w'
  proof -
    have "k' \<noteq> k" using that Cons.prems(1) x by force
    then show ?thesis using that Cons.prems(3) t(3) by simp
  qed
  from Cons.IH [OF _ t(2) this] Cons.prems(1) t x show ?case by auto
qed

lemma loop_Ok_ex:
  assumes "distinct (map fst ws)" "invar s" "\<And>k w. (k, w) \<in> set ws \<Longrightarrow> \<exists>v. upd (view s k) w = Ok v \<and> P k v"
  shows "\<exists>s'. entries_loop turn ws s = Ok s' \<and> invar s' \<and>
    (\<forall>k. if k \<in> fst ` set ws then P k (view s' k) else view s' k = view s k)"
proof -
  define f where "f k = (SOME v. upd (view s k) (the (map_of ws k)) = Ok v \<and> P k v)" for k
  have f: "upd (view s k) w = Ok (f k) \<and> P k (f k)" if "(k, w) \<in> set ws" for k w
    using someI_ex [OF assms(3) [OF that]] that assms(1) by (simp add: f_def)
  from loop_Ok [OF assms(1,2), of f] f show ?thesis by fastforce
qed

lemma loop_OkD:
  assumes "distinct (map fst ws)" "invar s" "entries_loop turn ws s = Ok s'" "(k, w) \<in> set ws"
  shows "\<exists>v. upd (view s k) w = Ok v"
  using assms
proof (induction ws arbitrary: s)
  case (Cons x ws)
  obtain k0 w0 where x: "x = (k0, w0)" by (cases x)
  from Cons.prems(3) obtain t where t: "turn x s = Ok t" "entries_loop turn ws t = Ok s'"
    by (auto simp: bind_res_Ok_iff)
  then obtain v0 where v0: "upd (view s k0) w0 = Ok v0"
    using turn_Err [OF Cons.prems(2), of k0 w0] turn_Panic [OF Cons.prems(2), of k0 w0] x
    by (cases "upd (view s k0) w0") auto
  show ?case
  proof (cases "(k, w) = (k0, w0)")
    case False
    with Cons.prems(1,4) x have k: "(k, w) \<in> set ws" "k \<noteq> k0" by force+
    from turn_Ok [OF Cons.prems(2) v0] t(1) x have "invar t" "view t = (view s)(k0 := v0)" by auto
    with Cons.IH [OF _ _ t(2) k(1)] Cons.prems(1) k(2) x show ?thesis by auto
  qed (use v0 in auto)
qed simp

lemma loop_Err:
  assumes "distinct (map fst ws)" "invar s" "(k, w) \<in> set ws" "\<nexists>v. upd (view s k) w = Ok v"
  shows "\<nexists>s'. entries_loop turn ws s = Ok s'"
  using loop_OkD [OF assms(1,2) _ assms(3)] assms(4) by blast

end

end
