(* ===== verification/Aggregators.thy ===== *)
theory Aggregators
  imports Entry_Loops
begin

text \<open>
  Aggregators: counters that transactions executed in parallel add to and subtract from without
  reading them (\<open>language/arx-aggregator/src/delta_change_set.rs\<close>,
  \<open>language/arx-aggregator/src/aggregator_extension.rs\<close> and
  \<open>language/framework/src/natives/aggregator_natives/context.rs\<close>). A transaction that does not
  know the value collects a delta, with the largest and smallest value it went through; the delta
  is applied to the value later, and deltas of consecutive transactions are merged.

  Values are 128-bit words. The storage is the parameter \<open>resolve\<close>, from the identifier of an
  aggregator to the bytes stored for it, and the parameter \<open>de\<close> decodes these bytes (BCS).
  Identifiers are of an arbitrary ordered type. Error messages are left out.
\<close>

section \<open>Definitions\<close>

datatype aggregator_error =
    EADD_OVERFLOW
  | ESUB_UNDERFLOW
  | ExtensionError

subsection \<open>Deltas\<close>

datatype delta_update = Plus u128 | Minus u128

record delta_op =
  d_max_positive :: u128
  d_min_negative :: u128
  d_limit :: u128
  d_update :: delta_update

definition DeltaOp_new :: "delta_update \<Rightarrow> u128 \<Rightarrow> u128 \<Rightarrow> u128 \<Rightarrow> delta_op" where
  "DeltaOp_new upd limit max_positive min_negative =
     \<lparr>d_max_positive = max_positive, d_min_negative = min_negative, d_limit = limit, d_update = upd\<rparr>"

definition addition :: "u128 \<Rightarrow> u128 \<Rightarrow> u128 \<Rightarrow> (u128, aggregator_error) result" where
  "addition base v limit =
     (if limit < base then Err EADD_OVERFLOW
      else bind_res (sub_chk limit base) (\<lambda>room.
        if v > room then Err EADD_OVERFLOW else add_chk base v))"

definition subtraction :: "u128 \<Rightarrow> u128 \<Rightarrow> (u128, aggregator_error) result" where
  "subtraction base v = (if v > base then Err ESUB_UNDERFLOW else sub_chk base v)"

definition unwrap_or :: "('a, 'e) result \<Rightarrow> 'a \<Rightarrow> ('a, 'e) result" where
  "unwrap_or r d = (case r of Ok x \<Rightarrow> Ok x | Err _ \<Rightarrow> Ok d | Panic \<Rightarrow> Panic)"

definition apply_to :: "delta_op \<Rightarrow> u128 \<Rightarrow> (u128, aggregator_error) result" where
  "apply_to d base =
     bind_res (addition base (d_max_positive d) (d_limit d)) (\<lambda>_.
     bind_res (subtraction base (d_min_negative d)) (\<lambda>_.
     case d_update d of
       Plus v \<Rightarrow> addition base v (d_limit d)
     | Minus v \<Rightarrow> subtraction base v))"

definition shifted_max_positive_by :: "delta_op \<Rightarrow> delta_op \<Rightarrow> (u128, aggregator_error) result" where
  "shifted_max_positive_by self delta = (case d_update delta of
     Plus v \<Rightarrow> addition v (d_max_positive self) (d_limit self)
   | Minus v \<Rightarrow> unwrap_or (subtraction (d_max_positive self) v) 0)"

definition shifted_min_negative_by :: "delta_op \<Rightarrow> delta_op \<Rightarrow> (u128, aggregator_error) result" where
  "shifted_min_negative_by self delta = (case d_update delta of
     Plus v \<Rightarrow> unwrap_or (subtraction (d_min_negative self) v) 0
   | Minus v \<Rightarrow> addition v (d_min_negative self) (d_limit self))"

definition update_same_sign ::
  "(u128 \<Rightarrow> delta_update) \<Rightarrow> u128 \<Rightarrow> u128 \<Rightarrow> u128 \<Rightarrow> (delta_update, aggregator_error) result" where
  "update_same_sign sign a b limit = bind_res (addition a b limit) (\<lambda>v. Ok (sign v))"

definition update_different_sign :: "u128 \<Rightarrow> u128 \<Rightarrow> (delta_update, aggregator_error) result" where
  "update_different_sign a b =
     (if a \<ge> b then bind_res (subtraction a b) (\<lambda>v. Ok (Plus v))
      else bind_res (subtraction b a) (\<lambda>v. Ok (Minus v)))"

definition merge_onto :: "delta_op \<Rightarrow> delta_op \<Rightarrow> (delta_op, aggregator_error) result" where
  "merge_onto self previous_delta =
     bind_res (shifted_max_positive_by self previous_delta) (\<lambda>shifted_max_positive.
     bind_res (shifted_min_negative_by self previous_delta) (\<lambda>shifted_min_negative.
     bind_res (case d_update previous_delta of
         Plus prev_value \<Rightarrow> (case d_update self of
             Plus self_value \<Rightarrow> update_same_sign Plus prev_value self_value (d_limit self)
           | Minus self_value \<Rightarrow> update_different_sign prev_value self_value)
       | Minus prev_value \<Rightarrow> (case d_update self of
             Plus self_value \<Rightarrow> update_different_sign self_value prev_value
           | Minus self_value \<Rightarrow> update_same_sign Minus prev_value self_value (d_limit self))) (\<lambda>upd.
     Ok (self\<lparr>d_update := upd,
              d_max_positive := max (d_max_positive previous_delta) shifted_max_positive,
              d_min_negative := max (d_min_negative previous_delta) shifted_min_negative\<rparr>))))"

subsection \<open>Aggregators of a transaction\<close>

datatype aggregator_state = Data | PositiveDelta | NegativeDelta

record history =
  h_max_positive :: u128
  h_min_negative :: u128

definition History_new :: history where
  "History_new = \<lparr>h_max_positive = 0, h_min_negative = 0\<rparr>"

definition record_positive :: "u128 \<Rightarrow> history \<Rightarrow> history" where
  "record_positive v h = h\<lparr>h_max_positive := max (h_max_positive h) v\<rparr>"

definition record_negative :: "u128 \<Rightarrow> history \<Rightarrow> history" where
  "record_negative v h = h\<lparr>h_min_negative := max (h_min_negative h) v\<rparr>"

record aggregator =
  a_value :: u128
  a_state :: aggregator_state
  a_limit :: u128
  a_history :: "history option"

definition record_history :: "aggregator \<Rightarrow> (aggregator, aggregator_error) result" where
  "record_history a = (case a_history a of
     None \<Rightarrow> Ok a
   | Some h \<Rightarrow> (case a_state a of
         PositiveDelta \<Rightarrow> Ok (a\<lparr>a_history := Some (record_positive (a_value a) h)\<rparr>)
       | NegativeDelta \<Rightarrow> Ok (a\<lparr>a_history := Some (record_negative (a_value a) h)\<rparr>)
       | Data \<Rightarrow> Panic))"

definition Aggregator_add :: "u128 \<Rightarrow> aggregator \<Rightarrow> (aggregator, aggregator_error) result" where
  "Aggregator_add v a = (case a_state a of
     Data \<Rightarrow> bind_res (addition (a_value a) v (a_limit a)) (\<lambda>x. Ok (a\<lparr>a_value := x\<rparr>))
   | PositiveDelta \<Rightarrow>
       bind_res (addition (a_value a) v (a_limit a)) (\<lambda>x. record_history (a\<lparr>a_value := x\<rparr>))
   | NegativeDelta \<Rightarrow>
       if a_value a \<le> v
       then bind_res (subtraction v (a_value a)) (\<lambda>x. record_history (a\<lparr>a_value := x, a_state := PositiveDelta\<rparr>))
       else bind_res (subtraction (a_value a) v) (\<lambda>x. record_history (a\<lparr>a_value := x\<rparr>)))"

definition Aggregator_sub :: "u128 \<Rightarrow> aggregator \<Rightarrow> (aggregator, aggregator_error) result" where
  "Aggregator_sub v a = (case a_state a of
     Data \<Rightarrow> bind_res (subtraction (a_value a) v) (\<lambda>x. Ok (a\<lparr>a_value := x\<rparr>))
   | PositiveDelta \<Rightarrow>
       if a_value a \<ge> v
       then bind_res (subtraction (a_value a) v) (\<lambda>x. record_history (a\<lparr>a_value := x\<rparr>))
       else bind_res (subtraction (a_limit a) v) (\<lambda>_.
            bind_res (subtraction v (a_value a)) (\<lambda>x. record_history (a\<lparr>a_value := x, a_state := NegativeDelta\<rparr>)))
   | NegativeDelta \<Rightarrow>
       bind_res (addition (a_value a) v (a_limit a)) (\<lambda>x. record_history (a\<lparr>a_value := x\<rparr>)))"

definition read_and_materialize ::
  "('id \<Rightarrow> ('bytes option, unit) result) \<Rightarrow> ('bytes \<Rightarrow> u128 option) \<Rightarrow> 'id \<Rightarrow> aggregator \<Rightarrow>
   (u128 \<times> aggregator, aggregator_error) result" where
  "read_and_materialize resolve de aid a =
     (if a_state a = Data then Ok (a_value a, a)
      else bind_res (map_err (\<lambda>_. ExtensionError) (resolve aid)) (\<lambda>entry.
        case entry of
          None \<Rightarrow> Err ExtensionError
        | Some bytes \<Rightarrow>
            bind_res (or_panic (de bytes)) (\<lambda>value_from_storage.
            bind_res (or_panic (a_history a)) (\<lambda>h.
            bind_res (addition value_from_storage (h_max_positive h) (a_limit a)) (\<lambda>_.
            bind_res (subtraction value_from_storage (h_min_negative h)) (\<lambda>_.
            bind_res (case a_state a of
                PositiveDelta \<Rightarrow> addition value_from_storage (a_value a) (a_limit a)
              | NegativeDelta \<Rightarrow> subtraction value_from_storage (a_value a)
              | Data \<Rightarrow> Panic) (\<lambda>x.
            Ok (x, a\<lparr>a_value := x, a_state := Data, a_history := None\<rparr>))))))))"

record 'id aggregator_data =
  new_aggregators :: "'id set"
  destroyed_aggregators :: "'id set"
  aggregators :: "('id, aggregator) btree_map"

definition delta_aggregator :: "u128 \<Rightarrow> aggregator" where
  "delta_aggregator limit = \<lparr>a_value = 0, a_state = PositiveDelta, a_limit = limit, a_history = Some History_new\<rparr>"

definition get_aggregator :: "'id::linorder \<Rightarrow> u128 \<Rightarrow> 'id aggregator_data \<Rightarrow> 'id aggregator_data" where
  "get_aggregator aid limit ad = ad\<lparr>aggregators := bt_or_insert aid (delta_aggregator limit) (aggregators ad)\<rparr>"

definition create_new_aggregator :: "'id::linorder \<Rightarrow> u128 \<Rightarrow> 'id aggregator_data \<Rightarrow> 'id aggregator_data" where
  "create_new_aggregator aid limit ad =
     ad\<lparr>aggregators := bt_insert aid \<lparr>a_value = 0, a_state = Data, a_limit = limit, a_history = None\<rparr> (aggregators ad),
        new_aggregators := insert aid (new_aggregators ad)\<rparr>"

definition remove_aggregator :: "'id::linorder \<Rightarrow> 'id aggregator_data \<Rightarrow> 'id aggregator_data" where
  "remove_aggregator aid ad =
     (let ad = ad\<lparr>aggregators := bt_remove aid (aggregators ad)\<rparr> in
      if aid \<in> new_aggregators ad then ad\<lparr>new_aggregators := new_aggregators ad - {aid}\<rparr>
      else ad\<lparr>destroyed_aggregators := insert aid (destroyed_aggregators ad)\<rparr>)"

subsection \<open>Changes of a transaction\<close>

datatype aggregator_change = Write u128 | Merge delta_op | Delete

definition change_of :: "aggregator \<Rightarrow> (aggregator_change, aggregator_error) result" where
  "change_of a = (case a_state a of
     Data \<Rightarrow> Ok (Write (a_value a))
   | PositiveDelta \<Rightarrow> bind_res (or_panic (a_history a)) (\<lambda>h.
       Ok (Merge (DeltaOp_new (Plus (a_value a)) (a_limit a) (h_max_positive h) (h_min_negative h))))
   | NegativeDelta \<Rightarrow> bind_res (or_panic (a_history a)) (\<lambda>h.
       Ok (Merge (DeltaOp_new (Minus (a_value a)) (a_limit a) (h_max_positive h) (h_min_negative h)))))"

fun changes_of ::
  "('id::linorder, aggregator) btree_map \<Rightarrow> (('id, aggregator_change) btree_map, aggregator_error) result" where
  "changes_of [] = Ok []"
| "changes_of ((aid, a) # rest) = bind_res (change_of a) (\<lambda>c. bind_res (changes_of rest) (\<lambda>m. Ok (bt_insert aid c m)))"

definition into_change_set ::
  "'id::linorder aggregator_data \<Rightarrow> (('id, aggregator_change) btree_map, aggregator_error) result" where
  "into_change_set ad = bind_res (changes_of (aggregators ad)) (\<lambda>m.
     Ok (fold (\<lambda>aid. bt_insert aid Delete) (sorted_list_of_set (destroyed_aggregators ad)) m))"

definition squash_change :: "aggregator_change \<Rightarrow> aggregator_change \<Rightarrow> (aggregator_change, aggregator_error) result" where
  "squash_change old other = (case (old, other) of
     (Delete, _) \<Rightarrow> Panic
   | (_, Write v) \<Rightarrow> Ok (Write v)
   | (_, Delete) \<Rightarrow> Ok Delete
   | (Write v, Merge delta) \<Rightarrow> bind_res (apply_to delta v) (\<lambda>x. Ok (Write x))
   | (Merge delta1, Merge delta2) \<Rightarrow> bind_res (merge_onto delta2 delta1) (\<lambda>d. Ok (Merge d)))"

definition squash_entry ::
  "'id::linorder \<times> aggregator_change \<Rightarrow> ('id, aggregator_change) btree_map \<Rightarrow>
   (('id, aggregator_change) btree_map, aggregator_error) result" where
  "squash_entry = (\<lambda>(other_id, other_change) changes.
     bind_res (case map_of changes other_id of
         None \<Rightarrow> Ok other_change
       | Some entry \<Rightarrow> squash_change entry other_change)
     (\<lambda>c. Ok (bt_insert other_id c changes)))"

fun squash ::
  "('id::linorder, aggregator_change) btree_map \<Rightarrow> (('id, aggregator_change) btree_map, unit, aggregator_error) exec" where
  "squash [] changes = (Ok (), changes)"
| "squash (other # rest) changes =
     (case squash_entry other changes of
        Ok changes' \<Rightarrow> squash rest changes'
      | Err e \<Rightarrow> (Err e, changes)
      | Panic \<Rightarrow> (Panic, changes))"

subsection \<open>Runs\<close>

text \<open>The additions and subtractions a transaction makes on one aggregator, up to the first error.\<close>

datatype agg_op = AggAdd u128 | AggSub u128

primrec agg_exec :: "agg_op \<Rightarrow> aggregator \<Rightarrow> (aggregator, aggregator_error) result" where
  "agg_exec (AggAdd v) a = Aggregator_add v a"
| "agg_exec (AggSub v) a = Aggregator_sub v a"

primrec agg_run :: "agg_op list \<Rightarrow> aggregator \<Rightarrow> (aggregator, aggregator_error) result" where
  "agg_run [] a = Ok a"
| "agg_run (op # ops) a = bind_res (agg_exec op a) (agg_run ops)"

definition data_aggregator :: "u128 \<Rightarrow> u128 \<Rightarrow> aggregator" where
  "data_aggregator limit v = \<lparr>a_value = v, a_state = Data, a_limit = limit, a_history = None\<rparr>"

section \<open>Lemmas\<close>

declare of_nat_unat [simp del]

lemma addition_Ok [res_iff]:
  "addition b v l = Ok r \<longleftrightarrow> unat b + unat v \<le> unat l \<and> unat r = unat b + unat v"
proof -
  have "v \<le> l - b \<longleftrightarrow> unat b + unat v \<le> unat l" if "b \<le> l"
    using that by (simp add: word_le_nat_alt unat_sub le_diff_conv2 add.commute)
  moreover have "unat b + unat v < 2 ^ 128" if "unat b + unat v \<le> unat l" using that unat_below [of l] by simp
  ultimately show ?thesis
    by (auto simp: addition_def sub_chk_if add_chk_Ok_iff not_less not_le word_le_nat_alt word_less_nat_alt)
qed

lemma subtraction_Ok [res_iff]: "subtraction b v = Ok r \<longleftrightarrow> unat b = unat r + unat v"
  by (auto simp: subtraction_def sub_chk_Ok_iff word_less_nat_alt)

lemma addition_not_Panic [simp]: "addition b v l \<noteq> Panic"
proof
  assume p: "addition b v l = Panic"
  then have "b \<le> l" "v \<le> l - b" by (auto simp: addition_def sub_chk_if not_less split: if_splits)
  then have "unat b + unat v \<le> unat l" by (simp add: word_le_nat_alt unat_sub le_diff_conv2 add.commute)
  moreover have "unat b + unat v < 2 ^ LENGTH(128)" using calculation unat_below [of l] by simp
  ultimately have "addition b v l = Ok (b + v)" unfolding addition_Ok by (simp add: unat_add_no_wrap)
  with p show False by simp
qed

lemma subtraction_not_Panic [simp]: "subtraction b v \<noteq> Panic"
  by (auto simp: subtraction_def sub_chk_if)

text \<open>A delta that was observed: its final value is within the values it went through.\<close>

definition delta_wf :: "delta_op \<Rightarrow> bool" where
  "delta_wf d \<longleftrightarrow> (case d_update d of Plus v \<Rightarrow> v \<le> d_max_positive d | Minus v \<Rightarrow> v \<le> d_min_negative d)"

lemma addition_ex: "(\<exists>r. addition b v l = Ok r) \<longleftrightarrow> unat b + unat v \<le> unat l"
proof
  assume "unat b + unat v \<le> unat l"
  moreover have "unat b + unat v < 2 ^ LENGTH(128)" using calculation unat_below [of l] by simp
  ultimately have "addition b v l = Ok (b + v)" unfolding addition_Ok by (simp add: unat_add_no_wrap)
  then show "\<exists>r. addition b v l = Ok r" by blast
qed (auto simp: addition_Ok)

lemma subtraction_ex: "(\<exists>r. subtraction b v = Ok r) \<longleftrightarrow> unat v \<le> unat b"
proof
  assume "unat v \<le> unat b"
  then have "subtraction b v = Ok (b - v)" unfolding subtraction_Ok by (simp add: unat_sub word_le_nat_alt)
  then show "\<exists>r. subtraction b v = Ok r" by blast
qed (auto simp: subtraction_Ok)

lemma apply_to_Ok:
  assumes "delta_wf d"
  shows "apply_to d b = Ok r \<longleftrightarrow>
    unat b + unat (d_max_positive d) \<le> unat (d_limit d) \<and> unat (d_min_negative d) \<le> unat b \<and>
    (case d_update d of Plus v \<Rightarrow> unat r = unat b + unat v | Minus v \<Rightarrow> unat b = unat r + unat v)"
proof -
  have "apply_to d b = Ok r \<longleftrightarrow> (\<exists>x. addition b (d_max_positive d) (d_limit d) = Ok x) \<and>
      (\<exists>x. subtraction b (d_min_negative d) = Ok x) \<and>
      (case d_update d of Plus v \<Rightarrow> addition b v (d_limit d) = Ok r | Minus v \<Rightarrow> subtraction b v = Ok r)"
    by (auto simp: apply_to_def bind_res_Ok_iff split: delta_update.splits)
  from this [unfolded addition_ex subtraction_ex] show ?thesis using assms
    by (auto simp: delta_wf_def word_le_nat_alt res_iff split: delta_update.splits)
qed

lemma unwrap_or_subtraction: "unwrap_or (subtraction a v) 0 = Ok m \<longleftrightarrow> unat m = unat a - unat v"
proof (cases "unat v \<le> unat a")
  case True
  then obtain x where x: "subtraction a v = Ok x" using subtraction_ex by blast
  then have "unat a = unat x + unat v" by (simp only: subtraction_Ok)
  then show ?thesis using x by (auto simp: unwrap_or_def word_unat_eq_iff)
next
  case False
  then have "subtraction a v = Err ESUB_UNDERFLOW" by (simp add: subtraction_def word_less_nat_alt)
  then show ?thesis using False by (auto simp: unwrap_or_def unat_eq_zero)
qed

text \<open>The signed number a delta adds, and what merging computes with it.\<close>

primrec delta_val :: "delta_update \<Rightarrow> int" where
  "delta_val (Plus v) = int (unat v)"
| "delta_val (Minus v) = - int (unat v)"

lemma update_different_sign_Ok:
  "\<exists>u. update_different_sign a b = Ok u \<and> delta_val u = int (unat a) - int (unat b)"
proof (cases "b \<le> a")
  case True
  then obtain x where x: "subtraction a b = Ok x" using subtraction_ex word_le_nat_alt by blast
  then have "unat a = unat x + unat b" by (simp only: subtraction_Ok)
  then show ?thesis using True x by (simp add: update_different_sign_def)
next
  case False
  then obtain x where x: "subtraction b a = Ok x" using subtraction_ex [of b a] by (auto simp: word_le_nat_alt)
  then have "unat b = unat x + unat a" by (simp only: subtraction_Ok)
  then show ?thesis using False x by (simp add: update_different_sign_def)
qed

lemma update_same_sign_Ok:
  "update_same_sign f a b l = Ok u \<longleftrightarrow> (\<exists>x. u = f x \<and> unat a + unat b \<le> unat l \<and> unat x = unat a + unat b)"
  by (auto simp: update_same_sign_def res_iff)

lemma apply_to_val:
  assumes "delta_wf d"
  shows "apply_to d b = Ok r \<longleftrightarrow>
    unat b + unat (d_max_positive d) \<le> unat (d_limit d) \<and> unat (d_min_negative d) \<le> unat b \<and>
    int (unat r) = int (unat b) + delta_val (d_update d)"
  using apply_to_Ok [OF assms] by (auto split: delta_update.splits)

definition shift_fits :: "delta_op \<Rightarrow> delta_op \<Rightarrow> bool" where
  "shift_fits d1 d2 \<longleftrightarrow> (case d_update d1 of
     Plus v \<Rightarrow> unat v + unat (d_max_positive d2) \<le> unat (d_limit d2)
   | Minus v \<Rightarrow> unat v + unat (d_min_negative d2) \<le> unat (d_limit d2))"

lemma merge_onto_Ok:
  assumes "delta_wf d2" "shift_fits d1 d2"
  shows "\<exists>m. merge_onto d2 d1 = Ok m \<and> d_limit m = d_limit d2 \<and>
    delta_val (d_update m) = delta_val (d_update d1) + delta_val (d_update d2) \<and>
    int (unat (d_max_positive m)) = max (int (unat (d_max_positive d1))) (max 0 (int (unat (d_max_positive d2)) + delta_val (d_update d1))) \<and>
    int (unat (d_min_negative m)) = max (int (unat (d_min_negative d1))) (max 0 (int (unat (d_min_negative d2)) - delta_val (d_update d1)))"
proof -
  have clip: "\<exists>x. unwrap_or (subtraction a v) 0 = Ok x \<and> int (unat x) = max 0 (int (unat a) - int (unat v))" for a v
  proof -
    have "\<exists>x :: u128. unat x = unat a - unat v"
      using unat_of_nat_below [of "unat a - unat v", where 'a = 128] unat_below [of a] by (metis less_imp_diff_less)
    then obtain x where "unwrap_or (subtraction a v) 0 = Ok x" "unat x = unat a - unat v" unfolding unwrap_or_subtraction by blast
    then show ?thesis by (auto simp: max_def)
  qed
  have sum: "\<exists>x. addition a v l = Ok x \<and> int (unat x) = int (unat a) + int (unat v)" if "unat a + unat v \<le> unat l" for a v l
    using that addition_ex [of a v l] by (auto simp: addition_Ok)
  obtain M where M: "shifted_max_positive_by d2 d1 = Ok M"
    "int (unat M) = max 0 (int (unat (d_max_positive d2)) + delta_val (d_update d1))"
  proof (cases "d_update d1")
    case (Plus v)
    then show ?thesis using sum [of v "d_max_positive d2" "d_limit d2"] assms(2) that
      by (auto simp: shifted_max_positive_by_def shift_fits_def)
  next
    case (Minus v)
    then show ?thesis using clip [of "d_max_positive d2" v] that by (auto simp: shifted_max_positive_by_def)
  qed
  obtain N where N: "shifted_min_negative_by d2 d1 = Ok N"
    "int (unat N) = max 0 (int (unat (d_min_negative d2)) - delta_val (d_update d1))"
  proof (cases "d_update d1")
    case (Plus v)
    then show ?thesis using clip [of "d_min_negative d2" v] that by (auto simp: shifted_min_negative_by_def)
  next
    case (Minus v)
    then show ?thesis using sum [of v "d_min_negative d2" "d_limit d2"] assms(2) that
      by (auto simp: shifted_min_negative_by_def shift_fits_def)
  qed
  have same: "\<exists>x. update_same_sign f a v l = Ok (f x) \<and> int (unat x) = int (unat a) + int (unat v)"
    if "unat a + unat v \<le> unat l" for f a v l
    using sum [OF that] by (auto simp: update_same_sign_def)
  let ?upd = "case d_update d1 of
         Plus prev_value \<Rightarrow> (case d_update d2 of
             Plus self_value \<Rightarrow> update_same_sign Plus prev_value self_value (d_limit d2)
           | Minus self_value \<Rightarrow> update_different_sign prev_value self_value)
       | Minus prev_value \<Rightarrow> (case d_update d2 of
             Plus self_value \<Rightarrow> update_different_sign self_value prev_value
           | Minus self_value \<Rightarrow> update_same_sign Minus prev_value self_value (d_limit d2))"
  obtain u where u: "?upd = Ok u" "delta_val u = delta_val (d_update d1) + delta_val (d_update d2)"
  proof (cases "d_update d1"; cases "d_update d2")
    fix v w assume c: "d_update d1 = Plus v" "d_update d2 = Plus w"
    then have "unat v + unat w \<le> unat (d_limit d2)" using assms by (auto simp: shift_fits_def delta_wf_def word_le_nat_alt)
    from same [OF this, of Plus] show ?thesis using c that by auto
  next
    fix v w assume c: "d_update d1 = Minus v" "d_update d2 = Minus w"
    then have "unat v + unat w \<le> unat (d_limit d2)" using assms by (auto simp: shift_fits_def delta_wf_def word_le_nat_alt)
    from same [OF this, of Minus] show ?thesis using c that by auto
  qed (use that update_different_sign_Ok in fastforce)+
  have "int (unat (max a b)) = max (int (unat a)) (int (unat b))" for a b :: u128
    by (simp add: max_def word_le_nat_alt)
  then show ?thesis using M N u by (auto simp: merge_onto_def)
qed

lemma merge_onto_Err:
  assumes "\<not> shift_fits d1 d2"
  shows "\<exists>e. merge_onto d2 d1 = Err e"
proof -
  have err: "\<exists>e. addition a v l = Err e" if "\<not> unat a + unat v \<le> unat l" for a v l
    using that addition_ex [of a v l] by (cases "addition a v l") auto
  have ok: "\<exists>x. unwrap_or (subtraction a v) 0 = Ok x" for a v
    by (cases "subtraction a v") (auto simp: unwrap_or_def)
  show ?thesis
  proof (cases "d_update d1")
    case (Plus v)
    then obtain e where "addition v (d_max_positive d2) (d_limit d2) = Err e"
      using assms err [of v "d_max_positive d2" "d_limit d2"] by (auto simp: shift_fits_def)
    then show ?thesis using Plus by (simp add: merge_onto_def shifted_max_positive_by_def)
  next
    case (Minus v)
    then obtain e where "addition v (d_min_negative d2) (d_limit d2) = Err e"
      using assms err [of v "d_min_negative d2" "d_limit d2"] by (auto simp: shift_fits_def)
    moreover obtain x where "unwrap_or (subtraction (d_max_positive d2) v) 0 = Ok x" using ok by blast
    ultimately show ?thesis using Minus by (simp add: merge_onto_def shifted_max_positive_by_def shifted_min_negative_by_def)
  qed
qed

lemma delta_wf_val:
  "delta_wf d \<longleftrightarrow> delta_val (d_update d) \<le> int (unat (d_max_positive d)) \<and> - delta_val (d_update d) \<le> int (unat (d_min_negative d))"
  by (cases "d_update d") (auto simp: delta_wf_def word_le_nat_alt intro: order_trans [of _ 0])

lemma merge_exact:
  assumes wf: "delta_wf d1" "delta_wf d2" and lim: "d_limit d1 = d_limit d2"
  shows "(\<exists>x. apply_to d1 b = Ok x \<and> apply_to d2 x = Ok r) \<longleftrightarrow> (\<exists>m. merge_onto d2 d1 = Ok m \<and> apply_to m b = Ok r)"
    "merge_onto d2 d1 = Ok m \<Longrightarrow> delta_wf m \<and> d_limit m = d_limit d1"
proof -
  let ?s1 = "delta_val (d_update d1)" and ?s2 = "delta_val (d_update d2)"
  have one: "(\<exists>x. apply_to d1 b = Ok x \<and> apply_to d2 x = Ok r) \<longleftrightarrow>
      unat b + unat (d_max_positive d1) \<le> unat (d_limit d1) \<and> unat (d_min_negative d1) \<le> unat b \<and>
      int (unat b) + ?s1 + int (unat (d_max_positive d2)) \<le> int (unat (d_limit d1)) \<and>
      int (unat (d_min_negative d2)) \<le> int (unat b) + ?s1 \<and> int (unat r) = int (unat b) + ?s1 + ?s2" (is "_ \<longleftrightarrow> ?rhs")
  proof
    assume "\<exists>x. apply_to d1 b = Ok x \<and> apply_to d2 x = Ok r"
    then show ?rhs unfolding apply_to_val [OF wf(1)] apply_to_val [OF wf(2)] lim by (elim exE conjE) linarith
  next
    assume r: ?rhs
    define n where "n = nat (int (unat b) + ?s1)"
    have n: "int n = int (unat b) + ?s1" using r by (simp add: n_def)
    then have "n \<le> unat (d_limit d1)" using r by linarith
    then have "n < 2 ^ LENGTH(128)" using unat_below [of "d_limit d1"] by (rule le_less_trans)
    then have "unat (of_nat n :: u128) = n" by (rule unat_of_nat_below)
    then show "\<exists>x. apply_to d1 b = Ok x \<and> apply_to d2 x = Ok r"
      using r n lim unfolding apply_to_val [OF wf(1)] apply_to_val [OF wf(2)] by (intro exI [of _ "of_nat n"]) simp
  qed
  have merged: "delta_wf m \<and> d_limit m = d_limit d1 \<and> (apply_to m b = Ok r \<longleftrightarrow> (\<exists>x. apply_to d1 b = Ok x \<and> apply_to d2 x = Ok r))"
    if "merge_onto d2 d1 = Ok m" for m
  proof -
    have "shift_fits d1 d2" using merge_onto_Err that by fastforce
    from merge_onto_Ok [OF wf(2) this] that have m: "d_limit m = d_limit d2" "delta_val (d_update m) = ?s1 + ?s2"
      "int (unat (d_max_positive m)) = max (int (unat (d_max_positive d1))) (max 0 (int (unat (d_max_positive d2)) + ?s1))"
      "int (unat (d_min_negative m)) = max (int (unat (d_min_negative d1))) (max 0 (int (unat (d_min_negative d2)) - ?s1))"
      by auto
    have wfm: "delta_wf m" using wf m unfolding delta_wf_val by linarith
    have hi: "unat b + unat (d_max_positive m) \<le> unat (d_limit m) \<longleftrightarrow> unat b + unat (d_max_positive d1) \<le> unat (d_limit d1) \<and>
        int (unat b) + ?s1 + int (unat (d_max_positive d2)) \<le> int (unat (d_limit d1))"
      using m(1,3) lim by (intro iffI conjI) (simp_all, linarith+)
    have lo: "unat (d_min_negative m) \<le> unat b \<longleftrightarrow> unat (d_min_negative d1) \<le> unat b \<and>
        int (unat (d_min_negative d2)) \<le> int (unat b) + ?s1"
      using m(4) by (intro iffI conjI) linarith+
    show ?thesis using wfm m(1,2) lim unfolding apply_to_val [OF wfm] one hi lo by auto
  qed
  then show "merge_onto d2 d1 = Ok m \<Longrightarrow> delta_wf m \<and> d_limit m = d_limit d1" by blast
  show "(\<exists>x. apply_to d1 b = Ok x \<and> apply_to d2 x = Ok r) \<longleftrightarrow> (\<exists>m. merge_onto d2 d1 = Ok m \<and> apply_to m b = Ok r)"
  proof (cases "shift_fits d1 d2")
    case True
    then show ?thesis using merge_onto_Ok [OF wf(2) True] merged by blast
  next
    case False
    then have "\<not> (\<exists>x. apply_to d1 b = Ok x \<and> apply_to d2 x = Ok r)" unfolding one using lim
      by (cases "d_update d1") (auto simp: shift_fits_def)
    then show ?thesis using merge_onto_Err [OF False] by auto
  qed
qed

subsection \<open>Deltas and values\<close>

primrec op_val :: "agg_op \<Rightarrow> int" where
  "op_val (AggAdd v) = int (unat v)"
| "op_val (AggSub v) = - int (unat v)"

definition agg_delta :: "aggregator \<Rightarrow> history \<Rightarrow> delta_op" where
  "agg_delta a h = DeltaOp_new ((if a_state a = NegativeDelta then Minus else Plus) (a_value a)) (a_limit a)
     (h_max_positive h) (h_min_negative h)"

lemma change_of_delta:
  "a_state a \<noteq> Data \<Longrightarrow> a_history a = Some h \<Longrightarrow> change_of a = Ok (Merge (agg_delta a h))"
  by (cases "a_state a") (simp_all add: change_of_def agg_delta_def or_panic_def)

lemma read_delta:
  assumes "a_state a \<noteq> Data" "a_history a = Some h" "resolve aid = Ok (Some bytes)" "de bytes = Some base"
  shows "(\<exists>a'. read_and_materialize resolve de aid a = Ok (r, a')) \<longleftrightarrow> apply_to (agg_delta a h) base = Ok r"
  using assms by (cases "a_state a") (auto simp: read_and_materialize_def apply_to_def agg_delta_def DeltaOp_new_def
    or_panic_def bind_res_Ok_iff)

text \<open>The value of a delta after an operation, and the operations that are refused at once.\<close>

definition op_refused :: "agg_op \<Rightarrow> aggregator \<Rightarrow> bool" where
  "op_refused op a \<longleftrightarrow> (case op of
     AggAdd v \<Rightarrow> a_state a = PositiveDelta \<and> unat (a_limit a) < unat (a_value a) + unat v
   | AggSub v \<Rightarrow> (if a_state a = PositiveDelta then unat (a_value a) < unat v \<and> unat (a_limit a) < unat v
       else unat (a_limit a) < unat (a_value a) + unat v))"

lemma additionD: "unat a + unat v \<le> unat l \<Longrightarrow> \<exists>x. addition a v l = Ok x \<and> unat x = unat a + unat v"
  using addition_ex [of a v l] by (auto simp: addition_Ok)

lemma subtractionD: "unat v \<le> unat a \<Longrightarrow> \<exists>x. subtraction a v = Ok x \<and> unat x = unat a - unat v"
  using subtraction_ex [of a v] by (auto simp: subtraction_Ok)

lemma unat_max_int: "int (unat (max a b)) = max (int (unat a)) (int (unat b))" for a b :: u128
  by (simp add: max_def word_le_nat_alt)

definition agg_val :: "aggregator \<Rightarrow> int" where
  "agg_val a = (if a_state a = NegativeDelta then - int (unat (a_value a)) else int (unat (a_value a)))"

lemma agg_delta_val [simp]: "delta_val (d_update (agg_delta a h)) = agg_val a"
  by (simp add: agg_delta_def DeltaOp_new_def agg_val_def)

lemma record_history_val:
  assumes "a_state b \<noteq> Data" "a_history b = Some h"
  shows "\<exists>a' h'. record_history b = Ok a' \<and> a_state a' \<noteq> Data \<and> a_history a' = Some h' \<and> a_limit a' = a_limit b \<and>
    agg_val a' = agg_val b \<and> int (unat (h_max_positive h')) = max (int (unat (h_max_positive h))) (agg_val b) \<and>
    int (unat (h_min_negative h')) = max (int (unat (h_min_negative h))) (- agg_val b)"
  using assms by (cases "a_state b")
    (auto simp: record_history_def record_positive_def record_negative_def agg_val_def unat_max_int max_def word_le_nat_alt)

lemma agg_exec_delta:
  assumes st: "a_state a \<noteq> Data" and h: "a_history a = Some h" and ok: "\<not> op_refused op a"
  defines "s \<equiv> agg_val a + op_val op"
  shows "\<exists>a' h'. agg_exec op a = Ok a' \<and> a_state a' \<noteq> Data \<and> a_history a' = Some h' \<and> a_limit a' = a_limit a \<and>
    agg_val a' = s \<and> int (unat (h_max_positive h')) = max (int (unat (h_max_positive h))) s \<and>
    int (unat (h_min_negative h')) = max (int (unat (h_min_negative h))) (- s)"
proof -
  have "\<exists>b. agg_exec op a = record_history b \<and> a_state b \<noteq> Data \<and> a_history b = Some h \<and> a_limit b = a_limit a \<and> agg_val b = s"
  proof (cases op)
    case (AggAdd v)
    show ?thesis
    proof (cases "a_state a")
      case PositiveDelta
      with ok AggAdd obtain x where "addition (a_value a) v (a_limit a) = Ok x" "unat x = unat (a_value a) + unat v"
        using additionD [of "a_value a" v "a_limit a"] by (auto simp: op_refused_def)
      then show ?thesis using PositiveDelta AggAdd h
        by (intro exI [of _ "a\<lparr>a_value := x\<rparr>"]) (simp add: Aggregator_add_def agg_val_def s_def)
    next
      case NegativeDelta
      show ?thesis
      proof (cases "a_value a \<le> v")
        case True
        then obtain x where "subtraction v (a_value a) = Ok x" "unat x = unat v - unat (a_value a)" "unat (a_value a) \<le> unat v"
          using subtractionD [of "a_value a" v] by (auto simp: word_le_nat_alt)
        then show ?thesis using NegativeDelta AggAdd h True
          by (intro exI [of _ "a\<lparr>a_value := x, a_state := PositiveDelta\<rparr>"]) (simp add: Aggregator_add_def agg_val_def s_def)
      next
        case False
        then obtain x where "subtraction (a_value a) v = Ok x" "unat x = unat (a_value a) - unat v" "unat v \<le> unat (a_value a)"
          using subtractionD [of v "a_value a"] by (auto simp: word_le_nat_alt)
        then show ?thesis using NegativeDelta AggAdd h False
          by (intro exI [of _ "a\<lparr>a_value := x\<rparr>"]) (simp add: Aggregator_add_def agg_val_def s_def)
      qed
    qed (use st in simp)
  next
    case (AggSub v)
    show ?thesis
    proof (cases "a_state a")
      case NegativeDelta
      with ok AggSub obtain x where "addition (a_value a) v (a_limit a) = Ok x" "unat x = unat (a_value a) + unat v"
        using additionD [of "a_value a" v "a_limit a"] by (auto simp: op_refused_def)
      then show ?thesis using NegativeDelta AggSub h
        by (intro exI [of _ "a\<lparr>a_value := x\<rparr>"]) (simp add: Aggregator_sub_def agg_val_def s_def)
    next
      case PositiveDelta
      show ?thesis
      proof (cases "v \<le> a_value a")
        case True
        then obtain x where "subtraction (a_value a) v = Ok x" "unat x = unat (a_value a) - unat v" "unat v \<le> unat (a_value a)"
          using subtractionD [of v "a_value a"] by (auto simp: word_le_nat_alt)
        then show ?thesis using PositiveDelta AggSub h True
          by (intro exI [of _ "a\<lparr>a_value := x\<rparr>"]) (simp add: Aggregator_sub_def agg_val_def s_def)
      next
        case False
        then obtain x where x: "subtraction v (a_value a) = Ok x" "unat x = unat v - unat (a_value a)" "unat (a_value a) < unat v"
          using subtractionD [of "a_value a" v] by (auto simp: word_le_nat_alt)
        then obtain y where "subtraction (a_limit a) v = Ok y"
          using ok AggSub PositiveDelta subtractionD [of v "a_limit a"] by (auto simp: op_refused_def)
        then show ?thesis using PositiveDelta AggSub h False x
          by (intro exI [of _ "a\<lparr>a_value := x, a_state := NegativeDelta\<rparr>"]) (simp add: Aggregator_sub_def agg_val_def s_def)
      qed
    qed (use st in simp)
  qed
  then obtain b where b: "agg_exec op a = record_history b" "a_state b \<noteq> Data" "a_history b = Some h" "a_limit b = a_limit a"
    "agg_val b = s" by blast
  from record_history_val [OF b(2,3)] show ?thesis using b by auto
qed

lemma agg_exec_refused:
  assumes "a_state a \<noteq> Data" "op_refused op a"
  shows "\<exists>e. agg_exec op a = Err e"
proof -
  have add: "\<exists>e. addition x v l = Err e" if "unat l < unat x + unat v" for x v l
    using that addition_ex [of x v l] by (cases "addition x v l") auto
  have sub: "\<exists>e. subtraction x v = Err e" if "unat x < unat v" for x v
    using that by (auto simp: subtraction_def word_less_nat_alt)
  show ?thesis
  proof (cases op)
    case (AggAdd v)
    then show ?thesis using assms add [of "a_limit a" "a_value a" v] by (auto simp: op_refused_def Aggregator_add_def)
  next
    case (AggSub v)
    then show ?thesis using assms add [of "a_limit a" "a_value a" v] sub [of "a_limit a" v]
      by (cases "a_state a") (auto simp: op_refused_def Aggregator_sub_def word_le_nat_alt)
  qed
qed

lemma agg_exec_data:
  assumes "unat v \<le> unat L"
  shows "agg_exec op (data_aggregator L v) = Ok a' \<longleftrightarrow>
    (\<exists>v'. a' = data_aggregator L v' \<and> int (unat v') = int (unat v) + op_val op \<and> unat v' \<le> unat L)"
proof (cases op)
  case (AggAdd w)
  have "agg_exec op (data_aggregator L v) = Ok a' \<longleftrightarrow> (\<exists>v'. a' = data_aggregator L v' \<and> addition v w L = Ok v')"
    using AggAdd by (auto simp: Aggregator_add_def data_aggregator_def bind_res_Ok_iff)
  moreover have "addition v w L = Ok v' \<longleftrightarrow> int (unat v') = int (unat v) + op_val op \<and> unat v' \<le> unat L" for v'
    using AggAdd by (auto simp: addition_Ok)
  ultimately show ?thesis by simp
next
  case (AggSub w)
  have "agg_exec op (data_aggregator L v) = Ok a' \<longleftrightarrow> (\<exists>v'. a' = data_aggregator L v' \<and> subtraction v w = Ok v')"
    using AggSub by (auto simp: Aggregator_sub_def data_aggregator_def bind_res_Ok_iff)
  moreover have "subtraction v w = Ok v' \<longleftrightarrow> int (unat v') = int (unat v) + op_val op \<and> unat v' \<le> unat L" for v'
    using AggSub assms by (auto simp: subtraction_Ok)
  ultimately show ?thesis by simp
qed

lemma agg_delta_sel [simp]:
  "d_max_positive (agg_delta a h) = h_max_positive h" "d_min_negative (agg_delta a h) = h_min_negative h"
  "d_limit (agg_delta a h) = a_limit a"
  by (simp_all add: agg_delta_def DeltaOp_new_def)

lemma agg_delta_wf:
  "delta_wf (agg_delta a h) \<longleftrightarrow> agg_val a \<le> int (unat (h_max_positive h)) \<and> - agg_val a \<le> int (unat (h_min_negative h))"
  by (simp add: delta_wf_val)

text \<open>An operation on the delta and then the delta on a value, against the delta on the value and then the operation on it.\<close>

lemma agg_step_known:
  assumes "delta_wf (agg_delta a h)"
  shows "(\<exists>v. apply_to (agg_delta a h) b = Ok v \<and> agg_exec op (data_aggregator (a_limit a) v) = Ok (data_aggregator (a_limit a) r)) \<longleftrightarrow>
    unat b + unat (h_max_positive h) \<le> unat (a_limit a) \<and> unat (h_min_negative h) \<le> unat b \<and>
    int (unat r) = int (unat b) + agg_val a + op_val op \<and> unat r \<le> unat (a_limit a)" (is "?lhs \<longleftrightarrow> ?rhs")
proof
  assume ?lhs
  then obtain v where v: "apply_to (agg_delta a h) b = Ok v"
    "agg_exec op (data_aggregator (a_limit a) v) = Ok (data_aggregator (a_limit a) r)" by blast
  from v(1) have b: "unat b + unat (h_max_positive h) \<le> unat (a_limit a)" "unat (h_min_negative h) \<le> unat b"
    "int (unat v) = int (unat b) + agg_val a" unfolding apply_to_val [OF assms] by simp_all
  then have "unat v \<le> unat (a_limit a)" using assms unfolding agg_delta_wf by linarith
  from v(2) [unfolded agg_exec_data [OF this]] show ?rhs using b by (auto simp: data_aggregator_def)
next
  assume r: ?rhs
  define n where "n = nat (int (unat b) + agg_val a)"
  have n: "int n = int (unat b) + agg_val a" "n \<le> unat (a_limit a)" using r assms unfolding agg_delta_wf n_def by linarith+
  then have "n < 2 ^ LENGTH(128)" using unat_below [of "a_limit a"] by (meson le_less_trans)
  then have u: "unat (of_nat n :: u128) = n" by (rule unat_of_nat_below)
  then have "apply_to (agg_delta a h) b = Ok (of_nat n)" using r n unfolding apply_to_val [OF assms] by simp
  moreover have "agg_exec op (data_aggregator (a_limit a) (of_nat n)) = Ok (data_aggregator (a_limit a) r)"
    using r n u by (subst agg_exec_data) auto
  ultimately show ?lhs by blast
qed

lemma op_refused_known:
  assumes "op_refused op a" "delta_wf (agg_delta a h)" "a_state a \<noteq> Data" "unat b + unat (h_max_positive h) \<le> unat (a_limit a)"
    "unat (h_min_negative h) \<le> unat b"
  shows "int (unat b) + agg_val a + op_val op < 0 \<or> int (unat (a_limit a)) < int (unat b) + agg_val a + op_val op"
  using assms unfolding agg_delta_wf
  by (cases "a_state a"; cases op) (auto simp: op_refused_def agg_val_def)

lemma agg_step_exact:
  assumes st: "a_state a \<noteq> Data" "a_history a = Some h" and wf: "delta_wf (agg_delta a h)"
  shows "(\<exists>v. apply_to (agg_delta a h) b = Ok v \<and> agg_exec op (data_aggregator (a_limit a) v) = Ok (data_aggregator (a_limit a) r)) \<longleftrightarrow>
    (\<exists>a' h'. agg_exec op a = Ok a' \<and> a_history a' = Some h' \<and> apply_to (agg_delta a' h') b = Ok r)"
proof (cases "op_refused op a")
  case True
  then show ?thesis using op_refused_known [OF True wf st(1), of b] agg_exec_refused [OF st(1) True]
    unfolding agg_step_known [OF wf] by auto
next
  case False
  from agg_exec_delta [OF st False] obtain a' h' where a': "agg_exec op a = Ok a'" "a_history a' = Some h'" "a_limit a' = a_limit a"
    "agg_val a' = agg_val a + op_val op" "int (unat (h_max_positive h')) = max (int (unat (h_max_positive h))) (agg_val a + op_val op)"
    "int (unat (h_min_negative h')) = max (int (unat (h_min_negative h))) (- (agg_val a + op_val op))" by blast
  then have wf': "delta_wf (agg_delta a' h')" unfolding agg_delta_wf by linarith
  have "apply_to (agg_delta a' h') b = Ok r \<longleftrightarrow> unat b + unat (h_max_positive h) \<le> unat (a_limit a) \<and> unat (h_min_negative h) \<le> unat b \<and>
    int (unat r) = int (unat b) + agg_val a + op_val op \<and> unat r \<le> unat (a_limit a)"
    unfolding apply_to_val [OF wf'] agg_delta_sel agg_delta_val a'(3,4) using a'(5,6) by (intro iffI conjI; elim conjE; linarith)
  then show ?thesis unfolding agg_step_known [OF wf] using a'(1,2) by auto
qed

lemma agg_exec_keeps:
  assumes "a_state a \<noteq> Data" "a_history a = Some h" "delta_wf (agg_delta a h)" "agg_exec op a = Ok a'"
  shows "a_state a' \<noteq> Data \<and> a_limit a' = a_limit a \<and> (\<exists>h'. a_history a' = Some h' \<and> delta_wf (agg_delta a' h'))"
proof -
  have "\<not> op_refused op a" using agg_exec_refused [OF assms(1), of op] assms(4) by auto
  from agg_exec_delta [OF assms(1,2) this] assms(4) obtain h' where h': "a_state a' \<noteq> Data" "a_history a' = Some h'"
    "a_limit a' = a_limit a" "agg_val a' = agg_val a + op_val op"
    "int (unat (h_max_positive h')) = max (int (unat (h_max_positive h))) (agg_val a + op_val op)"
    "int (unat (h_min_negative h')) = max (int (unat (h_min_negative h))) (- (agg_val a + op_val op))" by auto
  then have "delta_wf (agg_delta a' h')" unfolding agg_delta_wf by linarith
  with h' show ?thesis by blast
qed

lemma apply_to_limit:
  assumes "delta_wf d" "apply_to d b = Ok v"
  shows "unat v \<le> unat (d_limit d)"
  using assms(2) assms(1) unfolding apply_to_val [OF assms(1)] delta_wf_val by linarith

lemma agg_run_exact:
  assumes "a_state a \<noteq> Data" "a_history a = Some h" "delta_wf (agg_delta a h)"
  shows "(\<exists>v. apply_to (agg_delta a h) b = Ok v \<and> agg_run ops (data_aggregator (a_limit a) v) = Ok (data_aggregator (a_limit a) r)) \<longleftrightarrow>
    (\<exists>a' h'. agg_run ops a = Ok a' \<and> a_state a' \<noteq> Data \<and> a_limit a' = a_limit a \<and> a_history a' = Some h' \<and>
      apply_to (agg_delta a' h') b = Ok r)"
  using assms
proof (induction ops arbitrary: a h)
  case Nil
  then show ?case by (auto simp: data_aggregator_def)
next
  case (Cons op ops)
  let ?L = "a_limit a"
  have "(\<exists>v. apply_to (agg_delta a h) b = Ok v \<and> agg_run (op # ops) (data_aggregator ?L v) = Ok (data_aggregator ?L r)) \<longleftrightarrow>
    (\<exists>v1. (\<exists>v. apply_to (agg_delta a h) b = Ok v \<and> agg_exec op (data_aggregator ?L v) = Ok (data_aggregator ?L v1)) \<and>
      agg_run ops (data_aggregator ?L v1) = Ok (data_aggregator ?L r))" (is "?A \<longleftrightarrow> _")
  proof -
    have "agg_run (op # ops) (data_aggregator ?L v) = Ok (data_aggregator ?L r) \<longleftrightarrow>
      (\<exists>v1. agg_exec op (data_aggregator ?L v) = Ok (data_aggregator ?L v1) \<and> agg_run ops (data_aggregator ?L v1) = Ok (data_aggregator ?L r))"
      if "apply_to (agg_delta a h) b = Ok v" for v
    proof -
      have "unat v \<le> unat ?L" using apply_to_limit [OF Cons.prems(3) that] by simp
      then show ?thesis by (auto simp: bind_res_Ok_iff agg_exec_data)
    qed
    then show ?thesis by blast
  qed
  also have "\<dots> \<longleftrightarrow> (\<exists>a1 h1. agg_exec op a = Ok a1 \<and> a_history a1 = Some h1 \<and>
      (\<exists>v1. apply_to (agg_delta a1 h1) b = Ok v1 \<and> agg_run ops (data_aggregator ?L v1) = Ok (data_aggregator ?L r)))"
    unfolding agg_step_exact [OF Cons.prems] by blast
  also have "\<dots> \<longleftrightarrow> (\<exists>a1. agg_exec op a = Ok a1 \<and> (\<exists>a' h'. agg_run ops a1 = Ok a' \<and> a_state a' \<noteq> Data \<and> a_limit a' = ?L \<and>
      a_history a' = Some h' \<and> apply_to (agg_delta a' h') b = Ok r))"
  proof -
    have "(\<exists>h1. a_history a1 = Some h1 \<and>
        (\<exists>v1. apply_to (agg_delta a1 h1) b = Ok v1 \<and> agg_run ops (data_aggregator ?L v1) = Ok (data_aggregator ?L r))) \<longleftrightarrow>
      (\<exists>a' h'. agg_run ops a1 = Ok a' \<and> a_state a' \<noteq> Data \<and> a_limit a' = ?L \<and> a_history a' = Some h' \<and> apply_to (agg_delta a' h') b = Ok r)"
      if e: "agg_exec op a = Ok a1" for a1
    proof -
      from agg_exec_keeps [OF Cons.prems e] obtain h1 where h1: "a_state a1 \<noteq> Data" "a_limit a1 = ?L" "a_history a1 = Some h1"
        "delta_wf (agg_delta a1 h1)" by blast
      from Cons.IH [OF h1(1,3,4)] h1 show ?thesis by simp
    qed
    then show ?thesis by blast
  qed
  finally show ?case by (auto simp: bind_res_Ok_iff)
qed

lemma agg_run_keeps:
  assumes "a_state a \<noteq> Data" "a_history a = Some h" "delta_wf (agg_delta a h)" "agg_run ops a = Ok a'"
  shows "a_state a' \<noteq> Data \<and> a_limit a' = a_limit a \<and> (\<exists>h'. a_history a' = Some h' \<and> delta_wf (agg_delta a' h'))"
  using assms
proof (induction ops arbitrary: a h)
  case (Cons op ops)
  then obtain a1 where a1: "agg_exec op a = Ok a1" "agg_run ops a1 = Ok a'" by (auto simp: bind_res_Ok_iff)
  from agg_exec_keeps [OF Cons.prems(1-3) a1(1)] obtain h1 where "a_state a1 \<noteq> Data" "a_limit a1 = a_limit a" "a_history a1 = Some h1"
    "delta_wf (agg_delta a1 h1)" by blast
  with Cons.IH [OF _ _ _ a1(2)] show ?case by metis
qed auto

subsection \<open>Exceeding the limits\<close>

text \<open>
  A result that an overflow or an underflow prevented. The two are told apart by the error, but
  not always in the same way by a delta and by the value it stands for.
\<close>

definition limit_exceeded :: "('a, aggregator_error) result \<Rightarrow> bool" where
  "limit_exceeded r \<longleftrightarrow> r = Err EADD_OVERFLOW \<or> r = Err ESUB_UNDERFLOW"

definition limit_checked :: "('a, aggregator_error) result \<Rightarrow> bool" where
  "limit_checked r \<longleftrightarrow> (\<exists>x. r = Ok x) \<or> limit_exceeded r"

lemma limit_checkedD: "limit_checked r \<Longrightarrow> limit_exceeded r \<longleftrightarrow> (\<nexists>x. r = Ok x)"
  by (auto simp: limit_checked_def limit_exceeded_def)

lemma limit_checked_Ok [simp, intro]: "limit_checked (Ok x)"
  by (simp add: limit_checked_def)

lemma limit_checked_addition [simp, intro]: "limit_checked (addition b v l)"
proof -
  have "addition b v l \<noteq> Err ExtensionError"
    by (auto simp: addition_def sub_chk_if add_chk_if)
  then show ?thesis
    by (cases "addition b v l"; cases "addition b v l = Err EADD_OVERFLOW")
      (auto simp: limit_checked_def limit_exceeded_def intro: aggregator_error.exhaust)
qed

lemma limit_checked_subtraction [simp, intro]: "limit_checked (subtraction b v)"
  by (auto simp: limit_checked_def limit_exceeded_def subtraction_def sub_chk_if)

lemma limit_checked_bind [intro]:
  "limit_checked m \<Longrightarrow> (\<And>x. m = Ok x \<Longrightarrow> limit_checked (f x)) \<Longrightarrow> limit_checked (bind_res m f)"
  by (cases m) (auto simp: limit_checked_def limit_exceeded_def)

lemma limit_checked_apply_to [simp, intro]: "limit_checked (apply_to d b)"
  unfolding apply_to_def by (auto split: delta_update.splits)

lemma limit_checked_unwrap_or [simp, intro]: "limit_checked r \<Longrightarrow> limit_checked (unwrap_or r d)"
  by (auto simp: limit_checked_def limit_exceeded_def unwrap_or_def)

lemma limit_checked_merge_onto [simp, intro]: "limit_checked (merge_onto d2 d1)"
  unfolding merge_onto_def shifted_max_positive_by_def shifted_min_negative_by_def update_same_sign_def
    update_different_sign_def
  by (intro limit_checked_bind) (auto split: delta_update.splits)

lemma limit_checked_exec_data: "limit_checked (agg_exec op (data_aggregator L v))"
  by (cases op) (auto simp: Aggregator_add_def Aggregator_sub_def data_aggregator_def)

lemma limit_checked_run_data:
  assumes "unat v \<le> unat L"
  shows "(\<exists>r. agg_run ops (data_aggregator L v) = Ok (data_aggregator L r)) \<or> limit_exceeded (agg_run ops (data_aggregator L v))"
  using assms
proof (induction ops arbitrary: v)
  case (Cons op ops)
  show ?case
  proof (cases "limit_exceeded (agg_exec op (data_aggregator L v))")
    case True
    then show ?thesis by (auto simp: limit_exceeded_def)
  next
    case False
    then obtain a' where a': "agg_exec op (data_aggregator L v) = Ok a'"
      using limit_checked_exec_data [of op L v] by (auto simp: limit_checked_def)
    then obtain v' where "a' = data_aggregator L v'" "unat v' \<le> unat L" using agg_exec_data [OF Cons.prems] by blast
    with Cons.IH a' show ?thesis by simp
  qed
qed auto

lemma limit_checked_exec_delta:
  assumes "a_state a \<noteq> Data" "a_history a = Some h"
  shows "limit_checked (agg_exec op a)"
proof -
  have "limit_checked (record_history b)" if "a_state b \<noteq> Data" "a_history b = Some h" for b
    using record_history_val [OF that] by auto
  then show ?thesis using assms
    by (cases op; cases "a_state a") (simp_all add: Aggregator_add_def Aggregator_sub_def limit_checked_bind)
qed

lemma limit_checked_run_delta:
  assumes "a_state a \<noteq> Data" "a_history a = Some h" "delta_wf (agg_delta a h)"
  shows "limit_checked (agg_run ops a)"
  using assms
proof (induction ops arbitrary: a h)
  case (Cons op ops)
  have "limit_checked (agg_run ops a')" if a': "agg_exec op a = Ok a'" for a'
    using agg_exec_keeps [OF Cons.prems a'] Cons.IH by blast
  then show ?case by (simp add: limit_checked_bind limit_checked_exec_delta [OF Cons.prems(1,2)])
qed simp

lemma limit_checked_read:
  assumes "a_state a \<noteq> Data" "a_history a = Some h" "resolve aid = Ok (Some bytes)" "de bytes = Some base"
  shows "limit_checked (read_and_materialize resolve de aid a)"
  using assms unfolding read_and_materialize_def
  by (cases "a_state a") (auto simp: or_panic_def)

text \<open>
  The error of an aggregator that is speculated on need not be the error the operations meet on its
  value: of 5 with limit 10, subtracting 4 and then 8 underflows, while the delta, which would go
  below minus 10, reports an overflow.
\<close>

lemma speculative_error_differs:
  "agg_run [AggSub 4, AggSub 8] (data_aggregator 10 5) = Err ESUB_UNDERFLOW"
  "agg_run [AggSub 4, AggSub 8] (delta_aggregator 10) = Err EADD_OVERFLOW"
  by (simp_all add: Aggregator_sub_def data_aggregator_def delta_aggregator_def subtraction_def addition_def
    sub_chk_if add_chk_if record_history_def record_negative_def History_new_def)

lemma merged_error_differs:
  "bind_res (apply_to (DeltaOp_new (Minus 60) 100 0 60) 80) (apply_to (DeltaOp_new (Minus 50) 100 0 50)) = Err ESUB_UNDERFLOW"
  "merge_onto (DeltaOp_new (Minus 50) 100 0 50) (DeltaOp_new (Minus 60) 100 0 60) = Err EADD_OVERFLOW"
  by (simp_all add: apply_to_def merge_onto_def shifted_max_positive_by_def shifted_min_negative_by_def unwrap_or_def
    DeltaOp_new_def subtraction_def addition_def sub_chk_if add_chk_if)

subsection \<open>Squashing changes\<close>

text \<open>What a change does to the value of an aggregator, \<open>None\<close> when there is none.\<close>

primrec apply_change :: "aggregator_change \<Rightarrow> u128 option \<Rightarrow> (u128 option, aggregator_error) result" where
  "apply_change (Write v) st = Ok (Some v)"
| "apply_change Delete st = Ok None"
| "apply_change (Merge d) st = (case st of
     None \<Rightarrow> Err ExtensionError
   | Some b \<Rightarrow> bind_res (apply_to d b) (\<lambda>x. Ok (Some x)))"

definition change_at :: "aggregator_change option \<Rightarrow> u128 option \<Rightarrow> (u128 option, aggregator_error) result" where
  "change_at c st = (case c of None \<Rightarrow> Ok st | Some c \<Rightarrow> apply_change c st)"

text \<open>Two consecutive changes that can meet: nothing follows a deletion, and the deltas of one aggregator have its limit.\<close>

definition changes_fit :: "aggregator_change option \<Rightarrow> aggregator_change option \<Rightarrow> bool" where
  "changes_fit old new \<longleftrightarrow> (case (old, new) of
     (Some Delete, Some _) \<Rightarrow> False
   | (Some (Merge d1), Some (Merge d2)) \<Rightarrow> delta_wf d1 \<and> delta_wf d2 \<and> d_limit d1 = d_limit d2
   | _ \<Rightarrow> True)"

definition squash_upd :: "aggregator_change option \<Rightarrow> aggregator_change \<Rightarrow> (aggregator_change option, aggregator_error) result" where
  "squash_upd old new = bind_res (case old of None \<Rightarrow> Ok new | Some c \<Rightarrow> squash_change c new) (\<lambda>c. Ok (Some c))"

interpretation squash_loop: entry_loop squash_entry "map_of :: ('id::linorder, aggregator_change) btree_map \<Rightarrow> _" bt_sorted squash_upd
proof
  fix s :: "('id, aggregator_change) btree_map" and k w
  let ?c = "case map_of s k of None \<Rightarrow> Ok w | Some c \<Rightarrow> squash_change c w"
  assume s: "bt_sorted s"
  show "\<exists>s'. squash_entry (k, w) s = Ok s' \<and> bt_sorted s' \<and> map_of s' = (map_of s)(k := v)" if "squash_upd (map_of s k) w = Ok v" for v
    using that s by (cases ?c) (auto simp: squash_upd_def squash_entry_def bt_insert_sorted bt_get_insert)
  show "squash_entry (k, w) s = Err e" if "squash_upd (map_of s k) w = Err e" for e
    using that by (cases ?c) (auto simp: squash_upd_def squash_entry_def)
  show "squash_entry (k, w) s = Panic" if "squash_upd (map_of s k) w = Panic"
    using that by (cases ?c) (auto simp: squash_upd_def squash_entry_def)
qed

lemma squash_is_loop: "squash other changes = (Ok (), c) \<longleftrightarrow> entries_loop squash_entry other changes = Ok c"
proof (induction other arbitrary: changes)
  case (Cons x other)
  then show ?case by (cases "squash_entry x changes") auto
qed auto

lemma squash_upd_sequential:
  assumes fit: "changes_fit old (Some new)" and x: "change_at old st = Ok x" and y: "apply_change new x = Ok y"
  shows "\<exists>c. squash_upd old new = Ok c \<and> change_at c st = Ok y"
proof (cases old)
  case None
  with x y show ?thesis by (auto simp: squash_upd_def change_at_def)
next
  case (Some c)
  show ?thesis
  proof (cases new)
    case (Merge d2)
    then obtain b r where b: "x = Some b" "apply_to d2 b = Ok r" "y = Some r"
      using y by (auto simp: bind_res_Ok_iff split: option.splits)
    show ?thesis
    proof (cases c)
      case (Merge d1)
      with x Some b obtain b0 where b0: "st = Some b0" "apply_to d1 b0 = Ok b"
        by (auto simp: change_at_def bind_res_Ok_iff split: option.splits)
      have "\<exists>m. merge_onto d2 d1 = Ok m \<and> apply_to m b0 = Ok r"
        using merge_exact(1) [of d1 d2 b0 r] fit b b0 Some Merge \<open>new = Merge d2\<close> by (auto simp: changes_fit_def)
      then show ?thesis using Some Merge \<open>new = Merge d2\<close> b b0
        by (auto simp: squash_upd_def squash_change_def change_at_def)
    qed (use x y b Some Merge fit in \<open>auto simp: squash_upd_def squash_change_def change_at_def changes_fit_def\<close>)
  qed (use x y Some fit in \<open>cases c; auto simp: squash_upd_def squash_change_def change_at_def changes_fit_def\<close>)+
qed

section \<open>Properties\<close>

text \<open>
  C23. Merging deltas is exact. For two observed deltas of one aggregator, applying the first and
  then the second to a value gives a result if and only if merging the second onto the first
  succeeds and the merged delta gives that result; and one of the two fails with an overflow or an
  underflow if and only if the other does: merging neither lets one through that a delta would have
  met on the way, nor reports one that could not happen. Which of the two errors is reported may
  differ (see \<open>merged_error_differs\<close>). The merged delta is again an observed delta with the same
  limit, and merging never panics.
\<close>

theorem delta_merge_exact:
  assumes "delta_wf d1" "delta_wf d2" "d_limit d1 = d_limit d2"
  shows "(bind_res (apply_to d1 b) (apply_to d2) = Ok r \<longleftrightarrow> bind_res (merge_onto d2 d1) (\<lambda>m. apply_to m b) = Ok r) \<and>
    (limit_exceeded (bind_res (apply_to d1 b) (apply_to d2)) \<longleftrightarrow> limit_exceeded (bind_res (merge_onto d2 d1) (\<lambda>m. apply_to m b))) \<and>
    (merge_onto d2 d1 = Ok m \<longrightarrow> delta_wf m \<and> d_limit m = d_limit d1) \<and> merge_onto d2 d1 \<noteq> Panic"
proof -
  have eq: "bind_res (apply_to d1 b) (apply_to d2) = Ok r \<longleftrightarrow> bind_res (merge_onto d2 d1) (\<lambda>m. apply_to m b) = Ok r" for r
    unfolding bind_res_Ok_iff by (rule merge_exact(1) [OF assms])
  moreover have "limit_checked (bind_res (apply_to d1 b) (apply_to d2))" "limit_checked (bind_res (merge_onto d2 d1) (\<lambda>m. apply_to m b))"
    by blast+
  ultimately have "limit_exceeded (bind_res (apply_to d1 b) (apply_to d2)) \<longleftrightarrow> limit_exceeded (bind_res (merge_onto d2 d1) (\<lambda>m. apply_to m b))"
    by (simp add: limit_checkedD)
  moreover have "merge_onto d2 d1 \<noteq> Panic" using limit_checked_merge_onto [of d2 d1] by (auto simp: limit_checked_def limit_exceeded_def)
  ultimately show ?thesis using eq merge_exact(2) [OF assms] by blast
qed

theorem delta_merge_exact_witness:
  "bind_res (merge_onto (DeltaOp_new (Minus 7) 100 3 9) (DeltaOp_new (Plus 5) 100 8 2)) (\<lambda>m. apply_to m 10) = Ok 8"
proof -
  have "apply_to (DeltaOp_new (Plus 5) 100 8 2) 10 = Ok 15" "apply_to (DeltaOp_new (Minus 7) 100 3 9) 15 = Ok 8"
    by (simp_all add: apply_to_Ok delta_wf_def DeltaOp_new_def)
  then show ?thesis
    using delta_merge_exact [of "DeltaOp_new (Plus 5) 100 8 2" "DeltaOp_new (Minus 7) 100 3 9" 10 8]
    by (simp add: delta_wf_def DeltaOp_new_def)
qed

text \<open>
  C22. Speculation is exact. Take a transaction that adds to and subtracts from an aggregator without
  knowing its value, and then reads it, and the same operations on the stored value directly, with
  the limits enforced at every operation. The first sees the value \<open>r\<close> if and only if the second
  ends with \<open>r\<close>; the second always ends with a value or with an overflow or underflow, and it
  does so with an overflow or underflow if and only if the first meets one, at an operation or at the
  read. Both also hold of the delta the transaction leaves for later, applied to the stored value. Which of
  the two errors is reported may differ (see \<open>speculative_error_differs\<close>). The stored value is
  within the limit.
\<close>

theorem aggregator_speculation_exact:
  fixes base limit :: u128 and resolve :: "'id \<Rightarrow> ('bytes option, unit) result" and aid bytes de ops
  assumes "base \<le> limit" "resolve aid = Ok (Some bytes)" "de bytes = Some base"
  defines "direct \<equiv> agg_run ops (data_aggregator limit base)"
    and "spec \<equiv> bind_res (agg_run ops (delta_aggregator limit)) (read_and_materialize resolve de aid)"
    and "delta \<equiv> bind_res (agg_run ops (delta_aggregator limit)) change_of"
  shows "(direct = Ok (data_aggregator limit r) \<longleftrightarrow> spec = Ok (r, data_aggregator limit r)) \<and>
    (direct = Ok (data_aggregator limit r) \<longleftrightarrow> (\<exists>d. delta = Ok (Merge d) \<and> apply_to d base = Ok r)) \<and>
    ((\<exists>v. direct = Ok (data_aggregator limit v)) \<or> limit_exceeded direct) \<and>
    (limit_exceeded direct \<longleftrightarrow> limit_exceeded spec) \<and>
    (limit_exceeded direct \<longleftrightarrow> limit_exceeded delta \<or> (\<exists>d. delta = Ok (Merge d) \<and> limit_exceeded (apply_to d base)))"
proof -
  let ?a = "delta_aggregator limit"
  have a: "a_state ?a \<noteq> Data" "a_history ?a = Some History_new" "delta_wf (agg_delta ?a History_new)" "a_limit ?a = limit"
    by (simp_all add: delta_aggregator_def History_new_def delta_wf_def agg_delta_def DeltaOp_new_def)
  have "apply_to (agg_delta ?a History_new) base = Ok base"
    using assms(1) unfolding apply_to_val [OF a(3)]
    by (simp add: delta_aggregator_def History_new_def agg_val_def word_le_nat_alt)
  then have run: "direct = Ok (data_aggregator limit r) \<longleftrightarrow>
    (\<exists>a' h'. agg_run ops ?a = Ok a' \<and> a_state a' \<noteq> Data \<and> a_limit a' = limit \<and> a_history a' = Some h' \<and>
      apply_to (agg_delta a' h') base = Ok r)" for r
    using agg_run_exact [OF a(1-3), of base ops r] by (simp add: a(4) direct_def)
  have tot: "(\<exists>v. direct = Ok (data_aggregator limit v)) \<or> limit_exceeded direct"
    using limit_checked_run_data [of base limit ops] assms(1) by (simp add: word_le_nat_alt direct_def)
  have exc: "limit_exceeded direct \<longleftrightarrow> (\<forall>r. direct \<noteq> Ok (data_aggregator limit r))" using tot by (auto simp: limit_exceeded_def)
  show ?thesis
  proof (cases "agg_run ops ?a")
    case (Ok a')
    from agg_run_keeps [OF a(1-3) Ok] a(4) obtain h' where a': "a_state a' \<noteq> Data" "a_history a' = Some h'" "a_limit a' = limit" by auto
    have rd: "read_and_materialize resolve de aid a' = Ok x \<longleftrightarrow> (\<exists>r. x = (r, data_aggregator limit r) \<and> apply_to (agg_delta a' h') base = Ok r)" for x
      using a' assms(2,3) by (cases "a_state a'"; cases x)
        (auto simp: read_and_materialize_def apply_to_def agg_delta_def DeltaOp_new_def or_panic_def bind_res_Ok_iff data_aggregator_def)
    have sp: "spec = read_and_materialize resolve de aid a'" and dl: "delta = Ok (Merge (agg_delta a' h'))"
      unfolding spec_def delta_def Ok by (simp_all add: change_of_delta [OF a'(1,2)])
    have dr: "direct = Ok (data_aggregator limit r) \<longleftrightarrow> apply_to (agg_delta a' h') base = Ok r" for r
      unfolding run Ok using a' by auto
    have "limit_exceeded direct \<longleftrightarrow> limit_exceeded (apply_to (agg_delta a' h') base)"
      unfolding exc dr limit_checkedD [OF limit_checked_apply_to] by blast
    moreover have "limit_checked (read_and_materialize resolve de aid a')"
      using limit_checked_read [of a' h' resolve aid bytes de base] a' assms(2,3) by simp
    then have "limit_exceeded direct \<longleftrightarrow> limit_exceeded spec"
      unfolding exc dr sp by (simp add: limit_checkedD rd)
    ultimately show ?thesis using tot unfolding dr sp dl rd by (auto simp: limit_exceeded_def)
  next
    case (Err e)
    have "limit_exceeded (agg_run ops ?a)" using limit_checked_run_delta [OF a(1-3), of ops] Err by (simp add: limit_checked_def)
    moreover have "limit_exceeded direct" unfolding exc run Err by simp
    ultimately show ?thesis unfolding spec_def delta_def run Err by (auto simp: limit_exceeded_def)
  next
    case Panic
    with limit_checked_run_delta [OF a(1-3), of ops] show ?thesis by (simp add: limit_checked_def limit_exceeded_def)
  qed
qed

theorem aggregator_speculation_exact_witness:
  "bind_res (agg_run [AggSub 3, AggAdd 8, AggSub 5] (delta_aggregator 20)) (read_and_materialize (\<lambda>_. Ok (Some (10 :: u128))) Some ()) =
     Ok (10, data_aggregator 20 10) \<and>
   limit_exceeded (bind_res (agg_run [AggSub 4, AggSub 8] (delta_aggregator 10)) (read_and_materialize (\<lambda>_. Ok (Some (5 :: u128))) Some ()))"
proof -
  have "agg_run [AggSub 3, AggAdd 8, AggSub 5] (data_aggregator 20 10) = Ok (data_aggregator 20 10)"
    by (simp add: Aggregator_sub_def Aggregator_add_def data_aggregator_def subtraction_def addition_def sub_chk_if add_chk_if)
  moreover have "limit_exceeded (agg_run [AggSub 4, AggSub 8] (data_aggregator 10 5))"
    unfolding speculative_error_differs(1) limit_exceeded_def by simp
  ultimately show ?thesis
    using aggregator_speculation_exact [of 10 20 "\<lambda>_. Ok (Some 10)" "()" 10 Some "[AggSub 3, AggAdd 8, AggSub 5]" 10]
      aggregator_speculation_exact [of 5 10 "\<lambda>_. Ok (Some 5)" "()" 5 Some "[AggSub 4, AggSub 8]"] by simp
qed

text \<open>
  Squashing two sets of aggregator changes is doing one after the other. If the first set and
  then the second can be applied to the stored values, with nothing changed after its deletion and
  the deltas of an aggregator sharing its limit, then squashing succeeds and leaves a set of changes
  that gives every aggregator the value it has after both.
\<close>

theorem aggregator_squash_sequential:
  assumes "bt_sorted changes" "bt_sorted other"
    and "\<And>k. changes_fit (map_of changes k) (map_of other k)"
    and "\<And>k. change_at (map_of changes k) (st k) = Ok (mid k)"
    and "\<And>k. change_at (map_of other k) (mid k) = Ok (fin k)"
  shows "\<exists>squashed. squash other changes = (Ok (), squashed) \<and> bt_sorted squashed \<and>
    (\<forall>k. change_at (map_of squashed k) (st k) = Ok (fin k))"
proof -
  have "\<exists>c. squash_upd (map_of changes k) w = Ok c \<and> change_at c (st k) = Ok (fin k)" if "(k, w) \<in> set other" for k w
  proof -
    have "map_of other k = Some w" using that bt_sorted_distinct [OF assms(2)] by simp
    then show ?thesis
      using squash_upd_sequential [of "map_of changes k" w "st k" "mid k" "fin k"] assms(3-5) [of k] by (simp add: change_at_def)
  qed
  from squash_loop.loop_Ok_ex [OF bt_sorted_distinct [OF assms(2)] assms(1) this]
  obtain c where c: "entries_loop squash_entry other changes = Ok c" "bt_sorted c"
    "\<And>k. if k \<in> fst ` set other then change_at (map_of c k) (st k) = Ok (fin k) else map_of c k = map_of changes k" by blast
  have "change_at (map_of c k) (st k) = Ok (fin k)" for k
  proof (cases "k \<in> fst ` set other")
    case False
    then have "map_of other k = None" by (simp add: map_of_eq_None_iff)
    then show ?thesis using False c(3) [of k] assms(4,5) [of k] by (simp add: change_at_def)
  qed (use c(3) in auto)
  then show ?thesis using c(1,2) unfolding squash_is_loop by blast
qed

theorem aggregator_squash_sequential_witness:
  "\<exists>squashed. squash [(1 :: nat, Merge (DeltaOp_new (Minus 7) 100 3 9)), (2, Write 5)]
      [(1, Merge (DeltaOp_new (Plus 5) 100 8 2))] = (Ok (), squashed) \<and>
    change_at (map_of squashed 1) (Some 10) = Ok (Some 8) \<and> change_at (map_of squashed 2) None = Ok (Some 5)"
proof -
  let ?d1 = "DeltaOp_new (Plus 5) 100 8 2" and ?d2 = "DeltaOp_new (Minus 7) 100 3 9"
  have d: "delta_wf ?d1" "delta_wf ?d2" "apply_to ?d1 10 = Ok 15" "apply_to ?d2 15 = Ok 8"
    by (simp_all add: apply_to_Ok delta_wf_def DeltaOp_new_def)
  have "\<exists>squashed. squash [(1 :: nat, Merge ?d2), (2, Write 5)] [(1, Merge ?d1)] = (Ok (), squashed) \<and> bt_sorted squashed \<and>
    (\<forall>k. change_at (map_of squashed k) (if k = 1 then Some 10 else None) = Ok (if k = 1 then Some 8 else if k = 2 then Some 5 else None))"
    by (rule aggregator_squash_sequential [where mid = "\<lambda>k. if k = 1 then Some 15 else None"])
      (use d in \<open>auto simp: changes_fit_def change_at_def DeltaOp_new_def\<close>)
  then obtain squashed where "squash [(1 :: nat, Merge ?d2), (2, Write 5)] [(1, Merge ?d1)] = (Ok (), squashed)"
    "\<And>k. change_at (map_of squashed k) (if k = 1 then Some 10 else None) = Ok (if k = 1 then Some 8 else if k = 2 then Some 5 else None)"
    by blast
  from this(1) this(2) [of 1] this(2) [of 2] show ?thesis by auto
qed

end
