(* ===== verification/Change_Sets.thy ===== *)
theory Change_Sets
  imports Aggregators
begin

text \<open>
  Change sets of transactions: the writes of \<open>types/src/write_set.rs\<close>, and the change sets and
  transaction outputs that also hold deltas of aggregators
  (\<open>language/arx-aggregator/src/transaction.rs\<close> and the class \<open>DeltaChangeSet\<close> of
  \<open>language/arx-aggregator/src/delta_change_set.rs\<close>). State keys are of an arbitrary ordered type.
  The BCS encoding of 128-bit numbers is given by the parameters \<open>ser\<close> and \<open>de\<close>, the state view
  by \<open>get_state_value\<close>; the checker of a change set is a field of it, as in the code.
\<close>

section \<open>Definitions\<close>

subsection \<open>Write sets\<close>

datatype 'b write_op = Creation 'b | Modification 'b | Deletion

definition is_deletion :: "'b write_op \<Rightarrow> bool" where
  "is_deletion w = (case w of Deletion \<Rightarrow> True | Modification _ \<Rightarrow> False | Creation _ \<Rightarrow> False)"

definition is_creation :: "'b write_op \<Rightarrow> bool" where
  "is_creation w = (case w of Creation _ \<Rightarrow> True | Modification _ \<Rightarrow> False | Deletion \<Rightarrow> False)"

definition is_modification :: "'b write_op \<Rightarrow> bool" where
  "is_modification w = (case w of Modification _ \<Rightarrow> True | Creation _ \<Rightarrow> False | Deletion \<Rightarrow> False)"

definition extract_raw_bytes :: "'b write_op \<Rightarrow> 'b option" where
  "extract_raw_bytes w = (case w of Creation v \<Rightarrow> Some v | Modification v \<Rightarrow> Some v | Deletion \<Rightarrow> None)"

type_synonym ('k, 'b) write_set = "('k, 'b write_op) btree_map"

datatype 'v change_set_error =
    CannotSquash
  | AlreadyDeleted
  | BcsError
  | DeltaError aggregator_error
  | StorageError
  | CheckError 'v

definition WriteSetMut_new :: "('k::linorder \<times> 'b write_op) list \<Rightarrow> ('k, 'b) write_set" where
  "WriteSetMut_new write_ops = fold (\<lambda>(k, w). bt_insert k w) write_ops []"

definition freeze :: "('k, 'b) write_set \<Rightarrow> (('k, 'b) write_set, 'v change_set_error) result" where
  "freeze ws = Ok ws"

definition squash_ops :: "'b write_op \<Rightarrow> 'b write_op \<Rightarrow> ('b write_op option, 'v change_set_error) result" where
  "squash_ops r op = (case (r, op) of
     (Modification _, Creation _) \<Rightarrow> Err CannotSquash
   | (Creation _, Creation _) \<Rightarrow> Err CannotSquash
   | (Deletion, Deletion) \<Rightarrow> Err CannotSquash
   | (Deletion, Modification _) \<Rightarrow> Err CannotSquash
   | (Modification _, Modification data) \<Rightarrow> Ok (Some (Modification data))
   | (Creation _, Modification data) \<Rightarrow> Ok (Some (Creation data))
   | (Modification _, Deletion) \<Rightarrow> Ok (Some Deletion)
   | (Deletion, Creation data) \<Rightarrow> Ok (Some (Modification data))
   | (Creation _, Deletion) \<Rightarrow> Ok None)"

definition put_op :: "'k::linorder \<Rightarrow> 'v option \<Rightarrow> ('k, 'v) btree_map \<Rightarrow> ('k, 'v) btree_map" where
  "put_op key r m = (case r of None \<Rightarrow> bt_remove key m | Some w \<Rightarrow> bt_insert key w m)"

definition write_set_entry ::
  "'k::linorder \<times> 'b write_op \<Rightarrow> ('k, 'b) write_set \<Rightarrow> (('k, 'b) write_set, 'v change_set_error) result" where
  "write_set_entry = (\<lambda>(key, op) ws. case map_of ws key of
     Some r \<Rightarrow> bind_res (squash_ops r op) (\<lambda>r'. Ok (put_op key r' ws))
   | None \<Rightarrow> Ok (bt_insert key op ws))"

definition WriteSetMut_squash ::
  "('k::linorder, 'b) write_set \<Rightarrow> ('k, 'b) write_set \<Rightarrow> (('k, 'b) write_set, 'v change_set_error) result" where
  "WriteSetMut_squash self other = entries_loop write_set_entry other self"

subsection \<open>Sets of deltas\<close>

type_synonym 'k delta_change_set = "('k, delta_op) btree_map"

definition DeltaChangeSet_new :: "('k::linorder \<times> delta_op) list \<Rightarrow> 'k delta_change_set" where
  "DeltaChangeSet_new ds = fold (\<lambda>(k, d). bt_insert k d) ds []"

definition serialize :: "(u128 \<Rightarrow> 'b option) \<Rightarrow> u128 \<Rightarrow> ('b, 'v change_set_error) result" where
  "serialize ser x = or_panic (ser x)"

definition deserialize :: "('b \<Rightarrow> u128 option) \<Rightarrow> 'b \<Rightarrow> (u128, 'v change_set_error) result" where
  "deserialize de bytes = or_panic (de bytes)"

definition try_into_write_op ::
  "(u128 \<Rightarrow> 'b option) \<Rightarrow> ('b \<Rightarrow> u128 option) \<Rightarrow> ('k \<Rightarrow> ('b option, unit) result) \<Rightarrow> 'k \<Rightarrow> delta_op \<Rightarrow>
   ('b write_op, 'v change_set_error) result" where
  "try_into_write_op ser de get_state_value state_key self =
     bind_res (map_err (\<lambda>_. StorageError) (get_state_value state_key)) (\<lambda>maybe_bytes. case maybe_bytes of
       Some bytes \<Rightarrow>
         bind_res (deserialize de bytes) (\<lambda>base.
         bind_res (map_err DeltaError (apply_to self base)) (\<lambda>x.
         bind_res (serialize ser x) (\<lambda>data. Ok (Modification data))))
     | None \<Rightarrow> Err StorageError)"

fun materialize_deltas ::
  "(u128 \<Rightarrow> 'b option) \<Rightarrow> ('b \<Rightarrow> u128 option) \<Rightarrow> ('k \<Rightarrow> ('b option, unit) result) \<Rightarrow> 'k delta_change_set \<Rightarrow>
   (('k \<times> 'b write_op) list, 'v change_set_error) result" where
  "materialize_deltas ser de get_state_value [] = Ok []"
| "materialize_deltas ser de get_state_value ((state_key, delta) # rest) =
     bind_res (try_into_write_op ser de get_state_value state_key delta) (\<lambda>w.
     bind_res (materialize_deltas ser de get_state_value rest) (\<lambda>ws. Ok ((state_key, w) # ws)))"

definition try_into_write_set_mut ::
  "(u128 \<Rightarrow> 'b option) \<Rightarrow> ('b \<Rightarrow> u128 option) \<Rightarrow> ('k::linorder \<Rightarrow> ('b option, unit) result) \<Rightarrow> 'k delta_change_set \<Rightarrow>
   (('k, 'b) write_set, 'v change_set_error) result" where
  "try_into_write_set_mut ser de get_state_value self =
     bind_res (materialize_deltas ser de get_state_value self) (\<lambda>ws. Ok (WriteSetMut_new ws))"

subsection \<open>Change sets with deltas\<close>

record ('k, 'b, 'ev) change_set =
  cs_write_set :: "('k, 'b) write_set"
  cs_events :: "'ev list"

type_synonym ('k, 'b, 'ev, 'v) checker = "('k, 'b, 'ev) change_set \<Rightarrow> (unit, 'v) result"

definition ChangeSet_new ::
  "('k, 'b) write_set \<Rightarrow> 'ev list \<Rightarrow> ('k, 'b, 'ev, 'v) checker \<Rightarrow> (('k, 'b, 'ev) change_set, 'v change_set_error) result" where
  "ChangeSet_new write_set events check_change_set =
     (let myself = \<lparr>cs_write_set = write_set, cs_events = events\<rparr> in
      bind_res (map_err CheckError (check_change_set myself)) (\<lambda>_. Ok myself))"

record ('k, 'b, 'ev, 'v) change_set_ext =
  delta_change_set :: "'k delta_change_set"
  change_set :: "('k, 'b, 'ev) change_set"
  checker :: "('k, 'b, 'ev, 'v) checker"

definition squash_delta_entry ::
  "(u128 \<Rightarrow> 'b option) \<Rightarrow> ('b \<Rightarrow> u128 option) \<Rightarrow> 'k::linorder \<times> delta_op \<Rightarrow> ('k, 'b) write_set \<times> 'k delta_change_set \<Rightarrow>
   (('k, 'b) write_set \<times> 'k delta_change_set, 'v change_set_error) result" where
  "squash_delta_entry ser de = (\<lambda>(key, op) (write_ops, delta_ops).
     (let applied = (\<lambda>data.
            bind_res (ok_or (de data) BcsError) (\<lambda>val.
            bind_res (map_err DeltaError (apply_to op val)) (\<lambda>x. ok_or (ser x) BcsError))) in
      case map_of write_ops key of
        Some r \<Rightarrow> (case r of
            Creation data \<Rightarrow> bind_res (applied data) (\<lambda>b. Ok (bt_insert key (Creation b) write_ops, delta_ops))
          | Modification data \<Rightarrow> bind_res (applied data) (\<lambda>b. Ok (bt_insert key (Modification b) write_ops, delta_ops))
          | Deletion \<Rightarrow> Err AlreadyDeleted)
      | None \<Rightarrow> (case map_of delta_ops key of
            Some entry \<Rightarrow> bind_res (map_err DeltaError (merge_onto op entry)) (\<lambda>op'. Ok (write_ops, bt_insert key op' delta_ops))
          | None \<Rightarrow> Ok (write_ops, bt_insert key op delta_ops))))"

definition squash_delta_change_set ::
  "(u128 \<Rightarrow> 'b option) \<Rightarrow> ('b \<Rightarrow> u128 option) \<Rightarrow> ('k::linorder, 'b, 'ev, 'v) change_set_ext \<Rightarrow> 'k delta_change_set \<Rightarrow>
   (('k, 'b, 'ev, 'v) change_set_ext, 'v change_set_error) result" where
  "squash_delta_change_set ser de self other =
     bind_res (entries_loop (squash_delta_entry ser de) other (cs_write_set (change_set self), delta_change_set self))
     (\<lambda>(write_set, delta_set).
     bind_res (freeze write_set) (\<lambda>write_set.
     bind_res (ChangeSet_new write_set (cs_events (change_set self)) (checker self)) (\<lambda>cs.
     Ok \<lparr>delta_change_set = delta_set, change_set = cs, checker = checker self\<rparr>)))"

definition squash_write_entry ::
  "'k::linorder \<times> 'b write_op \<Rightarrow> ('k, 'b) write_set \<times> 'k delta_change_set \<Rightarrow>
   (('k, 'b) write_set \<times> 'k delta_change_set, 'v change_set_error) result" where
  "squash_write_entry = (\<lambda>(key, op) (write_ops, delta). case map_of write_ops key of
     Some r \<Rightarrow> bind_res (squash_ops r op) (\<lambda>r'. Ok (put_op key r' write_ops, delta))
   | None \<Rightarrow> Ok (bt_insert key op write_ops, bt_remove key delta))"

definition squash_change_set ::
  "('k::linorder, 'b, 'ev, 'v) change_set_ext \<Rightarrow> ('k, 'b, 'ev) change_set \<Rightarrow>
   (('k, 'b, 'ev, 'v) change_set_ext, 'v change_set_error) result" where
  "squash_change_set self other =
     bind_res (entries_loop squash_write_entry (cs_write_set other) (cs_write_set (change_set self), delta_change_set self))
     (\<lambda>(write_set, delta).
     bind_res (freeze write_set) (\<lambda>write_set.
     bind_res (ChangeSet_new write_set (cs_events (change_set self) @ cs_events other) (checker self)) (\<lambda>cs.
     Ok \<lparr>delta_change_set = delta, change_set = cs, checker = checker self\<rparr>)))"

definition ChangeSetExt_squash ::
  "(u128 \<Rightarrow> 'b option) \<Rightarrow> ('b \<Rightarrow> u128 option) \<Rightarrow> ('k::linorder, 'b, 'ev, 'v) change_set_ext \<Rightarrow> ('k, 'b, 'ev, 'v) change_set_ext \<Rightarrow>
   (('k, 'b, 'ev, 'v) change_set_ext, 'v change_set_error) result" where
  "ChangeSetExt_squash ser de self other =
     bind_res (squash_change_set self (change_set other)) (\<lambda>s. squash_delta_change_set ser de s (delta_change_set other))"

subsection \<open>Transaction outputs with deltas\<close>

datatype ('d, 's) transaction_status = Discard 'd | Keep 's | Retry

definition is_discarded :: "('d, 's) transaction_status \<Rightarrow> bool" where
  "is_discarded s = (case s of Discard _ \<Rightarrow> True | Keep _ \<Rightarrow> False | Retry \<Rightarrow> True)"

record ('k, 'b, 'ev, 'd, 's) transaction_output =
  to_write_set :: "('k, 'b) write_set"
  to_events :: "'ev list"
  to_gas_used :: u64
  to_status :: "('d, 's) transaction_status"

definition merge_delta_writes ::
  "('k::linorder, 'b, 'ev, 'd, 's) transaction_output \<Rightarrow> ('k, 'b) write_set \<Rightarrow>
   (('k, 'b, 'ev, 'd, 's) transaction_output, 'v change_set_error) result" where
  "merge_delta_writes output delta_writes =
     bind_res (expect_ok (WriteSetMut_squash (to_write_set output) delta_writes :: (_, 'v change_set_error) result)) (\<lambda>ws.
     bind_res (expect_ok (freeze ws :: (_, 'v change_set_error) result)) (\<lambda>ws. Ok (output\<lparr>to_write_set := ws\<rparr>)))"

definition into_transaction_output ::
  "(u128 \<Rightarrow> 'b option) \<Rightarrow> ('b \<Rightarrow> u128 option) \<Rightarrow> ('k::linorder \<Rightarrow> ('b option, unit) result) \<Rightarrow> 'k delta_change_set \<Rightarrow>
   ('k, 'b, 'ev, 'd, 's) transaction_output \<Rightarrow> (('k, 'b, 'ev, 'd, 's) transaction_output, 'v change_set_error) result" where
  "into_transaction_output ser de get_state_value deltas txn_output =
     (if is_discarded (to_status txn_output) \<or> deltas = [] then Ok txn_output
      else bind_res (expect_ok (try_into_write_set_mut ser de get_state_value deltas :: (_, 'v change_set_error) result)) (merge_delta_writes txn_output))"

definition output_with_delta_writes ::
  "'k delta_change_set \<Rightarrow> ('k::linorder, 'b, 'ev, 'd, 's) transaction_output \<Rightarrow> ('k, 'b) write_set \<Rightarrow>
   (('k, 'b, 'ev, 'd, 's) transaction_output, 'v change_set_error) result" where
  "output_with_delta_writes deltas txn_output delta_writes =
     (if is_discarded (to_status txn_output) \<or> deltas = [] then Ok txn_output
      else if length deltas \<noteq> length delta_writes then Panic
      else merge_delta_writes txn_output delta_writes)"

section \<open>Lemmas\<close>

subsection \<open>What changes do to the state\<close>

text \<open>
  The value a state key has after a change, \<open>None\<close> when the change is not one of that value: only
  an absent value is created, and only a present one is modified, deleted or changed by a delta.
\<close>

definition apply_write :: "'b write_op \<Rightarrow> 'b option \<Rightarrow> 'b option option" where
  "apply_write w st = (case w of
     Creation b \<Rightarrow> if st = None then Some (Some b) else None
   | Modification b \<Rightarrow> if st \<noteq> None then Some (Some b) else None
   | Deletion \<Rightarrow> if st \<noteq> None then Some None else None)"

definition delta_bytes :: "(u128 \<Rightarrow> 'b option) \<Rightarrow> ('b \<Rightarrow> u128 option) \<Rightarrow> delta_op \<Rightarrow> 'b \<Rightarrow> 'b option" where
  "delta_bytes ser de d b = (case de b of
     None \<Rightarrow> None
   | Some v \<Rightarrow> (case apply_to d v of Ok x \<Rightarrow> ser x | _ \<Rightarrow> None))"

definition apply_delta :: "(u128 \<Rightarrow> 'b option) \<Rightarrow> ('b \<Rightarrow> u128 option) \<Rightarrow> delta_op \<Rightarrow> 'b option \<Rightarrow> 'b option option" where
  "apply_delta ser de d st = (case st of None \<Rightarrow> None | Some b \<Rightarrow> map_option Some (delta_bytes ser de d b))"

definition effect_at ::
  "(u128 \<Rightarrow> 'b option) \<Rightarrow> ('b \<Rightarrow> u128 option) \<Rightarrow> 'b write_op option \<times> delta_op option \<Rightarrow> 'b option \<Rightarrow> 'b option option" where
  "effect_at ser de v st = (case v of
     (Some w, _) \<Rightarrow> apply_write w st
   | (None, Some d) \<Rightarrow> apply_delta ser de d st
   | (None, None) \<Rightarrow> Some st)"

definition cs_view ::
  "('k, 'b) write_set \<times> 'k delta_change_set \<Rightarrow> 'k \<Rightarrow> 'b write_op option \<times> delta_op option" where
  "cs_view s k = (map_of (fst s) k, map_of (snd s) k)"

definition view_inv :: "'b write_op option \<times> delta_op option \<Rightarrow> bool" where
  "view_inv v \<longleftrightarrow> (case v of (Some _, Some _) \<Rightarrow> False | (None, Some d) \<Rightarrow> delta_wf d | _ \<Rightarrow> True)"

definition cs_sorted :: "('k::linorder, 'b) write_set \<times> 'k delta_change_set \<Rightarrow> bool" where
  "cs_sorted s \<longleftrightarrow> bt_sorted (fst s) \<and> bt_sorted (snd s)"

definition ext_parts :: "('k, 'b, 'ev, 'v) change_set_ext \<Rightarrow> ('k, 'b) write_set \<times> 'k delta_change_set" where
  "ext_parts cs = (cs_write_set (change_set cs), delta_change_set cs)"

text \<open>A key is either written or changed by a delta, and the deltas are observed ones.\<close>

definition ext_inv :: "('k::linorder, 'b, 'ev, 'v) change_set_ext \<Rightarrow> bool" where
  "ext_inv cs \<longleftrightarrow> cs_sorted (ext_parts cs) \<and> (\<forall>k. view_inv (cs_view (ext_parts cs) k))"

subsection \<open>The loops, key by key\<close>

definition upd_write ::
  "'b write_op option \<times> delta_op option \<Rightarrow> 'b write_op \<Rightarrow> ('b write_op option \<times> delta_op option, 'v change_set_error) result" where
  "upd_write v op = (case fst v of
     Some r \<Rightarrow> bind_res (squash_ops r op) (\<lambda>r'. Ok (r', snd v))
   | None \<Rightarrow> Ok (Some op, None))"

definition upd_delta ::
  "(u128 \<Rightarrow> 'b option) \<Rightarrow> ('b \<Rightarrow> u128 option) \<Rightarrow> 'b write_op option \<times> delta_op option \<Rightarrow> delta_op \<Rightarrow>
   ('b write_op option \<times> delta_op option, 'v change_set_error) result" where
  "upd_delta ser de v op =
     (let applied = (\<lambda>data.
            bind_res (ok_or (de data) BcsError) (\<lambda>val.
            bind_res (map_err DeltaError (apply_to op val)) (\<lambda>x. ok_or (ser x) BcsError))) in
      case v of
        (Some (Creation data), d) \<Rightarrow> bind_res (applied data) (\<lambda>b. Ok (Some (Creation b), d))
      | (Some (Modification data), d) \<Rightarrow> bind_res (applied data) (\<lambda>b. Ok (Some (Modification b), d))
      | (Some Deletion, d) \<Rightarrow> Err AlreadyDeleted
      | (None, Some entry) \<Rightarrow> bind_res (map_err DeltaError (merge_onto op entry)) (\<lambda>op'. Ok (None, Some op'))
      | (None, None) \<Rightarrow> Ok (None, Some op))"

lemma map_of_put_op: "bt_sorted m \<Longrightarrow> map_of (put_op k r m) = (map_of m)(k := r)"
  by (cases r) (simp_all add: put_op_def bt_get_insert bt_get_remove)

lemma put_op_sorted: "bt_sorted m \<Longrightarrow> bt_sorted (put_op k r m)"
  by (cases r) (simp_all add: put_op_def bt_insert_sorted bt_remove_sorted)

lemmas cs_loop_simps = cs_sorted_def cs_view_def map_of_put_op put_op_sorted bt_insert_sorted bt_remove_sorted bt_get_insert bt_get_remove

interpretation write_loop: entry_loop squash_write_entry "cs_view :: ('k::linorder, 'b) write_set \<times> 'k delta_change_set \<Rightarrow> _"
    cs_sorted "upd_write :: _ \<Rightarrow> _ \<Rightarrow> (_, 'v change_set_error) result"
proof
  fix s :: "('k, 'b) write_set \<times> 'k delta_change_set" and k w
  assume s: "cs_sorted s"
  obtain ws ds where p: "s = (ws, ds)" by (cases s)
  show "\<exists>s'. squash_write_entry (k, w) s = (Ok s' :: (_, 'v change_set_error) result) \<and> cs_sorted s' \<and> cs_view s' = (cs_view s)(k := v)"
    if "upd_write (cs_view s k) w = (Ok v :: (_, 'v change_set_error) result)" for v
    using that s p by (cases "map_of ws k") (auto simp: upd_write_def squash_write_entry_def cs_loop_simps bind_res_Ok_iff fun_eq_iff)
  show "squash_write_entry (k, w) s = Err e" if "upd_write (cs_view s k) w = Err e" for e :: "'v change_set_error"
    using that p by (cases "map_of ws k"; cases "squash_ops (the (map_of ws k)) w :: (_, 'v change_set_error) result")
      (auto simp: upd_write_def squash_write_entry_def cs_view_def)
  show "squash_write_entry (k, w) s = (Panic :: (_, 'v change_set_error) result)" if "upd_write (cs_view s k) w = (Panic :: (_, 'v change_set_error) result)"
    using that p by (cases "map_of ws k"; cases "squash_ops (the (map_of ws k)) w :: (_, 'v change_set_error) result")
      (auto simp: upd_write_def squash_write_entry_def cs_view_def)
qed

interpretation delta_loop: entry_loop "squash_delta_entry ser de" "cs_view :: ('k::linorder, 'b) write_set \<times> 'k delta_change_set \<Rightarrow> _"
    cs_sorted "upd_delta ser de :: _ \<Rightarrow> _ \<Rightarrow> (_, 'v change_set_error) result" for ser :: "u128 \<Rightarrow> 'b option" and de
proof
  fix s :: "('k, 'b) write_set \<times> 'k delta_change_set" and k w
  obtain ws ds where p: "s = (ws, ds)" by (cases s)
  let ?turn = "squash_delta_entry ser de (k, w) s :: (_, 'v change_set_error) result"
    and ?upd = "upd_delta ser de (cs_view s k) w :: (_, 'v change_set_error) result"
  let ?after = "\<lambda>v. (put_op k (fst v) ws, put_op k (snd v) ds)"
  assume s: "cs_sorted s"
  have put: "put_op k (map_of m k) m = m" if "bt_sorted m" for m :: "('k, 'c) btree_map"
    using that by (cases "map_of m k") (simp_all add: put_op_def bt_remove_absent bt_insert_same)
  have "?turn = bind_res ?upd (\<lambda>v. Ok (?after v))"
    using s p put [of ws] put [of ds]
    by (auto simp: upd_delta_def squash_delta_entry_def cs_view_def cs_sorted_def Let_def put_op_def bind_res_assoc
        split: option.splits write_op.splits)
  show "\<exists>s'. ?turn = Ok s' \<and> cs_sorted s' \<and> cs_view s' = (cs_view s)(k := v)" if "?upd = Ok v" for v
    using that s p \<open>?turn = _\<close> by (auto simp: cs_loop_simps fun_eq_iff)
  show "?turn = Err e" if "?upd = Err e" for e using that \<open>?turn = _\<close> by simp
  show "?turn = Panic" if "?upd = Panic" using that \<open>?turn = _\<close> by simp
qed

subsection \<open>One change after another\<close>

definition codec :: "(u128 \<Rightarrow> 'b option) \<Rightarrow> ('b \<Rightarrow> u128 option) \<Rightarrow> bool" where
  "codec ser de \<longleftrightarrow> (\<forall>x. \<exists>b. ser x = Some b \<and> de b = Some x)"

lemma upd_write_sequential:
  assumes "view_inv v" "effect_at ser de v st = Some x" "apply_write op x = Some y"
  shows "\<exists>v'. upd_write v op = Ok v' \<and> effect_at ser de v' st = Some y \<and> view_inv v'"
proof -
  obtain w d where v: "v = (w, d)" by (cases v)
  show ?thesis
  proof (cases w)
    case (Some r)
    with assms v have d: "d = None" by (auto simp: view_inv_def split: option.splits)
    show ?thesis using assms v Some d
      by (cases r; cases op) (auto simp: upd_write_def squash_ops_def effect_at_def apply_write_def view_inv_def split: if_splits)
  next
    case None
    then show ?thesis using assms v
      by (cases d; cases op; cases st)
        (auto simp: upd_write_def effect_at_def apply_write_def apply_delta_def view_inv_def split: if_splits)
  qed
qed

lemma delta_bytes_iff:
  "delta_bytes ser de d b = Some b' \<longleftrightarrow> (\<exists>v x. de b = Some v \<and> apply_to d v = Ok x \<and> ser x = Some b')"
  by (auto simp: delta_bytes_def split: option.splits result.splits)

lemma delta_bytes_merge:
  assumes "codec ser de" "delta_wf d1" "delta_wf d2" "d_limit d1 = d_limit d2"
    and "delta_bytes ser de d1 b = Some b1" "delta_bytes ser de d2 b1 = Some b2"
  shows "\<exists>m. merge_onto d2 d1 = Ok m \<and> delta_wf m \<and> delta_bytes ser de m b = Some b2"
proof -
  from assms(5) obtain v x where x: "de b = Some v" "apply_to d1 v = Ok x" "ser x = Some b1" by (auto simp: delta_bytes_iff)
  with assms(1) have "de b1 = Some x" by (auto simp: codec_def dest: spec [of _ x])
  with assms(6) obtain z where z: "apply_to d2 x = Ok z" "ser z = Some b2" by (auto simp: delta_bytes_iff)
  with merge_exact [OF assms(2-4)] x obtain m where "merge_onto d2 d1 = Ok m" "apply_to m v = Ok z" "delta_wf m" by blast
  with x z show ?thesis by (auto simp: delta_bytes_iff)
qed

lemma upd_delta_sequential:
  assumes "codec ser de" "view_inv v" "delta_wf op" "\<And>d. snd v = Some d \<Longrightarrow> d_limit d = d_limit op"
    and "effect_at ser de v st = Some x" "apply_delta ser de op x = Some y"
  shows "\<exists>v'. upd_delta ser de v op = Ok v' \<and> effect_at ser de v' st = Some y \<and> view_inv v'"
proof -
  obtain w d where v: "v = (w, d)" by (cases v)
  from assms(6) obtain b b' where b: "x = Some b" "y = Some b'" "delta_bytes ser de op b = Some b'"
    by (auto simp: apply_delta_def split: option.splits)
  show ?thesis
  proof (cases w)
    case (Some r)
    with assms(2) v have d: "d = None" by (auto simp: view_inv_def split: option.splits)
    from b(3) obtain u z where "de b = Some u" "apply_to op u = Ok z" "ser z = Some b'" by (auto simp: delta_bytes_iff)
    then show ?thesis using assms(5) b v Some d
      by (cases r) (auto simp: upd_delta_def effect_at_def apply_write_def view_inv_def ok_or_def split: if_splits)
  next
    case None
    show ?thesis
    proof (cases d)
      case (Some d1)
      with None v assms(5) b(1) obtain b0 where b0: "st = Some b0" "delta_bytes ser de d1 b0 = Some b"
        by (auto simp: effect_at_def apply_delta_def split: option.splits)
      have "delta_wf d1" "d_limit d1 = d_limit op" using assms(2,4) v None Some by (auto simp: view_inv_def)
      from delta_bytes_merge [OF assms(1) this(1) assms(3) this(2) b0(2) b(3)] show ?thesis
        using v None Some b0 b by (auto simp: upd_delta_def effect_at_def apply_delta_def view_inv_def)
    next
      case None
      then show ?thesis using assms \<open>w = None\<close> v by (auto simp: upd_delta_def effect_at_def view_inv_def)
    qed
  qed
qed

lemma squash_change_set_sequential:
  fixes cs1 :: "('k::linorder, 'b, 'ev, 'v) change_set_ext"
  assumes inv: "ext_inv cs1" "bt_sorted (cs_write_set other)" and chk: "\<And>c. checker cs1 c = Ok ()"
    and st: "\<And>k. effect_at ser de (cs_view (ext_parts cs1) k) (st k) = Some (mid k)"
    and wr: "\<And>k op. map_of (cs_write_set other) k = Some op \<Longrightarrow> apply_write op (mid k) = Some (fin k)"
  shows "\<exists>cs. squash_change_set cs1 other = Ok cs \<and> ext_inv cs \<and> checker cs = checker cs1 \<and>
    cs_events (change_set cs) = cs_events (change_set cs1) @ cs_events other \<and>
    (\<forall>k. if k \<in> dom (map_of (cs_write_set other)) then effect_at ser de (cs_view (ext_parts cs) k) (st k) = Some (fin k)
      else cs_view (ext_parts cs) k = cs_view (ext_parts cs1) k)"
proof -
  let ?P = "\<lambda>k v. effect_at ser de v (st k) = Some (fin k) \<and> view_inv v"
  have "\<exists>v. upd_write (cs_view (ext_parts cs1) k) w = (Ok v :: (_, 'v change_set_error) result) \<and> ?P k v" if "(k, w) \<in> set (cs_write_set other)" for k w
  proof -
    have "map_of (cs_write_set other) k = Some w" using that bt_sorted_distinct [OF inv(2)] by simp
    from upd_write_sequential [OF _ st wr [OF this]] inv(1) show ?thesis by (simp add: ext_inv_def)
  qed
  from write_loop.loop_Ok_ex [OF bt_sorted_distinct [OF inv(2)] _ this] inv(1)
  obtain s where s: "entries_loop squash_write_entry (cs_write_set other) (ext_parts cs1) = (Ok s :: (_, 'v change_set_error) result)" "cs_sorted s"
    "\<And>k. if k \<in> fst ` set (cs_write_set other) then ?P k (cs_view s k) else cs_view s k = cs_view (ext_parts cs1) k"
    unfolding ext_inv_def by blast
  let ?cs = "\<lparr>delta_change_set = snd s, change_set = \<lparr>cs_write_set = fst s, cs_events = cs_events (change_set cs1) @ cs_events other\<rparr>,
    checker = checker cs1\<rparr>"
  have "squash_change_set cs1 other = Ok ?cs"
    using s(1) chk by (cases s) (simp add: squash_change_set_def ext_parts_def freeze_def ChangeSet_new_def)
  moreover have "ext_parts ?cs = s" by (simp add: ext_parts_def)
  moreover have "view_inv (cs_view s k)" for k using s(3) [of k] inv(1) by (auto simp: ext_inv_def split: if_splits)
  ultimately show ?thesis using s(2,3) unfolding dom_map_of_conv_image_fst by (intro exI [of _ ?cs]) (auto simp: ext_inv_def)
qed

lemma squash_delta_change_set_sequential:
  fixes cs1 :: "('k::linorder, 'b, 'ev, 'v) change_set_ext"
  assumes "codec ser de" and inv: "ext_inv cs1" "bt_sorted other" and chk: "\<And>c. checker cs1 c = Ok ()"
    and st: "\<And>k. k \<in> dom (map_of other) \<Longrightarrow> effect_at ser de (cs_view (ext_parts cs1) k) (st k) = Some (mid k)"
    and d: "\<And>k op. map_of other k = Some op \<Longrightarrow> delta_wf op \<and> apply_delta ser de op (mid k) = Some (fin k) \<and>
      (\<forall>d. map_of (delta_change_set cs1) k = Some d \<longrightarrow> d_limit d = d_limit op)"
  shows "\<exists>cs. squash_delta_change_set ser de cs1 other = Ok cs \<and> ext_inv cs \<and> cs_events (change_set cs) = cs_events (change_set cs1) \<and>
    (\<forall>k. if k \<in> dom (map_of other) then effect_at ser de (cs_view (ext_parts cs) k) (st k) = Some (fin k)
      else cs_view (ext_parts cs) k = cs_view (ext_parts cs1) k)"
proof -
  let ?P = "\<lambda>k v. effect_at ser de v (st k) = Some (fin k) \<and> view_inv v"
  have "\<exists>v. upd_delta ser de (cs_view (ext_parts cs1) k) w = (Ok v :: (_, 'v change_set_error) result) \<and> ?P k v" if "(k, w) \<in> set other" for k w
  proof -
    have w: "map_of other k = Some w" using that bt_sorted_distinct [OF inv(2)] by simp
    show ?thesis using d [OF w] st [of k] inv(1) w
      by (intro upd_delta_sequential [OF assms(1), where x = "mid k"]) (auto simp: ext_inv_def cs_view_def ext_parts_def)
  qed
  from delta_loop.loop_Ok_ex [OF bt_sorted_distinct [OF inv(2)] _ this] inv(1)
  obtain s where s: "entries_loop (squash_delta_entry ser de) other (ext_parts cs1) = (Ok s :: (_, 'v change_set_error) result)" "cs_sorted s"
    "\<And>k. if k \<in> fst ` set other then ?P k (cs_view s k) else cs_view s k = cs_view (ext_parts cs1) k"
    unfolding ext_inv_def by blast
  let ?cs = "\<lparr>delta_change_set = snd s, change_set = \<lparr>cs_write_set = fst s, cs_events = cs_events (change_set cs1)\<rparr>, checker = checker cs1\<rparr>"
  have "squash_delta_change_set ser de cs1 other = Ok ?cs"
    using s(1) chk by (cases s) (simp add: squash_delta_change_set_def ext_parts_def freeze_def ChangeSet_new_def)
  moreover have "ext_parts ?cs = s" by (simp add: ext_parts_def)
  moreover have "view_inv (cs_view s k)" for k using s(3) [of k] inv(1) by (auto simp: ext_inv_def split: if_splits)
  ultimately show ?thesis using s(2,3) unfolding dom_map_of_conv_image_fst by (intro exI [of _ ?cs]) (auto simp: ext_inv_def)
qed

subsection \<open>Materializing deltas\<close>

definition upd_op :: "'b write_op option \<Rightarrow> 'b write_op \<Rightarrow> ('b write_op option, 'v change_set_error) result" where
  "upd_op r op = (case r of Some r \<Rightarrow> squash_ops r op | None \<Rightarrow> Ok (Some op))"

interpretation write_set_loop: entry_loop write_set_entry "map_of :: ('k::linorder, 'b) write_set \<Rightarrow> _" bt_sorted
    "upd_op :: _ \<Rightarrow> _ \<Rightarrow> (_, 'v change_set_error) result"
proof
  fix s :: "('k, 'b) write_set" and k w
  assume s: "bt_sorted s"
  have t: "write_set_entry (k, w) s = bind_res (upd_op (map_of s k) w :: (_, 'v change_set_error) result) (\<lambda>r. Ok (put_op k r s))"
    by (cases "map_of s k") (simp_all add: write_set_entry_def upd_op_def put_op_def)
  show "\<exists>s'. write_set_entry (k, w) s = (Ok s' :: (_, 'v change_set_error) result) \<and> bt_sorted s' \<and> map_of s' = (map_of s)(k := v)"
    if "upd_op (map_of s k) w = (Ok v :: (_, 'v change_set_error) result)" for v
    using that s by (simp add: t map_of_put_op put_op_sorted)
  show "write_set_entry (k, w) s = Err e" if "upd_op (map_of s k) w = Err e" for e :: "'v change_set_error"
    using that by (simp add: t)
  show "write_set_entry (k, w) s = (Panic :: (_, 'v change_set_error) result)" if "upd_op (map_of s k) w = (Panic :: (_, 'v change_set_error) result)"
    using that by (simp add: t)
qed

lemma try_into_write_op_Ok:
  assumes "\<And>k. get_state_value k = Ok (st k)"
  shows "try_into_write_op ser de get_state_value k d = (Ok w :: (_, 'v change_set_error) result) \<longleftrightarrow> (\<exists>b'. apply_delta ser de d (st k) = Some (Some b') \<and> w = Modification b')"
  using assms by (auto simp: try_into_write_op_def apply_delta_def delta_bytes_iff serialize_def deserialize_def bind_res_Ok_iff
    or_panic_Ok_iff map_err_Ok_iff split: option.splits)

lemma apply_delta_present: "apply_delta ser de d st = Some x \<Longrightarrow> \<exists>b. x = Some b"
  by (auto simp: apply_delta_def split: option.splits)

lemma materialize_deltas_Ok:
  assumes "\<And>k. get_state_value k = Ok (st k)"
  shows "materialize_deltas ser de get_state_value ds = Ok ws \<longleftrightarrow>
    list_all2 (\<lambda>(k, d) (k', w). k' = k \<and> (\<exists>b. apply_delta ser de d (st k) = Some (Some b) \<and> w = Modification b)) ds ws"
proof (induction ds arbitrary: ws)
  case (Cons x ds)
  then show ?case by (cases x; cases ws) (auto simp: bind_res_Ok_iff try_into_write_op_Ok [OF assms])
qed auto

lemma materialize_all:
  assumes "\<And>k. get_state_value k = Ok (st k)" "\<And>k d. (k, d) \<in> set ds \<Longrightarrow> apply_delta ser de d (st k) \<noteq> None"
  shows "\<exists>ws. materialize_deltas ser de get_state_value ds = (Ok ws :: (_, 'v change_set_error) result) \<and> map fst ws = map fst ds \<and>
    (\<forall>k w. (k, w) \<in> set ws \<longrightarrow> (\<exists>d b. (k, d) \<in> set ds \<and> apply_delta ser de d (st k) = Some (Some b) \<and> w = Modification b))"
  using assms(2)
proof (induction ds)
  case (Cons x ds)
  obtain k d where x: "x = (k, d)" by (cases x)
  then obtain b where b: "apply_delta ser de d (st k) = Some (Some b)" using Cons.prems [of k d] apply_delta_present by fastforce
  from Cons obtain ws where "materialize_deltas ser de get_state_value ds = (Ok ws :: (_, 'v change_set_error) result)" "map fst ws = map fst ds"
    "\<forall>k w. (k, w) \<in> set ws \<longrightarrow> (\<exists>d b. (k, d) \<in> set ds \<and> apply_delta ser de d (st k) = Some (Some b) \<and> w = Modification b)"
    by auto
  then show ?case using x b try_into_write_op_Ok [where 'v = 'v and get_state_value = get_state_value and st = st and ser = ser and de = de
        and k = k and d = d and w = "Modification b", OF assms(1)]
    by (intro exI [of _ "(k, Modification b) # ws"]) (auto; blast)
qed simp

lemma WriteSetMut_new_facts:
  assumes "distinct (map fst ws)"
  shows "map_of (WriteSetMut_new ws) = map_of ws" "bt_sorted (WriteSetMut_new ws)"
proof -
  have "map_of (fold (\<lambda>(k, w). bt_insert k w) ws m) = map_of m ++ map_of ws \<and> bt_sorted (fold (\<lambda>(k, w). bt_insert k w) ws m)"
    if "bt_sorted m" for m :: "('a, 'b write_op) btree_map"
    using that assms
  proof (induction ws arbitrary: m)
    case (Cons x ws)
    obtain k w where x: "x = (k, w)" by (cases x)
    have "map_of ws k = None" using Cons.prems(2) x by (simp add: map_of_eq_None_iff)
    with Cons x show ?case by (auto simp: bt_get_insert bt_insert_sorted map_add_def fun_eq_iff split: option.splits)
  qed simp
  from this [of "[]"] show "map_of (WriteSetMut_new ws) = map_of ws" "bt_sorted (WriteSetMut_new ws)"
    by (simp_all add: WriteSetMut_new_def)
qed

lemma WriteSetMut_squash_disjoint:
  fixes ws :: "('k::linorder, 'b) write_set"
  assumes "bt_sorted ws" "bt_sorted other" "dom (map_of ws) \<inter> dom (map_of other) = {}"
  shows "\<exists>r. WriteSetMut_squash ws other = (Ok r :: (_, 'v change_set_error) result) \<and> bt_sorted r \<and>
    (\<forall>k. map_of r k = (case map_of other k of Some w \<Rightarrow> Some w | None \<Rightarrow> map_of ws k))"
proof -
  have "upd_op (map_of ws k) w = (Ok (map_of other k) :: (_, 'v change_set_error) result)" if "(k, w) \<in> set other" for k w
  proof -
    have w: "map_of other k = Some w" using that bt_sorted_distinct [OF assms(2)] by simp
    with assms(3) have "map_of ws k = None" by (auto simp: domIff disjoint_iff)
    with w show ?thesis by (simp add: upd_op_def)
  qed
  from write_set_loop.loop_Ok [OF bt_sorted_distinct [OF assms(2)] assms(1) this]
  obtain r where "entries_loop write_set_entry other ws = (Ok r :: (_, 'v change_set_error) result)" "bt_sorted r"
    "\<And>k. map_of r k = (if k \<in> fst ` set other then map_of other k else map_of ws k)" by blast
  moreover have "k \<in> fst ` set other \<longleftrightarrow> map_of other k \<noteq> None" for k by (simp add: map_of_eq_None_iff)
  ultimately show ?thesis by (auto simp: WriteSetMut_squash_def split: option.splits)
qed

section \<open>Properties\<close>

text \<open>
  C24. Squashing two change sets is applying one after the other. If the changes of the first are
  ones of the state, and those of the second are ones of the state that follows, then squashing
  succeeds, every key has after the squashed changes the value it has after both, the events follow
  one another, and a key is still either written or changed by a delta. The encoding of numbers can
  be read back, the checker of the first set accepts, and the deltas of one key share its limit.
\<close>

theorem change_sets_squash:
  fixes cs1 cs2 :: "('k::linorder, 'b, 'ev, 'v) change_set_ext"
  assumes "codec ser de" "ext_inv cs1" "ext_inv cs2" "\<And>c. checker cs1 c = Ok ()"
    and lim: "\<And>k d1 d2. map_of (delta_change_set cs1) k = Some d1 \<Longrightarrow> map_of (delta_change_set cs2) k = Some d2 \<Longrightarrow> d_limit d1 = d_limit d2"
    and st: "\<And>k. effect_at ser de (cs_view (ext_parts cs1) k) (st k) = Some (mid k)"
    and st2: "\<And>k. effect_at ser de (cs_view (ext_parts cs2) k) (mid k) = Some (fin k)"
  shows "\<exists>cs. ChangeSetExt_squash ser de cs1 cs2 = Ok cs \<and> ext_inv cs \<and>
    cs_events (change_set cs) = cs_events (change_set cs1) @ cs_events (change_set cs2) \<and>
    (\<forall>k. effect_at ser de (cs_view (ext_parts cs) k) (st k) = Some (fin k))"
proof -
  let ?w = "map_of (cs_write_set (change_set cs2))" and ?d = "map_of (delta_change_set cs2)"
  have inv2: "bt_sorted (cs_write_set (change_set cs2))" "bt_sorted (delta_change_set cs2)"
    "\<And>k. view_inv (?w k, ?d k)"
    using assms(3) by (auto simp: ext_inv_def cs_sorted_def ext_parts_def cs_view_def)
  have fin: "effect_at ser de (?w k, ?d k) (mid k) = Some (fin k)" for k using st2 [of k] by (simp add: cs_view_def ext_parts_def)
  have "apply_write op (mid k) = Some (fin k)" if "?w k = Some op" for k op using fin [of k] that by (simp add: effect_at_def)
  from squash_change_set_sequential [OF assms(2) inv2(1) assms(4) st this]
  obtain cs where cs: "squash_change_set cs1 (change_set cs2) = Ok cs" "ext_inv cs" "checker cs = checker cs1"
    "cs_events (change_set cs) = cs_events (change_set cs1) @ cs_events (change_set cs2)"
    "\<And>k. if k \<in> dom ?w then effect_at ser de (cs_view (ext_parts cs) k) (st k) = Some (fin k)
      else cs_view (ext_parts cs) k = cs_view (ext_parts cs1) k" by blast
  have only: "k \<notin> dom ?w" if "k \<in> dom ?d" for k using inv2(3) [of k] that by (auto simp: view_inv_def split: option.splits)
  have same: "cs_view (ext_parts cs) k = cs_view (ext_parts cs1) k" if "k \<notin> dom ?w" for k using cs(5) [of k] that by simp
  have "\<exists>cs'. squash_delta_change_set ser de cs (delta_change_set cs2) = Ok cs' \<and> ext_inv cs' \<and>
    cs_events (change_set cs') = cs_events (change_set cs) \<and>
    (\<forall>k. if k \<in> dom ?d then effect_at ser de (cs_view (ext_parts cs') k) (st k) = Some (fin k)
      else cs_view (ext_parts cs') k = cs_view (ext_parts cs) k)"
  proof (rule squash_delta_change_set_sequential [OF assms(1) cs(2) inv2(2), where mid = mid])
    show "checker cs c = Ok ()" for c using cs(3) assms(4) by simp
    show "effect_at ser de (cs_view (ext_parts cs) k) (st k) = Some (mid k)" if "k \<in> dom ?d" for k
      using same [OF only [OF that]] st by simp
    show "delta_wf op \<and> apply_delta ser de op (mid k) = Some (fin k) \<and>
      (\<forall>d. map_of (delta_change_set cs) k = Some d \<longrightarrow> d_limit d = d_limit op)" if "?d k = Some op" for k op
    proof -
      have "?w k = None" using only [of k] that by (simp add: domIff)
      moreover have "map_of (delta_change_set cs) k = map_of (delta_change_set cs1) k"
        using same [of k] only [of k] that by (auto simp: cs_view_def ext_parts_def)
      ultimately show ?thesis using fin [of k] inv2(3) [of k] that lim [of k] by (auto simp: effect_at_def view_inv_def)
    qed
  qed
  then obtain cs' where cs': "squash_delta_change_set ser de cs (delta_change_set cs2) = Ok cs'" "ext_inv cs'"
    "cs_events (change_set cs') = cs_events (change_set cs)"
    "\<And>k. if k \<in> dom ?d then effect_at ser de (cs_view (ext_parts cs') k) (st k) = Some (fin k)
      else cs_view (ext_parts cs') k = cs_view (ext_parts cs) k" by blast
  have "effect_at ser de (cs_view (ext_parts cs') k) (st k) = Some (fin k)" for k
    using cs'(4) [of k] cs(5) [of k] st [of k] fin [of k]
    by (auto simp: effect_at_def domIff split: if_splits)
  then show ?thesis using cs cs' by (auto simp: ChangeSetExt_squash_def)
qed

theorem change_sets_squash_witness:
  "\<exists>cs. ChangeSetExt_squash Some Some
      \<lparr>delta_change_set = [(2, DeltaOp_new (Plus 5) 100 8 2)],
       change_set = \<lparr>cs_write_set = [(1 :: nat, Creation 4), (3, Modification 9)], cs_events = [''first'']\<rparr>, checker = \<lambda>_. Ok ()\<rparr>
      \<lparr>delta_change_set = [(1, DeltaOp_new (Plus 3) 100 3 0), (2, DeltaOp_new (Minus 7) 100 3 9)],
       change_set = \<lparr>cs_write_set = [(3, Deletion)], cs_events = [''second'']\<rparr>, checker = \<lambda>_. (Ok () :: (unit, nat) result)\<rparr> = Ok cs \<and>
    cs_events (change_set cs) = [''first'', ''second''] \<and>
    effect_at Some Some (cs_view (ext_parts cs) 1) None = Some (Some 7) \<and>
    effect_at Some Some (cs_view (ext_parts cs) 2) (Some 10) = Some (Some 8) \<and>
    effect_at Some Some (cs_view (ext_parts cs) 3) (Some 1) = Some None"
  (is "\<exists>cs. ChangeSetExt_squash Some Some ?cs1 ?cs2 = Ok cs \<and> _")
proof -
  let ?d1 = "DeltaOp_new (Plus 5) 100 8 2" and ?d2 = "DeltaOp_new (Minus 7) 100 3 9" and ?d3 = "DeltaOp_new (Plus 3) 100 3 0"
  have d: "delta_wf ?d1" "delta_wf ?d2" "delta_wf ?d3" "apply_to ?d1 10 = Ok 15" "apply_to ?d2 15 = Ok 8" "apply_to ?d3 4 = Ok 7"
    by (simp_all add: apply_to_Ok delta_wf_def DeltaOp_new_def)
  let ?st = "\<lambda>k. if k = 2 then Some 10 else if k = 3 then Some 1 else None"
    and ?mid = "\<lambda>k. if k = 1 then Some 4 else if k = 2 then Some 15 else if k = 3 then Some 9 else None"
    and ?fin = "\<lambda>k. if k = 1 then Some 7 else if k = 2 then Some 8 else None"
  have "\<exists>cs. ChangeSetExt_squash Some Some ?cs1 ?cs2 = Ok cs \<and> ext_inv cs \<and>
    cs_events (change_set cs) = cs_events (change_set ?cs1) @ cs_events (change_set ?cs2) \<and>
    (\<forall>k. effect_at Some Some (cs_view (ext_parts cs) k) (?st k) = Some (?fin k))"
    by (rule change_sets_squash [where mid = ?mid])
      (use d in \<open>auto simp: codec_def ext_inv_def ext_parts_def cs_sorted_def cs_view_def view_inv_def effect_at_def apply_write_def
        apply_delta_def delta_bytes_def DeltaOp_new_def split: if_splits\<close>)
  then obtain cs where cs: "ChangeSetExt_squash Some Some ?cs1 ?cs2 = Ok cs" "cs_events (change_set cs) = [''first'', ''second'']"
    "\<And>k. effect_at Some Some (cs_view (ext_parts cs) k) (?st k) = Some (?fin k)" by auto
  from cs(1,2) cs(3) [of 1] cs(3) [of 2] cs(3) [of 3] show ?thesis by auto
qed

text \<open>
  C25. Deltas of a kept transaction output are materialized faithfully, or not at all. If every delta
  can be applied to the value the state view has for its key, the output gets writes that give every
  key exactly the value that its writes and deltas gave it, with its events, gas and status as they
  were; if some delta cannot, the conversion panics. Written keys and keys with a delta differ.
\<close>

theorem transaction_output_materializes:
  fixes out :: "('k::linorder, 'b, 'ev, 'd, 's) transaction_output"
    and result :: "(('k, 'b, 'ev, 'd, 's) transaction_output, 'v change_set_error) result"
  assumes "bt_sorted (to_write_set out)" "bt_sorted deltas" "dom (map_of (to_write_set out)) \<inter> dom (map_of deltas) = {}"
    and "\<not> is_discarded (to_status out)" and get: "\<And>k. get_state_value k = Ok (st k)"
    and result: "result = into_transaction_output ser de get_state_value deltas out"
  shows "if \<forall>(k, d) \<in> set deltas. apply_delta ser de d (st k) \<noteq> None
    then \<exists>ws. result = Ok (out\<lparr>to_write_set := ws\<rparr>) \<and>
      (\<forall>k. effect_at ser de (map_of ws k, None) (st k) = effect_at ser de (map_of (to_write_set out) k, map_of deltas k) (st k))
    else result = Panic"
proof (cases "\<forall>(k, d) \<in> set deltas. apply_delta ser de d (st k) \<noteq> None")
  case True
  with materialize_all [OF get, of deltas ser de] obtain ws
    where ws: "materialize_deltas ser de get_state_value deltas = (Ok ws :: (_, 'v change_set_error) result)" "map fst ws = map fst deltas"
      "\<And>k w. (k, w) \<in> set ws \<Longrightarrow> \<exists>d b. (k, d) \<in> set deltas \<and> apply_delta ser de d (st k) = Some (Some b) \<and> w = Modification b"
    by fastforce
  have dist: "distinct (map fst ws)" using ws(2) bt_sorted_distinct [OF assms(2)] by simp
  have dom: "dom (map_of ws) = dom (map_of deltas)" using ws(2) by (metis dom_map_of_conv_image_fst list.set_map)
  from WriteSetMut_squash_disjoint [OF assms(1), of "WriteSetMut_new ws", where 'v = 'v] WriteSetMut_new_facts [OF dist] assms(3) dom
  obtain r where r: "WriteSetMut_squash (to_write_set out) (WriteSetMut_new ws) = (Ok r :: (_, 'v change_set_error) result)"
    "\<And>k. map_of r k = (case map_of ws k of Some w \<Rightarrow> Some w | None \<Rightarrow> map_of (to_write_set out) k)" by auto
  have "effect_at ser de (map_of (if deltas = [] then to_write_set out else r) k, None) (st k) =
    effect_at ser de (map_of (to_write_set out) k, map_of deltas k) (st k)" for k
  proof (cases "map_of ws k")
    case None
    then have "map_of deltas k = None" using dom by (auto simp: domIff)
    then show ?thesis using None r(2) [of k] by (simp add: effect_at_def split: option.splits)
  next
    case (Some w)
    with ws(3) map_of_SomeD [OF Some] obtain d b where d: "(k, d) \<in> set deltas" "apply_delta ser de d (st k) = Some (Some b)"
      "w = Modification b" by blast
    then have "map_of deltas k = Some d" using bt_sorted_distinct [OF assms(2)] by simp
    moreover from this have "map_of (to_write_set out) k = None" "deltas \<noteq> []" using assms(3) by (auto simp: domIff disjoint_iff)
    moreover have "st k \<noteq> None" using d(2) by (auto simp: apply_delta_def split: option.splits)
    ultimately show ?thesis using Some r(2) [of k] d by (simp add: effect_at_def apply_write_def)
  qed
  moreover have "result = Ok (out\<lparr>to_write_set := if deltas = [] then to_write_set out else r\<rparr>)"
    using assms(4) ws(1) r(1) by (simp add: result into_transaction_output_def try_into_write_set_mut_def merge_delta_writes_def freeze_def)
  ultimately show ?thesis unfolding if_P [OF True] by blast
next
  case False
  then obtain k d where kd: "(k, d) \<in> set deltas" "apply_delta ser de d (st k) = None" by auto
  have "\<nexists>ws. materialize_deltas ser de get_state_value deltas = (Ok ws :: (_, 'v change_set_error) result)"
    using kd by (auto simp: materialize_deltas_Ok [OF get] in_set_conv_decomp list_all2_append1 list_all2_Cons1)
  then have "expect_ok (try_into_write_set_mut ser de get_state_value deltas :: (_, 'v change_set_error) result) =
    (Panic :: (_, 'v change_set_error) result)"
    by (cases "materialize_deltas ser de get_state_value deltas :: (_, 'v change_set_error) result")
      (auto simp: try_into_write_set_mut_def expect_ok_def)
  then show ?thesis using False kd assms(4) by (auto simp: result into_transaction_output_def)
qed

theorem transaction_output_materializes_witness:
  "\<exists>ws. into_transaction_output Some Some (\<lambda>k. Ok (if k = 2 then Some 10 else None)) [(2 :: nat, DeltaOp_new (Plus 5) 100 8 2)]
      \<lparr>to_write_set = [(1, Creation 4)], to_events = [''done''], to_gas_used = 7, to_status = Keep ()\<rparr> =
    (Ok \<lparr>to_write_set = ws, to_events = [''done''], to_gas_used = 7, to_status = Keep ()\<rparr> ::
      ((nat, u128, string, unit, unit) transaction_output, nat change_set_error) result) \<and>
    effect_at Some Some (map_of ws 2, None) (Some 10) = Some (Some 15)"
proof -
  let ?out = "\<lparr>to_write_set = [(1, Creation 4)], to_events = [''done''], to_gas_used = 7, to_status = Keep ()\<rparr> ::
    (nat, u128, string, unit, unit) transaction_output"
  let ?d = "DeltaOp_new (Plus 5) 100 8 2" and ?st = "\<lambda>k :: nat. if k = 2 then Some (10 :: u128) else None"
  have d: "apply_to ?d 10 = Ok 15" by (simp add: apply_to_Ok delta_wf_def DeltaOp_new_def)
  have "\<forall>(k, d) \<in> set [(2, ?d)]. apply_delta Some Some d (?st k) \<noteq> None"
    by (simp add: apply_delta_def delta_bytes_def d)
  note c = if_P [OF this]
  have "\<exists>ws. into_transaction_output Some Some (\<lambda>k. Ok (?st k)) [(2, ?d)] ?out =
        (Ok (?out\<lparr>to_write_set := ws\<rparr>) :: (_, nat change_set_error) result) \<and>
      (\<forall>k. effect_at Some Some (map_of ws k, None) (?st k) = effect_at Some Some (map_of (to_write_set ?out) k, map_of [(2, ?d)] k) (?st k))"
    by (rule transaction_output_materializes [where out = ?out and deltas = "[(2, ?d)]" and st = ?st and ser = Some and de = Some,
        OF _ _ _ _ _ refl, unfolded c]) (simp_all add: is_discarded_def)
  then obtain ws where ws: "into_transaction_output Some Some (\<lambda>k. Ok (?st k)) [(2, ?d)] ?out =
        (Ok (?out\<lparr>to_write_set := ws\<rparr>) :: (_, nat change_set_error) result)"
    "\<And>k. effect_at Some Some (map_of ws k, None) (?st k) = effect_at Some Some (map_of (to_write_set ?out) k, map_of [(2, ?d)] k) (?st k)"
    by blast
  from ws(1) ws(2) [of 2] show ?thesis by (auto simp: effect_at_def apply_delta_def delta_bytes_def d)
qed

end
