(* ===== verification/Versioned_Map.thy ===== *)
theory Versioned_Map
  imports Change_Sets Exec
begin

text \<open>
  The multi-version map of the parallel executor (\<open>language/move-hashmap/src/lib.rs\<close>): for every key, the
  writes and deltas of the transactions of a block by the index of the transaction. A transaction reads
  what the transactions below it left; deltas found on the way are merged until a write or the bottom is
  reached. The resolver (\<open>language/block-executor/src/output_delta_resolver.rs\<close>) turns the deltas that are
  left at the end into writes.

  Every method holds the lock of its key from beginning to end and is one step. The values are write
  operations on bytes; \<open>ser\<close> and \<open>de\<close> are the BCS codec of 128-bit numbers.
\<close>

section \<open>Definitions\<close>

subsection \<open>The map\<close>

type_synonym txn_index = u64
type_synonym incarnation = u64
type_synonym version = "txn_index \<times> incarnation"

definition FLAG_DONE :: u64 where "FLAG_DONE = 0"
definition FLAG_ESTIMATE :: u64 where "FLAG_ESTIMATE = 1"

datatype 'b entry_cell = CellWrite incarnation "'b write_op" | CellDelta delta_op

record 'b entry =
  e_flag :: u64
  e_cell :: "'b entry_cell"

definition new_write_from :: "u64 \<Rightarrow> incarnation \<Rightarrow> 'b write_op \<Rightarrow> 'b entry" where
  "new_write_from flag inc data = \<lparr>e_flag = flag, e_cell = CellWrite inc data\<rparr>"

definition new_delta_from :: "u64 \<Rightarrow> delta_op \<Rightarrow> 'b entry" where
  "new_delta_from flag data = \<lparr>e_flag = flag, e_cell = CellDelta data\<rparr>"

record 'b versioned_value =
  versioned_map :: "(txn_index, 'b entry) btree_map"
  contains_delta :: bool

definition VersionedValue_new :: "'b versioned_value" where
  "VersionedValue_new = \<lparr>versioned_map = [], contains_delta = False\<rparr>"

record ('k, 'b) mvhashmap =
  mv_data :: "('k, 'b versioned_value) btree_map"
  delta_keys :: "'k list"

datatype mvhashmap_error = NotFound | Unresolved delta_op | Dependency txn_index | DeltaApplicationFailure

datatype 'b mvhashmap_output = Resolved u128 | Version version "'b write_op"

definition MVHashMap_new :: "('k, 'b) mvhashmap" where
  "MVHashMap_new = \<lparr>mv_data = [], delta_keys = []\<rparr>"

definition entry_map_for_key ::
  "'k::linorder \<Rightarrow> ('k, 'b) mvhashmap \<Rightarrow> (txn_index, 'b entry) btree_map option \<times> ('k, 'b) mvhashmap" where
  "entry_map_for_key key m = (map_option versioned_map (map_of (mv_data m) key), m\<lparr>mv_data := bt_remove key (mv_data m)\<rparr>)"

definition aggregator_keys :: "('k, 'b) mvhashmap \<Rightarrow> 'k list \<times> ('k, 'b) mvhashmap" where
  "aggregator_keys m = (delta_keys m, m\<lparr>delta_keys := []\<rparr>)"

definition entry_or_default :: "'k \<Rightarrow> ('k, 'b) mvhashmap \<Rightarrow> 'b versioned_value" where
  "entry_or_default key m = (case map_of (mv_data m) key of Some v \<Rightarrow> v | None \<Rightarrow> VersionedValue_new)"

definition add_write :: "'k::linorder \<Rightarrow> version \<Rightarrow> 'b write_op \<Rightarrow> (('k, 'b) mvhashmap, unit, 'e) exec" where
  "add_write key ver data m =
     (let (txn_idx, inc) = ver;
          v = entry_or_default key m;
          prev_entry = map_of (versioned_map v) txn_idx;
          v' = v\<lparr>versioned_map := bt_insert txn_idx (new_write_from FLAG_DONE inc data) (versioned_map v)\<rparr>
      in (case prev_entry of
            Some e \<Rightarrow> (case e_cell e of CellWrite i _ \<Rightarrow> if i < inc then Ok () else Panic | _ \<Rightarrow> Ok ())
          | None \<Rightarrow> Ok (),
          m\<lparr>mv_data := bt_insert key v' (mv_data m)\<rparr>))"

definition add_delta :: "'k::linorder \<Rightarrow> txn_index \<Rightarrow> delta_op \<Rightarrow> ('k, 'b) mvhashmap \<Rightarrow> ('k, 'b) mvhashmap" where
  "add_delta key txn_idx delta m =
     (let v = entry_or_default key m;
          v' = v\<lparr>versioned_map := bt_insert txn_idx (new_delta_from FLAG_DONE delta) (versioned_map v)\<rparr>
      in if \<not> contains_delta v'
         then m\<lparr>mv_data := bt_insert key (v'\<lparr>contains_delta := True\<rparr>) (mv_data m), delta_keys := delta_keys m @ [key]\<rparr>
         else m\<lparr>mv_data := bt_insert key v' (mv_data m)\<rparr>)"

definition mark_estimate :: "'k::linorder \<Rightarrow> txn_index \<Rightarrow> (('k, 'b) mvhashmap, unit, 'e) exec" where
  "mark_estimate key txn_idx m = (case map_of (mv_data m) key of
     None \<Rightarrow> (Panic, m)
   | Some v \<Rightarrow> (case map_of (versioned_map v) txn_idx of
       None \<Rightarrow> (Panic, m)
     | Some e \<Rightarrow> (Ok (), m\<lparr>mv_data := bt_insert key
         (v\<lparr>versioned_map := bt_insert txn_idx (e\<lparr>e_flag := FLAG_ESTIMATE\<rparr>) (versioned_map v)\<rparr>) (mv_data m)\<rparr>)))"

definition mv_delete :: "'k::linorder \<Rightarrow> txn_index \<Rightarrow> (('k, 'b) mvhashmap, unit, 'e) exec" where
  "mv_delete key txn_idx m = (case map_of (mv_data m) key of
     None \<Rightarrow> (Panic, m)
   | Some v \<Rightarrow> (Ok (), m\<lparr>mv_data := bt_insert key (v\<lparr>versioned_map := bt_remove txn_idx (versioned_map v)\<rparr>) (mv_data m)\<rparr>))"

definition AggregatorValue_from_write :: "('b \<Rightarrow> u128 option) \<Rightarrow> 'b write_op \<Rightarrow> (u128 option, 'e) result" where
  "AggregatorValue_from_write de w = (case extract_raw_bytes w of
     None \<Rightarrow> Ok None
   | Some bytes \<Rightarrow> bind_res (or_panic (de bytes)) (\<lambda>v. Ok (Some v)))"

text \<open>
  The loop of a read takes the entries from the highest index down. The accumulator holds the merged
  deltas, or that merging them failed.
\<close>

fun read_loop ::
  "('b \<Rightarrow> u128 option) \<Rightarrow> (txn_index \<times> 'b entry) list \<Rightarrow> (delta_op, unit) result option \<Rightarrow>
   ('b mvhashmap_output, mvhashmap_error) result" where
  "read_loop de [] acc = (case acc of
     Some (Ok a) \<Rightarrow> Err (Unresolved a)
   | Some _ \<Rightarrow> Err DeltaApplicationFailure
   | None \<Rightarrow> Err NotFound)"
| "read_loop de ((idx, e) # rest) acc =
     (if e_flag e = FLAG_ESTIMATE then Err (Dependency idx)
      else case (e_cell e, acc) of
        (CellWrite inc data, None) \<Rightarrow> Ok (Version (idx, inc) data)
      | (CellWrite inc data, Some a) \<Rightarrow>
          bind_res (AggregatorValue_from_write de data) (\<lambda>maybe_value. case maybe_value of
            None \<Rightarrow> Ok (Version (idx, inc) data)
          | Some value \<Rightarrow>
              bind_res (map_err (\<lambda>_. DeltaApplicationFailure) a) (\<lambda>d.
              bind_res (map_err (\<lambda>_. DeltaApplicationFailure) (apply_to d value)) (\<lambda>r. Ok (Resolved r))))
      | (CellDelta delta, Some a) \<Rightarrow>
          (case bind_res a (\<lambda>d. map_err (\<lambda>_. ()) (merge_onto d delta)) of
             Panic \<Rightarrow> Panic
           | a' \<Rightarrow> read_loop de rest (Some a'))
      | (CellDelta delta, None) \<Rightarrow> read_loop de rest (Some (Ok delta)))"

definition entries_below :: "('k, 'b) mvhashmap \<Rightarrow> 'k \<Rightarrow> txn_index \<Rightarrow> (txn_index \<times> 'b entry) list" where
  "entries_below m key txn_idx = (case map_of (mv_data m) key of
     None \<Rightarrow> []
   | Some v \<Rightarrow> filter (\<lambda>(i, _). i < txn_idx) (versioned_map v))"

definition mv_read ::
  "('b \<Rightarrow> u128 option) \<Rightarrow> ('k, 'b) mvhashmap \<Rightarrow> 'k \<Rightarrow> txn_index \<Rightarrow> ('b mvhashmap_output, mvhashmap_error) result" where
  "mv_read de m key txn_idx = (case map_of (mv_data m) key of
     Some _ \<Rightarrow> read_loop de (rev (entries_below m key txn_idx)) None
   | None \<Rightarrow> Err NotFound)"

subsection \<open>Resolving deltas\<close>

text \<open>The rows of the output, by transaction, to which the loop over the entries of a key pushes.\<close>

type_synonym ('k, 'b) delta_writes = "('k \<times> 'b write_op) list list"

fun resolve_entries ::
  "(u128 \<Rightarrow> 'b option) \<Rightarrow> ('b \<Rightarrow> u128 option) \<Rightarrow> 'k \<Rightarrow> (txn_index \<times> 'b entry) list \<Rightarrow> u128 option \<Rightarrow> ('k, 'b) delta_writes \<Rightarrow>
   (('k, 'b) delta_writes, unit) result" where
  "resolve_entries ser de key [] latest_value ret = Ok ret"
| "resolve_entries ser de key ((idx, e) # rest) latest_value ret = (case e_cell e of
     CellWrite _ data \<Rightarrow>
       bind_res (AggregatorValue_from_write de data) (\<lambda>latest_value'. resolve_entries ser de key rest latest_value' ret)
   | CellDelta delta \<Rightarrow>
       bind_res (or_panic latest_value) (\<lambda>latest.
       bind_res (case apply_to delta latest of Ok v \<Rightarrow> Ok v | _ \<Rightarrow> Panic) (\<lambda>aggregator_value.
       if length ret \<le> unat idx then Panic
       else bind_res (or_panic (ser aggregator_value)) (\<lambda>bytes.
         resolve_entries ser de key rest (Some aggregator_value)
           (ret[unat idx := ret ! unat idx @ [(key, Modification bytes)]])))))"

fun resolve_keys ::
  "(u128 \<Rightarrow> 'b option) \<Rightarrow> ('b \<Rightarrow> u128 option) \<Rightarrow> ('k::linorder \<Rightarrow> ('b option, unit) result) \<Rightarrow> 'k list \<Rightarrow> ('k, 'b) mvhashmap \<Rightarrow>
   ('k, 'b) delta_writes \<Rightarrow> (('k, 'b) delta_writes, unit) result" where
  "resolve_keys ser de get_state_value [] m ret = Ok ret"
| "resolve_keys ser de get_state_value (key # keys) m ret =
     bind_res (case get_state_value key of
         Ok (Some bytes) \<Rightarrow> bind_res (or_panic (de bytes)) (\<lambda>v. Ok (Some v))
       | Ok None \<Rightarrow> Ok None
       | Err _ \<Rightarrow> Ok None
       | Panic \<Rightarrow> Panic) (\<lambda>latest_value.
     let (entries, m') = entry_map_for_key key m in
     bind_res (or_panic entries) (\<lambda>indexed_entries.
     bind_res (resolve_entries ser de key indexed_entries latest_value ret) (\<lambda>ret'.
     resolve_keys ser de get_state_value keys m' ret')))"

definition OutputDeltaResolver_resolve ::
  "(u128 \<Rightarrow> 'b option) \<Rightarrow> ('b \<Rightarrow> u128 option) \<Rightarrow> ('k::linorder \<Rightarrow> ('b option, unit) result) \<Rightarrow> nat \<Rightarrow> ('k, 'b) mvhashmap \<Rightarrow>
   (('k, 'b) delta_writes, unit) result" where
  "OutputDeltaResolver_resolve ser de get_state_value block_size m =
     (let (keys, m') = aggregator_keys m in resolve_keys ser de get_state_value keys m' (replicate block_size []))"

section \<open>Reads against sequential execution\<close>

text \<open>
  What a key holds after the entries of a prefix of the block are applied in order: a write replaces the
  value, a delta changes it; \<open>None\<close> when a delta cannot be applied.
\<close>

definition entry_effect :: "(u128 \<Rightarrow> 'b option) \<Rightarrow> ('b \<Rightarrow> u128 option) \<Rightarrow> 'b entry_cell \<Rightarrow> 'b option \<Rightarrow> 'b option option" where
  "entry_effect ser de c cur = (case c of CellWrite _ w \<Rightarrow> Some (extract_raw_bytes w) | CellDelta d \<Rightarrow> apply_delta ser de d cur)"

definition seq_value ::
  "(u128 \<Rightarrow> 'b option) \<Rightarrow> ('b \<Rightarrow> u128 option) \<Rightarrow> 'b option \<Rightarrow> (txn_index \<times> 'b entry) list \<Rightarrow> 'b option option" where
  "seq_value ser de base es = foldl (\<lambda>cur (_, e). Option.bind cur (entry_effect ser de (e_cell e))) (Some base) es"

text \<open>The value a read stands for, given what the storage holds.\<close>

definition read_value ::
  "(u128 \<Rightarrow> 'b option) \<Rightarrow> ('b \<Rightarrow> u128 option) \<Rightarrow> 'b option \<Rightarrow> ('b mvhashmap_output, mvhashmap_error) result \<Rightarrow> 'b option option" where
  "read_value ser de base r = (case r of
     Ok (Version _ w) \<Rightarrow> Some (extract_raw_bytes w)
   | Ok (Resolved v) \<Rightarrow> map_option Some (ser v)
   | Err (Unresolved d) \<Rightarrow> apply_delta ser de d base
   | Err NotFound \<Rightarrow> Some base
   | _ \<Rightarrow> None)"

text \<open>All entries are final, and the deltas are observed deltas with the one limit of their aggregator.\<close>

definition entries_final :: "u128 \<Rightarrow> (txn_index \<times> 'b entry) list \<Rightarrow> bool" where
  "entries_final limit es \<longleftrightarrow> (\<forall>(_, e) \<in> set es. e_flag e \<noteq> FLAG_ESTIMATE \<and>
     (\<forall>d. e_cell e = CellDelta d \<longrightarrow> delta_wf d \<and> d_limit d = limit))"

definition acc_final :: "u128 \<Rightarrow> (delta_op, unit) result option \<Rightarrow> bool" where
  "acc_final limit acc \<longleftrightarrow> (\<forall>d. acc = Some (Ok d) \<longrightarrow> delta_wf d \<and> d_limit d = limit)"

definition after_acc ::
  "(u128 \<Rightarrow> 'b option) \<Rightarrow> ('b \<Rightarrow> u128 option) \<Rightarrow> (delta_op, unit) result option \<Rightarrow> 'b option \<Rightarrow> 'b option option" where
  "after_acc ser de acc cur = (case acc of None \<Rightarrow> Some cur | Some (Ok d) \<Rightarrow> apply_delta ser de d cur | Some _ \<Rightarrow> None)"

lemma seq_value_snoc: "seq_value ser de base (es @ [(i, e)]) = Option.bind (seq_value ser de base es) (entry_effect ser de (e_cell e))"
  by (simp add: seq_value_def)

lemma apply_delta_Some: "apply_delta ser de d cur = Some v \<longleftrightarrow> (\<exists>b x y b'. cur = Some b \<and> de b = Some x \<and> apply_to d x = Ok y \<and> ser y = Some b' \<and> v = Some b')"
  by (auto simp: apply_delta_def delta_bytes_iff split: option.splits)

lemma apply_delta_merge:
  assumes "codec ser de" "delta_wf d" "delta_wf a" "d_limit d = d_limit a"
    and "apply_delta ser de d cur = Some x" "apply_delta ser de a x = Some v"
  shows "\<exists>m. merge_onto a d = Ok m \<and> delta_wf m \<and> d_limit m = d_limit d \<and> apply_delta ser de m cur = Some v"
proof -
  from assms(5,6) obtain b b1 b2 where b: "cur = Some b" "x = Some b1" "v = Some b2"
    "delta_bytes ser de d b = Some b1" "delta_bytes ser de a b1 = Some b2" by (auto simp: apply_delta_def split: option.splits)
  from delta_bytes_merge [OF assms(1-4) b(4,5)] obtain m where m: "merge_onto a d = Ok m" "delta_wf m" "delta_bytes ser de m b = Some b2" by blast
  with merge_exact(2) [OF assms(2-4)] b show ?thesis by (auto simp: apply_delta_def)
qed

lemma read_loop_sequential:
  assumes "codec ser de" "entries_final limit es" "acc_final limit acc"
    and "Option.bind (seq_value ser de base (rev es)) (after_acc ser de acc) = Some v"
  shows "read_value ser de base (read_loop de es acc) = Some v"
  using assms(2-)
proof (induction es arbitrary: acc)
  case Nil
  then show ?case by (cases acc; cases "the acc") (auto simp: seq_value_def after_acc_def read_value_def)
next
  case (Cons x es)
  obtain i e where x: "x = (i, e)" by (cases x)
  have f: "e_flag e \<noteq> FLAG_ESTIMATE" and fin: "entries_final limit es" using Cons.prems(1) by (auto simp: entries_final_def x)
  from Cons.prems(3) obtain cur mid where c: "seq_value ser de base (rev es) = Some cur" "entry_effect ser de (e_cell e) cur = Some mid"
    "after_acc ser de acc mid = Some v" by (auto simp: x seq_value_snoc bind_eq_Some_conv)
  show ?case
  proof (cases "e_cell e")
    case (CellWrite inc w)
    then have mid: "mid = extract_raw_bytes w" using c(2) by (simp add: entry_effect_def)
    show ?thesis
    proof (cases acc)
      case (Some a)
      then obtain d where a: "a = Ok d" using c(3) by (cases a) (auto simp: after_acc_def)
      then obtain b y z b' where d: "extract_raw_bytes w = Some b" "de b = Some y" "apply_to d y = Ok z" "ser z = Some b'" "v = Some b'"
        using c(3) by (auto simp: Some after_acc_def apply_delta_Some mid)
      then show ?thesis using f Some a CellWrite
        by (simp add: x AggregatorValue_from_write_def or_panic_def read_value_def)
    qed (use f c(3) mid CellWrite in \<open>simp add: x after_acc_def read_value_def\<close>)
  next
    case (CellDelta d)
    then have d: "delta_wf d" "d_limit d = limit" "apply_delta ser de d cur = Some mid"
      using Cons.prems(1) c(2) by (auto simp: entries_final_def x entry_effect_def)
    show ?thesis
    proof (cases acc)
      case None
      have "read_value ser de base (read_loop de es (Some (Ok d))) = Some v"
        by (rule Cons.IH [OF fin]) (use d c None in \<open>auto simp: acc_final_def after_acc_def\<close>)
      then show ?thesis using f None CellDelta by (simp add: x)
    next
      case (Some a)
      then obtain a' where a: "a = Ok a'" using c(3) by (cases a) (auto simp: after_acc_def)
      with Some Cons.prems(2) c(3) have w: "delta_wf a'" "d_limit a' = limit" "apply_delta ser de a' mid = Some v"
        by (auto simp: acc_final_def after_acc_def)
      from apply_delta_merge [OF assms(1) d(1) w(1) _ d(3) w(3)] d(2) w(2)
      obtain m where m: "merge_onto a' d = Ok m" "delta_wf m" "d_limit m = limit" "apply_delta ser de m cur = Some v" by auto
      have "read_value ser de base (read_loop de es (Some (Ok m))) = Some v"
        by (rule Cons.IH [OF fin]) (use m c(1) in \<open>auto simp: acc_final_def after_acc_def\<close>)
      then show ?thesis using f Some a CellDelta m(1) by (simp add: x)
    qed
  qed
qed

lemma mv_read_value:
  assumes "codec ser de" "entries_final limit (entries_below m key idx)" "seq_value ser de base (entries_below m key idx) = Some v"
  shows "read_value ser de base (mv_read de m key idx) = Some v"
proof (cases "map_of (mv_data m) key")
  case None
  then show ?thesis using assms(3) by (simp add: mv_read_def read_value_def entries_below_def seq_value_def)
next
  case (Some a)
  have "read_value ser de base (read_loop de (rev (entries_below m key idx)) None) = Some v"
    by (rule read_loop_sequential [where limit = limit, OF assms(1)]) (use assms(2,3) in \<open>auto simp: entries_final_def acc_final_def after_acc_def bind_eq_Some_conv\<close>)
  then show ?thesis using Some by (simp add: mv_read_def)
qed

section \<open>Invariant\<close>

definition delta_cell :: "'b entry \<Rightarrow> bool" where
  "delta_cell e = (case e_cell e of CellDelta _ \<Rightarrow> True | _ \<Rightarrow> False)"

text \<open>
  The map is sorted by key and by index, and the keys to resolve are, each once, those of the versioned
  values marked as containing a delta; a value with a delta among its entries is marked.
\<close>

definition mv_inv :: "('k::linorder, 'b) mvhashmap \<Rightarrow> bool" where
  "mv_inv m \<longleftrightarrow> bt_sorted (mv_data m) \<and> distinct (delta_keys m) \<and>
     (\<forall>k. k \<in> set (delta_keys m) \<longleftrightarrow> (\<exists>v. map_of (mv_data m) k = Some v \<and> contains_delta v)) \<and>
     (\<forall>k v. map_of (mv_data m) k = Some v \<longrightarrow> bt_sorted (versioned_map v) \<and>
       (\<forall>i e. map_of (versioned_map v) i = Some e \<and> delta_cell e \<longrightarrow> contains_delta v))"

lemma mv_inv_value:
  assumes "mv_inv m" "map_of (mv_data m) key = Some v"
  shows "bt_sorted (versioned_map v)" "map_of (versioned_map v) i = Some e \<Longrightarrow> delta_cell e \<Longrightarrow> contains_delta v"
  using assms unfolding mv_inv_def by blast+

lemma mv_inv_new: "mv_inv MVHashMap_new"
  by (simp add: mv_inv_def MVHashMap_new_def)

lemma mv_inv_update:
  assumes "mv_inv m" "map_of (mv_data m) key = Some v \<or> map_of (mv_data m) key = None \<and> v = VersionedValue_new"
    and "bt_sorted es" "\<And>i e. map_of es i = Some e \<Longrightarrow> delta_cell e \<Longrightarrow> contains_delta v \<or> c"
  shows "mv_inv (if contains_delta v \<or> \<not> c then m\<lparr>mv_data := bt_insert key (v\<lparr>versioned_map := es\<rparr>) (mv_data m)\<rparr>
    else m\<lparr>mv_data := bt_insert key (v\<lparr>versioned_map := es, contains_delta := True\<rparr>) (mv_data m), delta_keys := delta_keys m @ [key]\<rparr>)"
  using assms by (auto simp: mv_inv_def bt_insert_sorted bt_get_insert VersionedValue_new_def split: if_splits)

lemma mv_inv_entries:
  assumes "mv_inv m" "map_of (mv_data m) key = Some v \<or> map_of (mv_data m) key = None \<and> v = VersionedValue_new" "bt_sorted es"
    and "\<And>i e. map_of es i = Some e \<Longrightarrow> delta_cell e \<Longrightarrow> contains_delta v"
  shows "mv_inv (m\<lparr>mv_data := bt_insert key (v\<lparr>versioned_map := es\<rparr>) (mv_data m)\<rparr>)"
  using mv_inv_update [where c = False, OF assms(1-3)] assms(4) by auto

lemma entry_or_default_cases:
  "map_of (mv_data m) key = Some (entry_or_default key m) \<or> map_of (mv_data m) key = None \<and> entry_or_default key m = VersionedValue_new"
  by (auto simp: entry_or_default_def split: option.splits)

lemma entry_or_default_inv:
  assumes "mv_inv m"
  shows "bt_sorted (versioned_map (entry_or_default key m))"
    "map_of (versioned_map (entry_or_default key m)) i = Some e \<Longrightarrow> delta_cell e \<Longrightarrow> contains_delta (entry_or_default key m)"
  using mv_inv_value [OF assms, of key "entry_or_default key m"] entry_or_default_cases [of m key] by (auto simp: VersionedValue_new_def)

lemma add_write_inv:
  assumes "mv_inv m"
  shows "mv_inv (snd (add_write key ver data m))"
proof -
  let ?v = "entry_or_default key m"
  let ?es = "bt_insert (fst ver) (new_write_from FLAG_DONE (snd ver) data) (versioned_map ?v)"
  have "mv_inv (m\<lparr>mv_data := bt_insert key (?v\<lparr>versioned_map := ?es\<rparr>) (mv_data m)\<rparr>)"
  proof (rule mv_inv_entries [OF assms entry_or_default_cases bt_insert_sorted [OF entry_or_default_inv(1) [OF assms]]])
    fix j e assume "map_of ?es j = Some e" "delta_cell e"
    then show "contains_delta ?v" using entry_or_default_inv(2) [OF assms, of key j e]
      by (auto simp: bt_get_insert new_write_from_def delta_cell_def split: if_splits)
  qed
  then show ?thesis by (simp add: add_write_def Let_def case_prod_beta)
qed

lemma add_delta_inv:
  assumes "mv_inv m"
  shows "mv_inv (add_delta key i d m)"
proof -
  let ?es = "bt_insert i (new_delta_from FLAG_DONE d) (versioned_map (entry_or_default key m))"
  have "bt_sorted ?es" by (rule bt_insert_sorted [OF entry_or_default_inv(1) [OF assms]])
  from mv_inv_update [where c = True, OF assms entry_or_default_cases this, of key] show ?thesis
    by (simp add: add_delta_def Let_def split: if_splits)
qed

lemma mark_estimate_inv: "mv_inv m \<Longrightarrow> mv_inv (snd (mark_estimate key i m))"
proof -
  assume m: "mv_inv m"
  show ?thesis
  proof (cases "\<exists>v e. map_of (mv_data m) key = Some v \<and> map_of (versioned_map v) i = Some e")
    case True
    then obtain v e where v: "map_of (mv_data m) key = Some v" "map_of (versioned_map v) i = Some e" by blast
    note s = mv_inv_value [OF m v(1)]
    have "mv_inv (m\<lparr>mv_data := bt_insert key (v\<lparr>versioned_map := bt_insert i (e\<lparr>e_flag := FLAG_ESTIMATE\<rparr>) (versioned_map v)\<rparr>) (mv_data m)\<rparr>)"
    proof (rule mv_inv_entries [OF m disjI1 [OF v(1)] bt_insert_sorted [OF s(1)]])
      fix j e' assume "map_of (bt_insert i (e\<lparr>e_flag := FLAG_ESTIMATE\<rparr>) (versioned_map v)) j = Some e'" "delta_cell e'"
      then show "contains_delta v" using s(2) [of i e] s(2) [of j e'] v(2) by (auto simp: bt_get_insert delta_cell_def split: if_splits)
    qed
    then show ?thesis using v by (simp add: mark_estimate_def)
  qed (use m in \<open>auto simp: mark_estimate_def split: option.splits\<close>)
qed

lemma mv_delete_inv: "mv_inv m \<Longrightarrow> mv_inv (snd (mv_delete key i m))"
proof (cases "map_of (mv_data m) key")
  case (Some v)
  assume m: "mv_inv m"
  note s = mv_inv_value [OF m Some]
  have "mv_inv (m\<lparr>mv_data := bt_insert key (v\<lparr>versioned_map := bt_remove i (versioned_map v)\<rparr>) (mv_data m)\<rparr>)"
  proof (rule mv_inv_entries [OF m disjI1 [OF Some] bt_remove_sorted [OF s(1)]])
    fix j e' assume "map_of (bt_remove i (versioned_map v)) j = Some e'" "delta_cell e'"
    then show "contains_delta v" using s(2) [of j e'] by (auto simp: bt_get_remove [OF s(1)] split: if_splits)
  qed
  then show ?thesis using Some by (simp add: mv_delete_def)
qed (simp add: mv_delete_def)

section \<open>Resolving\<close>

text \<open>What is pushed for a key at the row of a transaction.\<close>

definition delta_row ::
  "(u128 \<Rightarrow> 'b option) \<Rightarrow> ('b \<Rightarrow> u128 option) \<Rightarrow> 'b option \<Rightarrow> 'k \<Rightarrow> (txn_index \<times> 'b entry) list \<Rightarrow> txn_index \<Rightarrow> ('k \<times> 'b write_op) list" where
  "delta_row ser de base key es i = (case map_of es i of
     Some e \<Rightarrow> if delta_cell e then (case seq_value ser de base (filter (\<lambda>(j, _). j \<le> i) es) of
         Some (Some b) \<Rightarrow> [(key, Modification b)] | _ \<Rightarrow> []) else []
   | None \<Rightarrow> [])"

definition decodes :: "('b \<Rightarrow> u128 option) \<Rightarrow> 'b option \<Rightarrow> bool" where
  "decodes de x \<longleftrightarrow> (\<forall>b. x = Some b \<longrightarrow> de b \<noteq> None)"

definition writes_decode :: "('b \<Rightarrow> u128 option) \<Rightarrow> (txn_index \<times> 'b entry) list \<Rightarrow> bool" where
  "writes_decode de es \<longleftrightarrow> (\<forall>(_, e) \<in> set es. \<forall>inc w. e_cell e = CellWrite inc w \<longrightarrow> decodes de (extract_raw_bytes w))"

lemma seq_value_Cons:
  "seq_value ser de base ((i, e) # es) = Option.bind (entry_effect ser de (e_cell e) base) (\<lambda>mid. seq_value ser de mid es)"
proof (cases "entry_effect ser de (e_cell e) base")
  case None
  have "foldl (\<lambda>cur (_, e). Option.bind cur (entry_effect ser de (e_cell e))) None es = None" by (induction es) auto
  then show ?thesis using None by (simp add: seq_value_def)
qed (simp add: seq_value_def)

lemma seq_value_Nil [simp]: "seq_value ser de base [] = Some base"
  by (simp add: seq_value_def)

lemma delta_row_Cons:
  assumes "bt_sorted ((i, e) # es)" "entry_effect ser de (e_cell e) base = Some mid"
  shows "delta_row ser de base key ((i, e) # es) j = (if j = i then (if delta_cell e then (case mid of Some b \<Rightarrow> [(key, Modification b)] | None \<Rightarrow> []) else [])
    else delta_row ser de mid key es j)"
proof (cases "j = i")
  case True
  have "filter (\<lambda>(j', _). j' \<le> i) es = []" using assms(1) by (auto simp: filter_empty_conv)
  then show ?thesis using True assms(2) by (cases mid) (auto simp: delta_row_def seq_value_Cons)
next
  case False
  show ?thesis
  proof (cases "map_of es j")
    case (Some e')
    then have "i < j" using assms(1) by (auto dest!: map_of_SomeD)
    then show ?thesis using False Some assms(2) by (simp add: delta_row_def seq_value_Cons less_imp_le)
  qed (use False in \<open>simp add: delta_row_def\<close>)
qed

lemma resolve_entries_value:
  assumes "codec ser de" "length ret < 2 ^ 64" "bt_sorted es" "\<forall>(i, _) \<in> set es. unat i < length ret" "writes_decode de es"
    and "decodes de base" "seq_value ser de base es \<noteq> None"
  shows "resolve_entries ser de key es (Option.bind base de) ret =
    Ok (map (\<lambda>i. ret ! i @ delta_row ser de base key es (of_nat i)) [0..<length ret])"
  using assms(2-)
proof (induction es arbitrary: base ret)
  case Nil
  then show ?case by (simp add: delta_row_def map_nth)
next
  case (Cons x es)
  obtain i e where x: "x = (i, e)" by (cases x)
  from Cons.prems(6) obtain mid where mid: "entry_effect ser de (e_cell e) base = Some mid" "seq_value ser de mid es \<noteq> None"
    by (cases "entry_effect ser de (e_cell e) base") (auto simp: x seq_value_Cons)
  have i: "unat i < length ret" and s: "bt_sorted es" "\<forall>(i, _) \<in> set es. unat i < length ret" "writes_decode de es"
    using Cons.prems(2-4) by (auto simp: x writes_decode_def)
  note row = delta_row_Cons [OF Cons.prems(2) [unfolded x] mid(1)]
  have notin: "map_of es i = None" using Cons.prems(2) by (auto simp: x map_of_eq_None_iff)
  show ?case
  proof (cases "e_cell e")
    case (CellWrite inc w)
    then have m: "mid = extract_raw_bytes w" and dw: "decodes de mid"
      using mid(1) Cons.prems(4) by (auto simp: entry_effect_def writes_decode_def x)
    then have "AggregatorValue_from_write de w = (Ok (Option.bind mid de) :: (_, unit) result)"
      by (auto simp: AggregatorValue_from_write_def decodes_def or_panic_def split: option.splits)
    moreover have "delta_row ser de base key ((i, e) # es) j = delta_row ser de mid key es j" for j
      unfolding row using CellWrite notin by (auto simp: delta_cell_def delta_row_def)
    ultimately show ?thesis using Cons.IH [OF Cons.prems(1) s dw mid(2)] CellWrite by (simp add: x)
  next
    case (CellDelta d)
    then obtain b v y b' where b: "base = Some b" "de b = Some v" "apply_to d v = Ok y" "ser y = Some b'" "mid = Some b'"
      using mid(1) by (auto simp: entry_effect_def apply_delta_Some)
    have y: "de b' = Some y" using assms(1) b(4) by (auto simp: codec_def dest: spec [of _ y])
    let ?ret = "ret[unat i := ret ! unat i @ [(key, Modification b')]]"
    have "resolve_entries ser de key es (Some y) ?ret = Ok (map (\<lambda>j. ?ret ! j @ delta_row ser de mid key es (of_nat j)) [0..<length ?ret])"
      using Cons.IH [of ?ret mid] Cons.prems(1) s mid(2) y b(5) by (simp add: decodes_def)
    moreover have "?ret ! j @ delta_row ser de mid key es (of_nat j) = ret ! j @ delta_row ser de base key ((i, e) # es) (of_nat j)"
      if "j < length ret" for j
    proof -
      have "unat (of_nat j :: u64) = j" using that Cons.prems(1) by (intro unat_of_nat_below) simp
      then have "of_nat j = i \<longleftrightarrow> j = unat i" by (metis word_unat_eq_iff)
      then show ?thesis using that b(5) notin i CellDelta unfolding row by (auto simp: delta_cell_def delta_row_def)
    qed
    ultimately show ?thesis using CellDelta b i by (auto simp: x or_panic_def)
  qed
qed

text \<open>A key that can be resolved: its entries are final, decode, lie in the block and apply in order.\<close>

definition key_resolves ::
  "(u128 \<Rightarrow> 'b option) \<Rightarrow> ('b \<Rightarrow> u128 option) \<Rightarrow> nat \<Rightarrow> 'b option \<Rightarrow> (txn_index \<times> 'b entry) list \<Rightarrow> bool" where
  "key_resolves ser de n base es \<longleftrightarrow> (\<exists>limit. entries_final limit es) \<and> writes_decode de es \<and> decodes de base \<and>
     (\<forall>(i, _) \<in> set es. unat i < n) \<and> seq_value ser de base es \<noteq> None"

definition entries_of :: "('k, 'b) mvhashmap \<Rightarrow> 'k \<Rightarrow> (txn_index \<times> 'b entry) list" where
  "entries_of m key = (case map_of (mv_data m) key of None \<Rightarrow> [] | Some v \<Rightarrow> versioned_map v)"

lemma resolve_keys_value:
  assumes "codec ser de" "length ret < 2 ^ 64" "bt_sorted (mv_data m)" "distinct keys"
    and "\<And>k. k \<in> set keys \<Longrightarrow> map_of (mv_data m) k \<noteq> None \<and> bt_sorted (entries_of m k) \<and> get_state_value k = Ok (st k) \<and>
      key_resolves ser de (length ret) (st k) (entries_of m k)"
  shows "resolve_keys ser de get_state_value keys m ret =
    Ok (map (\<lambda>i. ret ! i @ concat (map (\<lambda>k. delta_row ser de (st k) k (entries_of m k) (of_nat i)) keys)) [0..<length ret])"
  using assms(2-)
proof (induction keys arbitrary: m ret)
  case Nil
  then show ?case by (simp add: map_nth)
next
  case (Cons k keys)
  obtain v where v: "map_of (mv_data m) k = Some v" using Cons.prems(4) [of k] by auto
  then have es: "entries_of m k = versioned_map v" by (simp add: entries_of_def)
  have k: "bt_sorted (versioned_map v)" "get_state_value k = Ok (st k)" "key_resolves ser de (length ret) (st k) (versioned_map v)"
    using Cons.prems(4) [of k] es by auto
  let ?m = "m\<lparr>mv_data := bt_remove k (mv_data m)\<rparr>"
  let ?ret = "map (\<lambda>i. ret ! i @ delta_row ser de (st k) k (versioned_map v) (of_nat i)) [0..<length ret]"
  have r: "resolve_entries ser de k (versioned_map v) (Option.bind (st k) de) ret = Ok ?ret"
    using k(3) by (intro resolve_entries_value [OF assms(1) Cons.prems(1) k(1)]) (auto simp: key_resolves_def)
  have "(case st k of Some bytes \<Rightarrow> bind_res (or_panic (de bytes)) (\<lambda>v. Ok (Some v)) | None \<Rightarrow> Ok None) = (Ok (Option.bind (st k) de) :: (_, unit) result)"
    using k(3) by (auto simp: key_resolves_def decodes_def or_panic_def split: option.splits)
  then have "resolve_keys ser de get_state_value (k # keys) m ret = resolve_keys ser de get_state_value keys ?m ?ret"
    using v k(2) r by (cases "st k") (auto simp: entry_map_for_key_def or_panic_def)
  moreover have e: "entries_of ?m k' = entries_of m k'" "map_of (mv_data ?m) k' = map_of (mv_data m) k'" if "k' \<in> set keys" for k'
    using that Cons.prems(3) by (auto simp: entries_of_def bt_get_remove [OF Cons.prems(2)])
  moreover have "resolve_keys ser de get_state_value keys ?m ?ret =
      Ok (map (\<lambda>i. ?ret ! i @ concat (map (\<lambda>k. delta_row ser de (st k) k (entries_of ?m k) (of_nat i)) keys)) [0..<length ?ret])"
  proof (rule Cons.IH)
    show "map_of (mv_data ?m) k' \<noteq> None \<and> bt_sorted (entries_of ?m k') \<and> get_state_value k' = Ok (st k') \<and>
        key_resolves ser de (length ?ret) (st k') (entries_of ?m k')" if "k' \<in> set keys" for k'
      using Cons.prems(4) [of k'] that e [OF that] by simp
  qed (use Cons.prems(1-3) bt_remove_sorted [OF Cons.prems(2)] in simp_all)
  moreover have "map (\<lambda>k. delta_row ser de (st k) k (entries_of ?m k) (of_nat i)) keys = map (\<lambda>k. delta_row ser de (st k) k (entries_of m k) (of_nat i)) keys" for i
    using e(1) by simp
  ultimately show ?case by (simp add: es)
qed

text \<open>The row of a key at a delta of a transaction is what the next transaction reads.\<close>

lemma seq_value_filter:
  assumes "bt_sorted es" "seq_value ser de base es \<noteq> None"
  shows "seq_value ser de base (filter (\<lambda>(j, _). j \<le> i) es) \<noteq> None"
proof -
  have "\<exists>rest. es = filter (\<lambda>(j, _). j \<le> i) es @ rest" using assms(1)
  proof (induction es)
    case (Cons x es)
    show ?case
    proof (cases "fst x \<le> i")
      case False
      then have "filter (\<lambda>(j, _). j \<le> i) (x # es) = []" using Cons.prems by (force simp: filter_empty_conv)
      then show ?thesis by simp
    qed (use Cons in \<open>auto simp: case_prod_beta\<close>)
  qed simp
  then obtain rest where r: "es = filter (\<lambda>(j, _). j \<le> i) es @ rest" by blast
  have n: "foldl (\<lambda>cur (_, e). Option.bind cur (entry_effect ser de (e_cell e))) None rest = None" by (induction rest) auto
  show ?thesis
  proof
    assume "seq_value ser de base (filter (\<lambda>(j, _). j \<le> i) es) = None"
    then have "seq_value ser de base (filter (\<lambda>(j, _). j \<le> i) es @ rest) = None" using n by (simp add: seq_value_def)
    then show False using r assms(2) by simp
  qed
qed

lemma filter_up_to:
  assumes "bt_sorted es" "map_of es i = Some e"
  shows "filter (\<lambda>(j, _). j \<le> i) es = filter (\<lambda>(j, _). j < i) es @ [(i, e)]"
  using assms
proof (induction es)
  case (Cons x es)
  obtain j e' where x: "x = (j, e')" by (cases x)
  show ?case
  proof (cases "j = i")
    case True
    have "filter (\<lambda>(j, _). j \<le> i) es = []" "filter (\<lambda>(j, _). j < i) es = []" using Cons.prems(1) True by (auto simp: x filter_empty_conv)
    then show ?thesis using True Cons.prems(2) by (simp add: x)
  next
    case False
    then have m: "map_of es i = Some e" using Cons.prems(2) by (simp add: x)
    then have "j < i" using Cons.prems(1) by (auto simp: x dest!: map_of_SomeD)
    then show ?thesis using Cons.IH [OF _ m] Cons.prems(1) by (simp add: x less_imp_le)
  qed
qed simp

lemma delta_row_reads:
  assumes "codec ser de" "mv_inv m" "map_of (mv_data m) k = Some v" "key_resolves ser de n base (versioned_map v)" "unat i < n" "n < 2 ^ 64"
    and "map_of (versioned_map v) i = Some e" "delta_cell e"
  shows "\<exists>b. delta_row ser de base k (versioned_map v) i = [(k, Modification b)] \<and>
    read_value ser de base (mv_read de m k (i + 1)) = Some (Some b)"
proof -
  have s: "bt_sorted (versioned_map v)" by (rule mv_inv_value(1) [OF assms(2,3)])
  have "unat (i + 1) = unat i + 1" using assms(5,6) by (simp add: unat_add_no_wrap)
  then have lt: "j < i + 1 \<longleftrightarrow> j \<le> i" for j by (simp add: word_less_nat_alt word_le_nat_alt less_Suc_eq_le)
  then have f: "entries_below m k (i + 1) = filter (\<lambda>(j, _). j \<le> i) (versioned_map v)" by (simp add: entries_below_def assms(3))
  from seq_value_filter [OF s, of ser de base i] assms(4) obtain x where x: "seq_value ser de base (filter (\<lambda>(j, _). j \<le> i) (versioned_map v)) = Some x"
    by (auto simp: key_resolves_def)
  obtain limit where "entries_final limit (versioned_map v)" using assms(4) by (auto simp: key_resolves_def)
  then have "entries_final limit (entries_below m k (i + 1))" unfolding f by (auto simp: entries_final_def)
  from mv_read_value [OF assms(1) this] x have r: "read_value ser de base (mv_read de m k (i + 1)) = Some x" by (simp add: f)
  obtain d where "e_cell e = CellDelta d" using assms(8) by (auto simp: delta_cell_def split: entry_cell.splits)
  with x have "\<exists>b. x = Some b"
    by (auto simp: filter_up_to [OF s assms(7)] seq_value_snoc bind_eq_Some_conv entry_effect_def apply_delta_Some)
  then show ?thesis using r x assms(7,8) by (auto simp: delta_row_def)
qed

section \<open>Runs\<close>

datatype ('k, 'b) mv_call =
    AddWrite 'k version "'b write_op"
  | AddDelta 'k txn_index delta_op
  | MarkEstimate 'k txn_index
  | DeleteEntry 'k txn_index

primrec mv_exec :: "('k::linorder, 'b) mv_call \<Rightarrow> (('k, 'b) mvhashmap, unit, unit) exec" where
  "mv_exec (AddWrite key ver data) = add_write key ver data"
| "mv_exec (AddDelta key i d) = (\<lambda>m. (Ok (), add_delta key i d m))"
| "mv_exec (MarkEstimate key i) = mark_estimate key i"
| "mv_exec (DeleteEntry key i) = mv_delete key i"

definition mv_run :: "('k::linorder, 'b) mv_call list \<Rightarrow> ('k, 'b) mvhashmap \<Rightarrow> ('k, 'b) mvhashmap" where
  "mv_run calls m = foldl (\<lambda>m c. snd (mv_exec c m)) m calls"

lemma mv_exec_inv: "mv_inv m \<Longrightarrow> mv_inv (snd (mv_exec c m))"
  by (cases c) (auto simp: add_write_inv add_delta_inv mark_estimate_inv mv_delete_inv)

lemma mv_run_inv: "mv_inv m \<Longrightarrow> mv_inv (mv_run calls m)"
  unfolding mv_run_def by (induction calls arbitrary: m) (auto simp: mv_exec_inv)

lemma entries_of_sorted: "mv_inv m \<Longrightarrow> bt_sorted (entries_of m k)"
  using mv_inv_value(1) [of m k] by (auto simp: entries_of_def split: option.splits)

lemma delta_key_iff: "mv_inv m \<Longrightarrow> k \<in> set (delta_keys m) \<longleftrightarrow> (\<exists>v. map_of (mv_data m) k = Some v \<and> contains_delta v)"
  by (simp add: mv_inv_def)

section \<open>Properties\<close>

text \<open>
  C20. A read from the multi-version map is a read in sequential execution: when no entry below the reader
  is an estimate, and applying the writes and deltas of all lower transactions in order to the stored value
  gives a value, the read stands for that value, whether it returns the last write, resolves the deltas on
  top of it, or leaves a merged delta to be applied to the stored value.
\<close>

theorem mv_reads_sequential:
  assumes "codec ser de" "entries_final limit (entries_below m key idx)" "seq_value ser de base (entries_below m key idx) = Some v"
  shows "read_value ser de base (mv_read de m key idx) = Some v"
  using assms by (rule mv_read_value)

text \<open>
  C21. After any calls of the map, resolving its deltas returns if every key with a delta can be resolved.
  The row of a transaction then has one write for every key at which its entry is a delta, in the order in which
  the keys got their first delta, and the write is of the value the next transaction reads at that key.
\<close>

theorem deltas_resolved:
  fixes calls :: "('k::linorder, 'b) mv_call list"
  defines "m \<equiv> mv_run calls MVHashMap_new"
  assumes "codec ser de" "n < 2 ^ 64" "\<And>k. get_state_value k = Ok (st k)"
    and "\<And>k. k \<in> set (delta_keys m) \<Longrightarrow> key_resolves ser de n (st k) (entries_of m k)"
  shows "\<exists>ret. OutputDeltaResolver_resolve ser de get_state_value n m = Ok ret \<and> length ret = n \<and>
    (\<forall>i < n. map fst (ret ! i) = filter (\<lambda>k. \<exists>e. map_of (entries_of m k) (of_nat i) = Some e \<and> delta_cell e) (delta_keys m) \<and>
      (\<forall>(k, w) \<in> set (ret ! i). \<exists>b. w = Modification b \<and>
        read_value ser de (st k) (mv_read de m k (of_nat i + 1)) = Some (Some b)))"
proof -
  have inv: "mv_inv m" unfolding m_def by (rule mv_run_inv [OF mv_inv_new])
  let ?m = "m\<lparr>delta_keys := []\<rparr>" and ?row = "\<lambda>i k. delta_row ser de (st k) k (entries_of m k) (of_nat i)"
  have e: "entries_of ?m k = entries_of m k" for k by (simp add: entries_of_def)
  let ?ret = "replicate n [] :: ('k, 'b) delta_writes"
  have "resolve_keys ser de get_state_value (delta_keys m) ?m ?ret =
      Ok (map (\<lambda>i. ?ret ! i @ concat (map (\<lambda>k. delta_row ser de (st k) k (entries_of ?m k) (of_nat i)) (delta_keys m))) [0..<length ?ret])"
    by (rule resolve_keys_value [OF assms(2)])
      (use inv assms(3-5) entries_of_sorted [OF inv] delta_key_iff [OF inv] e in \<open>auto simp: mv_inv_def\<close>)
  then have ret: "OutputDeltaResolver_resolve ser de get_state_value n m = Ok (map (\<lambda>i. concat (map (?row i) (delta_keys m))) [0..<n])"
    by (simp add: OutputDeltaResolver_resolve_def aggregator_keys_def e)
  have row: "if \<exists>e. map_of (entries_of m k) (of_nat i) = Some e \<and> delta_cell e
      then \<exists>b. ?row i k = [(k, Modification b)] \<and> read_value ser de (st k) (mv_read de m k (of_nat i + 1)) = Some (Some b) else ?row i k = []"
    if k: "k \<in> set (delta_keys m)" and i: "i < n" for k i
  proof -
    have u: "unat (of_nat i :: u64) = i" using i assms(3) by (intro unat_of_nat_below) simp
    obtain v where v: "map_of (mv_data m) k = Some v" using k delta_key_iff [OF inv] by blast
    then have es: "entries_of m k = versioned_map v" by (simp add: entries_of_def)
    show ?thesis using delta_row_reads [OF assms(2) inv v, of n "st k" "of_nat i"] assms(5) [OF k] u i assms(3)
      by (auto simp: es delta_row_def split: option.splits)
  qed
  have rows: "map fst (concat (map (?row i) ks)) = filter (\<lambda>k. \<exists>e. map_of (entries_of m k) (of_nat i) = Some e \<and> delta_cell e) ks \<and>
      (\<forall>(k, w) \<in> set (concat (map (?row i) ks)). \<exists>b. w = Modification b \<and> read_value ser de (st k) (mv_read de m k (of_nat i + 1)) = Some (Some b))"
    if "set ks \<subseteq> set (delta_keys m)" "i < n" for ks i
    using that(1)
  proof (induction ks)
    case (Cons k ks)
    then show ?case using row [of k i] that(2) by (auto split: if_splits)
  qed simp
  let ?out = "map (\<lambda>i. concat (map (?row i) (delta_keys m))) [0..<n]"
  have "\<forall>i < n. map fst (?out ! i) =
      filter (\<lambda>k. \<exists>e. map_of (entries_of m k) (of_nat i) = Some e \<and> delta_cell e) (delta_keys m) \<and>
    (\<forall>(k, w) \<in> set (?out ! i). \<exists>b. w = Modification b \<and> read_value ser de (st k) (mv_read de m k (of_nat i + 1)) = Some (Some b))"
  proof (intro allI impI)
    fix i assume i: "i < n"
    then have eq: "?out ! i = concat (map (?row i) (delta_keys m))" by simp
    show "map fst (?out ! i) = filter (\<lambda>k. \<exists>e. map_of (entries_of m k) (of_nat i) = Some e \<and> delta_cell e) (delta_keys m) \<and>
      (\<forall>(k, w) \<in> set (?out ! i). \<exists>b. w = Modification b \<and> read_value ser de (st k) (mv_read de m k (of_nat i + 1)) = Some (Some b))"
      unfolding eq by (rule rows [OF subset_refl i])
  qed
  moreover have "length ?out = n" by simp
  ultimately show ?thesis using ret by blast
qed

text \<open>A block in which transaction 0 writes 10 to a key and transaction 2 adds 5 to it.\<close>

definition sample_calls :: "(nat, u128) mv_call list" where
  "sample_calls = [AddWrite 1 (0, 0) (Creation 10), AddDelta 1 2 (DeltaOp_new (Plus 5) 100 5 0)]"

lemma sample_mv:
  "mv_run sample_calls MVHashMap_new = \<lparr>mv_data = [(1, \<lparr>versioned_map =
      [(0, new_write_from FLAG_DONE 0 (Creation 10)), (2, new_delta_from FLAG_DONE (DeltaOp_new (Plus 5) 100 5 0))],
      contains_delta = True\<rparr>)], delta_keys = [1]\<rparr>"
  by (simp add: mv_run_def sample_calls_def add_write_def add_delta_def entry_or_default_def MVHashMap_new_def VersionedValue_new_def)

lemma sample_codec: "codec Some Some"
  by (simp add: codec_def)

lemma sample_delta: "apply_to (DeltaOp_new (Plus 5) 100 5 0) 10 = Ok 15" "delta_wf (DeltaOp_new (Plus 5) 100 5 0)"
  "d_limit (DeltaOp_new (Plus 5) 100 5 0) = 100"
  by (simp_all add: apply_to_Ok delta_wf_def DeltaOp_new_def)

lemma sample_final:
  "entries_final 100 [(0, new_write_from FLAG_DONE 0 (Creation 10)), (2, new_delta_from FLAG_DONE (DeltaOp_new (Plus 5) 100 5 0))]"
  "seq_value Some Some None [(0, new_write_from FLAG_DONE 0 (Creation 10)), (2, new_delta_from FLAG_DONE (DeltaOp_new (Plus 5) 100 5 0))] = Some (Some 15)"
  by (auto simp: entries_final_def new_write_from_def new_delta_from_def FLAG_DONE_def FLAG_ESTIMATE_def sample_delta seq_value_def
      entry_effect_def extract_raw_bytes_def apply_delta_def delta_bytes_def)

lemma mv_reads_sequential_witness:
  "read_value Some Some None (mv_read Some (mv_run sample_calls MVHashMap_new) 1 3) = Some (Some 15)"
  by (rule mv_reads_sequential [where limit = 100, OF sample_codec]) (simp_all add: sample_mv entries_below_def sample_final)

lemma deltas_resolved_witness:
  "\<exists>ret. OutputDeltaResolver_resolve Some Some (\<lambda>_. Ok None) 3 (mv_run sample_calls MVHashMap_new) = Ok ret \<and> map fst (ret ! 2) = [1]"
proof -
  have k: "key_resolves Some Some 3 None (entries_of (mv_run sample_calls MVHashMap_new) k)"
    if "k \<in> set (delta_keys (mv_run sample_calls MVHashMap_new))" for k
    using that sample_final by (auto simp: sample_mv key_resolves_def entries_of_def writes_decode_def decodes_def)
  have "\<exists>ret. OutputDeltaResolver_resolve Some Some (\<lambda>_. Ok None) 3 (mv_run sample_calls MVHashMap_new) = Ok ret \<and> length ret = 3 \<and>
    (\<forall>i < 3. map fst (ret ! i) = filter (\<lambda>k. \<exists>e. map_of (entries_of (mv_run sample_calls MVHashMap_new) k) (of_nat i) = Some e \<and> delta_cell e)
        (delta_keys (mv_run sample_calls MVHashMap_new)) \<and>
      (\<forall>(k, w) \<in> set (ret ! i). \<exists>b. w = Modification b \<and>
        read_value Some Some None (mv_read Some (mv_run sample_calls MVHashMap_new) k (of_nat i + 1)) = Some (Some b)))"
    by (rule deltas_resolved [where st = "\<lambda>_. None", OF sample_codec _ refl k]) simp_all
  then obtain ret where r: "OutputDeltaResolver_resolve Some Some (\<lambda>_. Ok None) 3 (mv_run sample_calls MVHashMap_new) = Ok ret"
    "\<forall>i < 3. map fst (ret ! i) = filter (\<lambda>k. \<exists>e. map_of (entries_of (mv_run sample_calls MVHashMap_new) k) (of_nat i) = Some e \<and> delta_cell e)
      (delta_keys (mv_run sample_calls MVHashMap_new))" by blast
  from r(2) [rule_format, of 2] have "map fst (ret ! 2) = [1]"
    by (simp add: sample_mv entries_of_def delta_cell_def new_delta_from_def)
  with r(1) show ?thesis by (intro exI [of _ ret] conjI)
qed

end
