(* ===== verification/Block_Tree.thy ===== *)
theory Block_Tree
  imports Blocks Exec
begin

text \<open>
  The tree of blocks a validator keeps above its commit root
  (\<open>consensus/src/block_storage/block_tree.rs\<close>, with the executed blocks of
  \<open>consensus/consensus-types/src/executed_block.rs\<close>): insertion of blocks and certificates, the
  paths from the roots, and the pruning that follows a commit.

  The type \<open>'r\<close> is that of the results of execution. The set of children of a block is a hash set,
  whose iteration order is the parameter \<open>iter\<close>. The two loops follow parent or child links and
  have no bound of their own, so they are partial: their result is \<open>None\<close> when they do not end.
  Counters and logging are left out; what \<open>commit_callback\<close> passes to the storage, whose answer it
  ignores, is returned. \<open>checked_verify_eq!\<close> is an assertion, \<open>precondition!\<close> an annotation only.
\<close>

section \<open>Definitions\<close>

subsection \<open>Executed blocks\<close>

record 'r executed_block =
  eb_block :: block
  eb_state_compute_result :: 'r

definition eb_id :: "'r executed_block \<Rightarrow> hash_value" where
  "eb_id eb = blk_id (eb_block eb)"

definition eb_quorum_cert :: "'r executed_block \<Rightarrow> quorum_cert" where
  "eb_quorum_cert eb = blk_quorum_cert (eb_block eb)"

definition eb_parent_id :: "'r executed_block \<Rightarrow> hash_value" where
  "eb_parent_id eb = bi_id (certified_block (eb_quorum_cert eb))"

definition eb_round :: "'r executed_block \<Rightarrow> round_t" where
  "eb_round eb = blk_round (eb_block eb)"

subsection \<open>Linkable blocks\<close>

record 'r linkable_block =
  lb_executed_block :: "'r executed_block"
  lb_children :: "hash_value set"

definition LinkableBlock_new :: "'r executed_block \<Rightarrow> 'r linkable_block" where
  "LinkableBlock_new b = \<lparr>lb_executed_block = b, lb_children = {}\<rparr>"

definition lb_id :: "'r linkable_block \<Rightarrow> hash_value" where
  "lb_id lb = eb_id (lb_executed_block lb)"

definition add_child :: "hash_value \<Rightarrow> 'r linkable_block \<Rightarrow> ('r linkable_block, anyhow) result" where
  "add_child child_id lb =
     (if child_id \<in> lb_children lb then Panic else Ok (lb\<lparr>lb_children := insert child_id (lb_children lb)\<rparr>))"

subsection \<open>The tree\<close>

record 'r block_tree =
  id_to_block :: "(hash_value, 'r linkable_block) btree_map"
  ordered_root_id :: hash_value
  commit_root_id :: hash_value
  highest_certified_block_id :: hash_value
  t_highest_quorum_cert :: quorum_cert
  t_highest_2chain_timeout_cert :: "two_chain_timeout_certificate option"
  t_highest_ordered_cert :: quorum_cert
  t_highest_commit_cert :: quorum_cert
  id_to_quorum_cert :: "(hash_value, quorum_cert) btree_map"
  pruned_block_ids :: "hash_value list"
  max_pruned_blocks_in_mem :: u64

definition BlockTree_new ::
  "'r executed_block \<Rightarrow> quorum_cert \<Rightarrow> quorum_cert \<Rightarrow> quorum_cert \<Rightarrow> u64 \<Rightarrow> two_chain_timeout_certificate option \<Rightarrow>
   ('r block_tree, anyhow) result" where
  "BlockTree_new root root_quorum_cert root_ordered_cert root_commit_cert max_pruned tc =
     (if eb_id root \<noteq> bi_id (qc_commit_info root_ordered_cert) then Panic
      else Ok \<lparr>id_to_block = bt_insert (eb_id root) (LinkableBlock_new root) [],
        ordered_root_id = eb_id root,
        commit_root_id = eb_id root,
        highest_certified_block_id = eb_id root,
        t_highest_quorum_cert = root_quorum_cert,
        t_highest_2chain_timeout_cert = tc,
        t_highest_ordered_cert = root_ordered_cert,
        t_highest_commit_cert = root_commit_cert,
        id_to_quorum_cert = bt_insert (bi_id (certified_block root_quorum_cert)) root_quorum_cert [],
        pruned_block_ids = [],
        max_pruned_blocks_in_mem = max_pruned\<rparr>)"

definition get_linkable_block :: "'r block_tree \<Rightarrow> hash_value \<Rightarrow> 'r linkable_block option" where
  "get_linkable_block t block_id = map_of (id_to_block t) block_id"

definition get_all_quorum_certs_with_commit_info :: "'r block_tree \<Rightarrow> quorum_cert list" where
  "get_all_quorum_certs_with_commit_info t =
     filter (\<lambda>qc. qc_commit_info qc \<noteq> BlockInfo_empty) (map snd (id_to_quorum_cert t))"

definition linkable_root :: "'r block_tree \<Rightarrow> ('r linkable_block, anyhow) result" where
  "linkable_root t = or_panic (get_linkable_block t (commit_root_id t))"

definition remove_block :: "hash_value \<Rightarrow> 'r block_tree \<Rightarrow> 'r block_tree" where
  "remove_block block_id t =
     t\<lparr>id_to_block := bt_remove block_id (id_to_block t),
       id_to_quorum_cert := bt_remove block_id (id_to_quorum_cert t)\<rparr>"

definition block_exists :: "'r block_tree \<Rightarrow> hash_value \<Rightarrow> bool" where
  "block_exists t block_id \<longleftrightarrow> map_of (id_to_block t) block_id \<noteq> None"

definition get_block :: "'r block_tree \<Rightarrow> hash_value \<Rightarrow> 'r executed_block option" where
  "get_block t block_id = map_option lb_executed_block (get_linkable_block t block_id)"

definition ordered_root :: "'r block_tree \<Rightarrow> ('r executed_block, anyhow) result" where
  "ordered_root t = or_panic (get_block t (ordered_root_id t))"

definition commit_root :: "'r block_tree \<Rightarrow> ('r executed_block, anyhow) result" where
  "commit_root t = or_panic (get_block t (commit_root_id t))"

definition highest_certified_block :: "'r block_tree \<Rightarrow> ('r executed_block, anyhow) result" where
  "highest_certified_block t = or_panic (get_block t (highest_certified_block_id t))"

definition replace_2chain_timeout_cert ::
  "two_chain_timeout_certificate \<Rightarrow> 'r block_tree \<Rightarrow> 'r block_tree" where
  "replace_2chain_timeout_cert tc t = t\<lparr>t_highest_2chain_timeout_cert := Some tc\<rparr>"

definition get_quorum_cert_for_block :: "'r block_tree \<Rightarrow> hash_value \<Rightarrow> quorum_cert option" where
  "get_quorum_cert_for_block t block_id = map_of (id_to_quorum_cert t) block_id"

definition insert_block :: "'r executed_block \<Rightarrow> ('r block_tree, 'r executed_block, anyhow) exec" where
  "insert_block b t =
     (let block_id = eb_id b in
      case get_block t block_id of
        Some existing_block \<Rightarrow>
          if eb_state_compute_result existing_block \<noteq> eb_state_compute_result b then (Panic, t) else (Ok existing_block, t)
      | None \<Rightarrow> (case get_linkable_block t (eb_parent_id b) of
            None \<Rightarrow> (Err (Msg ''Parent block not found''), t)
          | Some pb \<Rightarrow> (case add_child block_id pb of
                Ok pb' \<Rightarrow>
                  (let t' = t\<lparr>id_to_block := bt_insert (eb_parent_id b) pb' (id_to_block t)\<rparr> in
                   if map_of (id_to_block t') block_id \<noteq> None then (Panic, t')
                   else (Ok b, t'\<lparr>id_to_block := bt_insert block_id (LinkableBlock_new b) (id_to_block t')\<rparr>))
              | Err e \<Rightarrow> (Err e, t)
              | Panic \<Rightarrow> (Panic, t))))"

definition insert_quorum_cert :: "quorum_cert \<Rightarrow> ('r block_tree, unit, anyhow) exec" where
  "insert_quorum_cert qc t =
     (let block_id = bi_id (certified_block qc) in
      case get_block t block_id of
        None \<Rightarrow> (Err (Msg ''Block not found''), t)
      | Some b \<Rightarrow> bind_ex (reads highest_certified_block) (\<lambda>hcb t.
          (let t1 = (if eb_round b > eb_round hcb
                     then t\<lparr>highest_certified_block_id := eb_id b, t_highest_quorum_cert := qc\<rparr> else t);
               t2 = t1\<lparr>id_to_quorum_cert := bt_or_insert block_id qc (id_to_quorum_cert t1)\<rparr>;
               t3 = (if bi_round (qc_commit_info (t_highest_ordered_cert t2)) < bi_round (qc_commit_info qc)
                     then t2\<lparr>t_highest_ordered_cert := qc\<rparr> else t2)
           in (Ok (), t3))) t)"

subsection \<open>Pruning\<close>

fun push_children ::
  "(hash_value, 'r linkable_block) btree_map \<Rightarrow> hash_value \<Rightarrow> hash_value list \<Rightarrow> 'r linkable_block list \<Rightarrow>
   ('r linkable_block list, anyhow) result" where
  "push_children blocks next_root_id [] to_be_pruned = Ok to_be_pruned"
| "push_children blocks next_root_id (child_id # rest) to_be_pruned =
     (if next_root_id = child_id then push_children blocks next_root_id rest to_be_pruned
      else bind_res (or_panic (map_of blocks child_id)) (\<lambda>child.
        push_children blocks next_root_id rest (child # to_be_pruned)))"

partial_function (option) prune_loop ::
  "(hash_value set \<Rightarrow> hash_value list) \<Rightarrow> (hash_value, 'r linkable_block) btree_map \<Rightarrow> hash_value \<Rightarrow>
   'r linkable_block list \<Rightarrow> hash_value list \<Rightarrow> (hash_value list, anyhow) result option" where
  "prune_loop iter blocks next_root_id to_be_pruned blocks_pruned =
     (case to_be_pruned of
        [] \<Rightarrow> Some (Ok blocks_pruned)
      | block_to_remove # rest \<Rightarrow>
          (case push_children blocks next_root_id (iter (lb_children block_to_remove)) rest of
             Ok to_be_pruned' \<Rightarrow> prune_loop iter blocks next_root_id to_be_pruned' (blocks_pruned @ [lb_id block_to_remove])
           | Err e \<Rightarrow> Some (Err e)
           | Panic \<Rightarrow> Some Panic))"

definition find_blocks_to_prune ::
  "(hash_value set \<Rightarrow> hash_value list) \<Rightarrow> hash_value \<Rightarrow> 'r block_tree \<Rightarrow> (hash_value list, anyhow) result option" where
  "find_blocks_to_prune iter next_root_id t =
     (if next_root_id = commit_root_id t then Some (Ok [])
      else (case linkable_root t of
          Ok root \<Rightarrow> prune_loop iter (id_to_block t) next_root_id [root] []
        | Err e \<Rightarrow> Some (Err e)
        | Panic \<Rightarrow> Some Panic))"

definition update_ordered_root :: "hash_value \<Rightarrow> ('r block_tree, unit, anyhow) exec" where
  "update_ordered_root root_id t =
     (if \<not> block_exists t root_id then (Panic, t) else (Ok (), t\<lparr>ordered_root_id := root_id\<rparr>))"

definition update_commit_root :: "hash_value \<Rightarrow> ('r block_tree, unit, anyhow) exec" where
  "update_commit_root root_id t =
     (if \<not> block_exists t root_id then (Panic, t) else (Ok (), t\<lparr>commit_root_id := root_id\<rparr>))"

definition update_highest_commit_cert :: "quorum_cert \<Rightarrow> ('r block_tree, unit, anyhow) exec" where
  "update_highest_commit_cert new_commit_cert t =
     (if bi_round (qc_commit_info new_commit_cert) > bi_round (qc_commit_info (t_highest_commit_cert t))
      then update_commit_root (bi_id (qc_commit_info new_commit_cert)) (t\<lparr>t_highest_commit_cert := new_commit_cert\<rparr>)
      else (Ok (), t))"

primrec remove_oldest :: "nat \<Rightarrow> 'r block_tree \<Rightarrow> 'r block_tree" where
  "remove_oldest 0 t = t"
| "remove_oldest (Suc n) t = (case pruned_block_ids t of
     [] \<Rightarrow> remove_oldest n t
   | bid # rest \<Rightarrow> remove_oldest n (remove_block bid (t\<lparr>pruned_block_ids := rest\<rparr>)))"

definition process_pruned_blocks :: "hash_value list \<Rightarrow> 'r block_tree \<Rightarrow> 'r block_tree" where
  "process_pruned_blocks newly_pruned_blocks t =
     (let t = t\<lparr>pruned_block_ids := pruned_block_ids t @ newly_pruned_blocks\<rparr> in
      if length (pruned_block_ids t) > unat (max_pruned_blocks_in_mem t)
      then remove_oldest (length (pruned_block_ids t) - unat (max_pruned_blocks_in_mem t)) t
      else t)"

subsection \<open>Paths\<close>

partial_function (option) path_loop ::
  "'r block_tree \<Rightarrow> round_t \<Rightarrow> hash_value \<Rightarrow> 'r executed_block list \<Rightarrow> (hash_value \<times> 'r executed_block list) option option" where
  "path_loop t root_round cur_block_id res =
     (case get_block t cur_block_id of
        None \<Rightarrow> Some None
      | Some b \<Rightarrow>
          if eb_round b \<le> root_round then Some (Some (cur_block_id, res))
          else path_loop t root_round (eb_parent_id b) (res @ [b]))"

definition path_from_root_to_block ::
  "'r block_tree \<Rightarrow> hash_value \<Rightarrow> hash_value \<Rightarrow> round_t \<Rightarrow> 'r executed_block list option option" where
  "path_from_root_to_block t block_id root_id root_round =
     map_option (\<lambda>found. case found of
         None \<Rightarrow> None
       | Some (cur_block_id, res) \<Rightarrow> if cur_block_id \<noteq> root_id then None else Some (rev res))
       (path_loop t root_round block_id [])"

definition path_from_ordered_root ::
  "'r block_tree \<Rightarrow> hash_value \<Rightarrow> ('r executed_block list option, anyhow) result option" where
  "path_from_ordered_root t block_id = (case ordered_root t of
     Ok root \<Rightarrow> map_option Ok (path_from_root_to_block t block_id (ordered_root_id t) (eb_round root))
   | Err e \<Rightarrow> Some (Err e)
   | Panic \<Rightarrow> Some Panic)"

definition path_from_commit_root ::
  "'r block_tree \<Rightarrow> hash_value \<Rightarrow> ('r executed_block list option, anyhow) result option" where
  "path_from_commit_root t block_id = (case commit_root t of
     Ok root \<Rightarrow> map_option Ok (path_from_root_to_block t block_id (commit_root_id t) (eb_round root))
   | Err e \<Rightarrow> Some (Err e)
   | Panic \<Rightarrow> Some Panic)"

subsection \<open>Commit\<close>

definition commit_callback ::
  "(hash_value set \<Rightarrow> hash_value list) \<Rightarrow> 'r executed_block list \<Rightarrow> quorum_cert \<Rightarrow> ledger_info_with_signatures \<Rightarrow>
   'r block_tree \<Rightarrow> ((hash_value list, anyhow) result \<times> 'r block_tree) option" where
  "commit_callback iter blocks_to_commit finality_proof commit_decision t =
     (case expect_ok (create_merged_with_executed_state finality_proof commit_decision) of
        Ok commit_proof \<Rightarrow>
          if blocks_to_commit = [] then Some (Panic, t)
          else (case commit_root t of
              Ok _ \<Rightarrow> map_option (\<lambda>found. case found of
                  Ok id_to_remove \<Rightarrow>
                    bind_ex (update_highest_commit_cert commit_proof) (\<lambda>_. lift_ex (Ok id_to_remove))
                      (process_pruned_blocks id_to_remove t)
                | Err e \<Rightarrow> (Err e, t)
                | Panic \<Rightarrow> (Panic, t))
                (find_blocks_to_prune iter (eb_id (last blocks_to_commit)) t)
            | Err e \<Rightarrow> Some (Err e, t)
            | Panic \<Rightarrow> Some (Panic, t))
      | Err e \<Rightarrow> Some (Err e, t)
      | Panic \<Rightarrow> Some (Panic, t))"

section \<open>Lemmas\<close>

subsection \<open>Trees given by parent links\<close>

text \<open>
  A set \<open>D\<close> of block ids with the parent \<open>par x\<close> of each, which may lie outside of the set: the links,
  what is below a block, and the order by rounds \<open>rnd\<close> that makes the links acyclic.
\<close>

definition links :: "('n \<Rightarrow> 'n) \<Rightarrow> 'n set \<Rightarrow> ('n \<times> 'n) set" where
  "links par D = {(par c, c) |c. c \<in> D \<and> par c \<in> D}"

definition below :: "('n \<Rightarrow> 'n) \<Rightarrow> 'n set \<Rightarrow> 'n \<Rightarrow> 'n set" where
  "below par D r = (links par D)\<^sup>* `` {r}"

definition ranked :: "('n \<Rightarrow> 'n) \<Rightarrow> ('n \<Rightarrow> u64) \<Rightarrow> 'n set \<Rightarrow> bool" where
  "ranked par rnd D \<longleftrightarrow> (\<forall>c \<in> D. par c \<in> D \<longrightarrow> rnd (par c) < rnd c)"

lemma below_self [simp]: "r \<in> below par D r"
  by (simp add: below_def)

lemma below_child: "x \<in> below par D r \<Longrightarrow> y \<in> D \<Longrightarrow> par y = x \<Longrightarrow> x \<in> D \<Longrightarrow> y \<in> below par D r"
  by (auto simp: below_def links_def intro: rtrancl_into_rtrancl)

lemma below_cases: "x \<in> below par D r \<Longrightarrow> x = r \<or> x \<in> D \<and> par x \<in> D \<and> par x \<in> below par D r"
  unfolding below_def by (auto elim: rtranclE simp: links_def)

lemma below_induct [consumes 1, case_names self child]:
  assumes "x \<in> below par D r" "P r" "\<And>y. y \<in> D \<Longrightarrow> par y \<in> D \<Longrightarrow> par y \<in> below par D r \<Longrightarrow> P (par y) \<Longrightarrow> P y"
  shows "P x"
proof -
  from assms(1) have "(r, x) \<in> (links par D)\<^sup>*" by (simp add: below_def)
  then show ?thesis
    by (induction rule: rtrancl_induct) (use assms(2,3) in \<open>auto simp: links_def below_def\<close>)
qed

lemma below_trans: "y \<in> below par D x \<Longrightarrow> x \<in> below par D r \<Longrightarrow> y \<in> below par D r"
  by (auto simp: below_def)

lemma below_subset: "r \<in> D \<Longrightarrow> below par D r \<subseteq> D"
  using below_cases by fastforce

lemma below_rank:
  assumes "ranked par rnd D" "x \<in> below par D r"
  shows "x = r \<or> rnd r < rnd x"
  using assms(2) by (induction rule: below_induct) (use assms(1) in \<open>auto simp: ranked_def\<close>)

lemma below_antisym: "ranked par rnd D \<Longrightarrow> x \<in> below par D r \<Longrightarrow> r \<in> below par D x \<Longrightarrow> x = r"
  using below_rank [of par rnd D x r] below_rank [of par rnd D r x] by auto

lemma below_comparable: "x \<in> below par D a \<Longrightarrow> x \<in> below par D b \<Longrightarrow> a \<in> below par D b \<or> b \<in> below par D a"
proof (induction rule: below_induct)
  case (child y)
  then show ?case using below_cases [of y par D b] below_child [of "par y" par D a y] by auto
qed simp

lemma siblings_disjoint:
  assumes "ranked par rnd D" "a \<noteq> b" "par a = k" "par b = k" "a \<in> D" "b \<in> D" "k \<in> D"
  shows "below par D a \<inter> below par D b = {}"
proof -
  have no: "u \<notin> below par D v" if "u \<noteq> v" "par u = k" "par v = k" "u \<in> D" "v \<in> D" for u v
  proof
    assume "u \<in> below par D v"
    with that have "k \<in> below par D v" using below_cases by fastforce
    moreover have "v \<in> below par D k" by (rule below_child [OF below_self]) (use that assms(7) in simp_all)
    ultimately have "v = k" using below_antisym [OF assms(1), of v k] by simp
    then show False using assms(1,7) that(3,5) by (auto simp: ranked_def)
  qed
  have "a \<notin> below par D b" "b \<notin> below par D a" using no [of a b] no [of b a] assms by simp_all
  then show ?thesis using below_comparable by (metis disjoint_iff)
qed

lemma below_split:
  assumes "k \<in> D"
  shows "below par D k = insert k (\<Union>c \<in> {c \<in> D. par c = k}. below par D c)" (is "?l = ?r")
proof
  show "?l \<subseteq> ?r"
  proof
    fix x assume "x \<in> ?l"
    then show "x \<in> ?r"
    proof (induction rule: below_induct)
      case (child y)
      then show ?case by (auto intro: below_child)
    qed simp
  qed
  show "?r \<subseteq> ?l" using assms by (auto intro: below_trans [OF _ below_child [OF below_self]])
qed

text \<open>Taking the blocks of a list out of the set one by one, none before its parent.\<close>

fun parents_first :: "('n \<Rightarrow> 'n) \<Rightarrow> 'n set \<Rightarrow> 'n list \<Rightarrow> bool" where
  "parents_first par T [] = True"
| "parents_first par T (x # xs) = (par x \<notin> T \<and> parents_first par (T - {x}) xs)"

lemma parents_first_mono: "parents_first par T xs \<Longrightarrow> T' \<subseteq> T \<Longrightarrow> parents_first par T' xs"
proof (induction xs arbitrary: T T')
  case (Cons x xs)
  then show ?case by (auto intro: Cons.IH [of "T - {x}"])
qed simp

lemma parents_first_append:
  "parents_first par T (xs @ ys) \<longleftrightarrow> parents_first par T xs \<and> parents_first par (T - set xs) ys"
proof (induction xs arbitrary: T)
  case (Cons x xs)
  have "T - {x} - set xs = T - insert x (set xs)" by auto
  then show ?case using Cons [of "T - {x}"] by simp
qed simp

lemma parents_first_concat:
  assumes "\<And>c T. c \<in> set cs \<Longrightarrow> par c \<notin> T \<Longrightarrow> parents_first par T (f c)" "\<And>c. c \<in> set cs \<Longrightarrow> par c = k" "k \<notin> T"
  shows "parents_first par T (concat (map f cs))"
  using assms by (induction cs arbitrary: T) (simp_all add: parents_first_append)

lemma distinct_concat_map:
  assumes "distinct cs" "\<And>c. c \<in> set cs \<Longrightarrow> distinct (f c)"
    and "\<And>a b. a \<in> set cs \<Longrightarrow> b \<in> set cs \<Longrightarrow> a \<noteq> b \<Longrightarrow> set (f a) \<inter> set (f b) = {}"
  shows "distinct (concat (map f cs))"
  using assms
proof (induction cs)
  case (Cons c cs)
  have "set (f c) \<inter> set (f b) = {}" if "b \<in> set cs" for b using Cons.prems(1,3) that by (metis distinct.simps(2) list.set_intros)
  with Cons show ?case by fastforce
qed simp

subsection \<open>The pruning loop\<close>

text \<open>The iteration over a finite hash set visits every element once.\<close>

definition iter_ok :: "(hash_value set \<Rightarrow> hash_value list) \<Rightarrow> bool" where
  "iter_ok iter \<longleftrightarrow> (\<forall>S. finite S \<longrightarrow> set (iter S) = S \<and> distinct (iter S))"

text \<open>A map of blocks agrees with the parents and rounds of their ids, and child links mirror parent links.\<close>

definition blocks_ok ::
  "(hash_value \<Rightarrow> hash_value) \<Rightarrow> (hash_value \<Rightarrow> round_t) \<Rightarrow> (hash_value, 'r linkable_block) btree_map \<Rightarrow> bool" where
  "blocks_ok par rnd m \<longleftrightarrow> bt_sorted m \<and> ranked par rnd (dom (map_of m)) \<and> (\<forall>k lb. map_of m k = Some lb \<longrightarrow>
     lb_id lb = k \<and> eb_parent_id (lb_executed_block lb) = par k \<and> eb_round (lb_executed_block lb) = rnd k \<and>
     lb_children lb = {c \<in> dom (map_of m). par c = k})"

lemma push_children_Ok:
  assumes "set cs \<subseteq> dom (map_of m)"
  shows "push_children m nr cs rest = Ok (map (\<lambda>c. the (map_of m c)) (rev (filter (\<lambda>c. c \<noteq> nr) cs)) @ rest)"
  using assms by (induction cs arbitrary: rest) (auto simp: or_panic_def)

lemma prune_loop_list:
  assumes "\<And>c rest acc. c \<in> set cs \<Longrightarrow>
    prune_loop iter m nr (the (map_of m c) # rest) acc = prune_loop iter m nr rest (acc @ f c)"
  shows "prune_loop iter m nr (map (\<lambda>c. the (map_of m c)) cs @ rest) acc = prune_loop iter m nr rest (acc @ concat (map f cs))"
  using assms by (induction cs arbitrary: acc) simp_all

lemma prune_loop_subtree:
  assumes ok: "blocks_ok par rnd m" and it: "iter_ok iter"
  defines "D \<equiv> dom (map_of m)"
  shows "map_of m k = Some lb \<Longrightarrow> k \<notin> below par D nr \<Longrightarrow>
    \<exists>L. (\<forall>rest acc. prune_loop iter m nr (lb # rest) acc = prune_loop iter m nr rest (acc @ L)) \<and>
      set L = below par D k - below par D nr \<and> distinct L \<and> (\<forall>T. par k \<notin> T \<longrightarrow> parents_first par T L)"
proof (induction "2 ^ 64 - unat (rnd k)" arbitrary: k lb rule: less_induct)
  case less
  have rk: "ranked par rnd D" using ok by (simp add: blocks_ok_def D_def)
  have kD: "k \<in> D" using less.prems by (auto simp: D_def)
  have lb: "lb_id lb = k" "lb_children lb = {c \<in> D. par c = k}"
    using ok less.prems(1) by (auto simp: blocks_ok_def D_def)
  have "finite D" by (simp add: D_def finite_dom_map_of)
  then have kids: "set (iter (lb_children lb)) = {c \<in> D. par c = k}" "distinct (iter (lb_children lb))"
    using it lb by (auto simp: iter_ok_def)
  define cs where "cs = rev (filter (\<lambda>c. c \<noteq> nr) (iter (lb_children lb)))"
  have cs: "set cs = {c \<in> D. par c = k \<and> c \<noteq> nr}" "distinct cs" using kids by (auto simp: cs_def)
  have "\<exists>L. (\<forall>rest acc. prune_loop iter m nr (the (map_of m c) # rest) acc = prune_loop iter m nr rest (acc @ L)) \<and>
      set L = below par D c - below par D nr \<and> distinct L \<and> (\<forall>T. par c \<notin> T \<longrightarrow> parents_first par T L)" if "c \<in> set cs" for c
  proof -
    have c: "c \<in> D" "par c = k" "c \<noteq> nr" using that cs by auto
    have "rnd k < rnd c" using rk c kD by (auto simp: ranked_def)
    then have "2 ^ 64 - unat (rnd c) < 2 ^ 64 - unat (rnd k)" using unat_below [of "rnd c"] by (simp add: word_less_nat_alt)
    moreover obtain lc where "map_of m c = Some lc" using c(1) by (auto simp: D_def)
    moreover have "c \<notin> below par D nr" using below_cases [of c par D nr] c less.prems(2) by auto
    ultimately show ?thesis using less.hyps [of c lc] by simp
  qed
  then obtain f where f: "\<And>c rest acc. c \<in> set cs \<Longrightarrow> prune_loop iter m nr (the (map_of m c) # rest) acc = prune_loop iter m nr rest (acc @ f c)"
    "\<And>c. c \<in> set cs \<Longrightarrow> set (f c) = below par D c - below par D nr" "\<And>c. c \<in> set cs \<Longrightarrow> distinct (f c)"
    "\<And>c T. c \<in> set cs \<Longrightarrow> par c \<notin> T \<Longrightarrow> parents_first par T (f c)"
    by metis
  let ?L = "k # concat (map f cs)"
  have "push_children m nr (iter (lb_children lb)) rest = Ok (map (\<lambda>c. the (map_of m c)) cs @ rest)" for rest
    unfolding cs_def by (rule push_children_Ok) (use kids in \<open>auto simp: D_def\<close>)
  then have "prune_loop iter m nr (lb # rest) acc = prune_loop iter m nr rest (acc @ ?L)" for rest acc
    using prune_loop_list [of cs iter m nr f rest "acc @ [k]"] f(1) lb(1) by (subst prune_loop.simps) simp
  moreover have "set ?L = below par D k - below par D nr"
  proof -
    have "below par D k - below par D nr = insert k (\<Union>c \<in> {c \<in> D. par c = k}. below par D c - below par D nr)"
      using below_split [OF kD, of par] less.prems(2) by auto
    also have "\<dots> = insert k (\<Union>c \<in> set cs. below par D c - below par D nr)" using cs(1) by auto
    finally show ?thesis using f(2) by simp
  qed
  moreover have "distinct ?L"
  proof -
    have "distinct (concat (map f cs))"
    proof (rule distinct_concat_map [OF cs(2) f(3)])
      fix a b assume ab: "a \<in> set cs" "b \<in> set cs" "a \<noteq> b"
      then show "set (f a) \<inter> set (f b) = {}" using siblings_disjoint [OF rk ab(3), of k] cs(1) kD f(2) by auto
    qed
    moreover have "k \<notin> below par D c" if "c \<in> set cs" for c
    proof -
      have c: "c \<in> D" "par c = k" using that cs(1) by auto
      then have "rnd k < rnd c" using rk kD by (auto simp: ranked_def)
      then show ?thesis using below_rank [OF rk, of k c] by auto
    qed
    ultimately show ?thesis using f(2) by auto
  qed
  moreover have "parents_first par T ?L" if "par k \<notin> T" for T
  proof -
    have "parents_first par (T - {k}) (concat (map f cs))" by (rule parents_first_concat [OF f(4), where k = k]) (use cs(1) in simp_all)
    with that show ?thesis by simp
  qed
  ultimately show ?case by (intro exI [of _ ?L] conjI allI impI)
qed

lemma find_blocks_to_prune_exact:
  assumes ok: "blocks_ok par rnd (id_to_block t)" and it: "iter_ok iter"
  defines "D \<equiv> dom (map_of (id_to_block t))"
  assumes root: "commit_root_id t \<in> D" and nr: "nr \<in> below par D (commit_root_id t)"
  shows "\<exists>N. find_blocks_to_prune iter nr t = Some (Ok N) \<and> set N = below par D (commit_root_id t) - below par D nr \<and> distinct N \<and>
    (\<forall>T. par (commit_root_id t) \<notin> T \<longrightarrow> parents_first par T N)"
proof (cases "nr = commit_root_id t")
  case True
  then show ?thesis by (simp add: find_blocks_to_prune_def)
next
  case False
  have rk: "ranked par rnd D" using ok by (simp add: blocks_ok_def D_def)
  have out: "commit_root_id t \<notin> below par D nr" using below_antisym [OF rk nr] False by auto
  from root obtain lb where lb: "map_of (id_to_block t) (commit_root_id t) = Some lb" by (auto simp: D_def)
  from prune_loop_subtree [OF ok it lb out [unfolded D_def]]
  obtain N where N: "\<And>rest acc. prune_loop iter (id_to_block t) nr (lb # rest) acc = prune_loop iter (id_to_block t) nr rest (acc @ N)"
    "set N = below par D (commit_root_id t) - below par D nr" "distinct N"
    "\<And>T. par (commit_root_id t) \<notin> T \<Longrightarrow> parents_first par T N" unfolding D_def by blast
  have "find_blocks_to_prune iter nr t = Some (Ok N)"
    using False lb N(1) [of "[]" "[]"]
    by (simp add: find_blocks_to_prune_def linkable_root_def get_linkable_block_def or_panic_def prune_loop.simps [of _ _ _ "[]"])
  with N(2-4) show ?thesis by blast
qed

subsection \<open>The path loop\<close>

text \<open>The ids of a chain that starts at a child of \<open>r\<close> and ends with \<open>b\<close>; it is empty when they are the same.\<close>

fun linked :: "('n \<Rightarrow> 'n) \<Rightarrow> 'n \<Rightarrow> 'n list \<Rightarrow> 'n \<Rightarrow> bool" where
  "linked par r [] b \<longleftrightarrow> r = b"
| "linked par r (x # xs) b \<longleftrightarrow> par x = r \<and> linked par x xs b"

lemma linked_snoc: "linked par r (xs @ [b]) c \<longleftrightarrow> b = c \<and> linked par r xs (par b)"
  by (induction xs arbitrary: r) auto

lemma get_block_facts:
  assumes "blocks_ok par rnd (id_to_block t)" "get_block t k = Some b"
  shows "eb_id b = k \<and> eb_parent_id b = par k \<and> eb_round b = rnd k \<and> k \<in> dom (map_of (id_to_block t))"
  using assms by (auto simp: get_block_def get_linkable_block_def blocks_ok_def lb_id_def)

lemma path_loop_exact:
  assumes ok: "blocks_ok par rnd (id_to_block t)"
  defines "D \<equiv> dom (map_of (id_to_block t))"
  assumes r: "r \<in> D"
  shows "\<exists>out. path_loop t (rnd r) cur acc = Some out \<and>
    (if cur \<in> below par D r
     then \<exists>path. out = Some (r, acc @ rev path) \<and> linked par r (map eb_id path) cur \<and> (\<forall>b \<in> set path. get_block t (eb_id b) = Some b)
     else \<forall>x res. out = Some (x, res) \<longrightarrow> x \<noteq> r)"
proof (induction "unat (rnd cur)" arbitrary: cur acc rule: less_induct)
  case less
  have rk: "ranked par rnd D" using ok by (simp add: blocks_ok_def D_def)
  show ?case
  proof (cases "get_block t cur")
    case None
    then have "cur \<notin> D" by (auto simp: get_block_def get_linkable_block_def D_def)
    then have "cur \<notin> below par D r" using below_subset [OF r] by auto
    with None show ?thesis by (simp add: path_loop.simps [of t _ cur])
  next
    case (Some b)
    note b = get_block_facts [OF ok Some]
    show ?thesis
    proof (cases "rnd cur \<le> rnd r")
      case True
      then have "cur \<in> below par D r \<longleftrightarrow> cur = r" using below_rank [OF rk, of cur r] by auto
      then show ?thesis using True Some b by (auto simp: path_loop.simps [of t _ cur])
    next
      case False
      then have step: "path_loop t (rnd r) cur acc = path_loop t (rnd r) (par cur) (acc @ [b])"
        using Some b by (simp add: path_loop.simps [of t _ cur])
      have iff: "cur \<in> below par D r \<longleftrightarrow> par cur \<in> D \<and> par cur \<in> below par D r"
        using False b below_cases [of cur par D r] below_child [of "par cur" par D r cur] by (auto simp: D_def)
      show ?thesis
      proof (cases "par cur \<in> D")
        case True
        then have "rnd (par cur) < rnd cur" using rk b by (auto simp: ranked_def D_def)
        from less.hyps [OF this [unfolded word_less_nat_alt], of "acc @ [b]"] obtain out where
          out: "path_loop t (rnd r) (par cur) (acc @ [b]) = Some out"
            "if par cur \<in> below par D r
             then \<exists>path. out = Some (r, (acc @ [b]) @ rev path) \<and> linked par r (map eb_id path) (par cur) \<and>
               (\<forall>b \<in> set path. get_block t (eb_id b) = Some b)
             else \<forall>x res. out = Some (x, res) \<longrightarrow> x \<noteq> r" by blast
        show ?thesis
        proof (cases "par cur \<in> below par D r")
          case below: True
          with out(2) obtain path where "out = Some (r, (acc @ [b]) @ rev path)" "linked par r (map eb_id path) (par cur)"
            "\<forall>b \<in> set path. get_block t (eb_id b) = Some b" by auto
          then show ?thesis using step out(1) iff below True b Some
            by (auto simp: linked_snoc intro!: exI [of _ "path @ [b]"])
        qed (use step out iff in auto)
      next
        case False
        then have "get_block t (par cur) = None" by (auto simp: get_block_def get_linkable_block_def D_def)
        then show ?thesis using step iff False by (simp add: path_loop.simps [of t _ "par cur"])
      qed
    qed
  qed
qed

lemma path_from_root_exact:
  assumes ok: "blocks_ok par rnd (id_to_block t)"
  defines "D \<equiv> dom (map_of (id_to_block t))"
  assumes r: "r \<in> D"
  shows "\<exists>found. path_from_root_to_block t b r (rnd r) = Some found \<and>
    (case found of None \<Rightarrow> b \<notin> below par D r
     | Some path \<Rightarrow> b \<in> below par D r \<and> linked par r (map eb_id path) b \<and> (\<forall>x \<in> set path. get_block t (eb_id x) = Some x))"
proof -
  from path_loop_exact [OF ok, of r b "[]"] r obtain out where out: "path_loop t (rnd r) b [] = Some out"
    "if b \<in> below par D r
     then \<exists>path. out = Some (r, [] @ rev path) \<and> linked par r (map eb_id path) b \<and> (\<forall>b \<in> set path. get_block t (eb_id b) = Some b)
     else \<forall>x res. out = Some (x, res) \<longrightarrow> x \<noteq> r" unfolding D_def by blast
  then show ?thesis by (cases "b \<in> below par D r") (auto simp: path_from_root_to_block_def split: option.splits)
qed

end
