(* ===== verification/Block_Tree_Runs.thy ===== *)
theory Block_Tree_Runs
  imports Block_Tree
begin

text \<open>
  Sequences of calls of the block tree, and what they keep: the tree stays linked both ways, its
  commit root stays in it, the ordered root and the highest certified block do unless a commit has
  overtaken them, and pruned blocks are dropped oldest first, parents before children, so that no
  child link ever dangles.

  The functions \<open>par\<close> and \<open>rnd\<close> give the parent and the round of the block with a given id: an id
  is the hash of a block, so that it determines both. The blocks that were ever in the tree are \<open>H\<close>
  and the first root is \<open>r0\<close>.
\<close>

section \<open>Calls\<close>

datatype 'r tree_call =
    InsertBlock "'r executed_block"
  | InsertCert quorum_cert
  | SetOrderedRoot hash_value
  | SetTimeoutCert two_chain_timeout_certificate
  | Commit "'r executed_block list" quorum_cert ledger_info_with_signatures

definition no_value :: "('a, anyhow) result \<times> 'r block_tree \<Rightarrow> (unit, anyhow) result \<times> 'r block_tree" where
  "no_value r = (bind_res (fst r) (\<lambda>_. Ok ()), snd r)"

primrec tree_exec ::
  "(hash_value set \<Rightarrow> hash_value list) \<Rightarrow> 'r tree_call \<Rightarrow> 'r block_tree \<Rightarrow> ((unit, anyhow) result \<times> 'r block_tree) option" where
  "tree_exec iter (InsertBlock b) t = Some (no_value (insert_block b t))"
| "tree_exec iter (InsertCert qc) t = Some (insert_quorum_cert qc t)"
| "tree_exec iter (SetOrderedRoot x) t = Some (update_ordered_root x t)"
| "tree_exec iter (SetTimeoutCert tc) t = Some (Ok (), replace_2chain_timeout_cert tc t)"
| "tree_exec iter (Commit bs fp d) t = map_option no_value (commit_callback iter bs fp d t)"

abbreviation ids :: "'r block_tree \<Rightarrow> hash_value set" where
  "ids t \<equiv> dom (map_of (id_to_block t))"

text \<open>The blocks at and above the commit root.\<close>

abbreviation active :: "(hash_value \<Rightarrow> hash_value) \<Rightarrow> 'r block_tree \<Rightarrow> hash_value set" where
  "active par t \<equiv> below par (ids t) (commit_root_id t)"

text \<open>
  What the callers provide. Blocks have the parent and round of their id, and a round above that of
  the parent. The protocol agrees on one chain: a certified block of the tree at or above the round of the
  commit root is above the root, and so is a new ordered root; a commit is, with its certificate, of a
  block above the commit root, which lies on one path with the ordered root and with the highest
  certified block. It may come before the ordered root is updated, as it does in
  \<open>BlockStore::commit\<close> when execution is coupled, or long after.
\<close>

definition on_path :: "(hash_value \<Rightarrow> hash_value) \<Rightarrow> 'r block_tree \<Rightarrow> hash_value \<Rightarrow> hash_value \<Rightarrow> bool" where
  "on_path par t r x \<longleftrightarrow> x \<in> below par (ids t) r \<or> r \<in> below par (ids t) x"

primrec call_ok :: "(hash_value \<Rightarrow> hash_value) \<Rightarrow> (hash_value \<Rightarrow> round_t) \<Rightarrow> 'r block_tree \<Rightarrow> 'r tree_call \<Rightarrow> bool" where
  "call_ok par rnd t (InsertBlock b) \<longleftrightarrow>
     eb_parent_id b = par (eb_id b) \<and> eb_round b = rnd (eb_id b) \<and> rnd (par (eb_id b)) < rnd (eb_id b)"
| "call_ok par rnd t (InsertCert qc) \<longleftrightarrow> (let b = bi_id (certified_block qc) in
     b \<in> ids t \<and> rnd (commit_root_id t) \<le> rnd b \<longrightarrow> b \<in> active par t)"
| "call_ok par rnd t (SetOrderedRoot x) \<longleftrightarrow> (x \<in> ids t \<longrightarrow> x \<in> active par t)"
| "call_ok par rnd t (SetTimeoutCert tc) \<longleftrightarrow> True"
| "call_ok par rnd t (Commit bs fp d) \<longleftrightarrow> (bs \<noteq> [] \<longrightarrow>
     (let r = eb_id (last bs) in r \<in> active par t \<and> bi_id (qc_commit_info fp) = r \<and> bi_round (qc_commit_info fp) = rnd r \<and>
        (ordered_root_id t \<in> active par t \<longrightarrow> on_path par t r (ordered_root_id t)) \<and>
        (highest_certified_block_id t \<in> active par t \<longrightarrow> on_path par t r (highest_certified_block_id t))))"

text \<open>The assertions a call makes: if one fails, the call panics, and the lock of the tree is poisoned.\<close>

primrec asserted :: "'r block_tree \<Rightarrow> 'r tree_call \<Rightarrow> bool" where
  "asserted t (InsertBlock b) \<longleftrightarrow>
     (\<forall>e. get_block t (eb_id b) = Some e \<longrightarrow> eb_state_compute_result e = eb_state_compute_result b)"
| "asserted t (InsertCert qc) \<longleftrightarrow> (bi_id (certified_block qc) \<in> ids t \<longrightarrow> highest_certified_block_id t \<in> ids t)"
| "asserted t (SetOrderedRoot x) \<longleftrightarrow> x \<in> ids t"
| "asserted t (SetTimeoutCert tc) \<longleftrightarrow> True"
| "asserted t (Commit bs fp d) \<longleftrightarrow> bs \<noteq> [] \<and> match_ordered_only (qc_commit_info fp) (commit_info (lis_ledger_info d))"

section \<open>Invariant\<close>

definition history_ok ::
  "(hash_value \<Rightarrow> hash_value) \<Rightarrow> (hash_value \<Rightarrow> round_t) \<Rightarrow> hash_value \<Rightarrow> hash_value set \<Rightarrow> hash_value set \<Rightarrow> bool" where
  "history_ok par rnd r0 H D \<longleftrightarrow> r0 \<in> H \<and> D \<subseteq> H \<and> par r0 \<notin> H \<and> rnd (par r0) \<le> rnd r0 \<and>
     (\<forall>x \<in> H. rnd r0 \<le> rnd x \<and> (x \<noteq> r0 \<longrightarrow> par x \<in> H)) \<and> (\<forall>x \<in> H - D. par x \<notin> D)"

definition links_ok ::
  "(hash_value \<Rightarrow> hash_value) \<Rightarrow> (hash_value \<Rightarrow> round_t) \<Rightarrow> hash_value \<Rightarrow> hash_value set \<Rightarrow> 'r block_tree \<Rightarrow> bool" where
  "links_ok par rnd r0 H t \<longleftrightarrow> blocks_ok par rnd (id_to_block t) \<and> history_ok par rnd r0 H (ids t) \<and>
     distinct (pruned_block_ids t) \<and> set (pruned_block_ids t) \<subseteq> ids t \<and> parents_first par (ids t) (pruned_block_ids t)"

definition roots_ok :: "(hash_value \<Rightarrow> hash_value) \<Rightarrow> (hash_value \<Rightarrow> round_t) \<Rightarrow> 'r block_tree \<Rightarrow> bool" where
  "roots_ok par rnd t \<longleftrightarrow> commit_root_id t \<in> ids t \<and>
     (rnd (commit_root_id t) \<le> rnd (ordered_root_id t) \<longrightarrow> ordered_root_id t \<in> active par t) \<and>
     (rnd (commit_root_id t) \<le> rnd (highest_certified_block_id t) \<longrightarrow> highest_certified_block_id t \<in> active par t) \<and>
     bi_round (qc_commit_info (t_highest_commit_cert t)) \<le> rnd (commit_root_id t) \<and>
     set (pruned_block_ids t) \<inter> active par t = {} \<and>
     (par (commit_root_id t) \<in> ids t \<longrightarrow> par (commit_root_id t) \<in> set (pruned_block_ids t)) \<and>
     length (pruned_block_ids t) \<le> unat (max_pruned_blocks_in_mem t)"

definition tree_inv ::
  "(hash_value \<Rightarrow> hash_value) \<Rightarrow> (hash_value \<Rightarrow> round_t) \<Rightarrow> hash_value \<Rightarrow> hash_value set \<Rightarrow> 'r block_tree \<Rightarrow> bool" where
  "tree_inv par rnd r0 H t \<longleftrightarrow> links_ok par rnd r0 H t \<and> roots_ok par rnd t"

subsection \<open>Removing the oldest blocks\<close>

lemma blocks_ok_remove:
  assumes "blocks_ok par rnd m" "par x \<notin> dom (map_of m)"
  shows "blocks_ok par rnd (bt_remove x m)" "dom (map_of (bt_remove x m)) = dom (map_of m) - {x}"
proof -
  have s: "bt_sorted m" using assms(1) by (simp add: blocks_ok_def)
  show d: "dom (map_of (bt_remove x m)) = dom (map_of m) - {x}" by (auto simp: bt_get_remove [OF s] split: if_splits)
  have "{c \<in> dom (map_of m). par c = k} = {c \<in> dom (map_of m) - {x}. par c = k}" if "k \<in> dom (map_of m)" for k
    using that assms(2) by auto
  then show "blocks_ok par rnd (bt_remove x m)"
    using assms(1) unfolding blocks_ok_def d
    by (auto simp: bt_get_remove [OF s] bt_remove_sorted ranked_def split: if_splits)
qed

lemma links_ok_remove:
  assumes "links_ok par rnd r0 H t" "pruned_block_ids t = x # rest"
  defines "t' \<equiv> remove_block x (t\<lparr>pruned_block_ids := rest\<rparr>)"
  shows "links_ok par rnd r0 H t'" "ids t' = ids t - {x}"
proof -
  have x: "blocks_ok par rnd (id_to_block t)" "par x \<notin> ids t" using assms(1,2) by (auto simp: links_ok_def)
  note r = blocks_ok_remove [OF x]
  show d: "ids t' = ids t - {x}" using r(2) by (simp add: t'_def remove_block_def)
  have p: "pruned_block_ids t' = rest" and b: "id_to_block t' = bt_remove x (id_to_block t)"
    by (simp_all add: t'_def remove_block_def)
  show "links_ok par rnd r0 H t'"
    using assms(1,2) r(1) x(2) unfolding links_ok_def d p unfolding b by (auto simp: history_ok_def)
qed

lemma remove_oldest_facts:
  assumes "links_ok par rnd r0 H t" "n \<le> length (pruned_block_ids t)"
  shows "links_ok par rnd r0 H (remove_oldest n t) \<and> ids (remove_oldest n t) = ids t - set (take n (pruned_block_ids t)) \<and>
    pruned_block_ids (remove_oldest n t) = drop n (pruned_block_ids t) \<and> ordered_root_id (remove_oldest n t) = ordered_root_id t \<and>
    commit_root_id (remove_oldest n t) = commit_root_id t \<and> highest_certified_block_id (remove_oldest n t) = highest_certified_block_id t \<and>
    t_highest_commit_cert (remove_oldest n t) = t_highest_commit_cert t \<and>
    max_pruned_blocks_in_mem (remove_oldest n t) = max_pruned_blocks_in_mem t"
  using assms
proof (induction n arbitrary: t)
  case (Suc n)
  then obtain x rest where p: "pruned_block_ids t = x # rest" by (cases "pruned_block_ids t") auto
  define u where "u = remove_block x (t\<lparr>pruned_block_ids := rest\<rparr>)"
  note u = links_ok_remove [OF Suc.prems(1) p, folded u_def]
  have f: "pruned_block_ids u = rest" "ordered_root_id u = ordered_root_id t" "commit_root_id u = commit_root_id t"
    "highest_certified_block_id u = highest_certified_block_id t" "t_highest_commit_cert u = t_highest_commit_cert t"
    "max_pruned_blocks_in_mem u = max_pruned_blocks_in_mem t" by (simp_all add: u_def remove_block_def)
  have "remove_oldest (Suc n) t = remove_oldest n u" by (simp add: p u_def)
  moreover have "n \<le> length (pruned_block_ids u)" using Suc.prems(2) p f(1) by simp
  ultimately show ?case using Suc.IH [OF u(1)] f u(2) p by auto
qed auto

subsection \<open>What is below a block when the set changes\<close>

lemma below_mono: "D \<subseteq> D' \<Longrightarrow> below par D r \<subseteq> below par D' r"
  unfolding below_def links_def by (intro Image_mono rtrancl_mono) auto

lemma below_insert: "below par (insert b D) r \<subseteq> insert b (below par D r)" if "\<And>x. x \<in> D \<Longrightarrow> par x \<noteq> b" "par b \<noteq> b"
proof
  fix x assume "x \<in> below par (insert b D) r"
  then show "x \<in> insert b (below par D r)"
  proof (induction rule: below_induct)
    case (child y)
    then show ?case using that by (auto intro: below_child)
  qed simp
qed

lemma below_diff:
  assumes "below par D r \<inter> X = {}"
  shows "below par (D - X) r = below par D r"
proof
  show "below par (D - X) r \<subseteq> below par D r" by (rule below_mono) auto
  show "below par D r \<subseteq> below par (D - X) r"
  proof
    fix x assume "x \<in> below par D r"
    then show "x \<in> below par (D - X) r"
    proof (induction rule: below_induct)
      case (child y)
      have "y \<in> below par D r" by (rule below_child [OF child(3,1) refl child(2)])
      then have "y \<in> D - X" "par y \<in> D - X" using assms child(1-3) by auto
      then show ?case by (intro below_child [OF child(4) _ refl])
    qed simp
  qed
qed

lemma parents_first_insert:
  "parents_first par T xs \<Longrightarrow> (\<And>x. x \<in> set xs \<Longrightarrow> par x \<noteq> b) \<Longrightarrow> parents_first par (insert b T) xs"
proof (induction xs arbitrary: T)
  case (Cons x xs)
  then have "parents_first par (insert b (T - {x})) xs" by simp
  then have "parents_first par (insert b T - {x}) xs" by (rule parents_first_mono) auto
  with Cons.prems show ?case by simp
qed simp

subsection \<open>Inserting a block\<close>

lemma insert_no_child:
  assumes h: "history_ok par rnd r0 H D" and b: "b \<notin> D" "par b \<in> D" "rnd (par b) < rnd b"
  shows "x \<in> H \<Longrightarrow> par x \<noteq> b" "b \<noteq> par r0"
proof -
  have "rnd r0 \<le> rnd (par b)" using h b(2) by (auto simp: history_ok_def)
  then show r0: "b \<noteq> par r0" using h b(3) by (auto simp: history_ok_def)
  show "par x \<noteq> b" if "x \<in> H"
  proof
    assume x: "par x = b"
    then have "b \<in> H" using h that r0 by (auto simp: history_ok_def)
    then show False using h b(1,2) by (auto simp: history_ok_def)
  qed
qed

lemma history_ok_insert:
  assumes h: "history_ok par rnd r0 H D" and b: "b \<notin> D" "par b \<in> D" "rnd (par b) < rnd b"
  shows "history_ok par rnd r0 (insert b H) (insert b D)"
proof -
  note no = insert_no_child [OF assms]
  have "rnd r0 \<le> rnd (par b)" using h b(2) by (auto simp: history_ok_def)
  then have "rnd r0 \<le> rnd b" using b(3) by simp
  then show ?thesis using h no b(2) unfolding history_ok_def by (intro conjI ballI) auto
qed

lemma blocks_ok_insert:
  assumes m: "blocks_ok par rnd m" and p: "map_of m (eb_parent_id b) = Some lb" and new: "eb_id b \<notin> dom (map_of m)"
    and b: "eb_parent_id b = par (eb_id b)" "eb_round b = rnd (eb_id b)" "rnd (par (eb_id b)) < rnd (eb_id b)"
    and no: "\<And>x. x \<in> dom (map_of m) \<Longrightarrow> par x \<noteq> eb_id b"
  defines "m' \<equiv> bt_insert (eb_id b) (LinkableBlock_new b)
    (bt_insert (eb_parent_id b) (lb\<lparr>lb_children := insert (eb_id b) (lb_children lb)\<rparr>) m)"
  shows "blocks_ok par rnd m'" "dom (map_of m') = insert (eb_id b) (dom (map_of m))"
proof -
  have ne: "par (eb_id b) \<noteq> eb_id b" using b(3) by auto
  have pd: "par (eb_id b) \<in> dom (map_of m)" using p b(1) by auto
  have look: "map_of m' = (map_of m)(par (eb_id b) \<mapsto> lb\<lparr>lb_children := insert (eb_id b) (lb_children lb)\<rparr>, eb_id b \<mapsto> LinkableBlock_new b)"
    by (simp add: m'_def bt_get_insert b(1))
  show d: "dom (map_of m') = insert (eb_id b) (dom (map_of m))" using pd unfolding look by auto
  have "bt_sorted m'" using m by (simp add: m'_def blocks_ok_def bt_insert_sorted)
  moreover have "ranked par rnd (dom (map_of m'))" unfolding d using m b(3) no ne by (auto simp: ranked_def blocks_ok_def)
  moreover have "lb_id x = k \<and> eb_parent_id (lb_executed_block x) = par k \<and> eb_round (lb_executed_block x) = rnd k \<and>
     lb_children x = {c \<in> dom (map_of m'). par c = k}" if x: "map_of m' k = Some x" for k x
  proof -
    consider "k = eb_id b" "x = LinkableBlock_new b"
      | "k = par (eb_id b)" "k \<noteq> eb_id b" "x = lb\<lparr>lb_children := insert (eb_id b) (lb_children lb)\<rparr>"
      | "k \<noteq> eb_id b" "k \<noteq> par (eb_id b)" "map_of m k = Some x"
      using x unfolding look by (auto split: if_splits)
    then show ?thesis
    proof cases
      case 1
      then show ?thesis using b no ne unfolding d by (auto simp: LinkableBlock_new_def lb_id_def)
    next
      case 2
      with m p b(1) show ?thesis unfolding d blocks_ok_def by (auto simp: lb_id_def)
    next
      case 3
      with m show ?thesis unfolding d blocks_ok_def by auto
    qed
  qed
  ultimately show "blocks_ok par rnd m'" by (simp add: blocks_ok_def)
qed

section \<open>Every call keeps the invariant\<close>

lemma tree_inv_ids: "tree_inv par rnd r0 H t \<Longrightarrow> H \<union> ids t = H"
  by (auto simp: tree_inv_def links_ok_def history_ok_def)

lemma get_block_None: "get_block t k = None \<longleftrightarrow> k \<notin> ids t"
  by (auto simp: get_block_def get_linkable_block_def)

lemma insert_block_new:
  assumes "map_of (id_to_block t) (eb_parent_id b) = Some lb" "eb_id b \<notin> ids t" "eb_id b \<notin> lb_children lb" "eb_parent_id b \<noteq> eb_id b"
  shows "insert_block b t = (Ok b, t\<lparr>id_to_block := bt_insert (eb_id b) (LinkableBlock_new b)
    (bt_insert (eb_parent_id b) (lb\<lparr>lb_children := insert (eb_id b) (lb_children lb)\<rparr>) (id_to_block t))\<rparr>)"
  using assms by (simp add: insert_block_def get_block_def get_linkable_block_def add_child_def bt_get_insert domIff Let_def)

lemma insert_block_inv:
  assumes inv: "tree_inv par rnd r0 H t" and ok: "call_ok par rnd t (InsertBlock b)"
  shows "(fst (insert_block b t) = Panic \<longleftrightarrow> \<not> asserted t (InsertBlock b)) \<and> tree_inv par rnd r0 (H \<union> ids (snd (insert_block b t))) (snd (insert_block b t))"
proof (cases "eb_id b \<in> ids t \<or> eb_parent_id b \<notin> ids t")
  case True
  then have "(fst (insert_block b t) = Panic \<longleftrightarrow> \<not> asserted t (InsertBlock b)) \<and> snd (insert_block b t) = t"
    by (cases "map_of (id_to_block t) (eb_id b)") (auto simp: insert_block_def get_linkable_block_def get_block_def domIff Let_def)
  then show ?thesis using inv tree_inv_ids [OF inv] by auto
next
  case False
  have l: "blocks_ok par rnd (id_to_block t)" "history_ok par rnd r0 H (ids t)" using inv by (auto simp: tree_inv_def links_ok_def)
  from False obtain lb where lb: "map_of (id_to_block t) (eb_parent_id b) = Some lb" by auto
  have b: "eb_id b \<notin> ids t" "eb_parent_id b = par (eb_id b)" "eb_round b = rnd (eb_id b)" "rnd (par (eb_id b)) < rnd (eb_id b)"
    "par (eb_id b) \<in> ids t" using ok False by auto
  have ne: "par (eb_id b) \<noteq> eb_id b" using b(4) by auto
  note no = insert_no_child [OF l(2) b(1,5,4)]
  have noD: "par x \<noteq> eb_id b" if "x \<in> ids t" for x using no(1) l(2) that by (auto simp: history_ok_def)
  define t' where "t' = snd (insert_block b t)"
  have "eb_id b \<notin> lb_children lb" using l(1) lb b(1) by (auto simp: blocks_ok_def)
  from insert_block_new [OF lb b(1) this] ne b(2)
  have ins: "fst (insert_block b t) = Ok b" "t' = t\<lparr>id_to_block := id_to_block t'\<rparr>"
    "id_to_block t' = bt_insert (eb_id b) (LinkableBlock_new b)
       (bt_insert (eb_parent_id b) (lb\<lparr>lb_children := insert (eb_id b) (lb_children lb)\<rparr>) (id_to_block t))"
    by (simp_all add: t'_def)
  have m: "blocks_ok par rnd (id_to_block t')" "ids t' = insert (eb_id b) (ids t)"
    unfolding ins(3) using blocks_ok_insert [OF l(1) lb b(1-4)] noD by blast+
  have same: "pruned_block_ids t' = pruned_block_ids t" "commit_root_id t' = commit_root_id t" "ordered_root_id t' = ordered_root_id t"
    "highest_certified_block_id t' = highest_certified_block_id t" "t_highest_commit_cert t' = t_highest_commit_cert t"
    "max_pruned_blocks_in_mem t' = max_pruned_blocks_in_mem t" by (subst ins(2), simp)+
  have H': "H \<union> ids t' = insert (eb_id b) H" using m(2) l(2) by (auto simp: history_ok_def)
  have links: "links_ok par rnd r0 (insert (eb_id b) H) t'"
  proof -
    have "set (pruned_block_ids t) \<subseteq> ids t" using inv by (simp add: tree_inv_def links_ok_def)
    then have "par x \<noteq> eb_id b" if "x \<in> set (pruned_block_ids t)" for x using noD that by auto
    then show ?thesis using inv m(1) history_ok_insert [OF l(2) b(1,5,4)] parents_first_insert [of par "ids t" "pruned_block_ids t" "eb_id b"]
      unfolding links_ok_def m(2) same by (auto simp: tree_inv_def links_ok_def)
  qed
  have up: "active par t \<subseteq> active par t'" unfolding m(2) same by (rule below_mono) auto
  have down: "active par t' \<subseteq> insert (eb_id b) (active par t)" unfolding m(2) same by (rule below_insert) (use noD ne in auto)
  have "roots_ok par rnd t'"
    using inv up down b(1) noD [of "commit_root_id t"] unfolding roots_ok_def same m(2) by (auto simp: tree_inv_def roots_ok_def links_ok_def)
  moreover have "asserted t (InsertBlock b)" using b(1) get_block_None [of t "eb_id b"] by auto
  ultimately show ?thesis using links ins(1) unfolding t'_def [symmetric] H' by (simp add: tree_inv_def)
qed

lemma insert_quorum_cert_inv:
  assumes inv: "tree_inv par rnd r0 H t" and ok: "call_ok par rnd t (InsertCert qc)"
  shows "(fst (insert_quorum_cert qc t) = Panic \<longleftrightarrow> \<not> asserted t (InsertCert qc)) \<and>
    tree_inv par rnd r0 H (snd (insert_quorum_cert qc t)) \<and> ids (snd (insert_quorum_cert qc t)) = ids t"
proof (cases "get_block t (bi_id (certified_block qc))")
  case None
  then show ?thesis using inv get_block_None [of t "bi_id (certified_block qc)"] by (simp add: insert_quorum_cert_def)
next
  case (Some b)
  have bl: "blocks_ok par rnd (id_to_block t)" using inv by (simp add: tree_inv_def links_ok_def)
  note b = get_block_facts [OF bl Some]
  have mem: "bi_id (certified_block qc) \<in> ids t" using Some get_block_None [of t "bi_id (certified_block qc)"] by auto
  show ?thesis
  proof (cases "get_block t (highest_certified_block_id t)")
    case None
    then have "insert_quorum_cert qc t = (Panic, t)" using Some
      by (simp add: insert_quorum_cert_def highest_certified_block_def or_panic_def reads_def bind_ex_def)
    then show ?thesis using inv mem None get_block_None [of t "highest_certified_block_id t"] by simp
  next
    case hcb: (Some hcb)
    then have "highest_certified_block_id t \<in> ids t" using get_block_None [of t "highest_certified_block_id t"] by auto
    then show ?thesis using inv ok Some b mem hcb
      by (auto simp: insert_quorum_cert_def highest_certified_block_def or_panic_def reads_def bind_ex_def Let_def
          tree_inv_def links_ok_def roots_ok_def)
  qed
qed

lemma roots_active: "roots_ok par rnd t \<Longrightarrow> commit_root_id t \<in> ids t \<and> active par t \<subseteq> ids t"
  using below_subset [of "commit_root_id t" "ids t" par] by (simp add: roots_ok_def)

lemma process_pruned_blocks_facts:
  assumes inv: "tree_inv par rnd r0 H t" and N: "set N \<subseteq> active par t" "distinct N"
    "\<And>T. par (commit_root_id t) \<notin> T \<Longrightarrow> parents_first par T N"
  defines "t' \<equiv> process_pruned_blocks N t" and "P \<equiv> pruned_block_ids t @ N"
  shows "\<exists>n. links_ok par rnd r0 H t' \<and> ids t' = ids t - set (take n P) \<and> pruned_block_ids t' = drop n P \<and>
    length (drop n P) \<le> unat (max_pruned_blocks_in_mem t') \<and> ordered_root_id t' = ordered_root_id t \<and>
    commit_root_id t' = commit_root_id t \<and> highest_certified_block_id t' = highest_certified_block_id t \<and>
    t_highest_commit_cert t' = t_highest_commit_cert t"
proof -
  define u where "u = t\<lparr>pruned_block_ids := P\<rparr>"
  define n where "n = length P - unat (max_pruned_blocks_in_mem t)"
  have l: "links_ok par rnd r0 H t" and r: "roots_ok par rnd t" using inv by (auto simp: tree_inv_def)
  have "active par t \<subseteq> ids t" using roots_active [OF r] by simp
  moreover have "parents_first par (ids t) P"
    using l r N(3) [of "ids t - set (pruned_block_ids t)"] by (auto simp: P_def parents_first_append links_ok_def roots_ok_def)
  ultimately have "links_ok par rnd r0 H u" using l r N(1,2) by (auto simp: links_ok_def u_def P_def roots_ok_def)
  from remove_oldest_facts [OF this, of n]
  have "links_ok par rnd r0 H (remove_oldest n u)" "ids (remove_oldest n u) = ids t - set (take n P)"
    "pruned_block_ids (remove_oldest n u) = drop n P" "ordered_root_id (remove_oldest n u) = ordered_root_id t"
    "commit_root_id (remove_oldest n u) = commit_root_id t" "highest_certified_block_id (remove_oldest n u) = highest_certified_block_id t"
    "t_highest_commit_cert (remove_oldest n u) = t_highest_commit_cert t"
    "max_pruned_blocks_in_mem (remove_oldest n u) = max_pruned_blocks_in_mem t" by (simp_all add: u_def n_def)
  moreover have "t' = remove_oldest n u" by (auto simp: t'_def process_pruned_blocks_def u_def n_def P_def Let_def)
  ultimately show ?thesis by (intro exI [of _ n]) (simp add: n_def)
qed

lemma update_highest_commit_cert_moves:
  assumes "r \<in> ids t" "bi_id (qc_commit_info cp) = r" "bi_round (qc_commit_info cp) = rnd r"
    and "bi_round (qc_commit_info (t_highest_commit_cert t)) < rnd r \<or>
      commit_root_id t = r \<and> bi_round (qc_commit_info (t_highest_commit_cert t)) \<le> rnd r"
  shows "\<exists>t'. update_highest_commit_cert cp t = (Ok (), t') \<and> id_to_block t' = id_to_block t \<and> commit_root_id t' = r \<and>
    ordered_root_id t' = ordered_root_id t \<and> highest_certified_block_id t' = highest_certified_block_id t \<and>
    pruned_block_ids t' = pruned_block_ids t \<and> max_pruned_blocks_in_mem t' = max_pruned_blocks_in_mem t \<and>
    bi_round (qc_commit_info (t_highest_commit_cert t')) \<le> rnd r"
  using assms by (auto simp: update_highest_commit_cert_def update_commit_root_def block_exists_def)

lemma commit_callback_inv:
  assumes inv: "tree_inv par rnd r0 H t" and ok: "call_ok par rnd t (Commit bs fp d)" "asserted t (Commit bs fp d)" and it: "iter_ok iter"
  shows "\<exists>N t'. commit_callback iter bs fp d t = Some (Ok N, t') \<and> tree_inv par rnd r0 H t' \<and> ids t' \<subseteq> ids t \<and>
    set N = active par t - below par (ids t) (eb_id (last bs)) \<and> distinct N \<and> commit_root_id t' = eb_id (last bs) \<and>
    active par t' = below par (ids t) (eb_id (last bs)) \<and> ids t - ids t' \<subseteq> set (pruned_block_ids t) \<union> set N"
proof -
  define r where "r = eb_id (last bs)"
  have l: "links_ok par rnd r0 H t" and ro: "roots_ok par rnd t" using inv by (auto simp: tree_inv_def)
  have bl: "blocks_ok par rnd (id_to_block t)" and rk: "ranked par rnd (ids t)" using l by (auto simp: links_ok_def blocks_ok_def)
  have c: "bs \<noteq> []" "r \<in> active par t" "bi_id (qc_commit_info fp) = r" "bi_round (qc_commit_info fp) = rnd r"
    "match_ordered_only (qc_commit_info fp) (commit_info (lis_ledger_info d))"
    "ordered_root_id t \<in> active par t \<Longrightarrow> on_path par t r (ordered_root_id t)"
    "highest_certified_block_id t \<in> active par t \<Longrightarrow> on_path par t r (highest_certified_block_id t)"
    using ok by (auto simp: r_def Let_def)
  have sub: "below par (ids t) r \<subseteq> active par t" using c(2) below_trans by fast
  have act: "active par t \<subseteq> ids t" and root: "commit_root_id t \<in> ids t" using roots_active [OF ro] by simp_all
  from find_blocks_to_prune_exact [OF bl it root c(2)] obtain N where N: "find_blocks_to_prune iter r t = Some (Ok N)"
    "set N = active par t - below par (ids t) r" "distinct N" "\<And>T. par (commit_root_id t) \<notin> T \<Longrightarrow> parents_first par T N" by blast
  define u where "u = process_pruned_blocks N t"
  define P where "P = pruned_block_ids t @ N"
  from process_pruned_blocks_facts [OF inv _ N(3,4)] N(2)
  obtain n where u: "links_ok par rnd r0 H u" "ids u = ids t - set (take n P)" "pruned_block_ids u = drop n P"
    "length (drop n P) \<le> unat (max_pruned_blocks_in_mem u)" "ordered_root_id u = ordered_root_id t" "commit_root_id u = commit_root_id t"
    "highest_certified_block_id u = highest_certified_block_id t" "t_highest_commit_cert u = t_highest_commit_cert t"
    unfolding u_def P_def by blast
  have out: "set P \<inter> below par (ids t) r = {}" using N(2) sub ro by (auto simp: P_def roots_ok_def)
  have keep: "below par (ids u) r = below par (ids t) r"
    unfolding u(2) by (rule below_diff) (use out set_take_subset [of n P] in auto)
  have "r \<in> ids u" using out c(2) act below_self [of r par "ids t"] set_take_subset [of n P] unfolding u(2) by auto
  moreover define cp where "cp = \<lparr>qc_vote_data = qc_vote_data fp, qc_signed_ledger_info = d\<rparr>"
  have cp: "create_merged_with_executed_state fp d = Ok cp" "bi_id (qc_commit_info cp) = r" "bi_round (qc_commit_info cp) = rnd r"
    using c(3-5) by (auto simp: create_merged_with_executed_state_def cp_def match_ordered_only_def)
  moreover have "bi_round (qc_commit_info (t_highest_commit_cert u)) < rnd r \<or>
      commit_root_id u = r \<and> bi_round (qc_commit_info (t_highest_commit_cert u)) \<le> rnd r"
    using below_rank [OF rk c(2)] ro u(6,8) by (auto simp: roots_ok_def)
  ultimately obtain t' where t': "update_highest_commit_cert cp u = (Ok (), t')" "id_to_block t' = id_to_block u" "commit_root_id t' = r"
    "ordered_root_id t' = ordered_root_id u" "highest_certified_block_id t' = highest_certified_block_id u"
    "pruned_block_ids t' = pruned_block_ids u" "max_pruned_blocks_in_mem t' = max_pruned_blocks_in_mem u"
    "bi_round (qc_commit_info (t_highest_commit_cert t')) \<le> rnd r" using update_highest_commit_cert_moves [of r u cp rnd] by auto
  have parent: "par r \<in> set (drop n P)" if "par r \<in> ids u"
  proof -
    have "par r \<in> set P"
    proof (cases "r = commit_root_id t")
      case True
      then show ?thesis using that ro u(2) by (auto simp: roots_ok_def P_def)
    next
      case False
      then have p: "par r \<in> active par t" "par r \<in> ids t" "r \<in> ids t" using below_cases [OF c(2)] by auto
      then have "rnd (par r) < rnd r" using rk by (auto simp: ranked_def)
      then have "par r \<notin> below par (ids t) r" using below_rank [OF rk, of "par r" r] by auto
      then show ?thesis using p N(2) by (simp add: P_def)
    qed
    then have "par r \<in> set (take n P) \<union> set (drop n P)" by (metis append_take_drop_id set_append)
    then show ?thesis using that u(2) by auto
  qed
  have above: "x \<in> below par (ids t) r"
    if "rnd (commit_root_id t) \<le> rnd x \<longrightarrow> x \<in> active par t" "x \<in> active par t \<Longrightarrow> on_path par t r x" "rnd r \<le> rnd x" for x
  proof -
    have "rnd (commit_root_id t) \<le> rnd r" using below_rank [OF rk c(2)] by auto
    then have "on_path par t r x" using that by (meson order_trans)
    then show ?thesis using below_rank [OF rk, of r x] that(3) by (auto simp: on_path_def)
  qed
  have "rnd r \<le> rnd (ordered_root_id t) \<longrightarrow> ordered_root_id t \<in> below par (ids t) r"
    "rnd r \<le> rnd (highest_certified_block_id t) \<longrightarrow> highest_certified_block_id t \<in> below par (ids t) r"
    using above [OF _ c(6)] above [OF _ c(7)] ro unfolding roots_ok_def by blast+
  then have "roots_ok par rnd t'"
    using \<open>r \<in> ids u\<close> t'(8) u(4) parent out set_drop_subset [of n P] unfolding roots_ok_def t'(2-7) keep u(3,5,7) by auto
  moreover have "links_ok par rnd r0 H t'" using u(1) unfolding links_ok_def t'(2,6) .
  moreover have "commit_callback iter bs fp d t = Some (Ok N, t')"
  proof -
    from root obtain rb where "get_block t (commit_root_id t) = Some rb" using get_block_None [of t "commit_root_id t"] by auto
    then show ?thesis using c(1) cp(1) N(1) t'(1)
      by (simp add: commit_callback_def commit_root_def or_panic_def bind_ex_def lift_ex_def r_def [symmetric] u_def [symmetric])
  qed
  moreover have "active par t' = below par (ids t) r" "ids t' = ids u" using keep by (simp_all add: t'(2,3))
  moreover have "set (take n P) \<subseteq> set (pruned_block_ids t) \<union> set N" using set_take_subset [of n P] by (auto simp: P_def)
  ultimately show ?thesis using N(2,3) t'(3) unfolding u(2) r_def [symmetric]
    by (intro exI [of _ N] exI [of _ t']) (auto simp: tree_inv_def)
qed

lemma commit_callback_panics:
  assumes "\<not> asserted t (Commit bs fp d)"
  shows "commit_callback iter bs fp d t = Some (Panic, t)"
  using assms by (cases "create_merged_with_executed_state fp d")
    (auto simp: commit_callback_def expect_ok_def create_merged_with_executed_state_def ensure_def)

lemma tree_exec_inv:
  assumes "tree_inv par rnd r0 H t" "call_ok par rnd t c" "iter_ok iter"
  shows "\<exists>r t'. tree_exec iter c t = Some (r, t') \<and> (r = Panic \<longleftrightarrow> \<not> asserted t c) \<and> (r \<noteq> Panic \<longrightarrow> (\<exists>H'. tree_inv par rnd r0 H' t'))"
proof (cases c)
  case (InsertBlock b)
  obtain r t' where "insert_block b t = (r, t')" by (cases "insert_block b t")
  then show ?thesis using insert_block_inv [of par rnd r0 H t b] assms InsertBlock by (cases r) (auto simp: no_value_def)
next
  case (InsertCert qc)
  obtain r t' where "insert_quorum_cert qc t = (r, t')" by (cases "insert_quorum_cert qc t")
  then show ?thesis using insert_quorum_cert_inv [of par rnd r0 H t qc] assms InsertCert by auto
next
  case (SetOrderedRoot x)
  then show ?thesis using assms
    by (cases "x \<in> ids t") (auto simp: update_ordered_root_def block_exists_def tree_inv_def links_ok_def roots_ok_def domIff)
next
  case (SetTimeoutCert tc)
  then show ?thesis using assms by (auto simp: replace_2chain_timeout_cert_def tree_inv_def links_ok_def roots_ok_def)
next
  case (Commit bs fp d)
  show ?thesis
  proof (cases "asserted t (Commit bs fp d)")
    case True
    from commit_callback_inv [OF assms(1) _ True assms(3)] assms(2) Commit obtain N t' where
      "commit_callback iter bs fp d t = Some (Ok N, t')" "tree_inv par rnd r0 H t'" by blast
    then show ?thesis using Commit True by (auto simp: no_value_def)
  next
    case False
    then show ?thesis using Commit commit_callback_panics [OF False] by (simp add: no_value_def)
  qed
qed

subsection \<open>Runs\<close>

text \<open>The states a tree goes through as long as no call panics.\<close>

inductive tree_reach ::
  "(hash_value set \<Rightarrow> hash_value list) \<Rightarrow> (hash_value \<Rightarrow> hash_value) \<Rightarrow> (hash_value \<Rightarrow> round_t) \<Rightarrow> 'r block_tree \<Rightarrow> 'r block_tree \<Rightarrow> bool"
  for iter par rnd t where
  start: "tree_reach iter par rnd t t"
| call: "tree_reach iter par rnd t t'" if "tree_reach iter par rnd t u" "call_ok par rnd u c" "tree_exec iter c u = Some (r, t')" "r \<noteq> Panic"

text \<open>The block a tree is built from, and the certificate of its highest commit.\<close>

definition root_ok :: "(hash_value \<Rightarrow> hash_value) \<Rightarrow> (hash_value \<Rightarrow> round_t) \<Rightarrow> 'r executed_block \<Rightarrow> quorum_cert \<Rightarrow> bool" where
  "root_ok par rnd root cc \<longleftrightarrow> eb_parent_id root = par (eb_id root) \<and> eb_round root = rnd (eb_id root) \<and>
     par (eb_id root) \<noteq> eb_id root \<and> rnd (par (eb_id root)) \<le> rnd (eb_id root) \<and> bi_round (qc_commit_info cc) \<le> rnd (eb_id root)"

lemma BlockTree_new_inv:
  assumes "BlockTree_new root qc oc cc n tc = Ok t" "root_ok par rnd root cc"
  shows "tree_inv par rnd (eb_id root) {eb_id root} t"
proof -
  have t: "id_to_block t = [(eb_id root, LinkableBlock_new root)]" "commit_root_id t = eb_id root" "ordered_root_id t = eb_id root"
    "highest_certified_block_id t = eb_id root" "pruned_block_ids t = []" "t_highest_commit_cert t = cc"
    using assms(1) by (auto simp: BlockTree_new_def split: if_splits)
  have d: "ids t = {eb_id root}" by (auto simp: t(1) split: if_splits)
  have "blocks_ok par rnd (id_to_block t)" using assms(2)
    by (auto simp: blocks_ok_def t(1) ranked_def LinkableBlock_new_def lb_id_def root_ok_def split: if_splits)
  then show ?thesis using assms(2) unfolding tree_inv_def links_ok_def roots_ok_def t(2-6) d
    by (auto simp: history_ok_def root_ok_def)
qed

lemma tree_reach_inv:
  assumes "tree_reach iter par rnd t u" "tree_inv par rnd r0 H t" "iter_ok iter"
  shows "\<exists>H'. tree_inv par rnd r0 H' u"
  using assms(1)
proof induction
  case (call u c r t')
  then obtain H' where "tree_inv par rnd r0 H' u" by blast
  from tree_exec_inv [OF this call(2) assms(3)] call(3,4) show ?case by auto
qed (use assms(2) in blast)

lemma reachable_inv:
  assumes "BlockTree_new root qc oc cc n tc = Ok t0" "root_ok par rnd root cc" "iter_ok iter" "tree_reach iter par rnd t0 t"
  shows "\<exists>H. tree_inv par rnd (eb_id root) H t"
  using tree_reach_inv [OF assms(4) BlockTree_new_inv [OF assms(1,2)] assms(3)] .

subsection \<open>A small tree\<close>

text \<open>Blocks whose id is their round, each the parent of the next; block 6 is inserted above root 5, certified and ordered.\<close>

definition info_of :: "hash_value \<Rightarrow> block_info" where
  "info_of h = \<lparr>bi_epoch = 1, bi_round = ucast h, bi_id = h, bi_executed_state_id = 0, bi_version = 0, bi_timestamp_usecs = 0,
     bi_next_epoch_state = None\<rparr>"

definition cert_of :: "hash_value \<Rightarrow> quorum_cert" where
  "cert_of h = \<lparr>qc_vote_data = \<lparr>vd_proposed = info_of h, vd_parent = info_of (h - 1)\<rparr>,
     qc_signed_ledger_info = LedgerInfoWithSignatures_new \<lparr>commit_info = info_of h, consensus_data_hash = 0\<rparr> AggregateSignature_empty\<rparr>"

definition block_of :: "hash_value \<Rightarrow> unit executed_block" where
  "block_of h = \<lparr>eb_block = \<lparr>blk_id = h, blk_block_data = \<lparr>bd_epoch = 1, bd_round = ucast h, bd_timestamp_usecs = 0,
     bd_quorum_cert = cert_of (h - 1), bd_block_type = NilBlock []\<rparr>, blk_signature = None\<rparr>, eb_state_compute_result = ()\<rparr>"

lemma block_of_simps [simp]: "eb_id (block_of h) = h" "eb_parent_id (block_of h) = h - 1" "eb_round (block_of h) = ucast h"
  by (simp_all add: block_of_def eb_id_def eb_parent_id_def eb_quorum_cert_def eb_round_def cert_of_def info_of_def)

lemma cert_of_simps [simp]: "certified_block (cert_of h) = info_of h" "qc_commit_info (cert_of h) = info_of h"
  "bi_id (info_of h) = h" "bi_round (info_of h) = ucast h"
  by (simp_all add: cert_of_def info_of_def)

abbreviation par_of :: "hash_value \<Rightarrow> hash_value" where
  "par_of h \<equiv> h - 1"

abbreviation rnd_of :: "hash_value \<Rightarrow> round_t" where
  "rnd_of h \<equiv> ucast h"

definition root_tree :: "unit block_tree" where
  "root_tree = \<lparr>id_to_block = [(5, LinkableBlock_new (block_of 5))], ordered_root_id = 5, commit_root_id = 5, highest_certified_block_id = 5,
     t_highest_quorum_cert = cert_of 5, t_highest_2chain_timeout_cert = None, t_highest_ordered_cert = cert_of 5,
     t_highest_commit_cert = cert_of 4, id_to_quorum_cert = [(5, cert_of 5)], pruned_block_ids = [], max_pruned_blocks_in_mem = 10\<rparr>"

definition grown_tree :: "unit block_tree" where
  "grown_tree = \<lparr>id_to_block = [(5, \<lparr>lb_executed_block = block_of 5, lb_children = {6}\<rparr>), (6, LinkableBlock_new (block_of 6))],
     ordered_root_id = 6, commit_root_id = 5, highest_certified_block_id = 6,
     t_highest_quorum_cert = cert_of 6, t_highest_2chain_timeout_cert = None, t_highest_ordered_cert = cert_of 6,
     t_highest_commit_cert = cert_of 4, id_to_quorum_cert = [(5, cert_of 5), (6, cert_of 6)], pruned_block_ids = [],
     max_pruned_blocks_in_mem = 10\<rparr>"

lemma root_tree_new: "BlockTree_new (block_of 5) (cert_of 5) (cert_of 5) (cert_of 4) 10 None = Ok root_tree"
  by (simp add: BlockTree_new_def root_tree_def del: certified_block_def qc_commit_info_def)

lemma root_of_ok: "root_ok par_of rnd_of (block_of 5) (cert_of 4)"
  by (simp add: root_ok_def del: qc_commit_info_def)

lemma sorted_iter_ok: "iter_ok sorted_list_of_set"
  by (simp add: iter_ok_def)

lemma below_next: "h \<in> D \<Longrightarrow> h + 1 \<in> D \<Longrightarrow> h + 1 \<in> below par_of D h"
  using below_child [of h par_of D h "h + 1"] by simp

definition certified_tree :: "unit block_tree" where
  "certified_tree = grown_tree\<lparr>ordered_root_id := 5\<rparr>"

lemma grown_tree_ids: "ids grown_tree = {5, 6}" "ids certified_tree = {5, 6}" "6 \<in> below par_of {5, 6} 5"
  using below_next [of 5 "{5, 6}"] by (auto simp: certified_tree_def grown_tree_def split: if_splits)

lemma certified_tree_reach: "tree_reach sorted_list_of_set par_of rnd_of root_tree certified_tree"
proof -
  let ?t1 = "root_tree\<lparr>id_to_block := id_to_block grown_tree\<rparr>"
  have ids: "ids ?t1 = {5, 6}" by (auto simp: grown_tree_def split: if_splits)
  have "tree_exec sorted_list_of_set (InsertBlock (block_of 6)) root_tree = Some (Ok (), ?t1)"
    by (simp add: no_value_def insert_block_def get_block_def get_linkable_block_def root_tree_def grown_tree_def add_child_def Let_def LinkableBlock_new_def)
  then have r1: "tree_reach sorted_list_of_set par_of rnd_of root_tree ?t1"
    by (rule tree_reach.call [OF tree_reach.start, rotated]) simp_all
  have "tree_exec sorted_list_of_set (InsertCert (cert_of 6)) ?t1 = Some (Ok (), certified_tree)"
    by (simp add: insert_quorum_cert_def get_block_def get_linkable_block_def highest_certified_block_def root_tree_def grown_tree_def
        certified_tree_def or_panic_def reads_def bind_ex_def bt_or_insert_def LinkableBlock_new_def del: certified_block_def qc_commit_info_def)
  then show ?thesis
    by (rule tree_reach.call [OF r1, rotated]) (use grown_tree_ids(3) ids in \<open>simp_all add: root_tree_def del: certified_block_def\<close>)
qed

lemma grown_tree_reach: "tree_reach sorted_list_of_set par_of rnd_of root_tree grown_tree"
proof -
  have "tree_exec sorted_list_of_set (SetOrderedRoot 6) certified_tree = Some (Ok (), grown_tree)"
    by (simp add: update_ordered_root_def block_exists_def certified_tree_def grown_tree_def)
  then show ?thesis
    by (rule tree_reach.call [OF certified_tree_reach, rotated])
      (use grown_tree_ids in \<open>simp_all add: certified_tree_def grown_tree_def\<close>)
qed

section \<open>Properties\<close>

text \<open>
  C9. The block tree stays consistent. Take any sequence of calls that insert blocks and certificates,
  move the ordered root, replace the timeout certificate or commit, none of which has panicked, and in
  which the callers pass blocks that match their ids, and certificates, ordered roots and commits of one chain
  (\<open>call_ok\<close>); a commit may come before or after the ordered root is moved to its block. Then the
  child links of a block are exactly the blocks of the tree with it as parent, as the documentation of
  the structure promises; the commit root exists; the ordered root and the highest certified block exist
  unless a commit has overtaken them, that is, their round is below that of the commit root; and no
  more pruned blocks are kept than configured. A further call of this kind returns, and it panics exactly
  if one of its own assertions fails (\<open>asserted\<close>).
\<close>

theorem block_tree_consistent:
  assumes "BlockTree_new root qc oc cc n tc = Ok t0" "root_ok par rnd root cc" "iter_ok iter" "tree_reach iter par rnd t0 t"
  shows "(call_ok par rnd t c \<longrightarrow> (\<exists>r t'. tree_exec iter c t = Some (r, t') \<and> (r = Panic \<longleftrightarrow> \<not> asserted t c))) \<and>
    (get_linkable_block t k = Some lb \<longrightarrow>
      eb_id (lb_executed_block lb) = k \<and> lb_children lb = {c. \<exists>b. get_block t c = Some b \<and> eb_parent_id b = k}) \<and>
    (\<exists>cr. commit_root t = Ok cr) \<and>
    (rnd (commit_root_id t) \<le> rnd (ordered_root_id t) \<longrightarrow> (\<exists>orr. ordered_root t = Ok orr)) \<and>
    (rnd (commit_root_id t) \<le> rnd (highest_certified_block_id t) \<longrightarrow> (\<exists>hcb. highest_certified_block t = Ok hcb)) \<and>
    length (pruned_block_ids t) \<le> unat (max_pruned_blocks_in_mem t)"
proof -
  from reachable_inv [OF assms] obtain H where inv: "tree_inv par rnd (eb_id root) H t" by blast
  then have bl: "blocks_ok par rnd (id_to_block t)" and ro: "roots_ok par rnd t" by (auto simp: tree_inv_def links_ok_def)
  have "eb_id (lb_executed_block lb) = k \<and> lb_children lb = {c. \<exists>b. get_block t c = Some b \<and> eb_parent_id b = k}"
    if "get_linkable_block t k = Some lb"
  proof -
    have "{c \<in> ids t. par c = k} = {c. \<exists>b. get_block t c = Some b \<and> eb_parent_id b = k}"
      using bl by (auto simp: blocks_ok_def get_block_def get_linkable_block_def)
    then show ?thesis using bl that by (auto simp: blocks_ok_def get_linkable_block_def lb_id_def)
  qed
  moreover have "\<exists>b. get_block t x = Some b" if "x \<in> active par t" for x
    using that roots_active [OF ro] get_block_None [of t x] by auto
  then have "\<exists>cr. commit_root t = Ok cr" "rnd (commit_root_id t) \<le> rnd (ordered_root_id t) \<longrightarrow> (\<exists>orr. ordered_root t = Ok orr)"
    "rnd (commit_root_id t) \<le> rnd (highest_certified_block_id t) \<longrightarrow> (\<exists>hcb. highest_certified_block t = Ok hcb)"
    using ro below_self [of "commit_root_id t" par "ids t"]
    by (auto simp: roots_ok_def commit_root_def ordered_root_def highest_certified_block_def or_panic_Ok_iff)
  moreover have "length (pruned_block_ids t) \<le> unat (max_pruned_blocks_in_mem t)" using ro by (simp add: roots_ok_def)
  ultimately show ?thesis using tree_exec_inv [OF inv _ assms(3), of c] by blast
qed

text \<open>
  The commit of block 6 while the ordered root is still block 5, as in coupled execution.
\<close>

theorem block_tree_consistent_witness:
  "(\<exists>r t'. tree_exec sorted_list_of_set (Commit [block_of 6] (cert_of 6) (qc_signed_ledger_info (cert_of 6))) certified_tree = Some (r, t') \<and> r \<noteq> Panic) \<and>
    ordered_root_id certified_tree = 5 \<and> {c. \<exists>b. get_block certified_tree c = Some b \<and> eb_parent_id b = 5} = {6}"
proof -
  let ?c = "Commit [block_of 6] (cert_of 6) (qc_signed_ledger_info (cert_of 6))"
  have lb: "get_linkable_block certified_tree 5 = Some \<lparr>lb_executed_block = block_of 5, lb_children = {6}\<rparr>"
    by (simp add: get_linkable_block_def certified_tree_def grown_tree_def)
  have roots: "commit_root_id certified_tree = 5" "ordered_root_id certified_tree = 5" "highest_certified_block_id certified_tree = 6"
    by (simp_all add: certified_tree_def grown_tree_def)
  have ok: "call_ok par_of rnd_of certified_tree ?c" using grown_tree_ids(3)
    by (simp add: roots grown_tree_ids on_path_def del: certified_block_def qc_commit_info_def)
  have as: "asserted certified_tree ?c" by (simp add: cert_of_def info_of_def match_ordered_only_def)
  note t = block_tree_consistent [OF root_tree_new root_of_ok sorted_iter_ok certified_tree_reach, of ?c 5 "\<lparr>lb_executed_block = block_of 5, lb_children = {6}\<rparr>"]
  from t ok as have "\<exists>r t'. tree_exec sorted_list_of_set ?c certified_tree = Some (r, t') \<and> r \<noteq> Panic" by blast
  moreover from t lb have "{c. \<exists>b. get_block certified_tree c = Some b \<and> eb_parent_id b = 5} = {6}" by simp
  ultimately show ?thesis using roots(2) by blast
qed

text \<open>
  C10. A commit prunes exactly what it should. Committing a block above the commit root, with the
  assertions on the committed blocks and the proof met, returns without a panic. The blocks given to the storage to delete are, each once, the blocks above the old root that
  are not above the committed one: the committed path and every branch that left it. The committed block is
  the new commit root, and what is above it is what was above it before. From memory, only these
  blocks and earlier pruned ones can disappear.
\<close>

theorem commit_prunes_exactly:
  assumes "BlockTree_new root qc oc cc n tc = Ok t0" "root_ok par rnd root cc" "iter_ok iter" "tree_reach iter par rnd t0 t"
    and "call_ok par rnd t (Commit bs fp d)" "asserted t (Commit bs fp d)"
  shows "\<exists>N t'. commit_callback iter bs fp d t = Some (Ok N, t') \<and> commit_root_id t' = eb_id (last bs) \<and>
    distinct N \<and> set N = active par t - below par (ids t) (eb_id (last bs)) \<and>
    active par t' = below par (ids t) (eb_id (last bs)) \<and>
    ids t' \<subseteq> ids t \<and> ids t - ids t' \<subseteq> set (pruned_block_ids t) \<union> set N"
proof -
  from reachable_inv [OF assms(1-4)] obtain H where "tree_inv par rnd (eb_id root) H t" by blast
  from commit_callback_inv [OF this assms(5,6,3)] show ?thesis by blast
qed

theorem commit_prunes_exactly_witness:
  "\<exists>N t'. commit_callback sorted_list_of_set [block_of 6] (cert_of 6) (qc_signed_ledger_info (cert_of 6)) grown_tree = Some (Ok N, t') \<and>
    commit_root_id t' = 6 \<and> 5 \<in> set N \<and> 6 \<notin> set N"
proof -
  let ?c = "Commit [block_of 6] (cert_of 6) (qc_signed_ledger_info (cert_of 6))"
  have rk: "ranked par_of rnd_of {5, 6}" by (simp add: ranked_def)
  have five: "5 \<notin> below par_of {5, 6} 6" using below_rank [OF rk, of 5 6] by auto
  have roots: "commit_root_id grown_tree = 5" "ordered_root_id grown_tree = 6" "highest_certified_block_id grown_tree = 6"
    by (simp_all add: grown_tree_def)
  have "call_ok par_of rnd_of grown_tree ?c" using grown_tree_ids(3)
    by (simp add: roots grown_tree_ids on_path_def del: certified_block_def qc_commit_info_def)
  moreover have "asserted grown_tree ?c" by (simp add: cert_of_def info_of_def match_ordered_only_def)
  ultimately obtain N t' where "commit_callback sorted_list_of_set [block_of 6] (cert_of 6) (qc_signed_ledger_info (cert_of 6)) grown_tree = Some (Ok N, t')"
    "commit_root_id t' = 6" "set N = active par_of grown_tree - below par_of {5, 6} 6"
    using commit_prunes_exactly [OF root_tree_new root_of_ok sorted_iter_ok grown_tree_reach, of "[block_of 6]" "cert_of 6" "qc_signed_ledger_info (cert_of 6)"]
    unfolding grown_tree_ids by auto
  then show ?thesis using five unfolding grown_tree_ids roots by auto
qed

text \<open>
  C11. The paths from the roots are found. The loop that walks from a block towards a root ends for every
  block; it answers with a path exactly if the block is above the root, and then with the blocks of
  the tree that link the root to it, in order, the root left out and the block included. Only the path
  from an ordered root that a commit has overtaken and that has been dropped from memory panics.
\<close>

theorem root_paths_exact:
  assumes "BlockTree_new root qc oc cc n tc = Ok t0" "root_ok par rnd root cc" "iter_ok iter" "tree_reach iter par rnd t0 t"
    and "(f, r) \<in> {(path_from_commit_root, commit_root_id), (path_from_ordered_root, ordered_root_id)}"
  shows "(\<exists>found. f t b = Some (Ok found) \<and>
    (case found of
       None \<Rightarrow> b \<notin> below par (ids t) (r t)
     | Some path \<Rightarrow> b \<in> below par (ids t) (r t) \<and> linked par (r t) (map eb_id path) b \<and> (\<forall>x \<in> set path. get_block t (eb_id x) = Some x))) \<or>
    r t \<notin> ids t \<and> rnd (r t) < rnd (commit_root_id t) \<and> f t b = Some Panic"
proof -
  from reachable_inv [OF assms(1-4)] obtain H where inv: "tree_inv par rnd (eb_id root) H t" by blast
  then have bl: "blocks_ok par rnd (id_to_block t)" and ro: "roots_ok par rnd t" by (auto simp: tree_inv_def links_ok_def)
  show ?thesis
  proof (cases "r t \<in> ids t")
    case True
    then obtain rb where rb: "get_block t (r t) = Some rb" using get_block_None [of t "r t"] by auto
    have "f t b = map_option Ok (path_from_root_to_block t b (r t) (rnd (r t)))"
      using assms(5) rb get_block_facts [OF bl rb]
      by (auto simp: path_from_commit_root_def path_from_ordered_root_def commit_root_def ordered_root_def or_panic_def)
    with path_from_root_exact [OF bl True, of b] show ?thesis by auto
  next
    case False
    then have o: "f = path_from_ordered_root" "r = ordered_root_id" using assms(5) ro by (auto simp: roots_ok_def)
    then have "rnd (r t) < rnd (commit_root_id t)" using False ro roots_active [OF ro] unfolding roots_ok_def by (meson not_le subsetD)
    moreover have "f t b = Some Panic" using False get_block_None [of t "r t"]
      by (simp add: o path_from_ordered_root_def ordered_root_def or_panic_def)
    ultimately show ?thesis using False by blast
  qed
qed

theorem root_paths_exact_witness:
  "\<exists>path. path_from_commit_root grown_tree 6 = Some (Ok (Some path)) \<and> linked par_of 5 (map eb_id path) 6"
proof -
  have root: "commit_root_id grown_tree = 5" by (simp add: grown_tree_def)
  obtain found where "path_from_commit_root grown_tree 6 = Some (Ok found)"
    "case found of
       None \<Rightarrow> 6 \<notin> below par_of (ids grown_tree) (commit_root_id grown_tree)
     | Some path \<Rightarrow> 6 \<in> below par_of (ids grown_tree) (commit_root_id grown_tree) \<and>
         linked par_of (commit_root_id grown_tree) (map eb_id path) 6 \<and> (\<forall>x \<in> set path. get_block grown_tree (eb_id x) = Some x)"
    using root_paths_exact [OF root_tree_new root_of_ok sorted_iter_ok grown_tree_reach, of path_from_commit_root commit_root_id 6]
    unfolding grown_tree_ids root by auto
  then show ?thesis using grown_tree_ids(3) unfolding grown_tree_ids root by (auto split: option.splits)
qed

end
