(* ===== verification/Leader_Election.thy ===== *)
theory Leader_Election
  imports Blocks Exec
begin

text \<open>
  The election of the proposer of a round (\<open>consensus/src/liveness\<close>: \<open>proposer_election.rs\<close>,
  \<open>rotating_proposer_election.rs\<close>, \<open>round_proposer_election.rs\<close>,
  \<open>unequivocal_proposer_election.rs\<close>, \<open>cached_proposer_election.rs\<close> and
  \<open>leader_reputation.rs\<close>): the fixed rotations, the choice weighted by stake and reputation, and
  the two wrappers that cache elections and reject second proposals.

  SHA-3 is the parameter \<open>sha3_256\<close>. The database is a record of its queries. The ratio of
  participating voting power, a floating-point number, is of an arbitrary type with the operations the
  code uses as a record. Counters and logging are left out. An election trait object is the function
  from rounds to its answer.
\<close>

section \<open>Definitions\<close>

subsection \<open>Weighted choice\<close>

text \<open>\<open>u128::from_le_bytes\<close>: the first byte is the least significant one.\<close>

definition u128_from_le_bytes :: "u8 list \<Rightarrow> u128" where
  "u128_from_le_bytes bytes = foldr (\<lambda>b acc. ucast b + push_bit 8 acc) bytes 0"

definition next_in_range :: "(u8 list \<Rightarrow> u8 list) \<Rightarrow> u8 list \<Rightarrow> u128 \<Rightarrow> (u128, 'e) result" where
  "next_in_range sha3_256 state mx =
     (if mx = 0 then Panic else Ok (u128_from_le_bytes (take 16 (sha3_256 state)) mod mx))"

fun cumulative_weights :: "u128 \<Rightarrow> u128 list \<Rightarrow> (u128 list \<times> u128, 'e) result" where
  "cumulative_weights total_weight [] = Ok ([], total_weight)"
| "cumulative_weights total_weight (w # ws) =
     bind_res (or_panic (checked_add total_weight w)) (\<lambda>total_weight'.
     bind_res (cumulative_weights total_weight' ws) (\<lambda>(rest, total). Ok (total_weight' # rest, total)))"

text \<open>
  The binary search with a comparison that never answers \<open>Equal\<close> returns, on a list on which the
  comparison is monotone, the number of elements that compare as \<open>Less\<close>.
\<close>

definition choose_index :: "(u8 list \<Rightarrow> u8 list) \<Rightarrow> u128 list \<Rightarrow> u8 list \<Rightarrow> (nat, 'e) result" where
  "choose_index sha3_256 weights state =
     bind_res (cumulative_weights 0 weights) (\<lambda>(weights, total_weight).
     bind_res (next_in_range sha3_256 state total_weight) (\<lambda>chosen_weight.
     Ok (length (takeWhile (\<lambda>w. w \<le> chosen_weight) weights))))"

subsection \<open>Fixed proposers\<close>

record rotating_proposer =
  rp_proposers :: "author list"
  rp_contiguous_rounds :: "32 word"

definition choose_leader :: "author list \<Rightarrow> (author, 'e) result" where
  "choose_leader peers = (if peers = [] then Panic else Ok (min_list peers))"

definition RotatingProposer_get_valid_proposer :: "rotating_proposer \<Rightarrow> round_t \<Rightarrow> (author, 'e) result" where
  "RotatingProposer_get_valid_proposer rp round =
     (if ucast (rp_contiguous_rounds rp) = (0 :: u64) \<or> of_nat (length (rp_proposers rp)) = (0 :: u64) then Panic
      else (let i = unat ((round div ucast (rp_contiguous_rounds rp)) mod of_nat (length (rp_proposers rp))) in
            if i < length (rp_proposers rp) then Ok (rp_proposers rp ! i) else Panic))"

record round_proposer =
  rdp_proposers :: "(round_t, author) btree_map"
  rdp_default_proposer :: author

definition RoundProposer_get_valid_proposer :: "round_proposer \<Rightarrow> round_t \<Rightarrow> (author, 'e) result" where
  "RoundProposer_get_valid_proposer rp round = (case map_of (rdp_proposers rp) round of
     None \<Rightarrow> Ok (rdp_default_proposer rp)
   | Some round_proposer \<Rightarrow> Ok round_proposer)"

subsection \<open>Second proposals\<close>

text \<open>
  The state is the pair \<open>already_proposed\<close> of the last accepted round and the id accepted in it; the
  election itself is the parameter \<open>elect\<close>.
\<close>

type_synonym already_proposed = "round_t \<times> hash_value"

definition UnequivocalProposerElection_new :: already_proposed where
  "UnequivocalProposerElection_new = (0, HashValue_zero)"

definition is_valid_proposer :: "(round_t \<Rightarrow> (author, 'e) result) \<Rightarrow> author \<Rightarrow> round_t \<Rightarrow> (bool, 'e) result" where
  "is_valid_proposer elect a round = bind_res (elect round) (\<lambda>p. Ok (p = a))"

definition is_valid_proposal :: "(round_t \<Rightarrow> (author, 'e) result) \<Rightarrow> block \<Rightarrow> (already_proposed, bool, 'e) exec" where
  "is_valid_proposal elect b = (case blk_author b of
     None \<Rightarrow> lift_ex (Ok False)
   | Some a \<Rightarrow> bind_ex (lift_ex (is_valid_proposer elect a (blk_round b))) (\<lambda>valid_author.
       if \<not> valid_author then lift_ex (Ok False)
       else (\<lambda>(proposed_round, proposed_id).
         if blk_round b > proposed_round then (Ok True, (blk_round b, blk_id b))
         else if blk_round b = proposed_round then (Ok (\<not> proposed_id \<noteq> blk_id b), (proposed_round, proposed_id))
         else (Ok False, (proposed_round, proposed_id)))))"

subsection \<open>Cached elections\<close>

text \<open>\<open>BTreeMap::split_off\<close> keeps the entries from a key on in the map it returns.\<close>

definition split_off :: "'k::linorder \<Rightarrow> ('k, 'v) btree_map \<Rightarrow> ('k, 'v) btree_map" where
  "split_off k m = filter (\<lambda>(k', _). k \<le> k') m"

text \<open>
  A mutex is poisoned by a panic of the thread that holds it, and locking a poisoned mutex panics
  (\<open>crates/arx-infallible/src/mutex.rs\<close>).
\<close>

datatype 'a mutex = Healthy 'a | Poisoned

type_synonym 'f elections = "(round_t, author \<times> 'f) btree_map mutex"

text \<open>The wrapped election is asked, with the lock held, only if the round has no entry.\<close>

definition get_or_compute_entry ::
  "(round_t \<Rightarrow> (author \<times> 'f, 'e) result) \<Rightarrow> u64 \<Rightarrow> round_t \<Rightarrow> ('f elections, author \<times> 'f, 'e) exec" where
  "get_or_compute_entry elect window round elections = (case elections of
     Poisoned \<Rightarrow> (Panic, Poisoned)
   | Healthy recent_elections \<Rightarrow>
       let recent = (if round > window then split_off (round - window) recent_elections else recent_elections) in
       case map_of recent round of
         Some entry \<Rightarrow> (Ok entry, Healthy recent)
       | None \<Rightarrow> (case elect round of
             Ok r \<Rightarrow> (Ok r, Healthy (bt_insert round r recent))
           | Err e \<Rightarrow> (Err e, Healthy recent)
           | Panic \<Rightarrow> (Panic, Poisoned)))"

subsection \<open>History of committed blocks\<close>

record new_block_event =
  nbe_hash :: account_address
  nbe_epoch :: u64
  nbe_round :: u64
  nbe_height :: u64
  nbe_previous_block_votes_bitvec :: "u8 list"
  nbe_proposer :: account_address
  nbe_failed_proposer_indices :: "u64 list"
  nbe_timestamp :: u64

type_synonym candidates = "(u64, author list) btree_map"

definition event_before :: "new_block_event \<Rightarrow> u64 \<Rightarrow> round_t \<Rightarrow> bool" where
  "event_before e epoch round \<longleftrightarrow> nbe_epoch e < epoch \<or> nbe_epoch e = epoch \<and> nbe_round e \<le> round"

record db_reader =
  db_get_events :: "u64 \<Rightarrow> u64 \<Rightarrow> ((u8 list \<times> u64) list, unit) result"
  db_get_latest_version :: "(u64, unit) result"
  db_get_accumulator_root_hash :: "u64 \<Rightarrow> (hash_value, unit) result"

record backend =
  be_window_size :: u64
  be_seek_len :: u64

type_synonym db_result = "(new_block_event \<times> u64) list \<times> u64 \<times> bool"

definition ArxDBBackend_new :: db_result where
  "ArxDBBackend_new = ([], 0, True)"

fun decode_events :: "(u8 list \<Rightarrow> new_block_event option) \<Rightarrow> (u8 list \<times> u64) list \<Rightarrow> ((new_block_event \<times> u64) list, unit) result" where
  "decode_events de [] = Ok []"
| "decode_events de ((data, version) # rest) =
     bind_res (ok_or (de data) ()) (\<lambda>e. bind_res (decode_events de rest) (\<lambda>es. Ok ((e, version) # es)))"

definition refresh_db_result ::
  "(u8 list \<Rightarrow> new_block_event option) \<Rightarrow> db_reader \<Rightarrow> backend \<Rightarrow> u64 \<Rightarrow> (db_result, db_result, unit) exec" where
  "refresh_db_result de db be latest_db_version locked =
     (case bind_res (add_chk (be_window_size be) (be_seek_len be)) (\<lambda>limit.
           bind_res (db_get_events db limit latest_db_version) (\<lambda>events.
           bind_res (decode_events de events) (\<lambda>new_block_events.
             let max_returned_version = (case events of [] \<Rightarrow> 0 | first # _ \<Rightarrow> snd first);
                 hit_end = length new_block_events < unat limit
             in Ok (new_block_events, max latest_db_version max_returned_version, hit_end)))) of
        Ok r \<Rightarrow> (Ok r, r)
      | Err e \<Rightarrow> (Err e, locked)
      | Panic \<Rightarrow> (Panic, locked))"

fun window_loop :: "nat \<Rightarrow> u64 \<Rightarrow> round_t \<Rightarrow> (new_block_event \<times> u64) list \<Rightarrow> u64 \<Rightarrow> new_block_event list \<Rightarrow> u64 \<times> new_block_event list" where
  "window_loop window target_epoch target_round [] max_version res = (max_version, res)"
| "window_loop window target_epoch target_round ((e, version) # rest) max_version res =
     (if event_before e target_epoch target_round \<and> length res < window
      then window_loop window target_epoch target_round rest (max max_version version) (res @ [e])
      else window_loop window target_epoch target_round rest max_version res)"

definition get_from_db_result ::
  "db_reader \<Rightarrow> backend \<Rightarrow> u64 \<Rightarrow> round_t \<Rightarrow> (new_block_event \<times> u64) list \<Rightarrow> new_block_event list \<times> hash_value" where
  "get_from_db_result db be target_epoch target_round events =
     (let (max_version, res) = window_loop (unat (be_window_size be)) target_epoch target_round events 0 []
      in (res, case db_get_accumulator_root_hash db max_version of Ok h \<Rightarrow> h | _ \<Rightarrow> HashValue_zero))"

definition get_block_metadata ::
  "(u8 list \<Rightarrow> new_block_event option) \<Rightarrow> db_reader \<Rightarrow> backend \<Rightarrow> u64 \<Rightarrow> round_t \<Rightarrow>
   (db_result, new_block_event list \<times> hash_value, unit) exec" where
  "get_block_metadata de db be target_epoch target_round locked =
     (let (events, version, hit_end) = locked;
          has_larger = (case events of
              [] \<Rightarrow> False
            | (e, _) # _ \<Rightarrow> nbe_epoch e > target_epoch \<or> nbe_epoch e = target_epoch \<and> nbe_round e \<ge> target_round);
          latest_db_version = (case db_get_latest_version db of Ok v \<Rightarrow> v | _ \<Rightarrow> 0)
      in if \<not> has_larger \<and> version < latest_db_version
         then (case refresh_db_result de db be latest_db_version locked of
             (Ok (events, _, _), locked) \<Rightarrow> (Ok (get_from_db_result db be target_epoch target_round events), locked)
           | (Err _, locked) \<Rightarrow> (Ok ([], HashValue_zero), locked)
           | (Panic, locked) \<Rightarrow> (Panic, locked))
         else (Ok (get_from_db_result db be target_epoch target_round events), locked))"

subsection \<open>Aggregation\<close>

record aggregation =
  voter_window_size :: u64
  proposer_window_size :: u64
  reputation_window_from_stale_end :: bool

definition bitvec_to_voters :: "author list \<Rightarrow> bit_vec \<Rightarrow> (author list, unit) result" where
  "bitvec_to_voters vals bv =
     (if required_buckets (of_nat (length vals)) \<noteq> num_buckets bv then Err ()
      else Ok (map snd (filter (\<lambda>(index, _). is_set bv (of_nat index)) (enumerate 0 vals))))"

fun indices_to_validators :: "author list \<Rightarrow> u64 list \<Rightarrow> (author list, unit) result" where
  "indices_to_validators vals [] = Ok []"
| "indices_to_validators vals (index # rest) =
     bind_res (if unat index < length vals then Ok (vals ! unat index) else Err ()) (\<lambda>v.
     bind_res (indices_to_validators vals rest) (\<lambda>vs. Ok (v # vs)))"

definition history_iter ::
  "new_block_event list \<Rightarrow> candidates \<Rightarrow> u64 \<Rightarrow> bool \<Rightarrow> (new_block_event list, unit) result" where
  "history_iter history epoch_to_candidates window_size from_stale_end =
     bind_res (if from_stale_end then Ok (drop (length history - unat window_size) history)
       else if history \<noteq> [] \<and> \<not> event_before (last history) (nbe_epoch (hd history)) (nbe_round (hd history)) then Panic
       else Ok (take (unat window_size) history)) (\<lambda>sub_history.
     Ok (filter (\<lambda>meta. map_of epoch_to_candidates (nbe_epoch meta) \<noteq> None) sub_history))"

type_synonym counts = "(author, 32 word) btree_map"

fun count_all :: "author list \<Rightarrow> counts \<Rightarrow> (counts, unit) result" where
  "count_all [] m = Ok m"
| "count_all (a # as) m =
     (let count = (case map_of m a of None \<Rightarrow> 0 | Some c \<Rightarrow> c) in
      bind_res (add_chk count 1) (\<lambda>count'. count_all as (bt_insert a count' m)))"

fun count_events ::
  "(new_block_event \<Rightarrow> (author list, unit) result) \<Rightarrow> new_block_event list \<Rightarrow> counts \<Rightarrow> (counts, unit) result" where
  "count_events who [] m = Ok m"
| "count_events who (meta # rest) m = (case who meta of
     Ok as \<Rightarrow> bind_res (count_all as m) (count_events who rest)
   | Err _ \<Rightarrow> count_events who rest m
   | Panic \<Rightarrow> Panic)"

definition candidates_of :: "candidates \<Rightarrow> new_block_event \<Rightarrow> author list" where
  "candidates_of epoch_to_candidates meta = the (map_of epoch_to_candidates (nbe_epoch meta))"

definition voters_of :: "candidates \<Rightarrow> new_block_event \<Rightarrow> (author list, unit) result" where
  "voters_of epoch_to_candidates meta =
     bind_res (BitVec_from_bytes (nbe_previous_block_votes_bitvec meta)) (bitvec_to_voters (candidates_of epoch_to_candidates meta))"

definition count_votes_custom :: "candidates \<Rightarrow> new_block_event list \<Rightarrow> u64 \<Rightarrow> bool \<Rightarrow> (counts, unit) result" where
  "count_votes_custom epoch_to_candidates history window_size from_stale_end =
     bind_res (history_iter history epoch_to_candidates window_size from_stale_end) (\<lambda>events.
     count_events (voters_of epoch_to_candidates) events [])"

definition count_votes :: "aggregation \<Rightarrow> candidates \<Rightarrow> new_block_event list \<Rightarrow> (counts, unit) result" where
  "count_votes ag epoch_to_candidates history =
     count_votes_custom epoch_to_candidates history (voter_window_size ag) (reputation_window_from_stale_end ag)"

definition count_proposals_custom :: "candidates \<Rightarrow> new_block_event list \<Rightarrow> u64 \<Rightarrow> bool \<Rightarrow> (counts, unit) result" where
  "count_proposals_custom epoch_to_candidates history window_size from_stale_end =
     bind_res (history_iter history epoch_to_candidates window_size from_stale_end) (\<lambda>events.
     count_events (\<lambda>meta. Ok [nbe_proposer meta]) events [])"

definition count_proposals :: "aggregation \<Rightarrow> candidates \<Rightarrow> new_block_event list \<Rightarrow> (counts, unit) result" where
  "count_proposals ag epoch_to_candidates history =
     count_proposals_custom epoch_to_candidates history (proposer_window_size ag) (reputation_window_from_stale_end ag)"

definition count_failed_proposals :: "aggregation \<Rightarrow> candidates \<Rightarrow> new_block_event list \<Rightarrow> (counts, unit) result" where
  "count_failed_proposals ag epoch_to_candidates history =
     bind_res (history_iter history epoch_to_candidates (proposer_window_size ag) (reputation_window_from_stale_end ag)) (\<lambda>events.
     count_events (\<lambda>meta. indices_to_validators (candidates_of epoch_to_candidates meta) (nbe_failed_proposer_indices meta)) events [])"

text \<open>The sum of the values of a map, which panics when it does not fit; it is computed for a counter only.\<close>

fun sum_counts :: "32 word \<Rightarrow> 32 word list \<Rightarrow> (32 word, unit) result" where
  "sum_counts acc [] = Ok acc"
| "sum_counts acc (c # cs) = bind_res (add_chk acc c) (\<lambda>acc'. sum_counts acc' cs)"

definition get_aggregated_metrics ::
  "aggregation \<Rightarrow> candidates \<Rightarrow> new_block_event list \<Rightarrow> (counts \<times> counts \<times> counts, unit) result" where
  "get_aggregated_metrics ag epoch_to_candidates history =
     bind_res (count_votes ag epoch_to_candidates history) (\<lambda>votes.
     bind_res (count_proposals ag epoch_to_candidates history) (\<lambda>proposals.
     bind_res (count_failed_proposals ag epoch_to_candidates history) (\<lambda>failed_proposals.
     bind_res (sum_counts 0 (map snd proposals)) (\<lambda>_.
     bind_res (sum_counts 0 (map snd failed_proposals)) (\<lambda>_.
     Ok (votes, proposals, failed_proposals))))))"

subsection \<open>Reputation\<close>

record heuristic =
  active_weight :: u64
  inactive_weight :: u64
  failed_weight :: u64
  failure_threshold_percent :: "32 word"
  hr_aggregation :: aggregation

definition count_of :: "counts \<Rightarrow> author \<Rightarrow> 32 word" where
  "count_of m a = (case map_of m a of None \<Rightarrow> 0 | Some c \<Rightarrow> c)"

definition weight_of :: "heuristic \<Rightarrow> counts \<Rightarrow> counts \<Rightarrow> counts \<Rightarrow> author \<Rightarrow> (u64, unit) result" where
  "weight_of hr votes proposals failed_proposals a =
     (let cur_votes = count_of votes a;
          cur_proposals = count_of proposals a;
          cur_failed_proposals = count_of failed_proposals a
      in bind_res (mul_chk cur_failed_proposals 100) (\<lambda>failed.
         bind_res (add_chk cur_proposals cur_failed_proposals) (\<lambda>rounds.
         bind_res (mul_chk rounds (failure_threshold_percent hr)) (\<lambda>threshold.
         Ok (if failed > threshold then failed_weight hr
             else if cur_proposals > 0 \<or> cur_votes > 0 then active_weight hr
             else inactive_weight hr)))))"

fun weights_of :: "(author \<Rightarrow> (u64, unit) result) \<Rightarrow> author list \<Rightarrow> (u64 list, unit) result" where
  "weights_of f [] = Ok []"
| "weights_of f (a # as) = bind_res (f a) (\<lambda>w. bind_res (weights_of f as) (\<lambda>ws. Ok (w # ws)))"

definition get_weights :: "heuristic \<Rightarrow> u64 \<Rightarrow> candidates \<Rightarrow> new_block_event list \<Rightarrow> (u64 list, unit) result" where
  "get_weights hr epoch epoch_to_candidates history =
     bind_res (or_panic (map_of epoch_to_candidates epoch)) (\<lambda>authors.
     bind_res (get_aggregated_metrics (hr_aggregation hr) epoch_to_candidates history) (\<lambda>(votes, proposals, failed_proposals).
     weights_of (weight_of hr votes proposals failed_proposals) authors))"

record leader_reputation =
  lr_epoch :: u64
  epoch_to_proposers :: candidates
  lr_voting_powers :: "u64 list"
  exclude_round :: u64
  use_root_hash :: bool
  window_for_chain_health :: u64

definition LeaderReputation_new ::
  "u64 \<Rightarrow> candidates \<Rightarrow> u64 list \<Rightarrow> u64 \<Rightarrow> bool \<Rightarrow> u64 \<Rightarrow> (leader_reputation, unit) result" where
  "LeaderReputation_new epoch epoch_proposers voting_powers exclude use_root window =
     bind_res (or_panic (map_of epoch_proposers epoch)) (\<lambda>proposers.
     if length proposers \<noteq> length voting_powers then Panic
     else Ok \<lparr>lr_epoch = epoch, epoch_to_proposers = epoch_proposers, lr_voting_powers = voting_powers,
              exclude_round = exclude, use_root_hash = use_root, window_for_chain_health = window\<rparr>)"

text \<open>
  The chain health is a number of type \<open>f64\<close>. The operations on it that the code uses are the fields of a
  record; the sums are those of an iterator, from \<open>f_zero\<close> on.
\<close>

record 'f f64_ops =
  f_zero :: 'f
  f_one :: 'f
  f_of_u64 :: "u64 \<Rightarrow> 'f"
  f_add :: "'f \<Rightarrow> 'f \<Rightarrow> 'f"
  f_div :: "'f \<Rightarrow> 'f \<Rightarrow> 'f"
  f_ge :: "'f \<Rightarrow> 'f \<Rightarrow> bool"

definition f_sum :: "'f f64_ops \<Rightarrow> u64 list \<Rightarrow> 'f" where
  "f_sum fl vps = foldl (f_add fl) (f_zero fl) (map (f_of_u64 fl) vps)"

definition CHAIN_HEALTH_WINDOW_SIZES :: "u64 list" where
  "CHAIN_HEALTH_WINDOW_SIZES = [10, 30, 100, 300]"

definition participants :: "candidates \<Rightarrow> new_block_event list \<Rightarrow> u64 \<Rightarrow> (author set, unit) result" where
  "participants epoch_to_candidates history window_size =
     bind_res (count_votes_custom epoch_to_candidates history window_size False) (\<lambda>votes.
     bind_res (count_proposals_custom epoch_to_candidates history window_size False) (\<lambda>proposals.
     Ok (set (map fst votes @ map fst proposals))))"

fun chain_health_loop ::
  "'f f64_ops \<Rightarrow> leader_reputation \<Rightarrow> author list \<Rightarrow> 'f \<Rightarrow> new_block_event list \<Rightarrow> round_t \<Rightarrow> u64 list \<Rightarrow> 'f option \<Rightarrow>
   ('f option, unit) result" where
  "chain_health_loop fl lr candidates total_power history round [] res = Ok res"
| "chain_health_loop fl lr candidates total_power history round (window_size # rest) res =
     (let chosen = (window_for_chain_health lr = window_size);
          sample_fraction = window_size div 10
      in if chosen \<or> sample_fraction \<le> 1 \<or> round mod sample_fraction = 1
         then bind_res (participants (epoch_to_proposers lr) history window_size) (\<lambda>ps.
           let participating_voting_power = f_sum fl (map snd (filter (\<lambda>(c, _). c \<in> ps) (zip candidates (lr_voting_powers lr))));
               ratio = (if length history < unat window_size \<and> lr_epoch lr \<le> 2 then f_one fl
                        else if f_ge fl total_power (f_one fl) then f_div fl participating_voting_power total_power
                        else f_one fl)
           in chain_health_loop fl lr candidates total_power history round rest (if chosen then Some ratio else res))
         else chain_health_loop fl lr candidates total_power history round rest res)"

definition compute_chain_health_and_add_metrics ::
  "'f f64_ops \<Rightarrow> leader_reputation \<Rightarrow> new_block_event list \<Rightarrow> round_t \<Rightarrow> ('f, unit) result" where
  "compute_chain_health_and_add_metrics fl lr history round =
     bind_res (or_panic (map_of (epoch_to_proposers lr) (lr_epoch lr))) (\<lambda>candidates.
     bind_res (chain_health_loop fl lr candidates (f_sum fl (lr_voting_powers lr)) history round CHAIN_HEALTH_WINDOW_SIZES None) or_panic)"

definition u64_to_le_bytes :: "u64 \<Rightarrow> u8 list" where
  "u64_to_le_bytes x = map (\<lambda>i. ucast (drop_bit (8 * i) x)) [0..<8]"

definition HashValue_to_vec :: "hash_value \<Rightarrow> u8 list" where
  "HashValue_to_vec h = map (\<lambda>i. ucast (drop_bit (8 * (31 - i)) h)) [0..<32]"

fun stake_weights_of :: "u64 list \<Rightarrow> u64 list \<Rightarrow> (u128 list, unit) result" where
  "stake_weights_of [] vps = Ok []"
| "stake_weights_of (w # ws) [] = Panic"
| "stake_weights_of (w # ws) (vp # vps) =
     bind_res (mul_chk (ucast w) (ucast vp)) (\<lambda>s. bind_res (stake_weights_of ws vps) (\<lambda>rest. Ok (s # rest)))"

definition get_valid_proposer_and_voting_power_participation_ratio ::
  "(u8 list \<Rightarrow> u8 list) \<Rightarrow> (u64 \<Rightarrow> round_t \<Rightarrow> (new_block_event list \<times> hash_value, unit) result) \<Rightarrow>
   'f f64_ops \<Rightarrow>
   (u64 \<Rightarrow> candidates \<Rightarrow> new_block_event list \<Rightarrow> (u64 list, unit) result) \<Rightarrow> leader_reputation \<Rightarrow> round_t \<Rightarrow>
   (author \<times> 'f, unit) result" where
  "get_valid_proposer_and_voting_power_participation_ratio sha3_256 block_metadata fl weights_by lr round =
     (let target_round = (if round < exclude_round lr then 0 else round - exclude_round lr) in
      bind_res (block_metadata (lr_epoch lr) target_round) (\<lambda>(sliding_window, root_hash).
      bind_res (compute_chain_health_and_add_metrics fl lr sliding_window round) (\<lambda>ratio.
      bind_res (weights_by (lr_epoch lr) (epoch_to_proposers lr) sliding_window) (\<lambda>weights.
      bind_res (or_panic (map_of (epoch_to_proposers lr) (lr_epoch lr))) (\<lambda>proposers.
      if length weights \<noteq> length proposers then Panic
      else bind_res (stake_weights_of weights (lr_voting_powers lr)) (\<lambda>stake_weights.
        let state = (if use_root_hash lr then HashValue_to_vec root_hash else []) @ u64_to_le_bytes (lr_epoch lr) @ u64_to_le_bytes round in
        bind_res (choose_index sha3_256 stake_weights state) (\<lambda>chosen_index.
        if chosen_index < length proposers then Ok (proposers ! chosen_index, ratio) else Panic)))))))"

subsection \<open>Proposers of past epochs\<close>

fun extract_loop ::
  "nat \<Rightarrow> u64 \<Rightarrow> author list \<Rightarrow> u64 \<Rightarrow> (nat \<times> epoch_state \<times> u64) list \<Rightarrow> u64 \<Rightarrow> candidates \<Rightarrow> (candidates, anyhow) result" where
  "extract_loop last_ix epoch proposers needed_rounds [] num_rounds res = Ok res"
| "extract_loop last_ix epoch proposers needed_rounds ((index, next_epoch_state, cur_epoch_rounds) # rest) num_rounds res =
     (let next_epoch_proposers = get_ordered_account_addresses (es_verifier next_epoch_state) in
      bind_res (if index = last_ix
          then bind_res (ensure (epoch = es_epoch next_epoch_state)
                 (Msg ''fetched epoch_ending ledger_infos are for a wrong epoch'')) (\<lambda>_.
               ensure (proposers = next_epoch_proposers)
                 (Msg ''proposers from state and fetched epoch_ending ledger_infos are missaligned''))
          else Ok ()) (\<lambda>_.
      let res' = bt_insert (es_epoch next_epoch_state) next_epoch_proposers res in
      if num_rounds > needed_rounds then Ok res'
      else bind_res (add_chk num_rounds cur_epoch_rounds) (\<lambda>num_rounds'.
        extract_loop last_ix epoch proposers needed_rounds rest num_rounds' res')))"

definition extract_epoch_to_proposers_impl ::
  "(epoch_state \<times> u64) list \<Rightarrow> u64 \<Rightarrow> author list \<Rightarrow> u64 \<Rightarrow> (candidates, anyhow) result" where
  "extract_epoch_to_proposers_impl states epoch proposers needed_rounds =
     (if states = [] then Panic
      else bind_res (extract_loop (length states - 1) epoch proposers needed_rounds (rev (enumerate 0 states)) 0 []) (\<lambda>res.
        bind_res (ensure (map_of res epoch \<noteq> None) (Msg ''Current epoch not in fetched map'')) (\<lambda>_. Ok res)))"

fun next_epoch_states :: "ledger_info_with_signatures list \<Rightarrow> ((epoch_state \<times> u64) list, anyhow) result" where
  "next_epoch_states [] = Ok []"
| "next_epoch_states (li # rest) =
     bind_res (ok_or (li_next_epoch_state (lis_ledger_info li)) (Msg ''no cur_epoch_state'')) (\<lambda>es.
     bind_res (next_epoch_states rest) (\<lambda>states. Ok ((es, bi_round (commit_info (lis_ledger_info li))) # states)))"

definition extract_epoch_to_proposers :: "epoch_change_proof \<Rightarrow> u64 \<Rightarrow> author list \<Rightarrow> u64 \<Rightarrow> (candidates, anyhow) result" where
  "extract_epoch_to_proposers pf epoch proposers needed_rounds =
     bind_res (next_epoch_states (ecp_ledger_info_with_sigs pf)) (\<lambda>states.
     extract_epoch_to_proposers_impl states epoch proposers needed_rounds)"

end
