(* ===== verification/Leader_Choice.thy ===== *)
theory Leader_Choice
  imports Leader_Election
begin

text \<open>
  Properties of the election of proposers: the choice by weights picks every candidate in proportion
  to its weight, the weights follow the counts of the window, elections are the same with and
  without the cache, and no two proposals of a round are accepted.
\<close>

section \<open>Weighted choice\<close>

abbreviation stake :: "'a::len word list \<Rightarrow> nat" where
  "stake ws \<equiv> sum_list (map unat ws)"

lemma stake_take_mono: "i \<le> j \<Longrightarrow> stake (take i ws) \<le> stake (take j ws)"
proof -
  assume "i \<le> j"
  then have "take j ws = take i ws @ drop i (take j ws)" by (metis append_take_drop_id min.absorb1 take_take)
  then show ?thesis by (metis le_add1 map_append sum_list_append)
qed

lemma cumulative_weights_Ok:
  assumes "unat t + stake ws < 2 ^ 128"
  shows "\<exists>cs tot. cumulative_weights t ws = (Ok (cs, tot) :: (_, 'e) result) \<and> unat tot = unat t + stake ws \<and> length cs = length ws \<and>
    (\<forall>i < length ws. unat (cs ! i) = unat t + stake (take (Suc i) ws))"
  using assms
proof (induction ws arbitrary: t)
  case (Cons w ws)
  have t': "checked_add t w = Some (t + w)" "unat (t + w) = unat t + unat w"
    using Cons.prems by (auto simp: checked_add_def unat_add_no_wrap)
  from Cons.IH [of "t + w"] Cons.prems t'(2)
  obtain cs tot where c: "cumulative_weights (t + w) ws = (Ok (cs, tot) :: (_, 'e) result)" "unat tot = unat (t + w) + stake ws"
    "length cs = length ws" "\<forall>i < length ws. unat (cs ! i) = unat (t + w) + stake (take (Suc i) ws)" by auto
  have "unat (((t + w) # cs) ! i) = unat t + stake (take (Suc i) (w # ws))" if "i < length (w # ws)" for i
    using that c(4) t'(2) by (cases i) auto
  then show ?case using c(1-3) t' by (intro exI [of _ "(t + w) # cs"] exI [of _ tot]) (auto simp: or_panic_def)
qed simp

lemma cumulative_weights_Panic: "\<not> unat t + stake ws < 2 ^ 128 \<Longrightarrow> cumulative_weights t ws = Panic"
proof (induction ws arbitrary: t)
  case Nil
  then show ?case using unat_below [of t] by simp
next
  case (Cons w ws)
  show ?case
  proof (cases "unat t + unat w < 2 ^ 128")
    case True
    then have "checked_add t w = Some (t + w)" "unat (t + w) = unat t + unat w" by (auto simp: checked_add_def unat_add_no_wrap)
    then show ?thesis using Cons by (simp add: or_panic_def)
  qed (simp add: checked_add_def or_panic_def)
qed

lemma length_takeWhile_stops: "x \<in> set xs \<Longrightarrow> \<not> P x \<Longrightarrow> length (takeWhile P xs) < length xs"
  by (induction xs) auto

text \<open>The number drawn, and the candidate whose share of the tot it falls into.\<close>

definition draw :: "(u8 list \<Rightarrow> u8 list) \<Rightarrow> u8 list \<Rightarrow> nat \<Rightarrow> nat" where
  "draw sha3_256 state tot = unat (u128_from_le_bytes (take 16 (sha3_256 state))) mod tot"

lemma choose_index_share:
  fixes sha :: "u8 list \<Rightarrow> u8 list" and state :: "u8 list"
  assumes "0 < stake ws" "stake ws < 2 ^ 128"
  defines "x \<equiv> draw sha state (stake ws)"
  shows "\<exists>i < length ws. choose_index sha ws state = (Ok i :: (_, 'e) result) \<and> stake (take i ws) \<le> x \<and> x < stake (take (Suc i) ws)"
proof -
  from cumulative_weights_Ok [of 0 ws] assms obtain cs tot where c: "cumulative_weights 0 ws = (Ok (cs, tot) :: (_, 'e) result)"
    "unat tot = stake ws" "length cs = length ws" "\<forall>i < length ws. unat (cs ! i) = stake (take (Suc i) ws)" by auto
  define chosen where "chosen = u128_from_le_bytes (take 16 (sha state)) mod tot"
  have ch: "unat chosen = x" using c(2) by (simp add: chosen_def x_def draw_def unat_mod)
  have x: "x < stake ws" using assms(1) by (simp add: x_def draw_def)
  define i where "i = length (takeWhile (\<lambda>w. w \<le> chosen) cs)"
  have "tot \<noteq> 0" using c(2) assms(1) by (metis less_irrefl unsigned_0)
  then have r: "choose_index sha ws state = (Ok i :: (_, 'e) result)"
    by (simp add: choose_index_def c(1) next_in_range_def chosen_def i_def)
  have "i < length cs"
  proof -
    have "ws \<noteq> []" using assms(1) by auto
    then have "unat (cs ! (length ws - 1)) = stake ws" "cs ! (length ws - 1) \<in> set cs" using c(3,4) by simp_all
    then show ?thesis using x ch unfolding i_def by (intro length_takeWhile_stops) (auto simp: word_le_nat_alt)
  qed
  then have "\<not> cs ! i \<le> chosen" using nth_length_takeWhile [of "\<lambda>w. w \<le> chosen" cs] by (simp add: i_def)
  then have hi: "x < stake (take (Suc i) ws)" using c(3,4) \<open>i < length cs\<close> ch by (simp add: word_le_nat_alt)
  have lo: "stake (take i ws) \<le> x"
  proof (cases i)
    case (Suc j)
    then have "j < length (takeWhile (\<lambda>w. w \<le> chosen) cs)" by (simp add: i_def)
    then have "cs ! j \<le> chosen" by (metis (mono_tags, lifting) nth_mem set_takeWhileD takeWhile_nth)
    then show ?thesis using c(3,4) \<open>i < length cs\<close> Suc ch by (simp add: word_le_nat_alt)
  qed simp
  show ?thesis using r hi lo \<open>i < length cs\<close> c(3) by auto
qed

section \<open>Counts\<close>

lemma count_of_insert: "count_of (bt_insert a c m) b = (if b = a then c else count_of m b)"
  by (simp add: count_of_def bt_get_insert)

lemma sum_snd_bt_insert:
  assumes "bt_sorted m"
  shows "stake (map snd (bt_insert a c m)) + unat (count_of m a) = stake (map snd m) + unat c"
  using assms
proof (induction a c m rule: bt_insert.induct)
  case (2 k v k' v' m)
  then show ?case
  proof (cases "k < k'")
    case True
    then have "map_of ((k', v') # m) k = None" using 2(2) by (auto simp: map_of_eq_None_iff)
    then show ?thesis using True by (simp add: count_of_def)
  next
    case False
    then show ?thesis using 2 by (auto simp: count_of_def split: option.splits)
  qed
qed (simp add: count_of_def)

text \<open>What the counting loops compute, and that they count to the end as long as all counts together fit.\<close>

definition counts_ok :: "counts \<Rightarrow> (author \<Rightarrow> nat) \<Rightarrow> nat \<Rightarrow> bool" where
  "counts_ok m f n \<longleftrightarrow> bt_sorted m \<and> (\<forall>a. unat (count_of m a) = f a) \<and> stake (map snd m) = n \<and>
     (\<forall>a. map_of m a \<noteq> Some 0)"

lemma count_of_le: "bt_sorted m \<Longrightarrow> unat (count_of m a) \<le> stake (map snd m)"
  by (induction m) (auto simp: count_of_def)

lemma count_all_Ok:
  assumes "counts_ok m f n" "n + length as < 2 ^ 32"
  shows "\<exists>m'. count_all as m = Ok m' \<and> counts_ok m' (\<lambda>a. f a + count_list as a) (n + length as)"
  using assms
proof (induction as arbitrary: m f n)
  case (Cons a as)
  have s: "bt_sorted m" and f: "\<And>b. unat (count_of m b) = f b" and n: "stake (map snd m) = n"
    and z: "\<And>b. map_of m b \<noteq> Some 0" using Cons.prems(1) by (auto simp: counts_ok_def)
  have "unat (count_of m a) < n + 1" using count_of_le [OF s, of a] n by simp
  then have u: "unat (count_of m a) + 1 < 2 ^ 32" using Cons.prems(2) by simp
  then have add: "add_chk (count_of m a) 1 = (Ok (count_of m a + 1) :: (_, unit) result)" "unat (count_of m a + 1) = f a + 1"
    using f [of a] by (simp_all add: add_chk_def checked_add_def or_panic_def unat_add_no_wrap)
  let ?m = "bt_insert a (count_of m a + 1) m"
  have "count_of m a + 1 \<noteq> 0" using add(2) by (metis add_is_0 unsigned_0 zero_neq_one)
  then have "counts_ok ?m (\<lambda>b. f b + count_list [a] b) (n + 1)"
    unfolding counts_ok_def using sum_snd_bt_insert [OF s, of a "count_of m a + 1"] s f n add(2) z
    by (auto simp: bt_insert_sorted count_of_insert bt_get_insert)
  from Cons.IH [OF this] Cons.prems(2) obtain m' where "count_all as ?m = Ok m'"
    "counts_ok m' (\<lambda>b. (f b + count_list [a] b) + count_list as b) (n + 1 + length as)" by auto
  moreover have "(\<lambda>b. (f b + count_list [a] b) + count_list as b) = (\<lambda>b. f b + count_list (a # as) b)" by auto
  moreover have "count_all (a # as) m = count_all as ?m" using add(1) by (simp add: count_of_def)
  ultimately show ?case by simp
qed (simp add: counts_ok_def)

text \<open>The authors an event counts for, none when they cannot be determined.\<close>

definition counted :: "(new_block_event \<Rightarrow> (author list, unit) result) \<Rightarrow> new_block_event \<Rightarrow> author list" where
  "counted who e = (case who e of Ok as \<Rightarrow> as | _ \<Rightarrow> [])"

lemma count_events_Ok:
  assumes "counts_ok m f n" "n + length (concat (map (counted who) es)) < 2 ^ 32" "\<And>e. e \<in> set es \<Longrightarrow> who e \<noteq> Panic"
  shows "\<exists>m'. count_events who es m = Ok m' \<and> counts_ok m' (\<lambda>a. f a + count_list (concat (map (counted who) es)) a)
    (n + length (concat (map (counted who) es)))"
  using assms
proof (induction es arbitrary: m f n)
  case (Cons e es)
  show ?case
  proof (cases "who e")
    case (Ok as)
    then have ce: "counted who e = as" by (simp add: counted_def)
    with Cons.prems(2) have b: "n + length as < 2 ^ 32" "n + length as + length (concat (map (counted who) es)) < 2 ^ 32"
      by simp_all
    from count_all_Ok [OF Cons.prems(1) b(1)] obtain m1 where
      m1: "count_all as m = Ok m1" "counts_ok m1 (\<lambda>a. f a + count_list as a) (n + length as)" by blast
    from Cons.IH [OF m1(2) b(2)] Cons.prems(3) obtain m' where "count_events who es m1 = Ok m'"
      "counts_ok m' (\<lambda>a. (f a + count_list as a) + count_list (concat (map (counted who) es)) a)
        (n + length as + length (concat (map (counted who) es)))" by auto
    then show ?thesis using Ok m1(1) ce by (simp add: add.assoc)
  next
    case (Err u)
    then have "counted who e = []" by (simp add: counted_def)
    then show ?thesis using Cons Err by simp
  qed (use Cons.prems(3) in auto)
qed (simp add: counts_ok_def)

lemma counts_ok_empty: "counts_ok [] (\<lambda>_. 0) 0"
  by (simp add: counts_ok_def count_of_def)

lemma sum_counts_Ok: "unat acc + stake cs < 2 ^ 32 \<Longrightarrow> \<exists>s. sum_counts acc cs = Ok s"
proof (induction cs arbitrary: acc)
  case (Cons c cs)
  then have "add_chk acc c = (Ok (acc + c) :: (_, unit) result)" "unat (acc + c) = unat acc + unat c"
    by (simp_all add: add_chk_def checked_add_def or_panic_def unat_add_no_wrap)
  then show ?case using Cons by simp
qed simp

section \<open>Weights\<close>

text \<open>
  The part of the history that counts, and the three numbers of a candidate: the proposals it made, the
  ones it failed to make, and the blocks it voted for.
\<close>

definition window_events :: "candidates \<Rightarrow> new_block_event list \<Rightarrow> u64 \<Rightarrow> bool \<Rightarrow> new_block_event list" where
  "window_events cand history n stale = filter (\<lambda>e. map_of cand (nbe_epoch e) \<noteq> None)
     (if stale then drop (length history - unat n) history else take (unat n) history)"

definition failed_of :: "candidates \<Rightarrow> new_block_event \<Rightarrow> (author list, unit) result" where
  "failed_of cand e = indices_to_validators (candidates_of cand e) (nbe_failed_proposer_indices e)"

definition all_counted :: "(new_block_event \<Rightarrow> (author list, unit) result) \<Rightarrow> new_block_event list \<Rightarrow> author list" where
  "all_counted who es = concat (map (counted who) es)"

lemma indices_to_validators_not_Panic: "indices_to_validators vals is \<noteq> Panic"
  by (induction "is") (auto simp: bind_res_Panic_iff)

lemma voters_of_not_Panic: "length (nbe_previous_block_votes_bitvec e) \<le> MAX_BUCKETS \<Longrightarrow> voters_of cand e \<noteq> Panic"
  by (simp add: voters_of_def BitVec_from_bytes_def bitvec_to_voters_def)

lemma history_iter_Ok:
  assumes "stale \<or> history = [] \<or> event_before (last history) (nbe_epoch (hd history)) (nbe_round (hd history))"
  shows "history_iter history cand n stale = Ok (window_events cand history n stale)"
  using assms by (auto simp: history_iter_def window_events_def)

text \<open>The weight the documentation of the heuristic gives a candidate.\<close>

definition reputation :: "heuristic \<Rightarrow> candidates \<Rightarrow> new_block_event list \<Rightarrow> author \<Rightarrow> u64" where
  "reputation hr cand history a =
     (let ag = hr_aggregation hr;
          votes = count_list (all_counted (voters_of cand)
            (window_events cand history (voter_window_size ag) (reputation_window_from_stale_end ag))) a;
          window = window_events cand history (proposer_window_size ag) (reputation_window_from_stale_end ag);
          proposals = count_list (map nbe_proposer window) a;
          failed = count_list (all_counted (failed_of cand) window) a
      in if failed * 100 > (proposals + failed) * unat (failure_threshold_percent hr) then failed_weight hr
         else if proposals > 0 \<or> votes > 0 then active_weight hr
         else inactive_weight hr)"

lemma weight_of_value:
  assumes "unat (count_of fs a) * 100 < 2 ^ 32" "(unat (count_of ps a) + unat (count_of fs a)) * unat (failure_threshold_percent hr) < 2 ^ 32"
    and "unat (count_of ps a) + unat (count_of fs a) < 2 ^ 32"
  shows "weight_of hr vs ps fs a = Ok
    (if unat (count_of fs a) * 100 > (unat (count_of ps a) + unat (count_of fs a)) * unat (failure_threshold_percent hr) then failed_weight hr
     else if unat (count_of ps a) > 0 \<or> unat (count_of vs a) > 0 then active_weight hr else inactive_weight hr)"
proof -
  let ?f = "count_of fs a" and ?p = "count_of ps a" and ?t = "failure_threshold_percent hr"
  have f: "mul_chk ?f 100 = (Ok (?f * 100) :: (_, unit) result)" "unat (?f * 100) = unat ?f * 100"
    using assms(1) by (simp_all add: mul_chk_def checked_mul_def or_panic_def unat_mult_no_wrap)
  have r: "add_chk ?p ?f = (Ok (?p + ?f) :: (_, unit) result)" "unat (?p + ?f) = unat ?p + unat ?f"
    using assms(3) by (simp_all add: add_chk_def checked_add_def or_panic_def unat_add_no_wrap)
  have t: "mul_chk (?p + ?f) ?t = (Ok ((?p + ?f) * ?t) :: (_, unit) result)" "unat ((?p + ?f) * ?t) = (unat ?p + unat ?f) * unat ?t"
    using assms(2) r(2) by (simp_all add: mul_chk_def checked_mul_def or_panic_def unat_mult_no_wrap)
  show ?thesis by (simp add: weight_of_def f(1) r(1) t(1) word_less_nat_alt f(2) t(2) Let_def)
qed

lemma weights_of_Ok: "(\<And>a. a \<in> set as \<Longrightarrow> f a = Ok (g a)) \<Longrightarrow> weights_of f as = Ok (map g as)"
  by (induction as) auto

text \<open>The numbers of the window fit the 32-bit counters, and the history is one the database gives.\<close>

definition history_fits :: "heuristic \<Rightarrow> candidates \<Rightarrow> new_block_event list \<Rightarrow> bool" where
  "history_fits hr cand history \<longleftrightarrow>
     (let ag = hr_aggregation hr; stale = reputation_window_from_stale_end ag;
          window = window_events cand history (proposer_window_size ag) stale in
      (stale \<or> history = [] \<or> event_before (last history) (nbe_epoch (hd history)) (nbe_round (hd history))) \<and>
      (\<forall>e \<in> set history. length (nbe_previous_block_votes_bitvec e) \<le> MAX_BUCKETS) \<and>
      length (all_counted (voters_of cand) (window_events cand history (voter_window_size ag) stale)) < 2 ^ 32 \<and>
      (length window + length (all_counted (failed_of cand) window)) * 100 < 2 ^ 32 \<and>
      unat (failure_threshold_percent hr) \<le> 100)"

lemma window_events_subset: "set (window_events cand history n stale) \<subseteq> set history"
  by (auto simp: window_events_def dest: in_set_dropD in_set_takeD)

lemma counted_proposer: "concat (map (counted (\<lambda>e. Ok [nbe_proposer e])) es) = map nbe_proposer es"
  by (induction es) (simp_all add: counted_def)

lemma get_weights_value:
  assumes "map_of cand epoch = Some authors" "history_fits hr cand history"
  shows "get_weights hr epoch cand history = Ok (map (reputation hr cand history) authors)"
proof -
  define ag where "ag = hr_aggregation hr"
  define stale where "stale = reputation_window_from_stale_end ag"
  define vw where "vw = window_events cand history (voter_window_size ag) stale"
  define pw where "pw = window_events cand history (proposer_window_size ag) stale"
  define V where "V = all_counted (voters_of cand) vw"
  define F where "F = all_counted (failed_of cand) pw"
  have h: "stale \<or> history = [] \<or> event_before (last history) (nbe_epoch (hd history)) (nbe_round (hd history))"
    "\<And>e. e \<in> set history \<Longrightarrow> length (nbe_previous_block_votes_bitvec e) \<le> MAX_BUCKETS" "length V < 2 ^ 32"
    "(length pw + length F) * 100 < 2 ^ 32" "unat (failure_threshold_percent hr) \<le> 100"
    using assms(2) by (auto simp: history_fits_def Let_def ag_def stale_def vw_def pw_def V_def F_def)
  note it = history_iter_Ok [OF h(1)]
  have "voters_of cand e \<noteq> Panic" if "e \<in> set vw" for e
    using that h(2) window_events_subset [of cand history "voter_window_size ag" stale] voters_of_not_Panic by (auto simp: vw_def)
  with count_events_Ok [OF counts_ok_empty, of "voters_of cand" vw] h(3)
  obtain vs where vs: "count_events (voters_of cand) vw [] = Ok vs" "counts_ok vs (count_list V) (length V)"
    by (auto simp: V_def all_counted_def)
  from count_events_Ok [OF counts_ok_empty, of "\<lambda>e. Ok [nbe_proposer e]" pw] h(4)
  obtain ps where ps: "count_events (\<lambda>e. Ok [nbe_proposer e]) pw [] = Ok ps" "counts_ok ps (count_list (map nbe_proposer pw)) (length pw)"
    by (auto simp: counted_proposer)
  from count_events_Ok [OF counts_ok_empty, of "failed_of cand" pw] h(4) indices_to_validators_not_Panic
  obtain fs where fs: "count_events (failed_of cand) pw [] = Ok fs" "counts_ok fs (count_list F) (length F)"
    by (auto simp: F_def all_counted_def failed_of_def)
  have sums: "\<exists>x. sum_counts 0 (map snd ps) = Ok x" "\<exists>x. sum_counts 0 (map snd fs) = Ok x"
    using sum_counts_Ok [of 0] ps(2) fs(2) h(4) by (auto simp: counts_ok_def)
  have "failed_of cand = (\<lambda>e. indices_to_validators (candidates_of cand e) (nbe_failed_proposer_indices e))"
    by (auto simp: failed_of_def)
  with sums vs(1) ps(1) fs(1) have m: "get_aggregated_metrics ag cand history = Ok (vs, ps, fs)"
    by (auto simp: get_aggregated_metrics_def count_votes_def count_votes_custom_def count_proposals_def count_proposals_custom_def
        count_failed_proposals_def it stale_def [symmetric] vw_def [symmetric] pw_def [symmetric])
  have "weight_of hr vs ps fs a = Ok (reputation hr cand history a)" for a
  proof -
    have c: "unat (count_of vs a) = count_list V a" "unat (count_of ps a) = count_list (map nbe_proposer pw) a" "unat (count_of fs a) = count_list F a"
      using vs(2) ps(2) fs(2) by (auto simp: counts_ok_def)
    have le: "count_list (map nbe_proposer pw) a + count_list F a \<le> length pw + length F"
      using count_le_length [of "map nbe_proposer pw" a] count_le_length [of F a] by simp
    have "(count_list (map nbe_proposer pw) a + count_list F a) * unat (failure_threshold_percent hr) \<le> (length pw + length F) * 100"
      using le h(5) by (rule mult_le_mono)
    then show ?thesis using weight_of_value [of fs a ps hr vs] le h(4) unfolding c
      by (simp add: reputation_def Let_def ag_def [symmetric] stale_def [symmetric] vw_def [symmetric] pw_def [symmetric]
          V_def [symmetric] F_def [symmetric])
  qed
  then show ?thesis using assms(1) m weights_of_Ok [of authors "weight_of hr vs ps fs" "reputation hr cand history"]
    by (simp add: get_weights_def or_panic_def ag_def)
qed

section \<open>Chain health\<close>

text \<open>The authors that proposed or voted for a block of a window, and the share of the voting power they hold.\<close>

definition took_part :: "candidates \<Rightarrow> new_block_event list \<Rightarrow> u64 \<Rightarrow> author set" where
  "took_part cand history w =
     set (all_counted (voters_of cand) (window_events cand history w False)) \<union> nbe_proposer ` set (window_events cand history w False)"

definition chain_health :: "'f f64_ops \<Rightarrow> leader_reputation \<Rightarrow> author list \<Rightarrow> new_block_event list \<Rightarrow> 'f" where
  "chain_health fl lr candidates history =
     (let w = window_for_chain_health lr; everyone = f_sum fl (lr_voting_powers lr);
          active = f_sum fl (map snd (filter (\<lambda>(c, _). c \<in> took_part (epoch_to_proposers lr) history w) (zip candidates (lr_voting_powers lr))))
      in if length history < unat w \<and> lr_epoch lr \<le> 2 then f_one fl
         else if f_ge fl everyone (f_one fl) then f_div fl active everyone else f_one fl)"

text \<open>The history is one the database gives, newest block first, and the votes of a window fit the 32-bit counters.\<close>

definition health_fits :: "candidates \<Rightarrow> new_block_event list \<Rightarrow> bool" where
  "health_fits cand history \<longleftrightarrow>
     (history = [] \<or> event_before (last history) (nbe_epoch (hd history)) (nbe_round (hd history))) \<and>
     (\<forall>e \<in> set history. length (nbe_previous_block_votes_bitvec e) \<le> MAX_BUCKETS) \<and>
     (\<forall>w \<in> set CHAIN_HEALTH_WINDOW_SIZES. length (all_counted (voters_of cand) (window_events cand history w False)) < 2 ^ 32)"

lemma counts_ok_keys: "counts_ok m (count_list L) n \<Longrightarrow> set (map fst m) = set L"
proof -
  assume c: "counts_ok m (count_list L) n"
  have "a \<in> fst ` set m \<longleftrightarrow> a \<in> set L" for a
  proof (cases "map_of m a")
    case None
    then have "count_list L a = 0" using c by (metis counts_ok_def count_of_def option.simps(4) unsigned_0)
    then show ?thesis using None by (simp add: map_of_eq_None_iff count_list_0_iff)
  next
    case (Some x)
    then have "count_list L a = unat x" "x \<noteq> 0" using c by (auto simp: counts_ok_def count_of_def split: option.splits)
    then have "a \<in> set L" by (metis count_list_0_iff unat_eq_zero)
    then show ?thesis using Some by (metis domI dom_map_of_conv_image_fst)
  qed
  then show ?thesis by auto
qed

lemma participants_value:
  assumes "health_fits cand history" "w \<in> set CHAIN_HEALTH_WINDOW_SIZES"
  shows "participants cand history w = Ok (took_part cand history w)"
proof -
  define es where "es = window_events cand history w False"
  have it: "history_iter history cand w False = Ok es"
    using history_iter_Ok [of False history cand w] assms(1) by (auto simp: health_fits_def es_def)
  have "length es \<le> unat w" by (simp add: es_def window_events_def le_trans [OF length_filter_le])
  then have l: "length es < 2 ^ 32" using assms(2) by (auto simp: CHAIN_HEALTH_WINDOW_SIZES_def)
  have p: "voters_of cand e \<noteq> Panic" if "e \<in> set es" for e
    using that assms(1) window_events_subset [of cand history w False] voters_of_not_Panic by (auto simp: health_fits_def es_def)
  have "length (all_counted (voters_of cand) es) < 2 ^ 32" using assms by (simp add: health_fits_def es_def)
  with count_events_Ok [OF counts_ok_empty, of "voters_of cand" es] p
  obtain vs where vs: "count_events (voters_of cand) es [] = Ok vs" "counts_ok vs (count_list (all_counted (voters_of cand) es)) (length (all_counted (voters_of cand) es))"
    by (auto simp: all_counted_def)
  from count_events_Ok [OF counts_ok_empty, of "\<lambda>e. Ok [nbe_proposer e]" es] l
  obtain ps where ps: "count_events (\<lambda>e. Ok [nbe_proposer e]) es [] = Ok ps" "counts_ok ps (count_list (map nbe_proposer es)) (length es)"
    by (auto simp: counted_proposer)
  show ?thesis using it vs(1) ps(1) counts_ok_keys [OF vs(2)] counts_ok_keys [OF ps(2)]
    by (simp add: participants_def count_votes_custom_def count_proposals_custom_def took_part_def es_def [symmetric])
qed

lemma chain_health_loop_value:
  assumes "\<And>w. w \<in> set ws \<Longrightarrow> participants (epoch_to_proposers lr) history w = Ok (took_part (epoch_to_proposers lr) history w)"
  shows "chain_health_loop fl lr candidates (f_sum fl (lr_voting_powers lr)) history round ws res =
    Ok (if window_for_chain_health lr \<in> set ws then Some (chain_health fl lr candidates history) else res)"
  using assms
proof (induction ws arbitrary: res)
  case (Cons w ws)
  have p: "participants (epoch_to_proposers lr) history w = Ok (took_part (epoch_to_proposers lr) history w)" using Cons.prems by simp
  show ?case
  proof (cases "window_for_chain_health lr = w")
    case True
    then show ?thesis using Cons p by (simp add: Let_def chain_health_def)
  next
    case False
    then show ?thesis using Cons p by (simp add: Let_def)
  qed
qed simp

lemma compute_chain_health_value:
  assumes "map_of (epoch_to_proposers lr) (lr_epoch lr) = Some candidates" "health_fits (epoch_to_proposers lr) history"
    and "window_for_chain_health lr \<in> set CHAIN_HEALTH_WINDOW_SIZES"
  shows "compute_chain_health_and_add_metrics fl lr history round = Ok (chain_health fl lr candidates history)"
  using assms participants_value [OF assms(2)]
  by (simp add: compute_chain_health_and_add_metrics_def or_panic_def chain_health_loop_value)

section \<open>Elections\<close>

definition stakes :: "u64 list \<Rightarrow> u64 list \<Rightarrow> u128 list" where
  "stakes ws vps = map (\<lambda>(w, vp). ucast w * ucast vp) (zip ws vps)"

lemma u64_product: "unat (ucast w * ucast vp :: u128) = unat w * unat vp" "mul_chk (ucast w :: u128) (ucast vp) = Ok (ucast w * ucast vp)"
  for w vp :: u64
proof -
  have "unat w * unat vp \<le> (2 ^ 64 - 1) * (2 ^ 64 - 1)" using unat_below [of w] unat_below [of vp] by (intro mult_le_mono) simp_all
  then have "unat (ucast w :: u128) * unat (ucast vp :: u128) < 2 ^ 128" by (simp add: unat_ucast_64_128)
  then show "unat (ucast w * ucast vp :: u128) = unat w * unat vp" "mul_chk (ucast w :: u128) (ucast vp) = Ok (ucast w * ucast vp)"
    by (simp_all add: mul_chk_def checked_mul_def or_panic_def unat_mult_no_wrap unat_ucast_64_128)
qed

lemma stake_weights_of_Ok: "length ws = length vps \<Longrightarrow> stake_weights_of ws vps = Ok (stakes ws vps)"
  by (induction ws vps rule: list_induct2) (simp_all add: stakes_def u64_product)

definition election_state :: "leader_reputation \<Rightarrow> hash_value \<Rightarrow> round_t \<Rightarrow> u8 list" where
  "election_state lr root round =
     (if use_root_hash lr then HashValue_to_vec root else []) @ u64_to_le_bytes (lr_epoch lr) @ u64_to_le_bytes round"

lemma share_positive:
  assumes "stake (take i ws) \<le> x" "x < stake (take (Suc i) ws)" "i < length ws"
  shows "0 < unat (ws ! i)"
  using assms by (simp add: take_Suc_conv_app_nth)

lemma stakes_length: "length ws = length vps \<Longrightarrow> length (stakes ws vps) = length ws"
  by (simp add: stakes_def)

lemma election_value:
  fixes fl :: "'f f64_ops" and sha :: "u8 list \<Rightarrow> u8 list" and root :: hash_value and round :: round_t
  assumes "map_of (epoch_to_proposers lr) (lr_epoch lr) = Some proposers" "length proposers = length (lr_voting_powers lr)"
    and "block_metadata (lr_epoch lr) (if round < exclude_round lr then 0 else round - exclude_round lr) = Ok (history, root)"
    and "history_fits hr (epoch_to_proposers lr) history" "health_fits (epoch_to_proposers lr) history"
    and "window_for_chain_health lr \<in> set CHAIN_HEALTH_WINDOW_SIZES"
  defines "ws \<equiv> stakes (map (reputation hr (epoch_to_proposers lr) history) proposers) (lr_voting_powers lr)"
  defines "x \<equiv> draw sha (election_state lr root round) (stake ws)"
  assumes "0 < stake ws" "stake ws < 2 ^ 128"
  shows "\<exists>i < length proposers.
    get_valid_proposer_and_voting_power_participation_ratio sha block_metadata fl (get_weights hr) lr round =
      Ok (proposers ! i, chain_health fl lr proposers history) \<and>
    stake (take i ws) \<le> x \<and> x < stake (take (Suc i) ws)"
proof -
  have l: "length ws = length proposers" using assms(2) by (simp add: ws_def stakes_length)
  from choose_index_share [OF assms(9,10), of sha "election_state lr root round"] l
  obtain i where i: "i < length proposers" "choose_index sha ws (election_state lr root round) = (Ok i :: (_, unit) result)"
    "stake (take i ws) \<le> x" "x < stake (take (Suc i) ws)" by (auto simp: x_def)
  have "stake_weights_of (map (reputation hr (epoch_to_proposers lr) history) proposers) (lr_voting_powers lr) = Ok ws"
    using assms(2) by (simp add: ws_def stake_weights_of_Ok)
  then show ?thesis using i assms(1,3) get_weights_value [OF assms(1,4)] compute_chain_health_value [OF assms(1,5,6), of fl round]
    by (intro exI [of _ i]) (simp add: get_valid_proposer_and_voting_power_participation_ratio_def or_panic_def election_state_def)
qed

text \<open>A sequence of proposals, with the answers of the wrapper that rejects second proposals.\<close>

fun proposals_run ::
  "(round_t \<Rightarrow> (author, 'e) result) \<Rightarrow> block list \<Rightarrow> already_proposed \<Rightarrow> ((block \<times> bool) list, 'e) result" where
  "proposals_run elect [] st = Ok []"
| "proposals_run elect (b # bs) st = (case is_valid_proposal elect b st of
     (Ok v, st') \<Rightarrow> bind_res (proposals_run elect bs st') (\<lambda>rs. Ok ((b, v) # rs))
   | (Err e, st') \<Rightarrow> Err e
   | (Panic, st') \<Rightarrow> Panic)"

lemma is_valid_proposal_cases:
  assumes "is_valid_proposal elect b st = (Ok v, st')"
  shows "(v \<longrightarrow> (\<exists>a. blk_author b = Some a \<and> elect (blk_round b) = Ok a) \<and> st' = (blk_round b, blk_id b) \<and>
      (fst st < blk_round b \<or> st = (blk_round b, blk_id b))) \<and> (\<not> v \<longrightarrow> st' = st)"
proof (cases "blk_author b")
  case None
  then show ?thesis using assms by (simp add: is_valid_proposal_def lift_ex_def)
next
  case (Some a)
  then show ?thesis using assms
    by (cases "elect (blk_round b)"; cases st)
      (auto simp: is_valid_proposal_def is_valid_proposer_def lift_ex_def bind_ex_def split: if_splits)
qed

lemma proposals_run_facts:
  assumes "proposals_run elect bs st = Ok rs" "(b, True) \<in> set rs"
  shows "(\<exists>a. blk_author b = Some a \<and> elect (blk_round b) = Ok a) \<and> (fst st < blk_round b \<or> st = (blk_round b, blk_id b))"
  using assms
proof (induction bs arbitrary: st rs)
  case (Cons c bs)
  from Cons.prems(1) obtain v st' rs' where s: "is_valid_proposal elect c st = (Ok v, st')" "proposals_run elect bs st' = Ok rs'" "rs = (c, v) # rs'"
    by (auto simp: bind_res_Ok_iff split: prod.splits result.splits)
  note c = is_valid_proposal_cases [OF s(1)]
  show ?case
  proof (cases "(b, True) \<in> set rs'")
    case True
    from Cons.IH [OF s(2) this] show ?thesis using c by (cases v) auto
  qed (use Cons.prems(2) s(3) c in auto)
qed simp

lemma proposals_run_unique:
  assumes "proposals_run elect bs st = Ok rs" "(b, True) \<in> set rs" "(c, True) \<in> set rs" "blk_round b = blk_round c"
  shows "blk_id b = blk_id c"
  using assms
proof (induction bs arbitrary: st rs)
  case (Cons d bs)
  from Cons.prems(1) obtain v st' rs' where s: "is_valid_proposal elect d st = (Ok v, st')" "proposals_run elect bs st' = Ok rs'" "rs = (d, v) # rs'"
    by (auto simp: bind_res_Ok_iff split: prod.splits result.splits)
  note d = is_valid_proposal_cases [OF s(1)]
  have later: "blk_id e = blk_id d" if "(e, True) \<in> set rs'" "blk_round e = blk_round d" v for e
    using proposals_run_facts [OF s(2) that(1)] d that(2,3) by auto
  show ?case
  proof (cases "(b, True) \<in> set rs' \<and> (c, True) \<in> set rs'")
    case True
    then show ?thesis using Cons.IH [OF s(2)] Cons.prems(4) by blast
  next
    case False
    with Cons.prems(2,3) s(3) have v "b = d \<or> c = d" by auto
    then show ?thesis using later [of b] later [of c] Cons.prems(2-4) s(3) by auto
  qed
qed simp

text \<open>
  Queries of a cached election. The wrapped election may answer a round differently from one query to
  the next, as the history it is computed from grows, so each query comes with the answers it would
  give at that time.
\<close>

type_synonym ('f, 'e) query = "(round_t \<Rightarrow> (author \<times> 'f, 'e) result) \<times> round_t"

fun cached_run ::
  "u64 \<Rightarrow> ('f, 'e) query list \<Rightarrow> 'f elections \<Rightarrow> (author \<times> 'f, 'e) result list \<times> 'f elections" where
  "cached_run window [] el = ([], el)"
| "cached_run window ((elect, r) # qs) el =
     (let (answer, el') = get_or_compute_entry elect window r el; (answers, el'') = cached_run window qs el' in (answer # answers, el''))"

primrec entries :: "'f elections \<Rightarrow> (round_t, author \<times> 'f) btree_map" where
  "entries (Healthy m) = m"
| "entries Poisoned = []"

text \<open>A query of round \<open>r'\<close> keeps the entry of round \<open>r\<close>.\<close>

definition keeps_entry :: "u64 \<Rightarrow> round_t \<Rightarrow> round_t \<Rightarrow> bool" where
  "keeps_entry window r' r \<longleftrightarrow> unat r' \<le> unat r + unat window"

lemma map_of_filter_fst: "map_of (filter (\<lambda>(k, _). P k) m) k = (if P k then map_of m k else None)"
  by (induction m) auto

lemma split_off_facts: "bt_sorted m \<Longrightarrow> bt_sorted (split_off k m) \<and> map_of (split_off k m) r = (if k \<le> r then map_of m r else None)"
  by (simp add: split_off_def map_of_filter_fst sorted_wrt_filter sorted_wrt_map)

text \<open>The entries that a query finds after it has dropped the old ones.\<close>

definition recent_entries :: "u64 \<Rightarrow> round_t \<Rightarrow> (round_t, author \<times> 'f) btree_map \<Rightarrow> (round_t, author \<times> 'f) btree_map" where
  "recent_entries window r m = (if r > window then split_off (r - window) m else m)"

lemma recent_entries_facts:
  assumes "bt_sorted m"
  shows "bt_sorted (recent_entries window r m)"
    and "map_of (recent_entries window r m) k = (if keeps_entry window r k then map_of m k else None)"
proof -
  have "r - window \<le> k \<longleftrightarrow> keeps_entry window r k" if "window < r"
    using that by (auto simp: keeps_entry_def word_le_nat_alt word_less_nat_alt unat_sub)
  moreover have "keeps_entry window r k" if "\<not> window < r"
    using that by (simp add: keeps_entry_def word_less_nat_alt)
  ultimately show "bt_sorted (recent_entries window r m)"
    "map_of (recent_entries window r m) k = (if keeps_entry window r k then map_of m k else None)"
    using split_off_facts [OF assms] assms by (auto simp: recent_entries_def)
qed

lemma keeps_entry_self [simp]: "keeps_entry window r r"
  by (simp add: keeps_entry_def)

lemma query_cases:
  assumes "bt_sorted m"
  shows "get_or_compute_entry elect window r (Healthy m) = (case map_of m r of
      Some entry \<Rightarrow> (Ok entry, Healthy (recent_entries window r m))
    | None \<Rightarrow> (case elect r of Ok x \<Rightarrow> (Ok x, Healthy (bt_insert r x (recent_entries window r m)))
        | Err e \<Rightarrow> (Err e, Healthy (recent_entries window r m)) | Panic \<Rightarrow> (Panic, Poisoned)))"
  using recent_entries_facts(2) [OF assms, of window r r]
  by (simp add: get_or_compute_entry_def Let_def recent_entries_def [symmetric])

lemma query_poisoned [simp]: "get_or_compute_entry elect window r Poisoned = (Panic, Poisoned)"
  by (simp add: get_or_compute_entry_def)

text \<open>What one query answers and leaves behind.\<close>

lemma query_answer:
  assumes "bt_sorted (entries el)" "get_or_compute_entry elect window r el = (ans, el')"
  shows "bt_sorted (entries el')"
    and "map_of (entries el') k = Some x \<Longrightarrow> keeps_entry window r k \<and> (k = r \<and> ans = Ok x \<or> map_of (entries el) k = Some x)"
    and "ans = Ok x \<Longrightarrow> map_of (entries el') r = Some x \<and> (map_of (entries el) r = Some x \<or> elect r = Ok x)"
    and "ans = Panic \<longleftrightarrow> el' = Poisoned" and "ans = Panic \<Longrightarrow> el = Poisoned \<or> elect r = Panic"
    and "map_of (entries el) k = Some x \<Longrightarrow> keeps_entry window r k \<Longrightarrow> ans \<noteq> Panic \<Longrightarrow> map_of (entries el') k = Some x"
    and "map_of (entries el) r = Some x \<Longrightarrow> ans = Ok x"
proof -
  have "el = Healthy m \<Longrightarrow> bt_sorted m" for m using assms(1) by simp
  note q = query_cases [OF this, of _ elect window r]
  show "bt_sorted (entries el')" "map_of (entries el') k = Some x \<Longrightarrow> keeps_entry window r k \<and> (k = r \<and> ans = Ok x \<or> map_of (entries el) k = Some x)"
    "ans = Ok x \<Longrightarrow> map_of (entries el') r = Some x \<and> (map_of (entries el) r = Some x \<or> elect r = Ok x)"
    "ans = Panic \<longleftrightarrow> el' = Poisoned" "ans = Panic \<Longrightarrow> el = Poisoned \<or> elect r = Panic"
    "map_of (entries el) k = Some x \<Longrightarrow> keeps_entry window r k \<Longrightarrow> ans \<noteq> Panic \<Longrightarrow> map_of (entries el') k = Some x"
    "map_of (entries el) r = Some x \<Longrightarrow> ans = Ok x"
    using assms q recent_entries_facts [of "entries el" window r]
    by (cases el; cases "map_of (entries el) r"; cases "elect r"; auto simp: bt_insert_sorted bt_get_insert split: if_splits)+
qed

lemma cached_run_Cons:
  assumes "get_or_compute_entry (fst q) window (snd q) el = (a, el1)"
  shows "fst (cached_run window (q # qs) el) = a # fst (cached_run window qs el1)"
    and "snd (cached_run window (q # qs) el) = snd (cached_run window qs el1)"
  using assms by (cases q; simp add: case_prod_beta)+

lemma cached_run_length [simp]: "length (fst (cached_run window qs el)) = length qs"
  by (induction qs arbitrary: el) (auto simp: case_prod_beta)

lemma run_poisoned: "fst (cached_run window qs Poisoned) = replicate (length qs) Panic"
  by (induction qs) (auto simp: case_prod_beta)

lemma run_computed:
  assumes "bt_sorted (entries el)" "j < length qs" "fst (cached_run window qs el) ! j = Ok x"
  shows "map_of (entries el) (snd (qs ! j)) = Some x \<or>
    (\<exists>k \<le> j. snd (qs ! k) = snd (qs ! j) \<and> fst (qs ! k) (snd (qs ! k)) = Ok x)"
  using assms
proof (induction qs arbitrary: el j)
  case (Cons q qs)
  obtain a el1 where q: "get_or_compute_entry (fst q) window (snd q) el = (a, el1)" by fastforce
  note step = query_answer [OF Cons.prems(1) q]
  show ?case
  proof (cases j)
    case 0
    then show ?thesis using step(3) Cons.prems(3) by (auto simp: cached_run_Cons [OF q])
  next
    case (Suc i)
    with Cons.IH [OF step(1), of i] Cons.prems consider "map_of (entries el1) (snd (qs ! i)) = Some x"
      | k where "k \<le> i" "snd (qs ! k) = snd (qs ! i)" "fst (qs ! k) (snd (qs ! k)) = Ok x"
      by (auto simp: cached_run_Cons [OF q])
    then show ?thesis
    proof cases
      case 1
      from step(2) [OF this] step(3) Suc show ?thesis by (metis le0 nth_Cons_0 nth_Cons_Suc)
    next
      case 2
      then show ?thesis using Suc by (intro disjI2 exI [of _ "Suc k"]) simp
    qed
  qed
qed simp

lemma run_panics:
  assumes "bt_sorted (entries el)" "j < length qs" "fst (cached_run window qs el) ! j = Panic"
  shows "el = Poisoned \<or> (\<exists>k \<le> j. fst (qs ! k) (snd (qs ! k)) = Panic)"
  using assms
proof (induction qs arbitrary: el j)
  case (Cons q qs)
  obtain a el1 where q: "get_or_compute_entry (fst q) window (snd q) el = (a, el1)" by fastforce
  note step = query_answer [OF Cons.prems(1) q]
  show ?case
  proof (cases j)
    case 0
    then show ?thesis using step(5) Cons.prems(3) by (auto simp: cached_run_Cons [OF q])
  next
    case (Suc i)
    with Cons.IH [OF step(1), of i] Cons.prems consider "a = Panic" | k where "k \<le> i" "fst (qs ! k) (snd (qs ! k)) = Panic"
      using step(4) by (auto simp: cached_run_Cons [OF q])
    then show ?thesis
    proof cases
      case 1
      with step(5) show ?thesis by (metis le0 nth_Cons_0)
    next
      case 2
      then show ?thesis using Suc by (intro disjI2 exI [of _ "Suc k"]) simp
    qed
  qed
qed simp

lemma run_entry_kept:
  assumes "bt_sorted (entries el)" "map_of (entries el) r = Some x" "j < length qs" "snd (qs ! j) = r"
    and "\<forall>k < j. keeps_entry window (snd (qs ! k)) r"
  shows "fst (cached_run window qs el) ! j = Ok x \<or> (\<exists>k < j. fst (cached_run window qs el) ! k = Panic)"
  using assms
proof (induction qs arbitrary: el j)
  case (Cons q qs)
  obtain a el1 where q: "get_or_compute_entry (fst q) window (snd q) el = (a, el1)" by fastforce
  note step = query_answer [OF Cons.prems(1) q]
  show ?case
  proof (cases j)
    case 0
    then show ?thesis using step(7) Cons.prems(2,4) by (auto simp: cached_run_Cons [OF q])
  next
    case (Suc i)
    show ?thesis
    proof (cases "a = Panic")
      case True
      then show ?thesis using Suc by (intro disjI2 exI [of _ 0]) (simp add: cached_run_Cons [OF q])
    next
      case False
      have "keeps_entry window (snd q) r" using Cons.prems(5) Suc by (metis nth_Cons_0 zero_less_Suc)
      with step(6) [OF Cons.prems(2) _ False] have "map_of (entries el1) r = Some x" by blast
      moreover have "\<forall>k < i. keeps_entry window (snd (qs ! k)) r" using Cons.prems(5) Suc by (metis Suc_mono nth_Cons_Suc)
      ultimately have "fst (cached_run window qs el1) ! i = Ok x \<or> (\<exists>k < i. fst (cached_run window qs el1) ! k = Panic)"
        using Cons.IH [OF step(1), of i] Cons.prems(3,4) Suc by simp
      then show ?thesis using Suc by (auto simp: cached_run_Cons [OF q] intro: exI [of _ "Suc _"])
    qed
  qed
qed simp

lemma run_panic_lasts:
  assumes "i \<le> j" "j < length qs" "bt_sorted (entries el)" "fst (cached_run window qs el) ! i = Panic"
  shows "fst (cached_run window qs el) ! j = Panic"
  using assms
proof (induction qs arbitrary: el i j)
  case (Cons q qs)
  obtain a el1 where q: "get_or_compute_entry (fst q) window (snd q) el = (a, el1)" by fastforce
  note step = query_answer [OF Cons.prems(3) q]
  show ?case
  proof (cases i)
    case 0
    then have "a = Panic" using Cons.prems(4) by (simp add: cached_run_Cons [OF q])
    then show ?thesis using step(4) Cons.prems(2) by (cases j) (simp_all add: cached_run_Cons [OF q] run_poisoned)
  next
    case (Suc i')
    then obtain j' where "j = Suc j'" using Cons.prems(1) by (cases j) auto
    then show ?thesis using Cons.IH [of i' j' el1] Cons.prems Suc step(1) by (simp add: cached_run_Cons [OF q])
  qed
qed simp

lemma run_stable:
  assumes "i < j" "j < length qs" "bt_sorted (entries el)" "fst (cached_run window qs el) ! i = Ok x" "snd (qs ! j) = snd (qs ! i)"
    and "\<forall>k. i < k \<and> k < j \<longrightarrow> keeps_entry window (snd (qs ! k)) (snd (qs ! i))"
  shows "fst (cached_run window qs el) ! j = Ok x \<or> (\<exists>k. i < k \<and> k < j \<and> fst (cached_run window qs el) ! k = Panic)"
  using assms
proof (induction qs arbitrary: el i j)
  case (Cons q qs)
  obtain a el1 where q: "get_or_compute_entry (fst q) window (snd q) el = (a, el1)" by fastforce
  note step = query_answer [OF Cons.prems(3) q]
  obtain j' where j: "j = Suc j'" using Cons.prems(1) by (cases j) auto
  show ?case
  proof (cases i)
    case 0
    then have "a = Ok x" using Cons.prems(4) by (simp add: cached_run_Cons [OF q])
    then have "map_of (entries el1) (snd q) = Some x" using step(3) by blast
    moreover have "\<forall>k < j'. keeps_entry window (snd (qs ! k)) (snd q)"
      using Cons.prems(6) 0 j by (metis Suc_mono nth_Cons_0 nth_Cons_Suc zero_less_Suc)
    ultimately have "fst (cached_run window qs el1) ! j' = Ok x \<or> (\<exists>k < j'. fst (cached_run window qs el1) ! k = Panic)"
      using run_entry_kept [OF step(1), of "snd q" x j' qs window] Cons.prems(2,5) 0 j by simp
    then show ?thesis using 0 j by (auto simp: cached_run_Cons [OF q] intro: exI [of _ "Suc _"])
  next
    case (Suc i')
    have "\<forall>k. i' < k \<and> k < j' \<longrightarrow> keeps_entry window (snd (qs ! k)) (snd (qs ! i'))"
      using Cons.prems(6) Suc j by (metis Suc_mono nth_Cons_Suc)
    then have "fst (cached_run window qs el1) ! j' = Ok x \<or> (\<exists>k. i' < k \<and> k < j' \<and> fst (cached_run window qs el1) ! k = Panic)"
      using Cons.IH [OF _ _ step(1), of i' j'] Cons.prems(1,2,4,5) Suc j by (simp add: cached_run_Cons [OF q])
    then show ?thesis using Suc j by (auto simp: cached_run_Cons [OF q] intro: exI [of _ "Suc _"])
  qed
qed simp

lemma run_window:
  assumes "bt_sorted (entries el)"
  shows "bt_sorted (entries (snd (cached_run window qs el)))"
    and "qs \<noteq> [] \<Longrightarrow> map_of (entries (snd (cached_run window qs el))) k = Some x \<Longrightarrow> keeps_entry window (snd (last qs)) k"
proof -
  have "bt_sorted (entries (snd (cached_run window qs el))) \<and> (qs \<noteq> [] \<longrightarrow>
      (map_of (entries (snd (cached_run window qs el))) k = Some x \<longrightarrow> keeps_entry window (snd (last qs)) k))"
    using assms
  proof (induction qs arbitrary: el)
    case (Cons q qs)
    obtain a el1 where q: "get_or_compute_entry (fst q) window (snd q) el = (a, el1)" by fastforce
    note step = query_answer [OF Cons.prems q]
    show ?case using Cons.IH [OF step(1)] step(2) by (cases "qs = []") (auto simp: cached_run_Cons [OF q])
  qed simp
  then show "bt_sorted (entries (snd (cached_run window qs el)))"
    "qs \<noteq> [] \<Longrightarrow> map_of (entries (snd (cached_run window qs el))) k = Some x \<Longrightarrow> keeps_entry window (snd (last qs)) k" by blast+
qed

section \<open>Properties\<close>

text \<open>
  C17. The leader reputation election answers in every round whose window of history fits the counters
  and whose candidates do not all have weight zero, and it answers with the candidate whose share of the
  stake weighted by reputation the number drawn falls into, together with the chain health. A candidate
  of weight zero is never elected.
\<close>

theorem leader_elected_by_share:
  fixes fl :: "'f f64_ops" and sha :: "u8 list \<Rightarrow> u8 list" and root :: hash_value and round :: round_t
  assumes "LeaderReputation_new epoch cand vps exclude use_root window = Ok lr" "map_of cand epoch = Some proposers"
    and "block_metadata epoch (if round < exclude then 0 else round - exclude) = Ok (history, root)"
    and "history_fits hr cand history" "health_fits cand history" "window \<in> set CHAIN_HEALTH_WINDOW_SIZES"
    and "ws = stakes (map (reputation hr cand history) proposers) vps" "0 < stake ws" "stake ws < 2 ^ 128"
    and "x = draw sha (election_state lr root round) (stake ws)"
  shows "\<exists>i < length proposers.
    get_valid_proposer_and_voting_power_participation_ratio sha block_metadata fl (get_weights hr) lr round =
      Ok (proposers ! i, chain_health fl lr proposers history) \<and>
    stake (take i ws) \<le> x \<and> x < stake (take (Suc i) ws) \<and> 0 < unat (reputation hr cand history (proposers ! i)) * unat (vps ! i)"
proof -
  have l: "length proposers = length vps" and lr: "lr_epoch lr = epoch" "epoch_to_proposers lr = cand" "lr_voting_powers lr = vps"
    "exclude_round lr = exclude" "window_for_chain_health lr = window"
    using assms(1,2) by (auto simp: LeaderReputation_new_def or_panic_def split: if_splits)
  have "\<exists>i < length proposers.
      get_valid_proposer_and_voting_power_participation_ratio sha block_metadata fl (get_weights hr) lr round =
        Ok (proposers ! i, chain_health fl lr proposers history) \<and>
      stake (take i ws) \<le> x \<and> x < stake (take (Suc i) ws)"
    unfolding assms(7,10) using election_value [of lr proposers block_metadata round history root hr sha fl, unfolded lr]
      assms(2-6,8,9) l unfolding assms(7) by blast
  then obtain i where i: "i < length proposers"
    "get_valid_proposer_and_voting_power_participation_ratio sha block_metadata fl (get_weights hr) lr round =
      Ok (proposers ! i, chain_health fl lr proposers history)"
    "stake (take i ws) \<le> x" "x < stake (take (Suc i) ws)" by blast
  have "unat (ws ! i) = unat (reputation hr cand history (proposers ! i)) * unat (vps ! i)"
    using i(1) l by (simp add: assms(7) stakes_def u64_product)
  then show ?thesis using share_positive [OF i(3,4)] i l by (auto simp: assms(7) stakes_length)
qed

text \<open>
  A validator set of two in epoch 2: the first failed to propose in the window and has weight 1, the second
  proposed its only block and has weight 1000.
\<close>

definition sample_heuristic :: heuristic where
  "sample_heuristic = \<lparr>active_weight = 1000, inactive_weight = 10, failed_weight = 1, failure_threshold_percent = 10,
     hr_aggregation = \<lparr>voter_window_size = 10, proposer_window_size = 20, reputation_window_from_stale_end = False\<rparr>\<rparr>"

definition sample_event :: new_block_event where
  "sample_event = \<lparr>nbe_hash = 0, nbe_epoch = 2, nbe_round = 3, nbe_height = 3, nbe_previous_block_votes_bitvec = [128],
     nbe_proposer = 2, nbe_failed_proposer_indices = [0], nbe_timestamp = 7\<rparr>"

definition sample_candidates :: candidates where
  "sample_candidates = [(2, [1, 2])]"

definition sample_floats :: "nat f64_ops" where
  "sample_floats = \<lparr>f_zero = 0, f_one = 1, f_of_u64 = unat, f_add = (+), f_div = (div), f_ge = (\<ge>)\<rparr>"

definition sample_reputation :: leader_reputation where
  "sample_reputation = \<lparr>lr_epoch = 2, epoch_to_proposers = sample_candidates, lr_voting_powers = [5, 7], exclude_round = 1,
     use_root_hash = False, window_for_chain_health = 10\<rparr>"

lemma sample_new: "LeaderReputation_new 2 sample_candidates [5, 7] 1 False 10 = Ok sample_reputation"
  by (simp add: LeaderReputation_new_def sample_candidates_def sample_reputation_def or_panic_def)

lemma sample_voters: "voters_of sample_candidates sample_event = Ok [1]" "failed_of sample_candidates sample_event = Ok [1]"
  by code_simp+

lemma sample_window: "w \<noteq> 0 \<Longrightarrow> window_events sample_candidates [sample_event] w False = [sample_event]"
  by (cases "unat w") (auto simp: window_events_def sample_event_def sample_candidates_def unat_eq_zero)

lemma sample_weights: "map (reputation sample_heuristic sample_candidates [sample_event]) [1, 2] = [1, 1000]"
  by (simp add: reputation_def sample_heuristic_def sample_window all_counted_def counted_def sample_voters Let_def)
    (simp add: sample_event_def)

lemma sample_fits: "history_fits sample_heuristic sample_candidates [sample_event]" "health_fits sample_candidates [sample_event]"
  by (simp_all add: history_fits_def health_fits_def sample_heuristic_def sample_window all_counted_def counted_def sample_voters
      event_before_def CHAIN_HEALTH_WINDOW_SIZES_def) (simp_all add: sample_event_def MAX_BUCKETS_def)

lemma sample_draw: "draw (\<lambda>_. [6, 0]) st 7005 = 6"
  by (simp add: draw_def u128_from_le_bytes_def)

lemma leader_elected_by_share_witness:
  "get_valid_proposer_and_voting_power_participation_ratio (\<lambda>_. [6, 0]) (\<lambda>_ _. Ok ([sample_event], 0)) sample_floats
     (get_weights sample_heuristic) sample_reputation 4 = Ok (2, 1)"
proof -
  let ?ws = "stakes (map (reputation sample_heuristic sample_candidates [sample_event]) [1, 2]) [5, 7]"
  have ws: "?ws = [5, 7000]" unfolding sample_weights by (simp add: stakes_def)
  have h: "chain_health sample_floats sample_reputation [1, 2] [sample_event] = 1"
    by (simp add: chain_health_def sample_reputation_def sample_floats_def)
  have st: "0 < stake ?ws" "stake ?ws < 2 ^ 128" "6 = draw (\<lambda>_. [6, 0]) (election_state sample_reputation 0 4) (stake ?ws)"
    unfolding ws by (simp_all add: sample_draw)
  have c: "map_of sample_candidates 2 = Some [1, 2]" and w: "10 \<in> set CHAIN_HEALTH_WINDOW_SIZES"
    by (simp_all add: sample_candidates_def CHAIN_HEALTH_WINDOW_SIZES_def)
  have "\<exists>i < length [1, 2 :: author].
    get_valid_proposer_and_voting_power_participation_ratio (\<lambda>_. [6, 0]) (\<lambda>_ _. Ok ([sample_event], 0)) sample_floats
      (get_weights sample_heuristic) sample_reputation 4 = Ok ([1, 2] ! i, chain_health sample_floats sample_reputation [1, 2] [sample_event]) \<and>
    stake (take i ?ws) \<le> 6 \<and> 6 < stake (take (Suc i) ?ws) \<and>
    0 < unat (reputation sample_heuristic sample_candidates [sample_event] ([1, 2] ! i)) * unat ([5, 7] ! i :: u64)"
    by (rule leader_elected_by_share [OF sample_new c _ sample_fits w refl st]) simp
  then obtain i where i: "i < 2" "6 < stake (take (Suc i) ?ws)"
    "get_valid_proposer_and_voting_power_participation_ratio (\<lambda>_. [6, 0]) (\<lambda>_ _. Ok ([sample_event], 0)) sample_floats
      (get_weights sample_heuristic) sample_reputation 4 = Ok ([1, 2] ! i, 1)"
    unfolding h length_Cons list.size(3) One_nat_def [symmetric] by (metis One_nat_def Suc_1)
  have "i = 1" using i(1,2) unfolding ws by (cases i) auto
  then show ?thesis using i(3) by simp
qed

text \<open>
  C18. No replica accepts two proposals of one round: of any sequence of blocks presented to the wrapper,
  those of a round that it accepts have one and the same id, and each comes from the author elected for
  its round.
\<close>

theorem no_second_proposal:
  assumes "proposals_run elect bs UnequivocalProposerElection_new = Ok rs" "(b, True) \<in> set rs"
  shows "(\<exists>a. blk_author b = Some a \<and> elect (blk_round b) = Ok a) \<and>
    (\<forall>c. (c, True) \<in> set rs \<and> blk_round c = blk_round b \<longrightarrow> blk_id c = blk_id b)"
  using proposals_run_facts [OF assms] proposals_run_unique [OF assms(1) _ assms(2)] by blast

definition sample_proposal :: "hash_value \<Rightarrow> block" where
  "sample_proposal i = \<lparr>blk_id = i,
     blk_block_data = \<lparr>bd_epoch = 1, bd_round = 3, bd_timestamp_usecs = 30,
       bd_quorum_cert = sample_qc (sample_block_at 2) (sample_block_at 1) BlockInfo_empty, bd_block_type = Proposal (DirectMempool []) 1 []\<rparr>,
     blk_signature = None\<rparr>"

lemma no_second_proposal_witness:
  "proposals_run (\<lambda>_. Ok 1 :: (author, unit) result) [sample_proposal 5, sample_proposal 6, sample_proposal 5] UnequivocalProposerElection_new =
     Ok [(sample_proposal 5, True), (sample_proposal 6, False), (sample_proposal 5, True)] \<and>
   blk_author (sample_proposal 5) = Some 1"
proof -
  have r: "proposals_run (\<lambda>_. Ok 1 :: (author, unit) result) [sample_proposal 5, sample_proposal 6, sample_proposal 5] UnequivocalProposerElection_new =
     Ok [(sample_proposal 5, True), (sample_proposal 6, False), (sample_proposal 5, True)]"
    by (simp add: is_valid_proposal_def is_valid_proposer_def sample_proposal_def BlockData_author_def lift_ex_def bind_ex_def
        UnequivocalProposerElection_new_def)
  show ?thesis using r no_second_proposal [OF r, of "sample_proposal 5"] by auto
qed

text \<open>
  C19. A cached election computes the leader of a round once. Whatever the queries, and although the
  election it wraps may answer a round differently as its history grows: an answer is one that the
  wrapped election gave for that round at this or an earlier query; once a round is answered, every
  later query of the round gets the same answer until a query of a round more than the window above
  drops it, or a query panics. A panic comes from the wrapped election, and since it poisons the lock
  all queries from then on panic. No entry is left that is older than the window below the last
  query.
\<close>

theorem cached_elections_stable:
  fixes window :: u64 and qs :: "('f, 'e) query list"
  defines "ans \<equiv> fst (cached_run window qs (Healthy []))"
  assumes "i < j" "j < length qs"
  shows "(ans ! j = Ok x \<longrightarrow> (\<exists>k \<le> j. snd (qs ! k) = snd (qs ! j) \<and> fst (qs ! k) (snd (qs ! k)) = Ok x)) \<and>
    (ans ! i = Ok x \<and> snd (qs ! j) = snd (qs ! i) \<and>
       (\<forall>k. i < k \<and> k < j \<longrightarrow> unat (snd (qs ! k)) \<le> unat (snd (qs ! i)) + unat window) \<longrightarrow>
      ans ! j = Ok x \<or> (\<exists>k. i < k \<and> k < j \<and> ans ! k = Panic)) \<and>
    (ans ! i = Panic \<longrightarrow> ans ! j = Panic \<and> (\<exists>k \<le> i. fst (qs ! k) (snd (qs ! k)) = Panic)) \<and>
    (map_of (entries (snd (cached_run window qs (Healthy [])))) r = Some x \<longrightarrow> unat (snd (last qs)) \<le> unat r + unat window)"
proof -
  have e: "bt_sorted (entries (Healthy [] :: 'f elections))" by simp
  have q: "qs \<noteq> []" "i < length qs" "i \<le> j" using assms(2,3) by auto
  show ?thesis unfolding ans_def
    using run_computed [OF e assms(3), of window x] run_stable [OF assms(2,3) e, of window x, unfolded keeps_entry_def]
      run_panic_lasts [OF q(3) assms(3) e, of window] run_panics [OF e q(2), of window]
      run_window(2) [OF e q(1), of window r x, unfolded keeps_entry_def] by auto
qed

text \<open>
  The first query computes leader 1 for round 9, the second would compute leader 2 and is answered from
  the cache, the query of round 20 drops the entry and the fourth query computes anew.
\<close>

definition sample_queries :: "(unit, unit) query list" where
  "sample_queries = [(\<lambda>_. Ok (1, ()), 9), (\<lambda>_. Ok (2, ()), 9), (\<lambda>_. Ok (3, ()), 20), (\<lambda>_. Ok (4, ()), 9)]"

theorem cached_elections_stable_witness:
  "fst (cached_run 10 sample_queries (Healthy [])) ! 0 = Ok (1, ()) \<and> fst (cached_run 10 sample_queries (Healthy [])) ! 1 = Ok (1, ()) \<and>
   fst (cached_run 10 sample_queries (Healthy [])) ! 3 = Ok (4, ())"
proof -
  have "fst (cached_run 10 sample_queries (Healthy [])) ! 0 = Ok (1, ())" "fst (cached_run 10 sample_queries (Healthy [])) ! 3 = Ok (4, ())"
    by (simp_all add: sample_queries_def get_or_compute_entry_def split_off_def)
  moreover from this(1) have "fst (cached_run 10 sample_queries (Healthy [])) ! 1 = Ok (1, ())"
    using cached_elections_stable [of 0 1 sample_queries 10 "(1, ())"] by (auto simp: sample_queries_def simp del: cached_run.simps)
  ultimately show ?thesis by blast
qed

end
