(* ===== verification/Election_Setup.thy ===== *)
theory Election_Setup
  imports Leader_Choice
begin

text \<open>
  The creation of the proposer election of an epoch (\<open>create_proposer_election\<close> of
  \<open>consensus/src/epoch_manager.rs\<close>) from the consensus configuration on chain
  (\<open>types/src/on_chain_config/consensus_config.rs\<close>), and the queries of the election it creates.

  The epoch-ending ledger infos the database returns are a parameter, with what the setup relies on as
  hypotheses: they end distinct epochs, and the rounds of those epochs together fit 64 bits.
\<close>

section \<open>Definitions\<close>

subsection \<open>The consensus configuration on chain\<close>

record proposer_and_voter_config =
  pv_active_weight :: u64
  pv_inactive_weight :: u64
  pv_failed_weight :: u64
  pv_failure_threshold_percent :: "32 word"
  proposer_window_num_validators_multiplier :: u64
  voter_window_num_validators_multiplier :: u64
  weight_by_voting_power :: bool
  use_history_from_previous_epoch_max_count :: "32 word"

datatype leader_reputation_type =
    ProposerAndVoter proposer_and_voter_config
  | ProposerAndVoterV2 proposer_and_voter_config

definition use_root_hash_for_seed :: "leader_reputation_type \<Rightarrow> bool" where
  "use_root_hash_for_seed t = (case t of ProposerAndVoter _ \<Rightarrow> False | _ \<Rightarrow> True)"

definition use_reputation_window_from_stale_end :: "leader_reputation_type \<Rightarrow> bool" where
  "use_reputation_window_from_stale_end t = (case t of ProposerAndVoter _ \<Rightarrow> True | _ \<Rightarrow> False)"

datatype proposer_election_type =
    FixedProposer "32 word"
  | RotatingProposer "32 word"
  | LeaderReputation leader_reputation_type
  | RoundProposer "(round_t, author) btree_map"

record consensus_config_v1 =
  cc_decoupled_execution :: bool
  cc_back_pressure_limit :: u64
  cc_exclude_round :: u64
  cc_proposer_election_type :: proposer_election_type
  cc_max_failed_authors_to_store :: u64

definition ConsensusConfigV1_default :: consensus_config_v1 where
  "ConsensusConfigV1_default =
     \<lparr>cc_decoupled_execution = True, cc_back_pressure_limit = 10, cc_exclude_round = 20,
      cc_proposer_election_type = LeaderReputation (ProposerAndVoterV2
        \<lparr>pv_active_weight = 1000, pv_inactive_weight = 10, pv_failed_weight = 1, pv_failure_threshold_percent = 10,
         proposer_window_num_validators_multiplier = 10, voter_window_num_validators_multiplier = 1,
         weight_by_voting_power = True, use_history_from_previous_epoch_max_count = 5\<rparr>),
      cc_max_failed_authors_to_store = 10\<rparr>"

datatype on_chain_consensus_config = V1 consensus_config_v1 | V2 consensus_config_v1

definition leader_reputation_exclude_round :: "on_chain_consensus_config \<Rightarrow> u64" where
  "leader_reputation_exclude_round c = (case c of V1 config \<Rightarrow> cc_exclude_round config | V2 config \<Rightarrow> cc_exclude_round config)"

definition decoupled_execution :: "on_chain_consensus_config \<Rightarrow> bool" where
  "decoupled_execution c = (case c of V1 config \<Rightarrow> cc_decoupled_execution config | V2 config \<Rightarrow> cc_decoupled_execution config)"

definition back_pressure_limit :: "on_chain_consensus_config \<Rightarrow> u64" where
  "back_pressure_limit c = (if \<not> decoupled_execution c then 10
     else case c of V1 config \<Rightarrow> cc_back_pressure_limit config | V2 config \<Rightarrow> cc_back_pressure_limit config)"

definition max_failed_authors_to_store :: "on_chain_consensus_config \<Rightarrow> u64" where
  "max_failed_authors_to_store c =
     (case c of V1 config \<Rightarrow> cc_max_failed_authors_to_store config | V2 config \<Rightarrow> cc_max_failed_authors_to_store config)"

definition config_proposer_election_type :: "on_chain_consensus_config \<Rightarrow> proposer_election_type" where
  "config_proposer_election_type c =
     (case c of V1 config \<Rightarrow> cc_proposer_election_type config | V2 config \<Rightarrow> cc_proposer_election_type config)"

definition quorum_store_enabled :: "on_chain_consensus_config \<Rightarrow> bool" where
  "quorum_store_enabled c = (case c of V1 _ \<Rightarrow> False | V2 _ \<Rightarrow> True)"

definition OnChainConsensusConfig_default :: on_chain_consensus_config where
  "OnChainConsensusConfig_default = V1 ConsensusConfigV1_default"

text \<open>The bytes on chain are the encoding of an encoding; \<open>de_bytes\<close> and \<open>de_config\<close> are the two BCS decoders.\<close>

definition deserialize_into_config ::
  "('a \<Rightarrow> ('b, anyhow) result) \<Rightarrow> ('b \<Rightarrow> (on_chain_consensus_config, anyhow) result) \<Rightarrow> 'a \<Rightarrow> (on_chain_consensus_config, anyhow) result" where
  "deserialize_into_config de_bytes de_config bytes =
     bind_res (de_bytes bytes) (\<lambda>raw_bytes.
     map_err (\<lambda>_. Msg ''[on-chain config] Failed to deserialize into config'') (de_config raw_bytes))"

subsection \<open>The election of an epoch\<close>

definition PROPSER_ELECTION_CACHING_WINDOW_ADDITION :: u64 where "PROPSER_ELECTION_CACHING_WINDOW_ADDITION = 3"

definition PROPSER_ROUND_BEHIND_STORAGE_BUFFER :: u64 where "PROPSER_ROUND_BEHIND_STORAGE_BUFFER = 10"

record 'f cached_reputation =
  cr_reputation :: leader_reputation
  cr_heuristic :: heuristic
  cr_backend :: backend
  cr_db_result :: db_result
  cr_window :: u64
  cr_recent_elections :: "'f elections"

datatype 'f proposer_election =
    RotatingElection rotating_proposer
  | ReputationElection "'f cached_reputation"
  | RoundElection round_proposer

text \<open>The heuristic with the sizes of its two windows, in numbers of blocks.\<close>

definition ProposerAndVoterHeuristic_new ::
  "leader_reputation_type \<Rightarrow> proposer_and_voter_config \<Rightarrow> u64 \<Rightarrow> u64 \<Rightarrow> heuristic" where
  "ProposerAndVoterHeuristic_new t c voter_window proposer_window =
     \<lparr>active_weight = pv_active_weight c, inactive_weight = pv_inactive_weight c, failed_weight = pv_failed_weight c,
      failure_threshold_percent = pv_failure_threshold_percent c,
      hr_aggregation = \<lparr>voter_window_size = voter_window, proposer_window_size = proposer_window,
        reputation_window_from_stale_end = use_reputation_window_from_stale_end t\<rparr>\<rparr>"

definition voting_powers_of :: "validator_verifier \<Rightarrow> bool \<Rightarrow> author list \<Rightarrow> (u64 list, unit) result" where
  "voting_powers_of v weighted proposers =
     (if weighted then foldr (\<lambda>p r. bind_res (or_panic (get_voting_power v p)) (\<lambda>vp. bind_res r (\<lambda>vps. Ok (vp # vps)))) proposers (Ok [])
      else Ok (replicate (length proposers) 1))"

definition first_epoch_to_consider :: "u64 \<Rightarrow> 32 word \<Rightarrow> u64" where
  "first_epoch_to_consider epoch max_count =
     max (if epoch = 1 then 1 else 2) (if epoch < ucast max_count then 0 else epoch - ucast max_count)"

definition fetch_epoch_to_proposers ::
  "(u64 \<Rightarrow> u64 \<Rightarrow> (epoch_change_proof, anyhow) result) \<Rightarrow> u64 \<Rightarrow> u64 \<Rightarrow> author list \<Rightarrow> u64 \<Rightarrow> u64 \<Rightarrow> (candidates, unit) result" where
  "fetch_epoch_to_proposers get_epoch_ending_ledger_infos epoch first_epoch proposers window_size seek_len =
     (if epoch > first_epoch
      then (case bind_res (get_epoch_ending_ledger_infos (first_epoch - 1) epoch) (\<lambda>pf.
              bind_res (ensure (of_nat (length (ecp_ledger_info_with_sigs pf)) = epoch - (first_epoch - 1)) (Msg ''Condition failed'')) (\<lambda>_.
              bind_res (add_chk window_size seek_len) (\<lambda>needed_rounds.
              extract_epoch_to_proposers pf epoch proposers needed_rounds))) of
          Ok m \<Rightarrow> Ok m
        | Err _ \<Rightarrow> Ok [(epoch, proposers)]
        | Panic \<Rightarrow> Panic)
      else Ok [(epoch, proposers)])"

definition create_leader_reputation ::
  "(u64 \<Rightarrow> u64 \<Rightarrow> (epoch_change_proof, anyhow) result) \<Rightarrow> u64 \<Rightarrow> epoch_state \<Rightarrow> on_chain_consensus_config \<Rightarrow> leader_reputation_type \<Rightarrow>
   author list \<Rightarrow> ('f cached_reputation, unit) result" where
  "create_leader_reputation get_epoch_ending_ledger_infos window_for_health es conf t proposers =
     (let c = (case t of ProposerAndVoter c \<Rightarrow> c | ProposerAndVoterV2 c \<Rightarrow> c) in
      bind_res (mul_chk (of_nat (length proposers)) (proposer_window_num_validators_multiplier c)) (\<lambda>proposer_window.
      bind_res (mul_chk (of_nat (length proposers)) (voter_window_num_validators_multiplier c)) (\<lambda>voter_window.
      let window_size = max proposer_window voter_window in
      bind_res (add_chk (leader_reputation_exclude_round conf) (max_failed_authors_to_store conf)) (\<lambda>s.
      bind_res (add_chk s PROPSER_ROUND_BEHIND_STORAGE_BUFFER) (\<lambda>seek_len.
      bind_res (voting_powers_of (es_verifier es) (weight_by_voting_power c) proposers) (\<lambda>voting_powers.
      bind_res (fetch_epoch_to_proposers get_epoch_ending_ledger_infos (es_epoch es)
          (first_epoch_to_consider (es_epoch es) (use_history_from_previous_epoch_max_count c)) proposers window_size seek_len) (\<lambda>epoch_proposers.
      bind_res (LeaderReputation_new (es_epoch es) epoch_proposers voting_powers (leader_reputation_exclude_round conf)
          (use_root_hash_for_seed t) window_for_health) (\<lambda>lr.
      bind_res (add_chk (max_failed_authors_to_store conf) PROPSER_ELECTION_CACHING_WINDOW_ADDITION) (\<lambda>window.
      Ok \<lparr>cr_reputation = lr, cr_heuristic = ProposerAndVoterHeuristic_new t c voter_window proposer_window,
          cr_backend = \<lparr>be_window_size = window_size, be_seek_len = seek_len\<rparr>, cr_db_result = ArxDBBackend_new,
          cr_window = window, cr_recent_elections = Healthy []\<rparr>)))))))))"

definition create_proposer_election ::
  "(u64 \<Rightarrow> u64 \<Rightarrow> (epoch_change_proof, anyhow) result) \<Rightarrow> u64 \<Rightarrow> epoch_state \<Rightarrow> on_chain_consensus_config \<Rightarrow>
   ('f proposer_election, unit) result" where
  "create_proposer_election get_epoch_ending_ledger_infos window_for_health es conf =
     (let proposers = get_ordered_account_addresses (es_verifier es) in
      case config_proposer_election_type conf of
        RotatingProposer contiguous \<Rightarrow> Ok (RotatingElection \<lparr>rp_proposers = proposers, rp_contiguous_rounds = contiguous\<rparr>)
      | FixedProposer contiguous \<Rightarrow> bind_res (choose_leader proposers) (\<lambda>proposer.
          Ok (RotatingElection \<lparr>rp_proposers = [proposer], rp_contiguous_rounds = contiguous\<rparr>))
      | LeaderReputation t \<Rightarrow>
          bind_res (create_leader_reputation get_epoch_ending_ledger_infos window_for_health es conf t proposers) (\<lambda>cr. Ok (ReputationElection cr))
      | RoundProposer round_proposers \<Rightarrow>
          if proposers = [] then Panic
          else Ok (RoundElection \<lparr>rdp_proposers = round_proposers, rdp_default_proposer = hd proposers\<rparr>))"

text \<open>
  A query of the election. A round that is not cached asks the backend, whose cached result of the
  database may be refreshed.
\<close>

definition reputation_query ::
  "(u8 list \<Rightarrow> u8 list) \<Rightarrow> (u8 list \<Rightarrow> new_block_event option) \<Rightarrow> db_reader \<Rightarrow> 'f f64_ops \<Rightarrow> 'f cached_reputation \<Rightarrow> round_t \<Rightarrow>
   (author \<times> 'f, unit) result" where
  "reputation_query sha3_256 de db fl cr =
     get_valid_proposer_and_voting_power_participation_ratio sha3_256
       (\<lambda>epoch round. fst (get_block_metadata de db (cr_backend cr) epoch round (cr_db_result cr))) fl (get_weights (cr_heuristic cr))
       (cr_reputation cr)"

definition CachedProposerElection_get_valid_proposer ::
  "(u8 list \<Rightarrow> u8 list) \<Rightarrow> (u8 list \<Rightarrow> new_block_event option) \<Rightarrow> db_reader \<Rightarrow> 'f f64_ops \<Rightarrow> round_t \<Rightarrow>
   ('f cached_reputation, author, unit) exec" where
  "CachedProposerElection_get_valid_proposer sha3_256 de db fl round cr =
     (let lr = cr_reputation cr;
          target_round = (if round < exclude_round lr then 0 else round - exclude_round lr);
          (answer, recent) = get_or_compute_entry (reputation_query sha3_256 de db fl cr) (cr_window cr) round (cr_recent_elections cr);
          db_result = (case cr_recent_elections cr of
              Poisoned \<Rightarrow> cr_db_result cr
            | Healthy m \<Rightarrow> if map_of m round = None
                then snd (get_block_metadata de db (cr_backend cr) (lr_epoch lr) target_round (cr_db_result cr)) else cr_db_result cr)
      in (bind_res answer (\<lambda>(a, _). Ok a), cr\<lparr>cr_db_result := db_result, cr_recent_elections := recent\<rparr>))"

definition election_get_valid_proposer ::
  "(u8 list \<Rightarrow> u8 list) \<Rightarrow> (u8 list \<Rightarrow> new_block_event option) \<Rightarrow> db_reader \<Rightarrow> 'f f64_ops \<Rightarrow> round_t \<Rightarrow>
   ('f proposer_election, author, unit) exec" where
  "election_get_valid_proposer sha3_256 de db fl round el = (case el of
     RotatingElection rp \<Rightarrow> (RotatingProposer_get_valid_proposer rp round, el)
   | RoundElection rp \<Rightarrow> (RoundProposer_get_valid_proposer rp round, el)
   | ReputationElection cr \<Rightarrow>
       (case CachedProposerElection_get_valid_proposer sha3_256 de db fl round cr of (answer, cr') \<Rightarrow> (answer, ReputationElection cr')))"

section \<open>Proposers of past epochs\<close>

lemma extract_loop_not_Panic:
  "unat num + sum_list (map (\<lambda>(_, _, rounds). unat rounds) xs) < 2 ^ 64 \<Longrightarrow> extract_loop last_ix epoch proposers needed xs num res \<noteq> Panic"
proof (induction xs arbitrary: num res)
  case (Cons x xs)
  obtain ix es rounds where x: "x = (ix, es, rounds)" by (cases x)
  have "add_chk num rounds = (Ok (num + rounds) :: (_, anyhow) result)" "unat (num + rounds) = unat num + unat rounds"
    using Cons.prems by (simp_all add: x add_chk_def checked_add_def or_panic_def unat_add_no_wrap)
  then show ?case using Cons by (auto simp: x bind_res_Panic_iff Let_def ensure_def)
qed simp

lemma extract_loop_keeps:
  assumes "extract_loop last_ix epoch proposers needed xs num res = Ok m" "\<forall>(_, es, _) \<in> set xs. es_epoch es \<noteq> epoch"
  shows "map_of m epoch = map_of res epoch"
  using assms
proof (induction xs arbitrary: num res)
  case (Cons x xs)
  obtain ix es rounds where x: "x = (ix, es, rounds)" by (cases x)
  let ?res = "bt_insert (es_epoch es) (get_ordered_account_addresses (es_verifier es)) res"
  have i: "map_of ?res epoch = map_of res epoch" using Cons.prems(2) by (auto simp: x bt_get_insert)
  from Cons.prems(1) have "m = ?res \<or> (\<exists>num'. extract_loop last_ix epoch proposers needed xs num' ?res = Ok m)"
    by (auto simp: x Let_def bind_res_Ok_iff split: if_splits)
  then show ?case
  proof (elim disjE exE)
    fix num'
    assume "extract_loop last_ix epoch proposers needed xs num' ?res = Ok m"
    from Cons.IH [OF this] Cons.prems(2) i show ?thesis by simp
  qed (use i in simp)
qed simp

lemma extract_impl_current:
  assumes "distinct (map (es_epoch \<circ> fst) states)" "extract_epoch_to_proposers_impl states epoch proposers needed = Ok m"
  shows "map_of m epoch = Some proposers"
proof -
  have "states \<noteq> []" using assms(2) by (auto simp: extract_epoch_to_proposers_impl_def)
  then obtain ys es rounds where y: "states = ys @ [(es, rounds)]" by (metis prod.collapse rev_exhaust)
  have r: "rev (enumerate 0 states) = (length ys, es, rounds) # rev (enumerate 0 ys)" by (simp add: y enumerate_append_eq)
  have e: "epoch = es_epoch es" "proposers = get_ordered_account_addresses (es_verifier es)"
    and l: "m = [(epoch, proposers)] \<or>
      (\<exists>num. extract_loop (length ys) epoch proposers needed (rev (enumerate 0 ys)) num [(epoch, proposers)] = Ok m)"
    using assms(2) unfolding extract_epoch_to_proposers_impl_def r
    by (auto simp: y bind_res_Ok_iff ensure_def Let_def split: if_splits)
  have "\<forall>(_, es', _) \<in> set (rev (enumerate 0 ys)). es_epoch es' \<noteq> epoch"
    using assms(1) by (auto simp: y e(1) in_set_enumerate_eq image_iff) (metis fst_conv nth_mem)
  then show ?thesis using l extract_loop_keeps by fastforce
qed

lemma extract_impl_not_Panic:
  assumes "states \<noteq> []" "sum_list (map (unat \<circ> snd) states) < 2 ^ 64"
  shows "extract_epoch_to_proposers_impl states epoch proposers needed \<noteq> Panic"
proof -
  have "map (\<lambda>(_, _, rounds). unat rounds) (enumerate 0 states) = map (unat \<circ> snd) states"
    by (simp add: list_eq_iff_nth_eq nth_enumerate_eq case_prod_beta)
  then have "sum_list (map (\<lambda>(_, _, rounds). unat rounds) (rev (enumerate 0 states))) = sum_list (map (unat \<circ> snd) states)"
    by (metis rev_map sum_list_rev)
  then have "extract_loop (length states - 1) epoch proposers needed (rev (enumerate 0 states)) 0 [] \<noteq> Panic"
    using assms(2) by (intro extract_loop_not_Panic) simp
  then show ?thesis using assms(1) by (auto simp: extract_epoch_to_proposers_impl_def bind_res_Panic_iff ensure_def)
qed

text \<open>
  What the setup relies on about the ledger infos of the database: they end distinct epochs, and the rounds
  of those epochs together fit 64 bits.
\<close>

definition ending_infos_ok :: "ledger_info_with_signatures list \<Rightarrow> bool" where
  "ending_infos_ok lis \<longleftrightarrow> distinct (map (\<lambda>li. map_option es_epoch (li_next_epoch_state (lis_ledger_info li))) lis) \<and>
     sum_list (map (\<lambda>li. unat (bi_round (commit_info (lis_ledger_info li)))) lis) < 2 ^ 64"

lemma next_epoch_states_not_Panic: "next_epoch_states lis \<noteq> Panic"
  by (induction lis) (auto simp: bind_res_Panic_iff ok_or_def split: option.splits)

lemma next_epoch_states_Ok:
  "next_epoch_states lis = Ok states \<Longrightarrow>
    map (Some \<circ> es_epoch \<circ> fst) states = map (\<lambda>li. map_option es_epoch (li_next_epoch_state (lis_ledger_info li))) lis \<and>
    map (unat \<circ> snd) states = map (\<lambda>li. unat (bi_round (commit_info (lis_ledger_info li)))) lis"
  by (induction lis arbitrary: states) (auto simp: bind_res_Ok_iff res_iff)

lemma extract_current:
  assumes "ending_infos_ok (ecp_ledger_info_with_sigs pf)" "ecp_ledger_info_with_sigs pf \<noteq> []"
  shows "extract_epoch_to_proposers pf epoch proposers needed \<noteq> Panic \<and>
    (\<forall>m. extract_epoch_to_proposers pf epoch proposers needed = Ok m \<longrightarrow> map_of m epoch = Some proposers)"
proof (cases "next_epoch_states (ecp_ledger_info_with_sigs pf)")
  case (Ok states)
  from next_epoch_states_Ok [OF Ok] have n: "map (Some \<circ> es_epoch \<circ> fst) states = map (\<lambda>li. map_option es_epoch (li_next_epoch_state (lis_ledger_info li))) (ecp_ledger_info_with_sigs pf)"
    "map (unat \<circ> snd) states = map (\<lambda>li. unat (bi_round (commit_info (lis_ledger_info li)))) (ecp_ledger_info_with_sigs pf)" by auto
  have "distinct (map (es_epoch \<circ> fst) states)"
    using assms(1) unfolding ending_infos_ok_def n(1) [symmetric] by (metis distinct_map map_map comp_assoc)
  moreover have "states \<noteq> []" using n(2) assms(2) by auto
  moreover have "sum_list (map (unat \<circ> snd) states) < 2 ^ 64" using assms(1) by (simp add: ending_infos_ok_def n(2))
  ultimately show ?thesis using extract_impl_current extract_impl_not_Panic Ok by (auto simp: extract_epoch_to_proposers_def)
qed (use next_epoch_states_not_Panic in \<open>auto simp: extract_epoch_to_proposers_def\<close>)

lemma fetch_current:
  assumes "first \<noteq> 0" "get_infos (first - 1) epoch \<noteq> Panic" "\<And>pf. get_infos (first - 1) epoch = Ok pf \<Longrightarrow> ending_infos_ok (ecp_ledger_info_with_sigs pf)"
    and "unat window + unat seek < 2 ^ 64"
  shows "\<exists>m. fetch_epoch_to_proposers get_infos epoch first proposers window seek = Ok m \<and> map_of m epoch = Some proposers"
proof (cases "epoch > first")
  case True
  have add: "add_chk window seek = (Ok (window + seek) :: (_, anyhow) result)"
    using assms(4) by (simp add: add_chk_def checked_add_def or_panic_def)
  have "unat (first - 1) < unat epoch" using True assms(1) by (simp add: word_less_nat_alt unat_minus_one)
  then have pos: "epoch - (first - 1) \<noteq> 0" by auto
  show ?thesis
  proof (cases "get_infos (first - 1) epoch")
    case (Ok pf)
    show ?thesis
    proof (cases "of_nat (length (ecp_ledger_info_with_sigs pf)) = epoch - (first - 1)")
      case eq: True
      then have "ecp_ledger_info_with_sigs pf \<noteq> []" using pos by auto
      from extract_current [OF assms(3) [OF Ok] this, of epoch proposers "window + seek"] show ?thesis
        using True Ok eq add by (cases "extract_epoch_to_proposers pf epoch proposers (window + seek)") (auto simp: fetch_epoch_to_proposers_def)
    qed (use True Ok in \<open>auto simp: fetch_epoch_to_proposers_def ensure_def\<close>)
  qed (use True assms(2) in \<open>auto simp: fetch_epoch_to_proposers_def\<close>)
qed (simp add: fetch_epoch_to_proposers_def)

lemma voting_powers_Ok:
  assumes "\<forall>p \<in> set ps. get_voting_power v p \<noteq> None"
  shows "\<exists>vps. voting_powers_of v weighted ps = Ok vps \<and> length vps = length ps"
proof (cases weighted)
  case True
  from assms have "\<exists>vps. foldr (\<lambda>p r. bind_res (or_panic (get_voting_power v p)) (\<lambda>vp. bind_res r (\<lambda>vps. Ok (vp # vps)))) ps (Ok []) = (Ok vps :: (_, unit) result) \<and>
      length vps = length ps"
    by (induction ps) (auto simp: or_panic_def)
  then show ?thesis using True by (simp add: voting_powers_of_def)
qed (simp add: voting_powers_of_def)

lemma first_epoch_pos: "first_epoch_to_consider epoch n \<noteq> 0"
  by (auto simp: first_epoch_to_consider_def max_def)

section \<open>Created elections\<close>

text \<open>
  An election that fits an epoch: its proposers are validators of the epoch, and the reputation election
  has them as its candidates of the epoch, each with a voting power.
\<close>

definition election_fits :: "epoch_state \<Rightarrow> 'f proposer_election \<Rightarrow> bool" where
  "election_fits es el = (let proposers = get_ordered_account_addresses (es_verifier es) in case el of
     RotatingElection rp \<Rightarrow> rp_proposers rp \<noteq> [] \<and> set (rp_proposers rp) \<subseteq> set proposers
   | RoundElection rp \<Rightarrow> rdp_default_proposer rp \<in> set proposers
   | ReputationElection cr \<Rightarrow> lr_epoch (cr_reputation cr) = es_epoch es \<and>
       map_of (epoch_to_proposers (cr_reputation cr)) (es_epoch es) = Some proposers \<and>
       length (lr_voting_powers (cr_reputation cr)) = length proposers \<and> bt_sorted (entries (cr_recent_elections cr)) \<and>
       (\<forall>r a h. map_of (entries (cr_recent_elections cr)) r = Some (a, h) \<longrightarrow> a \<in> set proposers))"

text \<open>The sizes the configuration gives fit 64 bits.\<close>

definition config_fits :: "on_chain_consensus_config \<Rightarrow> nat \<Rightarrow> bool" where
  "config_fits conf n = (case config_proposer_election_type conf of
     LeaderReputation t \<Rightarrow>
       (let c = (case t of ProposerAndVoter c \<Rightarrow> c | ProposerAndVoterV2 c \<Rightarrow> c) in
        n * max (unat (proposer_window_num_validators_multiplier c)) (unat (voter_window_num_validators_multiplier c)) +
        unat (leader_reputation_exclude_round conf) + unat (max_failed_authors_to_store conf) + 10 < 2 ^ 64)
   | _ \<Rightarrow> True)"

lemma of_nat_mult_u64:
  fixes w :: u64
  assumes "n * unat w < 2 ^ 64" "n < 2 ^ 64"
  shows "mul_chk (of_nat n) w = (Ok (of_nat n * w) :: (_, 'e) result)" "unat (of_nat n * w :: u64) = n * unat w"
proof -
  have "unat (of_nat n :: u64) = n" using assms(2) by (simp add: unat_of_nat take_bit_nat_eq_self)
  then show "mul_chk (of_nat n) w = (Ok (of_nat n * w) :: (_, 'e) result)" "unat (of_nat n * w :: u64) = n * unat w"
    using assms(1) by (simp_all add: mul_chk_def checked_mul_def or_panic_def unat_mult_no_wrap)
qed

lemma create_leader_reputation_Ok:
  assumes wf: "vv_wf (es_verifier es)" and ps: "ps = get_ordered_account_addresses (es_verifier es)" "length ps < 2 ^ 64"
    and t: "config_proposer_election_type conf = LeaderReputation t" "config_fits conf (length ps)"
    and db: "\<And>a b. get_infos a b \<noteq> Panic" "\<And>a b pf. get_infos a b = Ok pf \<Longrightarrow> ending_infos_ok (ecp_ledger_info_with_sigs pf)"
  shows "\<exists>cr :: 'f cached_reputation. create_leader_reputation get_infos w es conf t ps = Ok cr \<and> election_fits es (ReputationElection cr)"
proof -
  define c where "c = (case t of ProposerAndVoter c \<Rightarrow> c | ProposerAndVoterV2 c \<Rightarrow> c)"
  let ?p = "proposer_window_num_validators_multiplier c" and ?v = "voter_window_num_validators_multiplier c" and ?n = "length ps"
    and ?e = "leader_reputation_exclude_round conf" and ?m = "max_failed_authors_to_store conf"
  have f: "?n * max (unat ?p) (unat ?v) + unat ?e + unat ?m + 10 < 2 ^ 64" using t by (simp add: config_fits_def c_def Let_def)
  then have b: "max (?n * unat ?p) (?n * unat ?v) + unat ?e + unat ?m + 10 < 2 ^ 64" by (simp only: nat_mult_max_right)
  then have m: "?n * unat ?p < 2 ^ 64" "?n * unat ?v < 2 ^ 64" by linarith+
  let ?pw = "of_nat ?n * ?p :: u64" and ?vw = "of_nat ?n * ?v :: u64"
  have pw: "mul_chk (of_nat ?n) ?p = (Ok ?pw :: (_, unit) result)" "unat ?pw = ?n * unat ?p"
    and vw: "mul_chk (of_nat ?n) ?v = (Ok ?vw :: (_, unit) result)" "unat ?vw = ?n * unat ?v"
    using m ps(2) by (blast intro: of_nat_mult_u64)+
  have s: "add_chk ?e ?m = (Ok (?e + ?m) :: (_, unit) result)" "unat (?e + ?m) = unat ?e + unat ?m"
    "add_chk (?e + ?m) 10 = (Ok (?e + ?m + 10) :: (_, unit) result)" "unat (?e + ?m + 10) = unat ?e + unat ?m + 10"
    "add_chk ?m 3 = (Ok (?m + 3) :: (_, unit) result)"
    using b by (simp_all add: add_chk_def checked_add_def or_panic_def unat_add_no_wrap)
  have "unat (max ?pw ?vw) = max (?n * unat ?p) (?n * unat ?v)" by (simp add: max_def word_le_nat_alt pw(2) vw(2))
  then have win: "unat (max ?pw ?vw) + unat (?e + ?m + 10) < 2 ^ 64" using b unfolding s(4) by simp
  have "\<forall>p \<in> set ps. get_voting_power (es_verifier es) p \<noteq> None"
    using get_voting_power_known [OF wf] by (auto simp: ps get_ordered_account_addresses_def validators_def)
  from voting_powers_Ok [OF this] obtain vps where vps: "voting_powers_of (es_verifier es) (weight_by_voting_power c) ps = Ok vps" "length vps = ?n" by blast
  from fetch_current [where get_infos = get_infos, OF first_epoch_pos db(1) _ win] db(2) obtain m where
    m: "fetch_epoch_to_proposers get_infos (es_epoch es) (first_epoch_to_consider (es_epoch es) (use_history_from_previous_epoch_max_count c)) ps (max ?pw ?vw) (?e + ?m + 10) = Ok m"
    "map_of m (es_epoch es) = Some ps" by blast
  show ?thesis unfolding create_leader_reputation_def c_def [symmetric] Let_def
    using pw(1) vw(1) s(1,3,5) vps m
    by (simp add: PROPSER_ROUND_BEHIND_STORAGE_BUFFER_def PROPSER_ELECTION_CACHING_WINDOW_ADDITION_def LeaderReputation_new_def or_panic_def
        election_fits_def ps(1) [symmetric])
qed

lemma min_list_in: "xs \<noteq> [] \<Longrightarrow> min_list xs \<in> set xs"
  by (induction xs rule: induct_list012) (auto simp: min_def)

lemma create_election_fits:
  fixes get_infos :: "u64 \<Rightarrow> u64 \<Rightarrow> (epoch_change_proof, anyhow) result"
  assumes "vv_wf (es_verifier es)" "ps = get_ordered_account_addresses (es_verifier es)" "ps \<noteq> []" "length ps < 2 ^ 64"
    and "config_fits conf (length ps)" "\<And>a b. get_infos a b \<noteq> Panic"
    and "\<And>a b pf. get_infos a b = Ok pf \<Longrightarrow> ending_infos_ok (ecp_ledger_info_with_sigs pf)"
  shows "\<exists>el :: 'f proposer_election. create_proposer_election get_infos w es conf = Ok el \<and> election_fits es el"
proof (cases "config_proposer_election_type conf")
  case (LeaderReputation t)
  from create_leader_reputation_Ok [where get_infos = get_infos, OF assms(1,2,4) LeaderReputation assms(5,6), of w] assms(7)
  obtain cr :: "'f cached_reputation" where "create_leader_reputation get_infos w es conf t ps = Ok cr" "election_fits es (ReputationElection cr)" by blast
  then show ?thesis using LeaderReputation by (simp add: create_proposer_election_def assms(2))
qed (use assms(2,3) min_list_in in \<open>auto simp: create_proposer_election_def election_fits_def choose_leader_def Let_def\<close>)

lemma elected_in_proposers:
  assumes "get_valid_proposer_and_voting_power_participation_ratio sha metadata fl weights_by lr round = Ok (a, h)"
    and "map_of (epoch_to_proposers lr) (lr_epoch lr) = Some proposers"
  shows "a \<in> set proposers"
  using assms by (auto simp: get_valid_proposer_and_voting_power_participation_ratio_def bind_res_Ok_iff or_panic_def Let_def split: if_splits)

lemma cached_answers:
  assumes "get_or_compute_entry elect window round el = (ans, el')" "bt_sorted (entries el)"
    and "\<And>r a h. map_of (entries el) r = Some (a, h) \<Longrightarrow> P a" "\<And>r a h. elect r = Ok (a, h) \<Longrightarrow> P a"
  shows "bt_sorted (entries el') \<and> (\<forall>r a h. map_of (entries el') r = Some (a, h) \<longrightarrow> P a) \<and> (\<forall>a h. ans = Ok (a, h) \<longrightarrow> P a)"
proof -
  note q = query_answer [OF assms(2,1)]
  have "P a" if "ans = Ok (a, h)" for a h using q(3) [OF that] assms(3,4) by blast
  moreover from this have "P a" if "map_of (entries el') r = Some (a, h)" for r a h using q(2) [OF that] assms(3) by blast
  ultimately show ?thesis using q(1) by blast
qed

lemma query_fits:
  assumes "election_fits es el" "election_get_valid_proposer sha de db fl round el = (answer, el')"
  shows "election_fits es el' \<and> (\<forall>a. answer = Ok a \<longrightarrow> a \<in> validators (es_verifier es) \<or>
    (\<exists>rp. el = RoundElection rp \<and> map_of (rdp_proposers rp) round = Some a))"
proof -
  let ?ps = "get_ordered_account_addresses (es_verifier es)"
  have v: "validators (es_verifier es) = set ?ps" by (auto simp: get_ordered_account_addresses_def validators_def)
  show ?thesis
  proof (cases el)
    case (ReputationElection cr)
    define elect where "elect = reputation_query sha de db fl cr"
    obtain ans recent where g: "get_or_compute_entry elect (cr_window cr) round (cr_recent_elections cr) = (ans, recent)" by fastforce
    have cr: "map_of (epoch_to_proposers (cr_reputation cr)) (lr_epoch (cr_reputation cr)) = Some ?ps" "bt_sorted (entries (cr_recent_elections cr))"
      "\<And>r a h. map_of (entries (cr_recent_elections cr)) r = Some (a, h) \<Longrightarrow> a \<in> set ?ps"
      using assms(1) by (auto simp: election_fits_def ReputationElection Let_def)
    have "elect r = Ok (a, h) \<Longrightarrow> a \<in> set ?ps" for r a h
      using elected_in_proposers [OF _ cr(1)] by (auto simp: elect_def reputation_query_def)
    then have "bt_sorted (entries recent) \<and> (\<forall>r a h. map_of (entries recent) r = Some (a, h) \<longrightarrow> a \<in> set ?ps) \<and> (\<forall>a h. ans = Ok (a, h) \<longrightarrow> a \<in> set ?ps)"
      by (intro cached_answers [OF g cr(2)]) (use cr(3) in blast)+
    then show ?thesis using assms g
      by (auto simp: election_get_valid_proposer_def ReputationElection CachedProposerElection_get_valid_proposer_def elect_def election_fits_def
          Let_def v bind_res_Ok_iff)
  qed (use assms v in \<open>auto simp: election_get_valid_proposer_def election_fits_def RotatingProposer_get_valid_proposer_def
      RoundProposer_get_valid_proposer_def Let_def split: if_splits option.splits\<close>)
qed

text \<open>A sequence of queries, each with the database as it is at that time.\<close>

fun queries_run ::
  "(u8 list \<Rightarrow> u8 list) \<Rightarrow> (u8 list \<Rightarrow> new_block_event option) \<Rightarrow> 'f f64_ops \<Rightarrow> (db_reader \<times> round_t) list \<Rightarrow> 'f proposer_election \<Rightarrow>
   (round_t \<times> (author, unit) result) list" where
  "queries_run sha de fl [] el = []"
| "queries_run sha de fl ((db, round) # qs) el =
     (case election_get_valid_proposer sha de db fl round el of (answer, el') \<Rightarrow> (round, answer) # queries_run sha de fl qs el')"

lemma query_keeps_rounds: "snd (election_get_valid_proposer sha de db fl round el) = RoundElection rp \<Longrightarrow> el = RoundElection rp"
  by (auto simp: election_get_valid_proposer_def split: proposer_election.splits prod.splits)

lemma queries_run_validators:
  assumes "election_fits es el" "\<And>rp. el = RoundElection rp \<Longrightarrow> rdp_proposers rp = m" "(round, Ok a) \<in> set (queries_run sha de fl qs el)"
  shows "a \<in> validators (es_verifier es) \<or> (\<exists>rp. el = RoundElection rp) \<and> map_of m round = Some a"
  using assms
proof (induction qs arbitrary: el)
  case (Cons q qs)
  obtain db r where q: "q = (db, r)" by (cases q)
  obtain answer el' where e: "election_get_valid_proposer sha de db fl r el = (answer, el')" by fastforce
  note f = query_fits [OF Cons.prems(1) e]
  have k: "el = RoundElection rp" if "el' = RoundElection rp" for rp using query_keeps_rounds [of sha de db fl r el rp] e that by simp
  show ?case
  proof (cases "(round, Ok a) = (r, answer)")
    case True
    then show ?thesis using f Cons.prems(2) by auto
  next
    case False
    then have "(round, Ok a) \<in> set (queries_run sha de fl qs el')" using Cons.prems(3) by (auto simp: q e)
    from Cons.IH [OF _ _ this] f k Cons.prems(2) show ?thesis by blast
  qed
qed simp

section \<open>Properties\<close>

text \<open>
  C16. For a well-formed validator set and a configuration whose sizes fit 64 bits, the creation of the
  proposer election of an epoch does not panic, whatever ledger infos of distinct epochs the database
  returns: none of the assertions on the candidates fails. All leaders the created election then names,
  in any order of queries and as the database grows, are validators of the epoch, unless the configuration
  itself names another author for the round.
\<close>

theorem elected_are_validators:
  fixes get_infos :: "u64 \<Rightarrow> u64 \<Rightarrow> (epoch_change_proof, anyhow) result" and fl :: "'f f64_ops"
  assumes "vv_wf (es_verifier es)" "n = length (validator_infos (es_verifier es))" "0 < n" "n < 2 ^ 64" "config_fits conf n"
    and "\<And>a b. get_infos a b \<noteq> Panic" "\<And>a b pf. get_infos a b = Ok pf \<Longrightarrow> ending_infos_ok (ecp_ledger_info_with_sigs pf)"
  shows "\<exists>el :: 'f proposer_election. create_proposer_election get_infos w es conf = Ok el \<and>
    (\<forall>round a. (round, Ok a) \<in> set (queries_run sha de fl qs el) \<longrightarrow>
      a \<in> validators (es_verifier es) \<or>
      (\<exists>m. config_proposer_election_type conf = RoundProposer m \<and> map_of m round = Some a))"
proof -
  have "\<exists>el :: 'f proposer_election. create_proposer_election get_infos w es conf = Ok el \<and> election_fits es el"
    by (rule create_election_fits [OF assms(1) refl]) (use assms(2-) in \<open>auto simp: get_ordered_account_addresses_def\<close>)
  then obtain el :: "'f proposer_election" where el: "create_proposer_election get_infos w es conf = Ok el" "election_fits es el" by blast
  have r: "config_proposer_election_type conf = RoundProposer (rdp_proposers rp)" if "el = RoundElection rp" for rp
    using el(1) that by (auto simp: create_proposer_election_def Let_def bind_res_Ok_iff split: proposer_election_type.splits if_splits)
  have "a \<in> validators (es_verifier es) \<or> (\<exists>m. config_proposer_election_type conf = RoundProposer m \<and> map_of m round = Some a)"
    if "(round, Ok a) \<in> set (queries_run sha de fl qs el)" for round a
  proof (cases el)
    case (RoundElection rp)
    from queries_run_validators [OF el(2) _ that, of "rdp_proposers rp"] RoundElection r show ?thesis by blast
  qed (use queries_run_validators [OF el(2) _ that] in auto)
  then show ?thesis using el(1) by blast
qed

definition sample_infos :: "u64 \<Rightarrow> u64 \<Rightarrow> (epoch_change_proof, anyhow) result" where
  "sample_infos a b = Ok \<lparr>ecp_ledger_info_with_sigs = map (\<lambda>e. sample_lis e (10 * e) (Some (sample_epoch_state (e + 1)))) [1, 2, 3, 4], ecp_more = False\<rparr>"

lemma elected_are_validators_witness:
  "\<exists>el :: nat proposer_election. create_proposer_election sample_infos 10 (sample_epoch_state 5) OnChainConsensusConfig_default = Ok el \<and>
    (case el of ReputationElection _ \<Rightarrow> True | _ \<Rightarrow> False) \<and>
    {a. (7, Ok a) \<in> set (queries_run (\<lambda>_. [6, 0]) (\<lambda>_. None)
       sample_floats [(\<lparr>db_get_events = \<lambda>_ _. Ok [], db_get_latest_version = Ok 0, db_get_accumulator_root_hash = \<lambda>_. Ok 0\<rparr>, 7)] el)}
     \<subseteq> {1, 2, 3, 4}"
proof -
  let ?db = "\<lparr>db_get_events = \<lambda>_ _. Ok [], db_get_latest_version = Ok 0, db_get_accumulator_root_hash = \<lambda>_. Ok 0\<rparr>"
  have i: "ending_infos_ok (ecp_ledger_info_with_sigs pf)" if "sample_infos a b = Ok pf" for a b pf
    using that by (auto simp: sample_infos_def ending_infos_ok_def li_next_epoch_state_def sample_block_info_def)
  have t: "config_proposer_election_type OnChainConsensusConfig_default = cc_proposer_election_type ConsensusConfigV1_default"
    by (simp add: config_proposer_election_type_def OnChainConsensusConfig_default_def)
  have c: "config_fits OnChainConsensusConfig_default 4"
    by (simp add: config_fits_def config_proposer_election_type_def Let_def leader_reputation_exclude_round_def max_failed_authors_to_store_def
        OnChainConsensusConfig_default_def ConsensusConfigV1_default_def)
  have "\<exists>el :: nat proposer_election. create_proposer_election sample_infos 10 (sample_epoch_state 5) OnChainConsensusConfig_default = Ok el \<and>
    (\<forall>round a. (round, Ok a) \<in> set (queries_run (\<lambda>_. [6, 0]) (\<lambda>_. None) sample_floats [(?db, 7)] el) \<longrightarrow>
      a \<in> validators (es_verifier (sample_epoch_state 5)) \<or>
      (\<exists>m. config_proposer_election_type OnChainConsensusConfig_default = RoundProposer m \<and> map_of m round = Some a))"
    by (rule elected_are_validators [where n = 4, OF _ _ _ _ c _ i])
      (simp_all add: sample_verifier_wf sample_infos_def verifier_len_def [symmetric])
  then obtain el :: "nat proposer_election" where
    el: "create_proposer_election sample_infos 10 (sample_epoch_state 5) OnChainConsensusConfig_default = Ok el"
    "{a. (7, Ok a) \<in> set (queries_run (\<lambda>_. [6, 0]) (\<lambda>_. None) sample_floats [(?db, 7)] el)} \<subseteq> {1, 2, 3, 4}"
    by (auto simp: t ConsensusConfigV1_default_def simp del: queries_run.simps)
  have "case el of ReputationElection _ \<Rightarrow> True | _ \<Rightarrow> False"
    using el(1) by (auto simp: create_proposer_election_def t ConsensusConfigV1_default_def Let_def bind_res_Ok_iff)
  then show ?thesis using el by blast
qed

end
