(* ===== verification/Spec2Isabelle.thy ===== *)
theory Spec2Isabelle
  imports Agreement Round_State Channel Position Versioned_Map Block_Tree_Runs Election_Setup
begin

text \<open>
  A verification development of the consensus core of the arx node and of the code it rests on: a
  validator node that orders blocks with a two-chain BFT protocol, executes their transactions and
  proves the results to clients.

  \<^bold>\<open>The program and how its parts interact.\<close> The validators of an epoch are held by a verifier
  (\<open>types/src/validator_verifier.rs\<close>), which says when a set of signers is a quorum. In every round a
  leader (\<open>consensus/src/liveness\<close>) proposes a block (\<open>consensus/consensus-types\<close>); the safety rules of a
  validator (\<open>consensus/safety-rules\<close>) decide whether to vote for it or for a timeout, and record what they
  signed in the secure storage. Votes are collected (\<open>consensus/src/pending_votes.rs\<close>) into quorum and timeout
  certificates, which the pacemaker (\<open>round_state.rs\<close>) turns into new rounds; certified blocks live in the
  block tree (\<open>consensus/src/block_storage/block_tree.rs\<close>) until the commit of a descendant prunes them.
  The tasks of the node exchange messages over bounded channels (\<open>crates/arx-channel\<close>). The outputs of
  transactions are change sets with aggregator deltas (\<open>language/arx-aggregator\<close>, \<open>types/src/write_set.rs\<close>), and
  committed transactions are the leaves of a Merkle accumulator (\<open>types/src/proof\<close>), whose ledger infos a
  light client follows through epoch changes (\<open>types/src/trusted_state.rs\<close>).

  \<^bold>\<open>How the code is translated.\<close> A Rust computation is a value of type \<open>result\<close>: \<open>Ok\<close>, \<open>Err\<close> or \<open>Panic\<close>; the
  operator \<open>?\<close> is \<open>bind_res\<close>. A method on \<open>&mut self\<close> that may fail is of type \<open>exec\<close>, a function from the
  state to the result and the new state. Integers are words of their width. The release profiles keep
  overflow checks, so \<open>+\<close>, \<open>-\<close> and \<open>*\<close> are \<open>add_chk\<close>, \<open>sub_chk\<close> and \<open>mul_chk\<close>, which panic; wrapping, saturating and
  checked operations are written as such. Ordered and hash maps are sorted association lists with the
  operations \<open>bt_insert\<close>, \<open>bt_remove\<close> and \<open>bt_or_insert\<close>, structs are records and enums datatypes. Locks are dropped:
  a method that holds its lock from beginning to end is one step; only for the cached election, whose critical
  section can panic, the poisoning of the mutex is kept. Logging and metrics are left out, except
  where computing a metric can panic.

  \<^bold>\<open>Theories.\<close>

  \<^item> \<open>Prelude\<close>: words, results, ordered maps (locale \<open>ordered_map\<close>) and the collection \<open>res_iff\<close>. \<open>Exec\<close>: stateful
    computations. \<open>Crypto\<close>: the record of signature operations that stands for \<open>blst\<close>, and an instance.

  \<^item> \<open>BitVec\<close> (\<open>crates/arx-bitvec/src/lib.rs\<close>): the vector of voters; locale \<open>bit_set\<close>.

  \<^item> \<open>Validator_Verifier\<close> (\<open>types/src/validator_verifier.rs\<close>, \<open>aggregate_signature.rs\<close>, \<open>validator_set.rs\<close>): record
    \<open>validator_verifier\<close> with invariant \<open>vv_wf\<close>, voting power, multi-signatures; locale \<open>weighted_quorums\<close>. The lemmas
    characterise the checks, show that the constructor does not overflow, that aggregated signatures verify,
    and that two quorums share an honest validator.

  \<^item> \<open>Ledger_Types\<close>, \<open>Light_Client\<close> (\<open>block_info.rs\<close>, \<open>ledger_info.rs\<close>, \<open>epoch_state.rs\<close>, \<open>waypoint.rs\<close>, \<open>epoch_change.rs\<close>,
    \<open>trusted_state.rs\<close>): the three verifiers of ledger infos share the locale \<open>ledger_verifier\<close>; epoch change proofs
    are chains of signed changes, and a ratchet trusts nothing else. Its version can go back in one case, which
    \<open>ratchet_version_back\<close> shows.

  \<^item> \<open>Accumulator\<close>, \<open>Position\<close> (\<open>types/src/proof/accumulator/mod.rs\<close>, \<open>definition.rs\<close>, \<open>position/mod.rs\<close>): appending refines
    appending to the list of leaves; inclusion proofs are complete, and sound unless a collision of the hash can be
    read off the proof; the bit
    manipulations on positions are compared with an explicit tree, and the iterators over subtrees (locale
    \<open>subtree_iterator\<close>) end.

  \<^item> \<open>Consensus_Data\<close>, \<open>Quorum_Cert\<close>, \<open>Blocks\<close>, \<open>Timeouts\<close>, \<open>Consensus_Msgs\<close> (\<open>consensus/consensus-types/src\<close>): the data of the
    protocol and the checks of every message, each characterised on all its branches.

  \<^item> \<open>Secure_Storage\<close>, \<open>Safety_Rules\<close>, \<open>Safety_Runs\<close>, \<open>Voting_Safety\<close> (\<open>storage/secure/src\<close>, \<open>consensus/safety-rules/src\<close>): the
    handlers with every storage access, and their runs over any sequence of calls with failing accesses and
    restarts; locale \<open>kv_storage\<close>. The invariant over runs gives that a validator never signs two votes of a round,
    nor a timeout that reports less than the parent of a vote below it. Safety data once written survive any
    calls, failures and restarts of the storage that follow.

  \<^item> \<open>Agreement\<close> (with \<open>generate_commit_ledger_info\<close> of \<open>consensus/src/experimental/buffer_item.rs\<close>): runs of all validators
    as one history of their calls; quorums and the voting safety of every honest validator together give that
    committed blocks form a chain (locale \<open>certified_chain\<close>), for certificates formed from votes and for those
    merged with the commit votes after execution. The environment of an honest validator is \<open>honest_env\<close>.

  \<^item> \<open>Pending_Votes\<close>, \<open>Round_State\<close> (\<open>consensus/src/pending_votes.rs\<close>, \<open>liveness/round_state.rs\<close>): a quorum of votes forms
    a certificate that verifies, once; rounds only grow.

  \<^item> \<open>Leader_Election\<close>, \<open>Leader_Choice\<close>, \<open>Election_Setup\<close> (\<open>consensus/src/liveness/*_election.rs\<close>, \<open>leader_reputation.rs\<close>,
    \<open>types/src/on_chain_config/consensus_config.rs\<close>, \<open>create_proposer_election\<close> of \<open>consensus/src/epoch_manager.rs\<close>): the
    leader is drawn by stake and reputation, is a validator of the epoch, is computed once per
    round while the cache keeps it, and gets no second block of its round accepted.

  \<^item> \<open>Block_Tree\<close>, \<open>Block_Tree_Runs\<close> (\<open>block_tree.rs\<close>): the tree stays linked both ways over all sequences of calls on
    blocks of one chain (\<open>call_ok\<close>), which panic only on the assertions of the code (\<open>asserted\<close>); a commit may overtake the
    ordered root and the highest certified block, and these exist unless it does; a commit prunes exactly the blocks that do not extend the new root; paths from the root are exact.

  \<^item> \<open>Message_Queues\<close>, \<open>Channel\<close> (\<open>crates/arx-channel/src\<close>): bounded queues per key with their three policies, served in
    turn; a receiver that waits is woken.

  \<^item> \<open>Entry_Loops\<close>, \<open>Aggregators\<close>, \<open>Change_Sets\<close> (\<open>language/arx-aggregator/src\<close>, \<open>aggregator_natives/context.rs\<close>,
    \<open>types/src/write_set.rs\<close>, \<open>types/src/transaction/change_set.rs\<close>): working on a delta is working on the value, and fails
    in the same cases, though perhaps with the other of the two errors; merging deltas and squashing change sets is
    applying them in sequence. The loops over entries are instances of the locale \<open>entry_loop\<close>.

  \<^item> \<open>Versioned_Map\<close> (\<open>language/move-hashmap/src/lib.rs\<close>, \<open>output_delta_resolver.rs\<close> of \<open>language/block-executor/src\<close>): the writes and
    deltas of the transactions of a block by key and index. A read stands for the value of sequential execution, and
    the deltas left at the end become writes of the values that the next transactions read.

  \<^bold>\<open>Parameters and bounds.\<close> Code outside the repository is a parameter: signatures (\<open>blst\<close>), SHA-3 and BCS, the
  database, the floating-point operations of the chain health, the clock and the state view. What is
  assumed of a parameter is a hypothesis of the theorem that needs it, and the theorem's witness gives an
  instance. Loops are structural recursions or terminate by a measure; the two loops over the block tree, which run
  forever on a tree with a cycle, are partial functions whose result \<open>None\<close> means that they do not return, and
  are shown to return on every tree that calls can build. No fuel is used anywhere.

  \<^bold>\<open>Not modelled.\<close>

  \<^item> The asynchronous tasks that connect the modelled state machines (round manager, the rest of the epoch
    manager and of the buffer manager, quorum store), the network, mempool, state synchronisation and node start-up: their
    content is the interleaving of tokio tasks and I/O.

  \<^item> Storage over RocksDB, the Jellyfish Merkle tree and the scratchpad, backup, the indexer and the web services:
    input and output, or structures whose nodes live in the database.

  \<^item> The execution of transactions: the executor, the adapter of the Move virtual machine, gas tables and the framework
    call the virtual machine, which is outside the repository. Of the parallel block executor, the scheduler and the
    views on top of the multi-version map run on atomics and condition variables, whose interleavings the steps used
    here do not describe; that every transaction is validated after the last change below it is therefore not shown.

  \<^item> Sparse Merkle proofs and range proofs of \<open>definition.rs\<close>, the textual form of waypoints, the on-disk, Vault and
    GitHub backends of the secure storage, and the exponential round interval, which computes in floating point; the
    pacemaker takes the interval as a parameter.
\<close>

end
